(* ===== verification/Prelude.thy ===== *)
theory Prelude
  imports Main "HOL-Library.Word" "HOL-Library.Signed_Division"
begin

text \<open>
  Shared vocabulary of the development: the machine integer types of the C++ sources,
  little-endian limb and byte sequences with their numeric value, and the generic facts
  about words, lists and bounded recursion that the component theories use.
\<close>

unbundle bit_operations_syntax

section \<open>Machine integers\<close>

type_synonym u8 = "8 word"
type_synonym u16 = "16 word"
type_synonym u32 = "32 word"
type_synonym u64 = "64 word"

named_theorems word_nat \<open>facts that move a word expression to its \<open>unat\<close> value\<close>

lemma unat_u8_less [simp, intro]: "unat (x :: u8) < 256"
proof -
  have "unat x < 2 ^ LENGTH(8)" by (rule unsigned_less)
  then show ?thesis by simp
qed

lemma unat_u32_less [simp, intro]: "unat (x :: u32) < 2 ^ 32"
proof -
  have "unat x < 2 ^ LENGTH(32)" by (rule unsigned_less)
  then show ?thesis by simp
qed

lemma unat_u64_less [simp, intro]: "unat (x :: u64) < 2 ^ 64"
proof -
  have "unat x < 2 ^ LENGTH(64)" by (rule unsigned_less)
  then show ?thesis by simp
qed

lemma unat_ucast_mod [word_nat]:
  "unat (ucast (x :: 'a :: len word) :: 'b :: len word) = unat x mod 2 ^ LENGTH('b)"
  by (simp add: unsigned_ucast_eq take_bit_eq_mod)

lemma unat_ucast_up [simp, word_nat]:
  assumes "LENGTH('a) \<le> LENGTH('b)"
  shows "unat (ucast (x :: 'a :: len word) :: 'b :: len word) = unat x"
proof -
  have "unat x < 2 ^ LENGTH('a)" by (rule unsigned_less)
  also have "\<dots> \<le> 2 ^ LENGTH('b)" using assms by (simp add: power_increasing)
  finally show ?thesis by (simp add: unat_ucast_mod)
qed

lemma unat_drop_bit [word_nat]: "unat (drop_bit n (x :: 'a :: len word)) = unat x div 2 ^ n"
proof -
  have "unat (drop_bit n x) = drop_bit n (unat x)" by (rule unat_drop_bit_eq)
  also have "\<dots> = unat x div 2 ^ n" by (rule drop_bit_eq_div)
  finally show ?thesis .
qed

lemma unat_take_bit [word_nat]: "unat (take_bit n (x :: 'a :: len word)) = unat x mod 2 ^ n"
proof -
  have "unat (take_bit n x) = take_bit n (unat x)" by (rule unsigned_take_bit_eq)
  also have "\<dots> = unat x mod 2 ^ n" by (rule take_bit_eq_mod)
  finally show ?thesis .
qed

lemma unat_push_bit [word_nat]:
  "unat (push_bit n (x :: 'a :: len word)) = (unat x * 2 ^ n) mod 2 ^ LENGTH('a)"
proof -
  have "push_bit n x = of_nat (unat x * 2 ^ n)" by (simp add: push_bit_eq_mult)
  then show ?thesis by (simp only: unat_of_nat)
qed

lemma and_low32: "(x :: u64) AND 0xffffffff = take_bit 32 x"
  by (simp add: take_bit_eq_mask mask_eq_exp_minus_1)

lemma unat_low32 [word_nat]: "unat (ucast ((x :: u64) AND 0xffffffff) :: u32) = unat x mod 2 ^ 32"
  by (simp only: and_low32 unat_ucast_mod unat_take_bit) simp

lemma unat_u32_minus_1: "unat (- 1 :: u32) = 2 ^ 32 - 1"
  by (simp add: unsigned_minus_1_eq_mask mask_eq_exp_minus_1)

lemma unat_not_u32: "unat (NOT x) + unat x = 2 ^ 32 - 1" for x :: u32
proof -
  have "NOT x = - 1 - x" by (simp add: not_eq_complement)
  moreover have "x \<le> - 1" by (rule word_order.extremum)
  ultimately have "unat (NOT x) = unat (- 1 :: u32) - unat x" by (simp only: unat_sub)
  then show ?thesis using unat_u32_less [of x] by (simp add: unat_u32_minus_1)
qed

section \<open>Faults\<close>

text \<open>
  What a C++ function can do instead of returning: a failed \<open>assert\<close>, the dereference of a
  null or dangling pointer, an access outside a container, an integer division by zero, an
  exception that no handler catches, and, for loops modelled with fuel, running past it.
  Every model that has such a branch returns \<open>fault + 'a\<close>.
\<close>

datatype fault = AssertFailed | BadPointer | OutOfRange | OutOfFuel | DivByZero | Uncaught

definition sum_bind :: "'e + 'a \<Rightarrow> ('a \<Rightarrow> 'e + 'b) \<Rightarrow> 'e + 'b" where
  "sum_bind m f = (case m of Inl e \<Rightarrow> Inl e | Inr x \<Rightarrow> f x)"

lemma sum_bind_simps [simp]:
  "sum_bind (Inl e) f = Inl e" "sum_bind (Inr x) f = f x"
  by (simp_all add: sum_bind_def)

lemma sum_bind_Inr_iff: "sum_bind m f = Inr y \<longleftrightarrow> (\<exists>x. m = Inr x \<and> f x = Inr y)"
  by (cases m) simp_all

section \<open>Integer division\<close>

lemma int_div_ge:
  fixes a b k :: int
  assumes "0 < b" and "k * b \<le> a"
  shows "k \<le> a div b"
  using zdiv_mono1 [OF assms(2,1)] assms(1) by simp

lemma int_div_less:
  fixes a b k :: int
  assumes "0 < b" and "a < k * b"
  shows "a div b < k"
proof -
  have "a div b * b \<le> a" using assms(1) by (simp add: minus_mod_eq_div_mult [symmetric])
  then have "a div b * b < k * b" using assms(2) by simp
  then show ?thesis using assms(1) by simp
qed

text \<open>C++ integer division and remainder truncate towards zero and are undefined for zero.\<close>

definition cdiv :: "int \<Rightarrow> int \<Rightarrow> fault + int" where
  "cdiv a b = (if b = 0 then Inl DivByZero else Inr (a sdiv b))"

definition cmod :: "int \<Rightarrow> int \<Rightarrow> fault + int" where
  "cmod a b = (if b = 0 then Inl DivByZero else Inr (a smod b))"

lemma sdiv_nonneg: "0 \<le> a \<Longrightarrow> 0 < b \<Longrightarrow> a sdiv b = a div (b :: int)"
  by (cases "a = 0") (simp_all add: signed_divide_int_def)

lemma smod_nonneg: "0 \<le> a \<Longrightarrow> 0 < b \<Longrightarrow> a smod b = a mod (b :: int)"
  by (cases "a = 0") (simp_all add: signed_modulo_int_def signed_divide_int_def minus_div_mult_eq_mod)

section \<open>Little-endian word sequences\<close>

text \<open>
  The sources keep large numbers as arrays of fixed-width words, least significant first:
  the 32-bit limbs of \<open>base_uint\<close> and the bytes of \<open>base_blob\<close>. \<open>words_val\<close> is the number
  such an array stands for and \<open>words_of n v\<close> the \<open>n\<close>-word array of \<open>v\<close>.
\<close>

fun words_val :: "'a :: len word list \<Rightarrow> nat" where
  "words_val [] = 0"
| "words_val (x # xs) = unat x + 2 ^ LENGTH('a) * words_val xs"

fun words_of :: "nat \<Rightarrow> nat \<Rightarrow> 'a :: len word list" where
  "words_of 0 v = []"
| "words_of (Suc n) v = of_nat v # words_of n (v div 2 ^ LENGTH('a))"

lemma length_words_of [simp]: "length (words_of n v) = n"
  by (induction n arbitrary: v) simp_all

lemma unat_less_pow: "unat (x :: 'a :: len word) < 2 ^ LENGTH('a)"
  by (rule unsigned_less)

lemma words_val_bound: "words_val (xs :: 'a :: len word list) < 2 ^ (LENGTH('a) * length xs)"
proof (induction xs)
  case Nil
  then show ?case by simp
next
  case (Cons x xs)
  let ?B = "2 ^ LENGTH('a) :: nat"
  have "unat x + ?B * words_val xs < ?B * (words_val xs + 1)"
    using unat_less_pow [of x] by simp
  also have "\<dots> \<le> ?B * 2 ^ (LENGTH('a) * length xs)"
    using Cons by (intro mult_le_mono2) simp
  finally show ?case by (simp add: power_add)
qed

lemma words_val_append:
  "words_val (xs @ ys :: 'a :: len word list) =
     words_val xs + 2 ^ (LENGTH('a) * length xs) * words_val ys"
  by (induction xs) (simp_all add: power_add algebra_simps)

lemma words_val_replicate_0 [simp]: "words_val (replicate n 0) = 0"
  by (induction n) simp_all

lemma words_val_of: "words_val (words_of n v :: 'a :: len word list) = v mod 2 ^ (LENGTH('a) * n)"
proof (induction n arbitrary: v)
  case 0
  then show ?case by simp
next
  case (Suc n)
  let ?B = "2 ^ LENGTH('a) :: nat"
  have "v mod ?B + ?B * (v div ?B mod 2 ^ (LENGTH('a) * n)) = v mod (?B * 2 ^ (LENGTH('a) * n))"
    by (simp add: mod_mult2_eq)
  then show ?case
    by (simp add: Suc unat_of_nat power_add)
qed

lemma words_of_val [simp]: "words_of (length xs) (words_val xs) = (xs :: 'a :: len word list)"
proof (induction xs)
  case Nil
  then show ?case by simp
next
  case (Cons x xs)
  have "(unat x + 2 ^ LENGTH('a) * words_val xs) div 2 ^ LENGTH('a) = words_val xs"
    using unat_less_pow [of x] by simp
  moreover have "(of_nat (unat x + 2 ^ LENGTH('a) * words_val xs) :: 'a word) = x"
    by (simp add: word_unat_eq_iff unat_of_nat)
  ultimately show ?case using Cons by simp
qed

lemma words_val_inj:
  assumes "length xs = length ys" and "words_val xs = words_val (ys :: 'a :: len word list)"
  shows "xs = ys"
  using words_of_val [of xs] words_of_val [of ys] assms by metis

lemma bit_words_val:
  "bit (words_val (xs :: 'a :: len word list)) n \<longleftrightarrow>
     n div LENGTH('a) < length xs \<and> bit (xs ! (n div LENGTH('a))) (n mod LENGTH('a))"
proof (induction xs arbitrary: n)
  case Nil
  then show ?case by simp
next
  case (Cons x xs)
  let ?L = "LENGTH('a)"
  have disj: "unat x + 2 ^ ?L * words_val xs = unat x OR push_bit ?L (words_val xs)"
  proof -
    have "unat x AND push_bit ?L (words_val xs) = 0"
      by (rule bit_eqI) (auto simp: bit_and_iff bit_push_bit_iff bit_unsigned_iff
          dest: bit_imp_le_length)
    then show ?thesis
      by (simp add: disjunctive_add_eq_or push_bit_eq_mult mult.commute)
  qed
  show ?case
  proof (cases "n < ?L")
    case True
    then show ?thesis
      by (simp add: disj bit_or_iff bit_push_bit_iff bit_unsigned_iff)
  next
    case False
    then have n: "n div ?L = Suc ((n - ?L) div ?L)" "n mod ?L = (n - ?L) mod ?L"
      by (simp_all add: le_div_geq le_mod_geq)
    show ?thesis
      using False by (auto simp: disj bit_or_iff bit_push_bit_iff bit_unsigned_iff Cons n
          dest: bit_imp_le_length)
  qed
qed

end
