(* ===== verification/Endian.thy ===== *)
theory Endian
  imports Prelude
begin

text \<open>
  The byte-order helpers of \<open>src/src/crypto/common.h\<close>. A read takes its bytes from the front
  of a byte list, a write returns the bytes it stores.
\<close>

section \<open>Definitions\<close>

definition word_of_bytes :: "u8 list \<Rightarrow> 'a :: len word" where
  "word_of_bytes bs = foldr (\<lambda>b acc. ucast b OR push_bit 8 acc) bs 0"

definition bytes_of_word :: "nat \<Rightarrow> 'a :: len word \<Rightarrow> u8 list" where
  "bytes_of_word n x = map (\<lambda>i. ucast (drop_bit (8 * i) x)) [0..<n]"

definition ReadLE16 :: "u8 list \<Rightarrow> u16" where "ReadLE16 ptr = word_of_bytes (take 2 ptr)"
definition ReadLE32 :: "u8 list \<Rightarrow> u32" where "ReadLE32 ptr = word_of_bytes (take 4 ptr)"
definition ReadLE64 :: "u8 list \<Rightarrow> u64" where "ReadLE64 ptr = word_of_bytes (take 8 ptr)"
definition WriteLE16 :: "u16 \<Rightarrow> u8 list" where "WriteLE16 x = bytes_of_word 2 x"
definition WriteLE32 :: "u32 \<Rightarrow> u8 list" where "WriteLE32 x = bytes_of_word 4 x"
definition WriteLE64 :: "u64 \<Rightarrow> u8 list" where "WriteLE64 x = bytes_of_word 8 x"
definition ReadBE16 :: "u8 list \<Rightarrow> u16" where "ReadBE16 ptr = word_of_bytes (rev (take 2 ptr))"
definition ReadBE32 :: "u8 list \<Rightarrow> u32" where "ReadBE32 ptr = word_of_bytes (rev (take 4 ptr))"
definition ReadBE64 :: "u8 list \<Rightarrow> u64" where "ReadBE64 ptr = word_of_bytes (rev (take 8 ptr))"
definition WriteBE32 :: "u32 \<Rightarrow> u8 list" where "WriteBE32 x = rev (bytes_of_word 4 x)"
definition WriteBE64 :: "u64 \<Rightarrow> u8 list" where "WriteBE64 x = rev (bytes_of_word 8 x)"

lemmas endian_defs = ReadLE16_def ReadLE32_def ReadLE64_def WriteLE16_def WriteLE32_def WriteLE64_def
  ReadBE16_def ReadBE32_def ReadBE64_def WriteBE32_def WriteBE64_def

section \<open>Values\<close>

lemma word_of_bytes_Cons: "word_of_bytes (b # bs) = (ucast b + 256 * word_of_bytes bs :: 'a :: len word)"
proof -
  let ?w = "word_of_bytes bs :: 'a word"
  have "(ucast b :: 'a word) AND push_bit 8 ?w = 0"
    by (rule bit_eqI) (auto simp: bit_simps dest: bit_imp_le_length)
  then have "(ucast b :: 'a word) OR push_bit 8 ?w = ucast b + push_bit 8 ?w"
    by (rule disjunctive_add_eq_or [symmetric])
  then show ?thesis by (simp add: word_of_bytes_def push_bit_eq_mult mult.commute)
qed

lemma word_of_bytes_val: "(word_of_bytes bs :: 'a :: len word) = of_nat (words_val bs)"
proof (induction bs)
  case Nil
  then show ?case by (simp add: word_of_bytes_def)
next
  case (Cons b bs)
  then show ?case by (simp add: word_of_bytes_Cons)
qed

lemma unat_word_of_bytes:
  assumes "8 * length bs \<le> LENGTH('a)"
  shows "unat (word_of_bytes bs :: 'a :: len word) = words_val bs"
proof -
  have "words_val bs < 2 ^ (8 * length bs)" using words_val_bound [of bs] by simp
  also have "\<dots> \<le> 2 ^ LENGTH('a)" using assms by (intro power_increasing) simp_all
  finally show ?thesis by (simp add: word_of_bytes_val unat_of_nat)
qed

lemma bytes_of_word_words_of: "bytes_of_word n (x :: 'a :: len word) = words_of n (unat x)"
proof -
  have "words_of n v = map (\<lambda>i. (of_nat (v div 2 ^ (8 * i)) :: u8)) [0..<n]" for v
  proof (induction n arbitrary: v)
    case (Suc n)
    have "[0..<Suc n] = 0 # map Suc [0..<n]" by (simp add: map_Suc_upt upt_conv_Cons del: upt_Suc)
    moreover have "v div 2 ^ 8 div 2 ^ (8 * i) = v div 2 ^ (8 * Suc i)" for i
      unfolding div_mult2_eq [symmetric] power_add [symmetric] by simp
    ultimately show ?case using Suc.IH [of "v div 2 ^ 8"] by (simp del: upt_Suc power_numeral)
  qed simp
  moreover have "(ucast (drop_bit (8 * i) x) :: u8) = of_nat (unat x div 2 ^ (8 * i))" for i
    by (simp add: word_unat_eq_iff unat_ucast_mod unat_drop_bit unat_of_nat)
  ultimately show ?thesis by (simp add: bytes_of_word_def)
qed

lemma length_bytes_of_word [simp]: "length (bytes_of_word n x) = n"
  by (simp add: bytes_of_word_def)

lemma word_of_bytes_of_word:
  "LENGTH('a) = 8 * n \<Longrightarrow> word_of_bytes (bytes_of_word n x) = (x :: 'a :: len word)"
  using unat_less_pow [of x]
  by (simp add: word_of_bytes_val bytes_of_word_words_of words_val_of)

lemma bytes_of_word_of_bytes:
  "LENGTH('a) = 8 * length bs \<Longrightarrow> bytes_of_word (length bs) (word_of_bytes bs :: 'a :: len word) = bs"
  by (simp add: bytes_of_word_words_of unat_word_of_bytes)

lemma endian_roundtrips [simp]:
  "ReadLE16 (WriteLE16 a @ r) = a" "ReadLE32 (WriteLE32 b @ r) = b" "ReadLE64 (WriteLE64 c @ r) = c"
  "ReadBE32 (WriteBE32 b @ r) = b" "ReadBE64 (WriteBE64 c @ r) = c"
  by (simp_all add: endian_defs word_of_bytes_of_word)

lemma endian_lengths [simp]:
  "length (WriteLE16 a) = 2" "length (WriteLE32 b) = 4" "length (WriteLE64 c) = 8"
  "length (WriteBE32 b) = 4" "length (WriteBE64 c) = 8"
  by (simp_all add: endian_defs)

lemma endian_writes [simp]:
  "length p = 2 \<Longrightarrow> WriteLE16 (ReadLE16 p) = p" "length p = 4 \<Longrightarrow> WriteLE32 (ReadLE32 p) = p"
  "length p = 8 \<Longrightarrow> WriteLE64 (ReadLE64 p) = p"
  "length p = 4 \<Longrightarrow> WriteBE32 (ReadBE32 p) = p" "length p = 8 \<Longrightarrow> WriteBE64 (ReadBE64 p) = p"
  using bytes_of_word_of_bytes [of p, where 'a = 16] bytes_of_word_of_bytes [of p, where 'a = 32]
    bytes_of_word_of_bytes [of p, where 'a = 64] bytes_of_word_of_bytes [of "rev p", where 'a = 32]
    bytes_of_word_of_bytes [of "rev p", where 'a = 64]
  by (simp_all add: endian_defs)

end
