(* ===== verification/ArithUint256.thy ===== *)
theory ArithUint256
  imports Endian
begin

text \<open>
  The 256-bit integer of \<open>src/src/arith_uint256.h\<close> and \<open>src/src/arith_uint256.cpp\<close>
  (\<open>base_uint<256>\<close> and \<open>arith_uint256\<close>), limb by limb as the code computes it, the byte
  array \<open>uint256\<close> it is read from and written to, and the proof that every operation is
  arithmetic modulo \<open>2 ^ 256\<close> on the number the limbs stand for. The compact encoding of
  proof-of-work targets (\<open>SetCompact\<close>, \<open>GetCompact\<close>) is at the end.
\<close>

section \<open>Definitions\<close>

type_synonym base_uint = "u32 list"

definition WIDTH :: nat where
  "WIDTH = 8"

definition bu_wf :: "base_uint \<Rightarrow> bool" where
  "bu_wf a \<longleftrightarrow> length a = WIDTH"

definition bu_zero :: base_uint where
  "bu_zero = replicate WIDTH 0"

definition bu_of_u64 :: "u64 \<Rightarrow> base_uint" where
  "bu_of_u64 b = [ucast b, ucast (drop_bit 32 b)] @ replicate (WIDTH - 2) 0"

definition bu_not :: "base_uint \<Rightarrow> base_uint" where
  "bu_not a = map NOT a"

fun bu_inc :: "base_uint \<Rightarrow> base_uint" where
  "bu_inc [] = []"
| "bu_inc (x # xs) = (if x + 1 = 0 then (x + 1) # bu_inc xs else (x + 1) # xs)"

fun bu_dec :: "base_uint \<Rightarrow> base_uint" where
  "bu_dec [] = []"
| "bu_dec (x # xs) = (if x - 1 = 0xffffffff then (x - 1) # bu_dec xs else (x - 1) # xs)"

definition bu_neg :: "base_uint \<Rightarrow> base_uint" where
  "bu_neg a = bu_inc (map NOT a)"

definition bu_xor :: "base_uint \<Rightarrow> base_uint \<Rightarrow> base_uint" where
  "bu_xor a b = map2 (XOR) a b"

definition bu_and :: "base_uint \<Rightarrow> base_uint \<Rightarrow> base_uint" where
  "bu_and a b = map2 (AND) a b"

definition bu_or :: "base_uint \<Rightarrow> base_uint \<Rightarrow> base_uint" where
  "bu_or a b = map2 (OR) a b"

fun bu_add_loop :: "u64 \<Rightarrow> base_uint \<Rightarrow> base_uint \<Rightarrow> base_uint" where
  "bu_add_loop carry (x # xs) (y # ys) =
     (let n = carry + ucast x + ucast y
      in ucast (n AND 0xffffffff) # bu_add_loop (drop_bit 32 n) xs ys)"
| "bu_add_loop carry _ _ = []"

definition bu_add :: "base_uint \<Rightarrow> base_uint \<Rightarrow> base_uint" where
  "bu_add a b = bu_add_loop 0 a b"

definition bu_sub :: "base_uint \<Rightarrow> base_uint \<Rightarrow> base_uint" where
  "bu_sub a b = bu_add a (bu_neg b)"

definition bu_add_u64 :: "base_uint \<Rightarrow> u64 \<Rightarrow> base_uint" where
  "bu_add_u64 a b64 = bu_add a (bu_of_u64 b64)"

definition bu_sub_u64 :: "base_uint \<Rightarrow> u64 \<Rightarrow> base_uint" where
  "bu_sub_u64 a b64 = bu_add a (bu_neg (bu_of_u64 b64))"

fun bu_mul32_loop :: "u64 \<Rightarrow> u32 \<Rightarrow> base_uint \<Rightarrow> base_uint" where
  "bu_mul32_loop carry b32 [] = []"
| "bu_mul32_loop carry b32 (x # xs) =
     (let n = carry + ucast b32 * ucast x
      in ucast (n AND 0xffffffff) # bu_mul32_loop (drop_bit 32 n) b32 xs)"

definition bu_mul32 :: "base_uint \<Rightarrow> u32 \<Rightarrow> base_uint" where
  "bu_mul32 a b32 = bu_mul32_loop 0 b32 a"

text \<open>
  The inner loop of \<open>operator*=(const base_uint&)\<close>: it adds \<open>pn[j] * b\<close> to the limbs of
  the accumulator from position \<open>j\<close> on and drops what runs past \<open>WIDTH\<close>.
\<close>

fun bu_mul_row :: "u64 \<Rightarrow> u32 \<Rightarrow> base_uint \<Rightarrow> base_uint \<Rightarrow> base_uint" where
  "bu_mul_row carry pj (x # xs) (y # ys) =
     (let n = carry + ucast x + ucast pj * ucast y
      in ucast (n AND 0xffffffff) # bu_mul_row (drop_bit 32 n) pj xs ys)"
| "bu_mul_row carry pj _ _ = []"

definition bu_mul :: "base_uint \<Rightarrow> base_uint \<Rightarrow> base_uint" where
  "bu_mul p b =
     fold (\<lambda>j a. take j a @ bu_mul_row 0 (p ! j) (drop j a) b) [0..<WIDTH] bu_zero"

definition bu_shl_step :: "base_uint \<Rightarrow> nat \<Rightarrow> nat \<Rightarrow> nat \<Rightarrow> base_uint \<Rightarrow> base_uint" where
  "bu_shl_step a k shift i pn =
     (let pn = (if i + k + 1 < WIDTH \<and> shift \<noteq> 0
                then pn[i + k + 1 := pn ! (i + k + 1) OR drop_bit (32 - shift) (a ! i)] else pn)
      in if i + k < WIDTH then pn[i + k := pn ! (i + k) OR push_bit shift (a ! i)] else pn)"

definition bu_shl :: "base_uint \<Rightarrow> nat \<Rightarrow> base_uint" where
  "bu_shl a shift = fold (bu_shl_step a (shift div 32) (shift mod 32)) [0..<WIDTH] bu_zero"

definition bu_shr_step :: "base_uint \<Rightarrow> nat \<Rightarrow> nat \<Rightarrow> nat \<Rightarrow> base_uint \<Rightarrow> base_uint" where
  "bu_shr_step a k shift i pn =
     (let pn = (if k + 1 \<le> i \<and> shift \<noteq> 0
                then pn[i - k - 1 := pn ! (i - k - 1) OR push_bit (32 - shift) (a ! i)] else pn)
      in if k \<le> i then pn[i - k := pn ! (i - k) OR drop_bit shift (a ! i)] else pn)"

definition bu_shr :: "base_uint \<Rightarrow> nat \<Rightarrow> base_uint" where
  "bu_shr a shift = fold (bu_shr_step a (shift div 32) (shift mod 32)) [0..<WIDTH] bu_zero"

fun compare_from :: "nat \<Rightarrow> base_uint \<Rightarrow> base_uint \<Rightarrow> int" where
  "compare_from 0 a b = 0"
| "compare_from (Suc i) a b =
     (if a ! i < b ! i then -1 else if b ! i < a ! i then 1 else compare_from i a b)"

definition CompareTo :: "base_uint \<Rightarrow> base_uint \<Rightarrow> int" where
  "CompareTo a b = compare_from WIDTH a b"

definition EqualTo :: "base_uint \<Rightarrow> u64 \<Rightarrow> bool" where
  "EqualTo a b \<longleftrightarrow> list_all (\<lambda>i. a ! i = 0) [2..<WIDTH] \<and>
     ucast (a ! 1) = drop_bit 32 b \<and> ucast (a ! 0) = b AND 0xffffffff"

fun limb_bits :: "u32 \<Rightarrow> nat \<Rightarrow> nat" where
  "limb_bits w 0 = 1"
| "limb_bits w (Suc n) = (if w AND push_bit (Suc n) 1 \<noteq> 0 then Suc n + 1 else limb_bits w n)"

fun bits_from :: "nat \<Rightarrow> base_uint \<Rightarrow> nat" where
  "bits_from 0 a = 0"
| "bits_from (Suc pos) a =
     (if a ! pos \<noteq> 0 then 32 * pos + limb_bits (a ! pos) 31 else bits_from pos a)"

definition bits :: "base_uint \<Rightarrow> nat" where
  "bits a = bits_from WIDTH a"

definition GetLow64 :: "base_uint \<Rightarrow> u64" where
  "GetLow64 a = ucast (a ! 0) OR push_bit 32 (ucast (a ! 1))"

datatype uint_error = DivisionByZero

text \<open>
  The loop of \<open>operator/=\<close>: \<open>bu_div_loop (shift + 1)\<close> is the loop entered with \<open>shift\<close>;
  it ends when \<open>shift\<close> has become negative.
\<close>

fun bu_div_loop :: "nat \<Rightarrow> base_uint \<Rightarrow> base_uint \<Rightarrow> base_uint \<Rightarrow> base_uint" where
  "bu_div_loop 0 num dv q = q"
| "bu_div_loop (Suc shift) num dv q =
     (if CompareTo num dv \<ge> 0
      then bu_div_loop shift (bu_sub num dv) (bu_shr dv 1)
             (q[shift div 32 := q ! (shift div 32) OR push_bit (shift mod 32) 1])
      else bu_div_loop shift num (bu_shr dv 1) q)"

definition bu_div :: "base_uint \<Rightarrow> base_uint \<Rightarrow> uint_error + base_uint" where
  "bu_div a b =
     (let num_bits = bits a; div_bits = bits b
      in if div_bits = 0 then Inl DivisionByZero
         else if div_bits > num_bits then Inr bu_zero
         else let shift = num_bits - div_bits
              in Inr (bu_div_loop (Suc shift) a (bu_shl b shift) bu_zero))"

text \<open>\<open>uint256\<close> is an array of 32 bytes; the limbs are read from and written to it little-endian.\<close>

type_synonym uint256 = "u8 list"

definition UintToArith256 :: "uint256 \<Rightarrow> base_uint" where
  "UintToArith256 a = map (\<lambda>x. ReadLE32 (drop (x * 4) a)) [0..<WIDTH]"

definition ArithToUint256 :: "base_uint \<Rightarrow> uint256" where
  "ArithToUint256 a = concat (map (\<lambda>x. WriteLE32 (a ! x)) [0..<WIDTH])"

record compact_result =
  target :: base_uint
  fNegative :: bool
  fOverflow :: bool

definition SetCompact :: "u32 \<Rightarrow> compact_result" where
  "SetCompact nCompact =
     (let nSize = unat (drop_bit 24 nCompact);
          nWord0 = nCompact AND 0x007fffff;
          nWord = (if nSize \<le> 3 then drop_bit (8 * (3 - nSize)) nWord0 else nWord0);
          v = (if nSize \<le> 3 then bu_of_u64 (ucast nWord)
               else bu_shl (bu_of_u64 (ucast nWord)) (8 * (nSize - 3)))
      in \<lparr> target = v,
           fNegative = (nWord \<noteq> 0 \<and> nCompact AND 0x00800000 \<noteq> 0),
           fOverflow = (nWord \<noteq> 0 \<and> (nSize > 34 \<or> nWord > 0xff \<and> nSize > 33
                                        \<or> nWord > 0xffff \<and> nSize > 32)) \<rparr>)"

text \<open>\<open>None\<close> is a failed \<open>assert\<close>.\<close>

definition GetCompact :: "base_uint \<Rightarrow> bool \<Rightarrow> u32 option" where
  "GetCompact a negative =
     (let nSize0 = (bits a + 7) div 8;
          nCompact0 = (if nSize0 \<le> 3 then ucast (push_bit (8 * (3 - nSize0)) (GetLow64 a))
                       else ucast (GetLow64 (bu_shr a (8 * (nSize0 - 3))))) :: u32;
          (nCompact1, nSize) = (if nCompact0 AND 0x00800000 \<noteq> 0
                                then (drop_bit 8 nCompact0, nSize0 + 1) else (nCompact0, nSize0))
      in if nCompact1 AND NOT 0x007fffff \<noteq> 0 \<or> \<not> nSize < 256 then None
         else let nCompact2 = nCompact1 OR push_bit 24 (of_nat nSize)
              in Some (nCompact2 OR (if negative \<and> nCompact2 AND 0x007fffff \<noteq> 0
                                     then 0x00800000 else 0)))"

section \<open>The value of the limbs\<close>

abbreviation val :: "base_uint \<Rightarrow> nat" where
  "val \<equiv> words_val"

named_theorems bu_val \<open>the value of each operation of \<open>base_uint\<close>\<close>

lemma val_bound: "bu_wf a \<Longrightarrow> val a < 2 ^ 256"
  using words_val_bound [of a] by (simp add: bu_wf_def WIDTH_def)

lemma limb_step:
  "m mod B + B * ((m div B + r) mod C) = (m + B * r) mod (B * C)" for m B C r :: nat
proof (cases "B = 0")
  case False
  then have "(m + B * r) div B = m div B + r" "(m + B * r) mod B = m mod B"
    by simp_all
  then show ?thesis
    by (simp add: mod_mult2_eq)
qed simp

subsection \<open>Lengths\<close>

lemma length_bu_inc [simp]: "length (bu_inc a) = length a"
  by (induction a rule: bu_inc.induct) simp_all

lemma length_bu_dec [simp]: "length (bu_dec a) = length a"
  by (induction a rule: bu_dec.induct) simp_all

lemma length_bu_add_loop [simp]: "length (bu_add_loop c a b) = min (length a) (length b)"
  by (induction c a b rule: bu_add_loop.induct) (simp_all add: Let_def)

lemma length_bu_mul32_loop [simp]: "length (bu_mul32_loop c b a) = length a"
  by (induction c b a rule: bu_mul32_loop.induct) (simp_all add: Let_def)

lemma length_bu_mul_row [simp]: "length (bu_mul_row c p a b) = min (length a) (length b)"
  by (induction c p a b rule: bu_mul_row.induct) (simp_all add: Let_def)

lemma length_bu_shl_step [simp]: "length (bu_shl_step a k s i pn) = length pn"
  by (simp add: bu_shl_step_def Let_def)

lemma length_bu_shr_step [simp]: "length (bu_shr_step a k s i pn) = length pn"
  by (simp add: bu_shr_step_def Let_def)

lemma length_fold_preserved:
  assumes "\<And>i pn. length (f i pn) = length pn"
  shows "length (fold f is pn) = length pn"
  using assms by (induction "is" arbitrary: pn) simp_all

lemma length_bu_zero [simp]: "length bu_zero = WIDTH"
  by (simp add: bu_zero_def)

lemma val_bu_zero [simp]: "words_val bu_zero = 0"
  by (simp add: bu_zero_def)

lemma length_bu_of_u64 [simp]: "length (bu_of_u64 b) = WIDTH"
  by (simp add: bu_of_u64_def WIDTH_def)

lemma bu_wf_intros [simp, intro]:
  shows "bu_wf bu_zero" and "bu_wf (bu_of_u64 b)"
    and "bu_wf a \<Longrightarrow> bu_wf (bu_not a)" and "bu_wf a \<Longrightarrow> bu_wf (bu_inc a)"
    and "bu_wf a \<Longrightarrow> bu_wf (bu_dec a)" and "bu_wf a \<Longrightarrow> bu_wf (bu_neg a)"
    and "bu_wf (bu_shl a s)" and "bu_wf (bu_shr a s)" and "bu_wf a \<Longrightarrow> bu_wf (bu_mul32 a m)"
  by (simp_all add: bu_wf_def bu_not_def bu_neg_def bu_shl_def bu_shr_def bu_mul32_def
      length_fold_preserved)

lemma bu_wf_binary [simp, intro]:
  assumes "bu_wf a" and "bu_wf b"
  shows "bu_wf (bu_add a b)" and "bu_wf (bu_sub a b)" and "bu_wf (bu_xor a b)"
    and "bu_wf (bu_and a b)" and "bu_wf (bu_or a b)"
  using assms by (simp_all add: bu_wf_def bu_add_def bu_sub_def bu_neg_def bu_xor_def bu_and_def
      bu_or_def)

subsection \<open>Addition, negation, subtraction\<close>

lemma val_bu_of_u64 [bu_val]: "val (bu_of_u64 b) = unat b"
proof -
  have "unat b div 2 ^ 32 < 2 ^ 32" using unat_u64_less [of b] by simp
  then have "unat b mod 2 ^ 32 + 2 ^ 32 * (unat b div 2 ^ 32 mod 2 ^ 32) = unat b"
    by simp
  then show ?thesis
    by (simp add: bu_of_u64_def WIDTH_def unat_ucast_mod unat_drop_bit)
qed

lemma val_bu_add_loop:
  assumes "length a = length b" and "unat c \<le> 2 ^ 32"
  shows "val (bu_add_loop c a b) = (unat c + val a + val b) mod 2 ^ (32 * length a)"
  using assms
proof (induction c a b rule: bu_add_loop.induct)
  case (1 c x xs y ys)
  let ?n = "c + ucast x + ucast y :: u64"
  have n: "unat ?n = unat c + unat x + unat y"
    using 1(3) unat_u32_less [of x] unat_u32_less [of y] by (simp add: unat_word_ariths)
  have c': "unat (drop_bit 32 ?n) \<le> 2 ^ 32"
    using 1(3) unat_u32_less [of x] unat_u32_less [of y]
    by (simp only: unat_drop_bit n) simp
  have "val (bu_add_loop c (x # xs) (y # ys)) =
      unat ?n mod 2 ^ 32 + 2 ^ 32 * ((unat ?n div 2 ^ 32 + (val xs + val ys)) mod 2 ^ (32 * length xs))"
    using 1(1) [OF refl] 1(2) c' by (simp add: Let_def unat_low32 unat_drop_bit add.assoc)
  also have "\<dots> = (unat ?n + 2 ^ 32 * (val xs + val ys)) mod (2 ^ 32 * 2 ^ (32 * length xs))"
    by (rule limb_step)
  also have "unat ?n + 2 ^ 32 * (val xs + val ys) = unat c + val (x # xs) + val (y # ys)"
    by (simp add: n)
  also have "2 ^ 32 * 2 ^ (32 * length xs) = (2 ^ (32 * length (x # xs)) :: nat)"
    by (simp add: power_add)
  finally show ?case .
qed simp_all

lemma val_bu_add [bu_val]:
  "bu_wf a \<Longrightarrow> bu_wf b \<Longrightarrow> val (bu_add a b) = (val a + val b) mod 2 ^ 256"
  by (simp add: bu_add_def bu_wf_def val_bu_add_loop WIDTH_def)

lemma val_bu_inc: "val (bu_inc a) = (val a + 1) mod 2 ^ (32 * length a)"
proof (induction a rule: bu_inc.induct)
  case (2 x xs)
  show ?case
  proof (cases "x + 1 = 0")
    case True
    then have x: "unat x = 2 ^ 32 - 1"
      by (simp add: unat_u32_minus_1 flip: eq_neg_iff_add_eq_0)
    have "val (bu_inc (x # xs)) = 2 ^ 32 * ((val xs + 1) mod 2 ^ (32 * length xs))"
      using True 2 by simp
    also have "\<dots> = (2 ^ 32 * (val xs + 1)) mod (2 ^ 32 * 2 ^ (32 * length xs))"
      by (rule mult_mod_right)
    also have "2 ^ 32 * (val xs + 1) = val (x # xs) + 1"
      by (simp add: x)
    also have "(2 ^ 32 * 2 ^ (32 * length xs) :: nat) = 2 ^ (32 * length (x # xs))"
      by (simp add: power_add)
    finally show ?thesis .
  next
    case False
    then have x: "unat (x + 1) = unat x + 1"
      by (metis add.commute add.right_neutral Suc_eq_plus1 unatSuc)
    have "unat (x + 1) + 2 ^ 32 * val xs < 2 ^ (32 * length (x # xs))"
      using words_val_bound [of "(x + 1) # xs"] by simp
    then show ?thesis using False by (simp add: x)
  qed
qed simp

lemma val_bu_not [bu_val]: "bu_wf a \<Longrightarrow> val (bu_not a) = 2 ^ 256 - 1 - val a"
proof -
  have gen: "val (map NOT a) + val a = 2 ^ (32 * length a) - 1" for a :: base_uint
  proof (induction a)
    case (Cons x xs)
    have "unat (NOT x) + unat x = 2 ^ 32 - 1"
      by (rule unat_not_u32)
    moreover have "val (map NOT (x # xs)) + val (x # xs) =
        (unat (NOT x) + unat x) + 2 ^ 32 * (val (map NOT xs) + val xs)"
      by simp
    ultimately have "val (map NOT (x # xs)) + val (x # xs) = (2 ^ 32 - 1) + 2 ^ 32 * (2 ^ (32 * length xs) - 1)"
      by (simp only: Cons)
    also have "\<dots> = 2 ^ 32 * 2 ^ (32 * length xs) - 1"
      by (simp add: diff_mult_distrib2)
    finally show ?case by (simp only: power_add [symmetric]) simp
  qed simp
  show "bu_wf a \<Longrightarrow> val (bu_not a) = 2 ^ 256 - 1 - val a"
    using gen [of a] by (simp add: bu_not_def bu_wf_def WIDTH_def)
qed

lemma val_bu_neg [bu_val]: "bu_wf a \<Longrightarrow> val (bu_neg a) = (2 ^ 256 - val a) mod 2 ^ 256"
proof -
  assume a: "bu_wf a"
  have "val (bu_neg a) = (2 ^ 256 - 1 - val a + 1) mod 2 ^ 256"
    using val_bu_inc [of "bu_not a"] a
    by (simp only: bu_neg_def bu_not_def [symmetric] val_bu_not) (simp add: bu_wf_def bu_not_def WIDTH_def)
  also have "2 ^ 256 - 1 - val a + 1 = 2 ^ 256 - val a"
    using val_bound [OF a] by linarith
  finally show ?thesis .
qed

lemma val_bu_sub [bu_val]:
  assumes "bu_wf a" and "bu_wf b"
  shows "val (bu_sub a b) = (val a + (2 ^ 256 - val b)) mod 2 ^ 256"
  using assms by (simp add: bu_sub_def bu_val mod_add_right_eq)

lemma val_bu_sub_le:
  assumes "bu_wf a" and "bu_wf b" and "val b \<le> val a"
  shows "val (bu_sub a b) = val a - val b"
proof -
  have "val a + (2 ^ 256 - val b) = (val a - val b) + 2 ^ 256"
    using assms val_bound [of b] by simp
  then show ?thesis
    by (simp only: val_bu_sub [OF assms(1,2)] mod_add_self2) (use val_bound [OF assms(1)] in simp)
qed

subsection \<open>Multiplication\<close>

lemma mult_carry_bound:
  fixes c x p y :: nat
  assumes "c < 2 ^ 32" and "x < 2 ^ 32" and "p < 2 ^ 32" and "y < 2 ^ 32"
  shows "c + x + p * y < 2 ^ 64"
proof -
  have "p * y \<le> (2 ^ 32 - 1) * (2 ^ 32 - 1)"
    using assms by (intro mult_le_mono) simp_all
  then show ?thesis using assms by simp
qed

lemma val_bu_mul_row:
  assumes "length a \<le> length b" and "unat c < 2 ^ 32"
  shows "val (bu_mul_row c p a b) = (unat c + val a + unat p * val b) mod 2 ^ (32 * length a)"
  using assms
proof (induction c p a b rule: bu_mul_row.induct)
  case (1 c p x xs y ys)
  let ?n = "c + ucast x + ucast p * ucast y :: u64"
  have bound: "unat c + unat x + unat p * unat y < 2 ^ 64"
    using 1(3) by (intro mult_carry_bound unat_u32_less)
  then have n: "unat ?n = unat c + unat x + unat p * unat y"
    by (simp add: unat_word_ariths mod_add_right_eq mod_add_left_eq)
  have c': "unat (drop_bit 32 ?n) < 2 ^ 32"
    using bound by (simp only: unat_drop_bit n) simp
  have "val (bu_mul_row c p (x # xs) (y # ys)) = unat ?n mod 2 ^ 32 +
      2 ^ 32 * ((unat ?n div 2 ^ 32 + (val xs + unat p * val ys)) mod 2 ^ (32 * length xs))"
    using 1(1) [OF refl] 1(2) c' by (simp add: Let_def unat_low32 unat_drop_bit add.assoc)
  also have "\<dots> = (unat ?n + 2 ^ 32 * (val xs + unat p * val ys)) mod (2 ^ 32 * 2 ^ (32 * length xs))"
    by (rule limb_step)
  also have "unat ?n + 2 ^ 32 * (val xs + unat p * val ys) =
      unat c + val (x # xs) + unat p * val (y # ys)"
    by (simp add: n add_mult_distrib2)
  also have "2 ^ 32 * 2 ^ (32 * length xs) = (2 ^ (32 * length (x # xs)) :: nat)"
    by (simp add: power_add)
  finally show ?case .
qed simp_all

lemma bu_mul32_loop_row:
  "bu_mul32_loop c p a = bu_mul_row c p (replicate (length a) 0) a"
  by (induction a arbitrary: c) (simp_all add: Let_def)

lemma val_bu_mul32 [bu_val]: "bu_wf a \<Longrightarrow> val (bu_mul32 a m) = (val a * unat m) mod 2 ^ 256"
  by (simp add: bu_mul32_def bu_mul32_loop_row val_bu_mul_row bu_wf_def WIDTH_def mult.commute)

lemma mod_split: "x < B \<Longrightarrow> x + B * (y mod C) = (x + B * y) mod (B * C)" for x y B C :: nat
  using limb_step [of x B y C] by simp

lemma val_mul_step:
  assumes "bu_wf a" and "bu_wf b" and "j < WIDTH"
  shows "val (take j a @ bu_mul_row 0 p (drop j a) b) =
    (val a + 2 ^ (32 * j) * (unat p * val b)) mod 2 ^ 256"
proof -
  have len: "length (take j a) = j" and less: "length (drop j a) = WIDTH - j" "length (drop j a) \<le> length b"
    using assms by (simp_all add: bu_wf_def)
  have "val (take j a @ bu_mul_row 0 p (drop j a) b) = val (take j a) +
      2 ^ (32 * j) * ((val (drop j a) + unat p * val b) mod 2 ^ (32 * (WIDTH - j)))"
    using less by (simp add: words_val_append val_bu_mul_row len del: length_take)
  also have "\<dots> = (val (take j a) + 2 ^ (32 * j) * (val (drop j a) + unat p * val b))
      mod (2 ^ (32 * j) * 2 ^ (32 * (WIDTH - j)))"
    using words_val_bound [of "take j a"] len by (intro mod_split) simp
  also have "val (take j a) + 2 ^ (32 * j) * (val (drop j a) + unat p * val b) =
      val a + 2 ^ (32 * j) * (unat p * val b)"
    using words_val_append [of "take j a" "drop j a"] len by (simp add: add_mult_distrib2)
  also have "2 ^ (32 * j) * 2 ^ (32 * (WIDTH - j)) = (2 ^ 256 :: nat)"
    using assms(3) by (simp only: WIDTH_def power_add [symmetric] add_mult_distrib2 [symmetric]) simp
  finally show ?thesis .
qed

lemma bu_mul_prefix:
  assumes "bu_wf p" and "bu_wf b" and "n \<le> WIDTH"
  defines "acc \<equiv> fold (\<lambda>j a. take j a @ bu_mul_row 0 (p ! j) (drop j a) b) [0..<n] bu_zero"
  shows "bu_wf acc \<and> val acc = (val (take n p) * val b) mod 2 ^ 256"
  using assms(3) unfolding acc_def
proof (induction n)
  case 0
  then show ?case by simp
next
  case (Suc n)
  let ?a = "fold (\<lambda>j a. take j a @ bu_mul_row 0 (p ! j) (drop j a) b) [0..<n] bu_zero"
  have IH: "bu_wf ?a" "val ?a = (val (take n p) * val b) mod 2 ^ 256"
    using Suc by simp_all
  have n: "n < length p" using Suc.prems assms(1) by (simp add: bu_wf_def)
  have "val (take n ?a @ bu_mul_row 0 (p ! n) (drop n ?a) b) =
      (val ?a + 2 ^ (32 * n) * (unat (p ! n) * val b)) mod 2 ^ 256"
    using IH(1) assms(2) Suc.prems by (intro val_mul_step) simp_all
  also have "\<dots> = (val (take n p) * val b + 2 ^ (32 * n) * (unat (p ! n) * val b)) mod 2 ^ 256"
    by (simp only: IH(2) mod_add_left_eq)
  also have "val (take n p) * val b + 2 ^ (32 * n) * (unat (p ! n) * val b) = val (take (Suc n) p) * val b"
    using n by (simp add: take_Suc_conv_app_nth words_val_append add_mult_distrib)
  finally show ?case
    using IH(1) assms(2) Suc.prems by (simp add: bu_wf_def)
qed

lemma bu_wf_mul [simp, intro]: "bu_wf a \<Longrightarrow> bu_wf b \<Longrightarrow> bu_wf (bu_mul a b)"
  using bu_mul_prefix [of a b WIDTH] by (simp add: bu_mul_def)

lemma val_bu_mul [bu_val]:
  "bu_wf a \<Longrightarrow> bu_wf b \<Longrightarrow> val (bu_mul a b) = (val a * val b) mod 2 ^ 256"
  using bu_mul_prefix [of a b WIDTH] by (simp add: bu_mul_def bu_wf_def)

subsection \<open>Shifts\<close>

lemma nth_bu_shl_step:
  assumes "length pn = WIDTH" and "j < WIDTH"
  shows "bu_shl_step a k s i pn ! j =
     pn ! j OR (if j = i + k then push_bit s (a ! i) else 0)
            OR (if j = i + k + 1 \<and> s \<noteq> 0 then drop_bit (32 - s) (a ! i) else 0)"
  using assms by (simp add: bu_shl_step_def nth_list_update)

lemma bu_shl_prefix:
  assumes "n \<le> WIDTH" and "j < WIDTH"
  shows "fold (bu_shl_step a k s) [0..<n] bu_zero ! j =
     (if k \<le> j \<and> j - k < n then push_bit s (a ! (j - k)) else 0) OR
     (if k < j \<and> j - k - 1 < n \<and> s \<noteq> 0 then drop_bit (32 - s) (a ! (j - k - 1)) else 0)"
  using assms
proof (induction n)
  case 0
  then show ?case by (simp add: bu_zero_def)
next
  case (Suc n)
  have "j - k < Suc n \<longleftrightarrow> j - k < n \<or> j = n + k" if "k \<le> j" using that by auto
  moreover have "j - k - 1 < Suc n \<longleftrightarrow> j - k - 1 < n \<or> j = n + k + 1" if "k < j" using that by auto
  ultimately show ?case
    using Suc by (auto simp: nth_bu_shl_step length_fold_preserved or.assoc or.commute or.left_commute)
qed

lemma nth_bu_shl:
  assumes "j < WIDTH" and "s < 32"
  shows "bu_shl a (32 * k + s) ! j =
     (if k \<le> j then push_bit s (a ! (j - k)) else 0) OR
     (if k < j \<and> s \<noteq> 0 then drop_bit (32 - s) (a ! (j - k - 1)) else 0)"
proof -
  have "j - k < WIDTH" "j - k - 1 < WIDTH" using assms by simp_all
  then show ?thesis
    using assms bu_shl_prefix [of WIDTH j a k s] by (simp add: bu_shl_def)
qed

lemma bit_val_at:
  assumes "length a = WIDTH" and "r < 32"
  shows "bit (val a) (32 * q + r) \<longleftrightarrow> q < WIDTH \<and> bit (a ! q) r"
  using assms by (simp add: bit_words_val)

lemma bit_beyond: "32 \<le> n \<Longrightarrow> \<not> bit (x :: u32) n"
  using bit_imp_le_length [of x n] by auto

lemma bit_bu_shl_at:
  assumes "bu_wf a" and "q < WIDTH" and "r < 32" and "s < 32"
  shows "bit (val (bu_shl a (32 * k + s))) (32 * q + r) \<longleftrightarrow>
     32 * k + s \<le> 32 * q + r \<and> bit (val a) (32 * q + r - (32 * k + s))"
proof -
  have len: "length a = WIDTH" "length (bu_shl a (32 * k + s)) = WIDTH"
    using assms(1) bu_wf_intros(7) [of a "32 * k + s"] by (simp_all add: bu_wf_def)
  have lhs: "bit (val (bu_shl a (32 * k + s))) (32 * q + r) \<longleftrightarrow>
      (k \<le> q \<and> s \<le> r \<and> bit (a ! (q - k)) (r - s)) \<or>
      (k < q \<and> s \<noteq> 0 \<and> bit (a ! (q - k - 1)) (r + (32 - s)))"
    using assms by (auto simp: bit_val_at len nth_bu_shl bit_or_iff bit_push_bit_iff bit_drop_bit_eq
        add.commute [of "32 - s"])
  show ?thesis
  proof (cases "s \<le> r")
    case True
    have "32 * k + s \<le> 32 * q + r \<longleftrightarrow> k \<le> q" using True assms by linarith
    moreover have "bit (val a) (32 * q + r - (32 * k + s)) \<longleftrightarrow> bit (a ! (q - k)) (r - s)" if "k \<le> q"
    proof -
      have "32 * q + r - (32 * k + s) = 32 * (q - k) + (r - s)"
        using that True by (simp add: diff_mult_distrib2)
      moreover have "q - k < WIDTH" "r - s < 32" using assms by linarith+
      ultimately show ?thesis using bit_val_at [OF len(1)] by (simp only:) simp
    qed
    moreover have "\<not> bit (a ! i) (r + (32 - s))" for i
      using True assms by (intro bit_beyond) simp
    ultimately show ?thesis unfolding lhs using True by blast
  next
    case False
    have "32 * k + s \<le> 32 * q + r \<longleftrightarrow> k < q" using False assms by linarith
    moreover have "bit (val a) (32 * q + r - (32 * k + s)) \<longleftrightarrow> bit (a ! (q - k - 1)) (r + (32 - s))"
      if "k < q"
    proof -
      have "32 * q + r - (32 * k + s) = 32 * (q - k - 1) + (r + (32 - s))"
        using that False assms by linarith
      moreover have "r + (32 - s) < 32" using False assms by linarith
      moreover have "q - k - 1 < WIDTH" using assms by simp
      ultimately show ?thesis using bit_val_at [OF len(1)] by (simp only:) simp
    qed
    moreover have "s \<noteq> 0" using False by simp
    ultimately show ?thesis unfolding lhs using False by blast
  qed
qed

lemma val_bu_shl [bu_val]:
  assumes "bu_wf a"
  shows "val (bu_shl a shift) = (val a * 2 ^ shift) mod 2 ^ 256"
proof -
  have len: "length (bu_shl a shift) = WIDTH"
    using bu_wf_intros(7) [of a shift] by (simp add: bu_wf_def)
  have "val (bu_shl a shift) = take_bit 256 (push_bit shift (val a))"
  proof (rule bit_eqI)
    fix n :: nat
    show "bit (val (bu_shl a shift)) n = bit (take_bit 256 (push_bit shift (val a))) n"
    proof (cases "n < 256")
      case True
      then have "n div 32 < WIDTH" by (simp add: WIDTH_def)
      then have "bit (val (bu_shl a shift)) n \<longleftrightarrow> shift \<le> n \<and> bit (val a) (n - shift)"
        using bit_bu_shl_at [OF assms, of "n div 32" "n mod 32" "shift mod 32" "shift div 32"] by simp
      then show ?thesis using True by (simp add: bit_take_bit_iff bit_push_bit_iff)
    next
      case False
      then have "\<not> n div 32 < WIDTH" by (simp add: WIDTH_def)
      then show ?thesis using False by (simp add: bit_take_bit_iff bit_words_val len)
    qed
  qed
  then show ?thesis by (simp add: take_bit_eq_mod push_bit_eq_mult)
qed

lemma nth_bu_shr_step:
  assumes "length pn = WIDTH" and "i < WIDTH" and "j < WIDTH"
  shows "bu_shr_step a k s i pn ! j =
     pn ! j OR (if i = j + k then drop_bit s (a ! i) else 0)
            OR (if i = j + k + 1 \<and> s \<noteq> 0 then push_bit (32 - s) (a ! i) else 0)"
  using assms by (auto simp: bu_shr_step_def nth_list_update Let_def)

lemma bu_shr_prefix:
  assumes "n \<le> WIDTH" and "j < WIDTH"
  shows "fold (bu_shr_step a k s) [0..<n] bu_zero ! j =
     (if j + k < n then drop_bit s (a ! (j + k)) else 0) OR
     (if j + k + 1 < n \<and> s \<noteq> 0 then push_bit (32 - s) (a ! (j + k + 1)) else 0)"
  using assms
proof (induction n)
  case 0
  then show ?case by (simp add: bu_zero_def)
next
  case (Suc n)
  have "j + k < Suc n \<longleftrightarrow> j + k < n \<or> n = j + k" by auto
  moreover have "j + k + 1 < Suc n \<longleftrightarrow> j + k + 1 < n \<or> n = j + k + 1" by auto
  ultimately show ?case
    using Suc by (auto simp: nth_bu_shr_step length_fold_preserved or.assoc or.commute or.left_commute)
qed

lemma nth_bu_shr:
  assumes "j < WIDTH" and "s < 32"
  shows "bu_shr a (32 * k + s) ! j =
     (if j + k < WIDTH then drop_bit s (a ! (j + k)) else 0) OR
     (if j + k + 1 < WIDTH \<and> s \<noteq> 0 then push_bit (32 - s) (a ! (j + k + 1)) else 0)"
  using assms bu_shr_prefix [of WIDTH j a k s] by (simp add: bu_shr_def)

lemma bit_bu_shr_at:
  assumes "bu_wf a" and "q < WIDTH" and "r < 32" and "s < 32"
  shows "bit (val (bu_shr a (32 * k + s))) (32 * q + r) \<longleftrightarrow> bit (val a) (32 * q + r + (32 * k + s))"
proof -
  have len: "length a = WIDTH" "length (bu_shr a (32 * k + s)) = WIDTH"
    using assms(1) bu_wf_intros(8) [of a "32 * k + s"] by (simp_all add: bu_wf_def)
  have lhs: "bit (val (bu_shr a (32 * k + s))) (32 * q + r) \<longleftrightarrow>
      (q + k < WIDTH \<and> bit (a ! (q + k)) (r + s)) \<or>
      (q + k + 1 < WIDTH \<and> s \<noteq> 0 \<and> 32 - s \<le> r \<and> bit (a ! (q + k + 1)) (r - (32 - s)))"
    using assms by (auto simp: bit_val_at len nth_bu_shr bit_or_iff bit_push_bit_iff bit_drop_bit_eq
        add.commute [of s])
  show ?thesis
  proof (cases "r + s < 32")
    case True
    have "32 * q + r + (32 * k + s) = 32 * (q + k) + (r + s)" by simp
    then have "bit (val a) (32 * q + r + (32 * k + s)) \<longleftrightarrow> q + k < WIDTH \<and> bit (a ! (q + k)) (r + s)"
      using bit_val_at [OF len(1) True] by (simp only:)
    moreover have "\<not> 32 - s \<le> r" using True by linarith
    ultimately show ?thesis unfolding lhs by blast
  next
    case False
    have "32 * q + r + (32 * k + s) = 32 * (q + k + 1) + (r - (32 - s))"
      using False assms by (simp add: add_mult_distrib2)
    moreover have "r - (32 - s) < 32" using assms by linarith
    ultimately have "bit (val a) (32 * q + r + (32 * k + s)) \<longleftrightarrow>
        q + k + 1 < WIDTH \<and> bit (a ! (q + k + 1)) (r - (32 - s))"
      using bit_val_at [OF len(1)] by (simp only:)
    moreover have "\<not> bit (a ! i) (r + s)" for i
      using False by (intro bit_beyond) simp
    moreover have "s \<noteq> 0" "32 - s \<le> r" using False assms by linarith+
    ultimately show ?thesis unfolding lhs by blast
  qed
qed

lemma val_bu_shr [bu_val]:
  assumes "bu_wf a"
  shows "val (bu_shr a shift) = val a div 2 ^ shift"
proof -
  have len: "length (bu_shr a shift) = WIDTH"
    using bu_wf_intros(8) [of a shift] by (simp add: bu_wf_def)
  have "val (bu_shr a shift) = drop_bit shift (val a)"
  proof (rule bit_eqI)
    fix n :: nat
    show "bit (val (bu_shr a shift)) n = bit (drop_bit shift (val a)) n"
    proof (cases "n div 32 < WIDTH")
      case True
      then have "bit (val (bu_shr a shift)) n \<longleftrightarrow> bit (val a) (n + shift)"
        using bit_bu_shr_at [OF assms, of "n div 32" "n mod 32" "shift mod 32" "shift div 32"] by simp
      then show ?thesis by (simp add: bit_drop_bit_eq add.commute)
    next
      case False
      then have "\<not> (n + shift) div 32 < WIDTH"
        using div_le_mono [of n "n + shift" 32] by simp
      then show ?thesis
        using False assms by (simp add: bit_drop_bit_eq bit_words_val len bu_wf_def add.commute)
    qed
  qed
  then show ?thesis by (simp add: drop_bit_eq_div)
qed

subsection \<open>Comparison and bit length\<close>

lemma compare_from_take:
  assumes "n \<le> length a" and "length a = length b"
  shows "compare_from n a b = (if val (take n a) < val (take n b) then - 1
     else if val (take n b) < val (take n a) then 1 else 0)"
  using assms(1)
proof (induction n)
  case 0
  then show ?case by simp
next
  case (Suc n)
  then have n: "n < length a" "n < length b" using assms by simp_all
  have v: "val (take (Suc n) xs) = val (take n xs) + 2 ^ (32 * n) * unat (xs ! n)"
    if "n < length xs" for xs :: base_uint
    using that by (simp add: take_Suc_conv_app_nth words_val_append)
  have bound: "val (take n xs) < 2 ^ (32 * n)" if "n < length xs" for xs :: base_uint
    using words_val_bound [of "take n xs"] that by simp
  have less: "val (take (Suc n) xs) < val (take (Suc n) ys)"
    if "xs ! n < ys ! n" "n < length xs" "n < length ys" for xs ys :: base_uint
  proof -
    have "unat (xs ! n) + 1 \<le> unat (ys ! n)" using that(1) by (simp add: word_less_nat_alt)
    then have "2 ^ (32 * n) * (unat (xs ! n) + 1) \<le> 2 ^ (32 * n) * unat (ys ! n)" by (rule mult_le_mono2)
    then show ?thesis using bound [OF that(2)] v [OF that(2)] v [OF that(3)] by simp
  qed
  consider "a ! n < b ! n" | "b ! n < a ! n" | "a ! n = b ! n" by (meson linorder_neqE)
  then show ?case
    using less [of a b] less [of b a] Suc n by cases (simp_all add: v)
qed

lemma CompareTo_val:
  assumes "bu_wf a" and "bu_wf b"
  shows "CompareTo a b = (if val a < val b then - 1 else if val b < val a then 1 else 0)"
  using compare_from_take [of WIDTH a b] assms by (simp add: CompareTo_def bu_wf_def)

lemma limb_bits_bounds:
  assumes "w \<noteq> 0" and "unat w < 2 ^ Suc n" and "n < 32"
  shows "0 < limb_bits w n \<and> 2 ^ (limb_bits w n - 1) \<le> unat w \<and> unat w < 2 ^ limb_bits w n"
  using assms
proof (induction n)
  case 0
  have "unat w \<noteq> 0" using 0(1) by (simp add: unat_eq_0)
  then show ?case using 0 by simp
next
  case (Suc n)
  have test: "w AND push_bit (Suc n) 1 \<noteq> 0 \<longleftrightarrow> bit w (Suc n)"
    using Suc.prems(3) by (simp add: bit_iff_and_push_bit_not_eq_0)
  have bit: "bit w (Suc n) \<longleftrightarrow> odd (unat w div 2 ^ Suc n)"
    using Suc.prems(3) bit_unsigned_iff [of w "Suc n", where 'a = nat]
    by (simp add: bit_iff_odd)
  show ?case
  proof (cases "bit w (Suc n)")
    case True
    then have "odd (unat w div 2 ^ Suc n)" using bit by blast
    then have "unat w div 2 ^ Suc n \<noteq> 0" by (metis dvd_0_right)
    then have "2 ^ Suc n \<le> unat w" by (simp add: div_eq_0_iff)
    then show ?thesis using True test Suc.prems by simp
  next
    case False
    have "unat w div 2 ^ Suc n < 2" using Suc.prems(2) by (simp add: less_mult_imp_div_less)
    moreover have "even (unat w div 2 ^ Suc n)" using False bit by simp
    ultimately have "unat w div 2 ^ Suc n = 0" by (auto simp: less_2_cases_iff)
    then have "unat w < 2 ^ Suc n" by (simp add: div_eq_0_iff)
    then show ?thesis using Suc False test by simp
  qed
qed

lemma bits_from_bounds:
  assumes "n \<le> length a"
  shows "val (take n a) < 2 ^ bits_from n a \<and>
    (0 < bits_from n a \<longrightarrow> 2 ^ (bits_from n a - 1) \<le> val (take n a)) \<and> bits_from n a \<le> 32 * n"
  using assms
proof (induction n)
  case 0
  then show ?case by simp
next
  case (Suc n)
  have n: "n < length a" using Suc.prems by simp
  have v: "val (take (Suc n) a) = val (take n a) + 2 ^ (32 * n) * unat (a ! n)"
    using n by (simp add: take_Suc_conv_app_nth words_val_append)
  have low: "val (take n a) < 2 ^ (32 * n)"
    using words_val_bound [of "take n a"] n by simp
  show ?case
  proof (cases "a ! n = 0")
    case True
    then show ?thesis using Suc v by simp
  next
    case False
    let ?l = "limb_bits (a ! n) 31"
    have l: "0 < ?l" "2 ^ (?l - 1) \<le> unat (a ! n)" "unat (a ! n) < 2 ^ ?l"
      using limb_bits_bounds [OF False, of 31] unat_u32_less [of "a ! n"] by simp_all
    have "2 ^ (?l - 1) < (2 ^ 32 :: nat)" using l(2) unat_u32_less [of "a ! n"] by (rule le_less_trans)
    then have "?l - 1 < 32" by (rule power_less_imp_less_exp [rotated]) simp
    then have l32: "?l \<le> 32" by simp
    have "2 ^ (32 * n) * (unat (a ! n) + 1) \<le> 2 ^ (32 * n) * 2 ^ ?l"
      using l(3) by (intro mult_le_mono2) simp
    then have "val (take (Suc n) a) < 2 ^ (32 * n + ?l)"
      using low by (simp add: v power_add)
    moreover have "2 ^ (32 * n + ?l - 1) \<le> val (take (Suc n) a)"
    proof -
      have "2 ^ (32 * n + ?l - 1) = 2 ^ (32 * n) * (2 ^ (?l - 1) :: nat)"
        using l(1) by (simp flip: power_add)
      also have "\<dots> \<le> 2 ^ (32 * n) * unat (a ! n)" using l(2) by simp
      finally show ?thesis by (simp add: v)
    qed
    ultimately show ?thesis using False l32 by simp
  qed
qed

lemma bits_bounds:
  assumes "bu_wf a"
  shows "val a < 2 ^ bits a" and "0 < bits a \<Longrightarrow> 2 ^ (bits a - 1) \<le> val a" and "bits a \<le> 256"
  using bits_from_bounds [of WIDTH a] assms by (simp_all add: bits_def bu_wf_def WIDTH_def)

lemma bits_eq_0_iff: "bu_wf a \<Longrightarrow> bits a = 0 \<longleftrightarrow> val a = 0"
  using bits_bounds [of a] by (cases "bits a") auto

subsection \<open>Division\<close>

lemma val_set_bit:
  assumes "length q = WIDTH" and "s < 256" and "\<not> bit (val q) s"
  shows "val (q[s div 32 := q ! (s div 32) OR push_bit (s mod 32) 1]) = val q + 2 ^ s"
proof -
  let ?q = "q[s div 32 := q ! (s div 32) OR push_bit (s mod 32) 1]"
  have s: "s div 32 < length q" using assms by (simp add: WIDTH_def)
  have "val ?q = val q OR push_bit s 1"
  proof (rule bit_eqI)
    fix n :: nat
    have "n = s \<longleftrightarrow> n div 32 = s div 32 \<and> n mod 32 = s mod 32"
      by (metis mod_div_decomp)
    moreover have "n mod 32 < 32" by simp
    ultimately show "bit (val ?q) n = bit (val q OR push_bit s 1) n"
      using s by (cases "n div 32 = s div 32")
        (auto simp: bit_words_val bit_or_iff bit_exp_iff)
  qed
  moreover have "val q AND push_bit s 1 = 0"
    using assms(3) by (intro bit_eqI) (auto simp: bit_and_iff bit_exp_iff)
  ultimately show ?thesis
    by (simp add: disjunctive_add_eq_or [symmetric] push_bit_eq_mult)
qed

lemma bu_div_loop_val:
  assumes "bu_wf num" and "bu_wf dv" and "bu_wf q" and "n \<le> 256"
    and "val num < d * 2 ^ n" and "0 < n \<longrightarrow> val dv = d * 2 ^ (n - 1)"
    and "2 ^ n dvd val q"
  shows "bu_wf (bu_div_loop n num dv q) \<and> val (bu_div_loop n num dv q) = val q + val num div d"
  using assms
proof (induction n arbitrary: num dv q)
  case 0
  then show ?case by simp
next
  case (Suc s)
  have dv: "val dv = d * 2 ^ s" using Suc.prems by simp
  have d0: "0 < d" using Suc.prems(5) by (cases "d = 0") simp_all
  have shr: "0 < s \<longrightarrow> val (bu_shr dv 1) = d * 2 ^ (s - 1)"
  proof
    assume "0 < s"
    then obtain t where "s = Suc t" by (cases s) simp_all
    then show "val (bu_shr dv 1) = d * 2 ^ (s - 1)"
      using dv Suc.prems(2) by (simp add: val_bu_shr)
  qed
  have cmp: "CompareTo num dv \<ge> 0 \<longleftrightarrow> val dv \<le> val num"
    using Suc.prems by (simp add: CompareTo_val)
  have dvd: "2 ^ s dvd val q" using Suc.prems(7) by (rule power_le_dvd) simp
  show ?case
  proof (cases "val dv \<le> val num")
    case True
    define q' where "q' = q[s div 32 := q ! (s div 32) OR push_bit (s mod 32) 1]"
    have "\<not> bit (val q) s"
    proof -
      obtain k where "val q = 2 ^ Suc s * k" using Suc.prems(7) by (auto simp: dvd_def)
      then have "val q div 2 ^ s = 2 * k" by simp
      then show ?thesis by (simp add: bit_iff_odd)
    qed
    then have vq: "val q' = val q + 2 ^ s"
      unfolding q'_def using Suc.prems by (intro val_set_bit) (simp_all add: bu_wf_def)
    have sub: "val (bu_sub num dv) = val num - d * 2 ^ s"
      using Suc.prems True by (simp add: val_bu_sub_le dv)
    have "bu_wf (bu_div_loop s (bu_sub num dv) (bu_shr dv 1) q') \<and>
        val (bu_div_loop s (bu_sub num dv) (bu_shr dv 1) q') = val q' + val (bu_sub num dv) div d"
    proof (rule Suc.IH)
      show "bu_wf q'" using Suc.prems by (simp add: bu_wf_def q'_def)
      show "val (bu_sub num dv) < d * 2 ^ s" using Suc.prems(5) by (simp add: sub)
      show "2 ^ s dvd val q'" using dvd by (simp add: vq)
    qed (use Suc.prems shr in simp_all)
    moreover have "2 ^ s + (val num - d * 2 ^ s) div d = val num div d"
      using True d0 div_mult_self2 [of d "val num - d * 2 ^ s" "2 ^ s"] by (simp add: dv)
    ultimately show ?thesis using True cmp
      by (simp add: vq sub q'_def [symmetric, simplified])
  next
    case False
    then have "bu_wf (bu_div_loop s num (bu_shr dv 1) q) \<and>
        val (bu_div_loop s num (bu_shr dv 1) q) = val q + val num div d"
      using Suc.prems shr dvd dv by (intro Suc.IH) simp_all
    then show ?thesis using False cmp by simp
  qed
qed

lemma bu_div_val:
  assumes "bu_wf a" and "bu_wf b" and "val b \<noteq> 0"
  shows "\<exists>q. bu_div a b = Inr q \<and> bu_wf q \<and> val q = val a div val b"
proof (cases "bits b \<le> bits a")
  case False
  then have "val a < val b"
    using bits_bounds(1) [OF assms(1)] bits_bounds(2) [OF assms(2)]
      power_increasing [of "bits a" "bits b - 1" "2 :: nat"] by linarith
  then show ?thesis
    using False assms by (simp add: bu_div_def bits_eq_0_iff bu_zero_def bu_wf_def)
next
  case True
  let ?s = "bits a - bits b"
  have b0: "0 < bits b" using bits_eq_0_iff [OF assms(2)] assms(3) by linarith
  have "val b * 2 ^ ?s < 2 ^ bits b * 2 ^ ?s"
    using bits_bounds(1) [OF assms(2)] by simp
  also have "\<dots> \<le> 2 ^ 256"
    unfolding power_add [symmetric] using True bits_bounds(3) [OF assms(1)]
    by (intro power_increasing) simp_all
  finally have dv: "val (bu_shl b ?s) = val b * 2 ^ ?s"
    using assms by (simp add: val_bu_shl)
  have "bits b - 1 + Suc ?s = bits a" using True b0 by simp
  then have "val a < 2 ^ (bits b - 1) * 2 ^ Suc ?s"
    using bits_bounds(1) [OF assms(1)] by (simp only: power_add [symmetric])
  also have "\<dots> \<le> val b * 2 ^ Suc ?s"
    using bits_bounds(2) [OF assms(2) b0] by (intro mult_le_mono1)
  finally have "val a < val b * 2 ^ Suc ?s" .
  moreover have "Suc ?s \<le> 256" using b0 bits_bounds(3) [OF assms(1)] by simp
  ultimately have "bu_wf (bu_div_loop (Suc ?s) a (bu_shl b ?s) bu_zero) \<and>
      val (bu_div_loop (Suc ?s) a (bu_shl b ?s) bu_zero) = val bu_zero + val a div val b"
    using assms(1) dv by (intro bu_div_loop_val) simp_all
  then show ?thesis
    using True b0 by (auto simp: bu_div_def Let_def simp del: bu_div_loop.simps)
qed

section \<open>Compact encoding\<close>

lemma unat_GetLow64: "bu_wf a \<Longrightarrow> unat (GetLow64 a) = val a mod 2 ^ 64"
proof -
  assume "bu_wf a"
  then obtain x y zs where a: "a = x # y # zs"
    by (cases a; cases "tl a") (auto simp: bu_wf_def WIDTH_def)
  have "unat (ucast x OR push_bit 32 (ucast y) :: u64) = unat x + 2 ^ 32 * unat y"
  proof -
    have "ucast x AND push_bit 32 (ucast y) = (0 :: u64)"
      by (rule bit_eqI) (auto simp: bit_simps dest: bit_imp_le_length)
    then have "ucast x OR push_bit 32 (ucast y) = (ucast x + ucast y * 2 ^ 32 :: u64)"
      by (simp add: disjunctive_add_eq_or [symmetric] push_bit_eq_mult)
    moreover have "unat x + unat y * 2 ^ 32 < 2 ^ 64"
      using unat_u32_less [of x] unat_u32_less [of y] by simp
    ultimately show ?thesis by (simp add: unat_word_ariths)
  qed
  moreover have "unat x + 2 ^ 32 * unat y < 2 ^ 64"
    using unat_u32_less [of x] unat_u32_less [of y] by simp
  then have "unat x + 2 ^ 32 * unat y = ((unat x + 2 ^ 32 * unat y) + 2 ^ 64 * val zs) mod 2 ^ 64"
    by (simp only: mod_mult_self2 mod_less)
  moreover have "(unat x + 2 ^ 32 * unat y) + 2 ^ 64 * val zs = val a"
    by (simp add: a)
  ultimately show "unat (GetLow64 a) = val a mod 2 ^ 64"
    by (simp only: GetLow64_def) (simp add: a)
qed

lemma u32_and_7fffff: "w AND 0x007fffff = take_bit 23 w" for w :: u32
  by (simp add: take_bit_eq_mask mask_eq_exp_minus_1)

lemma u32_bit23: "w AND 0x00800000 \<noteq> 0 \<longleftrightarrow> odd (unat w div 2 ^ 23)" for w :: u32
proof -
  have "w AND 0x00800000 = w AND push_bit 23 1" by (simp add: push_bit_eq_mult)
  then have "w AND 0x00800000 \<noteq> 0 \<longleftrightarrow> bit w 23"
    by (simp only: bit_iff_and_push_bit_not_eq_0)
  also have "\<dots> \<longleftrightarrow> bit (unat w) 23" by (simp add: bit_unsigned_iff)
  finally show ?thesis by (simp only: bit_iff_odd)
qed

lemma u32_high_clear: "w AND NOT 0x007fffff = 0 \<longleftrightarrow> unat w < 2 ^ 23" for w :: u32
proof -
  have "w AND NOT 0x007fffff = w AND NOT (mask 23)" by (simp add: mask_eq_exp_minus_1)
  then have "w AND NOT 0x007fffff = 0 \<longleftrightarrow> take_bit 23 w = w"
    by (simp add: take_bit_eq_mask bit_eq_iff bit_simps) blast
  also have "\<dots> \<longleftrightarrow> unat w mod 2 ^ 23 = unat w"
    by (simp only: word_unat_eq_iff unat_take_bit)
  finally show ?thesis by (metis mod_less mod_less_divisor zero_less_numeral zero_less_power)
qed

lemma unat_or_push:
  fixes w :: u32
  assumes "unat w < 2 ^ k" and "unat w + s * 2 ^ k < 2 ^ 32"
  shows "unat (w OR push_bit k (of_nat s)) = unat w + s * 2 ^ k"
proof -
  have "w AND push_bit k (of_nat s) = 0"
  proof -
    have "take_bit k w = w"
      using assms(1) by (simp only: word_unat_eq_iff unat_take_bit mod_less)
    then have "w AND push_bit k (of_nat s) = take_bit k w AND push_bit k (of_nat s)" by simp
    also have "\<dots> = 0" by (auto simp: bit_eq_iff bit_simps)
    finally show ?thesis .
  qed
  then have "w OR push_bit k (of_nat s) = of_nat (unat w + s * 2 ^ k)"
    by (simp add: disjunctive_add_eq_or [symmetric] push_bit_eq_mult)
  then show ?thesis using assms(2) by (simp only: unat_of_nat) simp
qed

text \<open>The number a compact code denotes, and whether it leaves the 256-bit range.\<close>

definition compact_value :: "nat \<Rightarrow> nat \<Rightarrow> nat" where
  "compact_value sz mant = (if sz \<le> 3 then mant div 256 ^ (3 - sz) else mant * 256 ^ (sz - 3))"

lemma pow_256: "2 ^ (8 * n) = (256 ^ n :: nat)"
  by (simp add: power_mult)

definition compact_word :: "u32 \<Rightarrow> u32" where
  "compact_word c = (let sz = unat (drop_bit 24 c); w = c AND 0x007fffff
     in if sz \<le> 3 then drop_bit (8 * (3 - sz)) w else w)"

lemma unat_compact_word:
  "unat (compact_word c) = (if unat c div 2 ^ 24 \<le> 3
     then compact_value (unat c div 2 ^ 24) (unat c mod 2 ^ 23) else unat c mod 2 ^ 23)"
  by (simp add: compact_word_def compact_value_def u32_and_7fffff unat_drop_bit unat_take_bit Let_def
      pow_256 del: power_numeral)

lemma compact_word_bound: "unat (compact_word c) < 2 ^ 23"
proof -
  have m: "unat c mod 2 ^ 23 < 2 ^ 23" by simp
  then have "unat c mod 2 ^ 23 div k < 2 ^ 23" for k
    by (rule le_less_trans [OF div_le_dividend])
  then show ?thesis
    unfolding unat_compact_word compact_value_def using m by (simp only: split: if_split) blast
qed

lemma compact_value_eq:
  fixes c :: u32
  defines "sz \<equiv> unat c div 2 ^ 24"
  shows "compact_value sz (unat c mod 2 ^ 23) = unat (compact_word c) * 256 ^ (sz - 3)"
  by (simp add: unat_compact_word sz_def compact_value_def)

lemma overflow_condition:
  fixes w sz :: nat
  assumes "w < 2 ^ 23"
  shows "(w \<noteq> 0 \<and> (sz > 34 \<or> w > 0xff \<and> sz > 33 \<or> w > 0xffff \<and> sz > 32)) \<longleftrightarrow>
    2 ^ 256 \<le> w * 256 ^ (sz - 3)"
proof (cases "w = 0")
  case True
  then show ?thesis by simp
next
  case False
  have p: "(2 ^ 256 :: nat) = 256 ^ 32" by simp
  consider "sz \<le> 32" | "sz = 33" | "sz = 34" | "sz > 34" by linarith
  then show ?thesis
  proof cases
    case 1
    have "w * 256 ^ (sz - 3) < 256 ^ 3 * 256 ^ (sz - 3)"
      using assms by simp
    also have "\<dots> \<le> 256 ^ 32"
      unfolding power_add [symmetric] using 1 by (intro power_increasing) simp_all
    finally show ?thesis using 1 by (simp only: p) simp
  next
    case 2
    have "2 ^ 256 \<le> w * 256 ^ 30 \<longleftrightarrow> 256 ^ 2 \<le> w" by simp
    then show ?thesis using 2 False by (simp only:) auto
  next
    case 3
    have "2 ^ 256 \<le> w * 256 ^ 31 \<longleftrightarrow> 256 \<le> w" by simp
    then show ?thesis using 3 False by (simp only:) auto
  next
    case 4
    have "(256 :: nat) ^ 32 \<le> 256 ^ (sz - 3)" using 4 by (intro power_increasing) simp_all
    also have "\<dots> \<le> w * 256 ^ (sz - 3)" using False by simp
    finally show ?thesis using 4 False by (simp only: p) simp
  qed
qed

lemma SetCompact_value:
  fixes c :: u32
  defines "r \<equiv> SetCompact c" and "v \<equiv> compact_value (unat c div 2 ^ 24) (unat c mod 2 ^ 23)"
  shows "bu_wf (target r)" and "val (target r) = v mod 2 ^ 256"
    and "fNegative r \<longleftrightarrow> v \<noteq> 0 \<and> odd (unat c div 2 ^ 23)"
    and "fOverflow r \<longleftrightarrow> 2 ^ 256 \<le> v"
proof -
  let ?sz = "unat c div 2 ^ 24"
  let ?w = "compact_word c"
  have r: "r = \<lparr> target = (if ?sz \<le> 3 then bu_of_u64 (ucast ?w)
                            else bu_shl (bu_of_u64 (ucast ?w)) (8 * (?sz - 3))),
     fNegative = (?w \<noteq> 0 \<and> c AND 0x00800000 \<noteq> 0),
     fOverflow = (?w \<noteq> 0 \<and> (?sz > 34 \<or> ?w > 0xff \<and> ?sz > 33 \<or> ?w > 0xffff \<and> ?sz > 32)) \<rparr>"
    unfolding r_def SetCompact_def compact_word_def Let_def unat_drop_bit
    by (simp del: power_numeral)
  have v: "v = unat ?w * 256 ^ (?sz - 3)" unfolding v_def by (rule compact_value_eq)
  have w0: "?w \<noteq> 0 \<longleftrightarrow> unat ?w \<noteq> 0" by (simp add: unat_eq_0)
  show "bu_wf (target r)" by (simp add: r)
  have "unat ?w < 2 ^ 256" using compact_word_bound [of c] by simp
  then show "val (target r) = v mod 2 ^ 256"
    by (simp add: r v val_bu_of_u64 val_bu_shl pow_256 del: power_numeral)
  show "fNegative r \<longleftrightarrow> v \<noteq> 0 \<and> odd (unat c div 2 ^ 23)"
    by (simp add: r v w0 u32_bit23 del: power_numeral)
  have "fOverflow r \<longleftrightarrow> (unat ?w \<noteq> 0 \<and>
      (?sz > 34 \<or> unat ?w > 0xff \<and> ?sz > 33 \<or> unat ?w > 0xffff \<and> ?sz > 32))"
    by (simp add: r w0 word_less_nat_alt del: power_numeral)
  then show "fOverflow r \<longleftrightarrow> 2 ^ 256 \<le> v"
    by (simp only: v overflow_condition [OF compact_word_bound])
qed

text \<open>The size and mantissa that \<open>GetCompact\<close> packs.\<close>

lemma byte_size_bounds:
  assumes "bu_wf a"
  defines "sz \<equiv> (bits a + 7) div 8"
  shows "val a < 256 ^ sz" and "0 < sz \<Longrightarrow> 256 ^ (sz - 1) \<le> val a" and "sz \<le> 32"
proof -
  have le: "bits a \<le> 8 * sz" by (simp add: sz_def)
  have "val a < 2 ^ bits a" using assms by (simp add: bits_bounds)
  also have "\<dots> \<le> 2 ^ (8 * sz)" using le by (intro power_increasing) simp_all
  finally show "val a < 256 ^ sz" by (simp add: pow_256)
  show "sz \<le> 32" using bits_bounds(3) [OF assms(1)] by (simp add: sz_def)
  assume "0 < sz"
  then have b: "8 * (sz - 1) \<le> bits a - 1" "0 < bits a" by (auto simp: sz_def)
  have "256 ^ (sz - 1) = (2 ^ (8 * (sz - 1)) :: nat)" by (simp add: pow_256)
  also have "\<dots> \<le> 2 ^ (bits a - 1)" using b by (intro power_increasing) simp_all
  also have "\<dots> \<le> val a" by (rule bits_bounds(2) [OF assms(1) b(2)])
  finally show "256 ^ (sz - 1) \<le> val a" .
qed

definition mantissa24 :: "nat \<Rightarrow> nat \<Rightarrow> nat" where
  "mantissa24 v sz = (if sz \<le> 3 then v * 256 ^ (3 - sz) else v div 256 ^ (sz - 3))"

lemma mantissa24_bound:
  assumes "v < 256 ^ sz"
  shows "mantissa24 v sz < 2 ^ 24"
proof (cases "sz \<le> 3")
  case True
  have "v * 256 ^ (3 - sz) < 256 ^ sz * 256 ^ (3 - sz)" using assms by simp
  also have "\<dots> = 256 ^ 3" using True by (simp flip: power_add)
  finally show ?thesis using True by (simp add: mantissa24_def)
next
  case False
  have "(256 :: nat) ^ sz = 256 ^ 3 * 256 ^ (sz - 3)"
    using False by (simp only: power_add [symmetric]) simp
  then have "v div 256 ^ (sz - 3) < 256 ^ 3" using assms by (simp add: less_mult_imp_div_less)
  then show ?thesis using False by (simp add: mantissa24_def)
qed

lemma mantissa24_normal:
  assumes "256 ^ (sz - 1) \<le> v" and "0 < sz"
  shows "2 ^ 16 \<le> mantissa24 v sz"
proof (cases "sz \<le> 3")
  case True
  then have "(256 :: nat) ^ 2 = 256 ^ (sz - 1) * 256 ^ (3 - sz)"
    using assms(2) by (simp flip: power_add)
  also have "\<dots> \<le> v * 256 ^ (3 - sz)" using assms(1) by simp
  finally show ?thesis using True by (simp add: mantissa24_def)
next
  case False
  have "sz - 1 = 2 + (sz - 3)" using False by simp
  then have "(256 :: nat) ^ (sz - 1) = 256 ^ 2 * 256 ^ (sz - 3)"
    by (simp only: power_add [symmetric])
  then have "256 ^ 2 * 256 ^ (sz - 3) div 256 ^ (sz - 3) \<le> v div 256 ^ (sz - 3)"
    using assms(1) by (intro div_le_mono) simp
  then show ?thesis using False by (simp add: mantissa24_def)
qed

lemma GetCompact_parts:
  assumes "bu_wf a"
  defines "sz0 \<equiv> (bits a + 7) div 8"
  defines "m0 \<equiv> mantissa24 (val a) sz0"
  defines "m \<equiv> (if 2 ^ 23 \<le> m0 then m0 div 256 else m0)"
    and "sz \<equiv> (if 2 ^ 23 \<le> m0 then sz0 + 1 else sz0)"
  shows "\<exists>c. GetCompact a False = Some c \<and> unat c = m + sz * 2 ^ 24"
    and "m < 2 ^ 23" and "sz \<le> 33"
proof -
  have b: "val a < 256 ^ sz0" "sz0 \<le> 32" using byte_size_bounds [OF assms(1)] by (simp_all add: sz0_def)
  have m0: "m0 < 2 ^ 24" unfolding m0_def by (rule mantissa24_bound) (rule b(1))
  then have "m0 div 256 < 2 ^ 23" by (simp add: less_mult_imp_div_less)
  then show m: "m < 2 ^ 23" by (simp add: m_def)
  show sz: "sz \<le> 33" using b by (simp add: sz_def)
  define w where "w = (if sz0 \<le> 3 then ucast (push_bit (8 * (3 - sz0)) (GetLow64 a))
                       else ucast (GetLow64 (bu_shr a (8 * (sz0 - 3)))) :: u32)"
  have w: "unat w = m0"
  proof (cases "sz0 \<le> 3")
    case True
    have "256 ^ sz0 \<le> (256 :: nat) ^ 3" using True by (intro power_increasing) simp_all
    then have low: "unat (GetLow64 a) = val a" using b(1) assms(1) by (simp add: unat_GetLow64)
    have "val a * 256 ^ (3 - sz0) < 2 ^ 24" using m0 True by (simp add: m0_def mantissa24_def)
    then have "unat (push_bit (8 * (3 - sz0)) (GetLow64 a)) = val a * 256 ^ (3 - sz0)"
      by (simp add: unat_push_bit low pow_256)
    then show ?thesis using m0 True by (simp add: w_def unat_ucast_mod m0_def mantissa24_def)
  next
    case False
    have "val (bu_shr a (8 * (sz0 - 3))) = m0"
      using False assms(1) by (simp add: val_bu_shr m0_def mantissa24_def pow_256)
    then show ?thesis using False m0 by (simp add: w_def unat_ucast_mod unat_GetLow64)
  qed
  define w1 where "w1 = (if 2 ^ 23 \<le> m0 then drop_bit 8 w else w)"
  have top: "w AND 0x00800000 \<noteq> 0 \<longleftrightarrow> 2 ^ 23 \<le> m0"
  proof -
    have "m0 div 2 ^ 23 < 2" using m0 by (simp add: less_mult_imp_div_less)
    then have "odd (m0 div 2 ^ 23) \<longleftrightarrow> m0 div 2 ^ 23 \<noteq> 0" by (auto simp: less_2_cases_iff)
    also have "\<dots> \<longleftrightarrow> 2 ^ 23 \<le> m0" by (simp add: div_eq_0_iff not_less)
    finally show ?thesis by (simp only: u32_bit23 w)
  qed
  have w1: "unat w1 = m" by (simp add: w1_def m_def unat_drop_bit w)
  then have clear: "w1 AND NOT 0x007fffff = 0" using m by (simp only: u32_high_clear)
  have "GetCompact a False = Some (w1 OR push_bit 24 (of_nat sz))"
  proof -
    have pair: "(if w AND 0x00800000 \<noteq> 0 then (drop_bit 8 w, sz0 + 1) else (w, sz0)) = (w1, sz)"
      unfolding top w1_def sz_def by simp
    have "\<not> (w1 AND NOT 0x007fffff \<noteq> 0 \<or> \<not> sz < 256)" using sz clear by linarith
    then show ?thesis
      unfolding GetCompact_def Let_def sz0_def [symmetric] w_def [symmetric] pair prod.case
      by (simp only: if_False simp_thms or.right_neutral)
  qed
  moreover have "unat (w1 OR push_bit 24 (of_nat sz)) = m + sz * 2 ^ 24"
    using unat_or_push [of w1 24 sz] m sz by (simp add: w1)
  ultimately show "\<exists>c. GetCompact a False = Some c \<and> unat c = m + sz * 2 ^ 24" by blast
qed

text \<open>
  What is lost by packing: the number is cut to a multiple of \<open>256 ^ (size - 3)\<close>, and the
  mantissa keeps at least 15 significant bits.
\<close>

lemma mantissa24_back:
  assumes "v < 256 ^ sz"
  shows "compact_value sz (mantissa24 v sz) = v - v mod 256 ^ (sz - 3)"
  by (simp add: compact_value_def mantissa24_def minus_mod_eq_mult_div [symmetric] mult.commute)

lemma mantissa24_shift_back:
  "compact_value (sz + 1) (mantissa24 v sz div 256) = v - v mod 256 ^ (sz + 1 - 3)"
proof (cases "sz < 3")
  case True
  then have e: "3 - sz = Suc (2 - sz)" by simp
  have "v * 256 ^ (3 - sz) div 256 = v * 256 ^ (2 - sz)" by (simp add: e)
  then show ?thesis using True by (simp add: compact_value_def mantissa24_def)
next
  case False
  then have "mantissa24 v sz = v div 256 ^ (sz - 3)" by (auto simp: mantissa24_def)
  then have "mantissa24 v sz div 256 = v div (256 ^ (sz - 3) * 256)"
    by (simp only: div_mult2_eq)
  also have "(256 ^ (sz - 3) * 256 :: nat) = 256 ^ (sz + 1 - 3)"
  proof -
    have "sz + 1 - 3 = Suc (sz - 3)" using False by simp
    then show ?thesis by (simp only: power_Suc2)
  qed
  finally have "compact_value (sz + 1) (mantissa24 v sz div 256) =
      v div 256 ^ (sz + 1 - 3) * 256 ^ (sz + 1 - 3)"
    using False by (simp add: compact_value_def)
  then show ?thesis by (simp only: minus_mod_eq_div_mult)
qed

lemma GetCompact_spec:
  assumes "bu_wf a"
  obtains c sz m where "GetCompact a False = Some c" and "unat c = m + sz * 2 ^ 24"
    and "m < 2 ^ 23" and "sz \<le> 33" and "compact_value sz m = val a - val a mod 256 ^ (sz - 3)"
    and "val a \<noteq> 0 \<Longrightarrow> 2 ^ 15 \<le> m"
proof -
  define sz0 m0 where "sz0 = (bits a + 7) div 8" and "m0 = mantissa24 (val a) sz0"
  define m sz where "m = (if 2 ^ 23 \<le> m0 then m0 div 256 else m0)"
    and "sz = (if 2 ^ 23 \<le> m0 then sz0 + 1 else sz0)"
  note parts = GetCompact_parts [OF assms, folded sz0_def, folded m0_def, folded m_def sz_def]
  have b: "val a < 256 ^ sz0" using byte_size_bounds [OF assms] by (simp add: sz0_def)
  have cv: "compact_value sz m = val a - val a mod 256 ^ (sz - 3)"
    using mantissa24_back [OF b] mantissa24_shift_back [of sz0 "val a"]
    by (simp add: m_def sz_def m0_def)
  have normal: "2 ^ 15 \<le> m" if "val a \<noteq> 0"
  proof -
    have "0 < sz0" using b that by (cases sz0) simp_all
    then have "2 ^ 16 \<le> m0"
      using byte_size_bounds(2) [OF assms] unfolding m0_def sz0_def by (intro mantissa24_normal)
    moreover have "2 ^ 15 \<le> m0 div 256" if "2 ^ 23 \<le> m0"
      using div_le_mono [OF that, of 256] by simp
    ultimately show ?thesis by (simp add: m_def)
  qed
  obtain c where "GetCompact a False = Some c" "unat c = m + sz * 2 ^ 24" using parts(1) by blast
  then show thesis using that parts(2,3) cv normal by blast
qed

lemma SetCompact_of_parts:
  assumes "unat c = m + sz * 2 ^ 24" and "m < 2 ^ 23" and "compact_value sz m < 2 ^ 256"
  shows "bu_wf (target (SetCompact c))" and "val (target (SetCompact c)) = compact_value sz m"
    and "\<not> fNegative (SetCompact c)" and "\<not> fOverflow (SetCompact c)"
proof -
  have d: "unat c div 2 ^ 24 = sz" using assms by simp
  have "unat c = m + 2 ^ 23 * (2 * sz)" using assms(1) by simp
  then have m: "unat c mod 2 ^ 23 = m" "unat c div 2 ^ 23 = 2 * sz"
    using assms(2) by (simp_all only: mod_mult_self2 mod_less div_mult_self2 div_less add_0_left
        power_not_zero zero_neq_numeral not_False_eq_True)
  show "bu_wf (target (SetCompact c))" "val (target (SetCompact c)) = compact_value sz m"
    "\<not> fNegative (SetCompact c)" "\<not> fOverflow (SetCompact c)"
    using SetCompact_value [of c] assms(3) by (simp_all only: d m mod_less) simp_all
qed

lemma bu_eq_iff: "bu_wf a \<Longrightarrow> bu_wf b \<Longrightarrow> a = b \<longleftrightarrow> val a = val b"
  using words_val_inj [of a b] by (auto simp: bu_wf_def)

lemma pow256_ge: "3 < sz \<Longrightarrow> 256 \<le> (256 :: nat) ^ (sz - 3)"
  by (cases "sz - 3") simp_all

lemma compact_cut:
  assumes "compact_value sz m = v - v mod 256 ^ (sz - 3)" and "m < 2 ^ 23" and "v \<noteq> 0 \<Longrightarrow> 2 ^ 15 \<le> m"
  shows "compact_value sz m \<le> v" and "(v - compact_value sz m) * 2 ^ 15 \<le> v"
    and "v < 2 ^ 23 \<Longrightarrow> compact_value sz m = v"
proof -
  show "compact_value sz m \<le> v" using assms(1) by simp
  have lost: "v - compact_value sz m = v mod 256 ^ (sz - 3)" using assms(1) by simp
  show "(v - compact_value sz m) * 2 ^ 15 \<le> v"
  proof (cases "v = 0 \<or> sz \<le> 3")
    case True
    then show ?thesis by (auto simp: lost)
  next
    case False
    then have "compact_value sz m = m * 256 ^ (sz - 3)" by (simp add: compact_value_def)
    then have le: "m * 256 ^ (sz - 3) \<le> v" using assms(1) by simp
    have "v mod 256 ^ (sz - 3) * 2 ^ 15 \<le> 256 ^ (sz - 3) * 2 ^ 15"
      by (intro mult_le_mono1 less_imp_le) simp
    also have "\<dots> \<le> m * 256 ^ (sz - 3)" using False assms(3) by simp
    finally show ?thesis unfolding lost using le by (rule le_trans)
  qed
  assume small: "v < 2 ^ 23"
  show "compact_value sz m = v"
  proof (cases "v = 0 \<or> sz \<le> 3")
    case True
    then show ?thesis using assms(1) by auto
  next
    case False
    then have "256 \<le> (256 :: nat) ^ (sz - 3)" by (intro pow256_ge) simp
    then have "2 ^ 15 * 256 \<le> m * 256 ^ (sz - 3)"
      using False assms(3) by (intro mult_le_mono) simp_all
    also have "\<dots> = compact_value sz m" using False by (simp add: compact_value_def)
    also have "\<dots> \<le> v" using assms(1) by simp
    finally show ?thesis using small by simp
  qed
qed

lemma compact_value_unique:
  assumes "2 ^ 15 \<le> m" and "m < 2 ^ 23" and "3 < sz"
    and "2 ^ 15 \<le> m'" and "m' < 2 ^ 23"
    and "compact_value sz' m' = m * 256 ^ (sz - 3) - m * 256 ^ (sz - 3) mod 256 ^ (sz' - 3)"
  shows "sz' = sz \<and> m' = m"
proof -
  let ?t = "m * 256 ^ (sz - 3)"
  have "2 ^ 15 * 256 \<le> ?t"
    using assms(1) pow256_ge [OF assms(3)] by (rule mult_le_mono)
  then have big: "2 ^ 23 \<le> ?t" by simp
  have "3 < sz'"
  proof (rule ccontr)
    assume "\<not> 3 < sz'"
    then have "compact_value sz' m' = ?t" using assms(6) by simp
    moreover have "compact_value sz' m' \<le> m'" using \<open>\<not> 3 < sz'\<close> by (simp add: compact_value_def)
    ultimately show False using big assms(5) by simp
  qed
  then have eq: "m' * 256 ^ (sz' - 3) = ?t - ?t mod 256 ^ (sz' - 3)"
    using assms(6) by (simp add: compact_value_def)
  have grow: "m * 256 ^ (k - 3) < n * 256 ^ (l - 3)" if "m < 2 ^ 23" "2 ^ 15 \<le> n" "3 < k" "k < l"
    for m n k l :: nat
  proof -
    have "m * 256 ^ (k - 3) < 2 ^ 15 * (256 * 256 ^ (k - 3))" using that(1) by simp
    also have "256 * 256 ^ (k - 3) \<le> (256 :: nat) ^ (l - 3)"
      unfolding power_Suc [symmetric] using that by (intro power_increasing) simp_all
    then have "2 ^ 15 * (256 * 256 ^ (k - 3)) \<le> n * 256 ^ (l - 3)"
      using that(2) by (rule mult_le_mono [rotated])
    finally show ?thesis .
  qed
  have "\<not> sz < sz'" using grow [of m m' sz sz'] assms eq by auto
  moreover have "\<not> sz' < sz"
  proof
    assume lt: "sz' < sz"
    then have "256 ^ (sz' - 3) dvd ?t" by (simp add: dvd_mult le_imp_power_dvd)
    then have "m' * 256 ^ (sz' - 3) = ?t" using eq by simp
    then show False using grow [of m' m sz' sz] assms lt \<open>3 < sz'\<close> by simp
  qed
  ultimately show ?thesis using eq by simp
qed

section \<open>Conversion from and to bytes\<close>

lemma ReadLE32_val: "4 \<le> length b \<Longrightarrow> unat (ReadLE32 b) = words_val (take 4 b)"
  by (simp add: ReadLE32_def unat_word_of_bytes)

lemma limbs_of_bytes:
  assumes "length b = n * 4"
  shows "val (map (\<lambda>x. ReadLE32 (drop (x * 4) b)) [0..<n]) = words_val b"
  using assms
proof (induction n arbitrary: b)
  case 0
  then show ?case by simp
next
  case (Suc n)
  have split: "map (\<lambda>x. ReadLE32 (drop (x * 4) b)) [0..<Suc n] =
      ReadLE32 b # map (\<lambda>x. ReadLE32 (drop (x * 4) (drop 4 b))) [0..<n]"
    by (simp add: upt_conv_Cons map_Suc_upt [symmetric] add.commute del: upt_Suc)
  have "val (map (\<lambda>x. ReadLE32 (drop (x * 4) b)) [0..<Suc n]) =
      words_val (take 4 b) + 2 ^ 32 * words_val (drop 4 b)"
    using Suc.prems Suc.IH [of "drop 4 b"] by (simp only: split) (simp add: ReadLE32_val)
  also have "\<dots> = words_val b"
    using words_val_append [of "take 4 b" "drop 4 b"] Suc.prems by simp
  finally show ?case .
qed

lemma UintToArith256_wf [simp]: "bu_wf (UintToArith256 b)"
  by (simp add: UintToArith256_def bu_wf_def)

lemma val_UintToArith256: "length b = 32 \<Longrightarrow> val (UintToArith256 b) = words_val b"
  unfolding UintToArith256_def by (rule limbs_of_bytes) (simp add: WIDTH_def)

lemma bytes_of_limbs:
  "words_val (concat (map WriteLE32 a)) = val a" "length (concat (map WriteLE32 a)) = length a * 4"
proof (induction a)
  case (Cons x xs)
  have "words_val (WriteLE32 x) = unat x"
    using unat_u32_less [of x] by (simp add: WriteLE32_def bytes_of_word_words_of words_val_of)
  moreover have "length (WriteLE32 x) = 4" by (simp add: WriteLE32_def)
  ultimately show "words_val (concat (map WriteLE32 (x # xs))) = val (x # xs)"
    and "length (concat (map WriteLE32 (x # xs))) = length (x # xs) * 4"
    using Cons by (simp_all add: words_val_append)
qed simp_all

lemma ArithToUint256_concat: "bu_wf a \<Longrightarrow> ArithToUint256 a = concat (map WriteLE32 a)"
proof -
  assume "bu_wf a"
  then have "map (\<lambda>x. WriteLE32 (a ! x)) [0..<WIDTH] = map WriteLE32 a"
    by (intro nth_equalityI) (simp_all add: bu_wf_def)
  then show "ArithToUint256 a = concat (map WriteLE32 a)" by (simp add: ArithToUint256_def)
qed

lemma Uint_Arith_roundtrip: "bu_wf a \<Longrightarrow> UintToArith256 (ArithToUint256 a) = a"
proof -
  assume a: "bu_wf a"
  then have "length (ArithToUint256 a) = 32"
    by (simp add: ArithToUint256_concat bytes_of_limbs(2)) (simp add: bu_wf_def WIDTH_def)
  then show "UintToArith256 (ArithToUint256 a) = a"
    using a by (simp add: bu_eq_iff val_UintToArith256 ArithToUint256_concat bytes_of_limbs(1))
qed

lemma EqualTo_val: "bu_wf a \<Longrightarrow> EqualTo a b \<longleftrightarrow> val a = unat b"
proof -
  assume a: "bu_wf a"
  have hi: "ucast x = drop_bit 32 b \<longleftrightarrow> x = ucast (drop_bit 32 b)" for x :: u32
  proof -
    have "unat b div 2 ^ 32 < 2 ^ 32" using unat_u64_less [of b] by simp
    then show ?thesis by (simp add: word_unat_eq_iff unat_drop_bit unat_ucast_mod [where 'a = 64])
  qed
  have lo: "ucast x = b AND 0xffffffff \<longleftrightarrow> x = ucast b" for x :: u32
    by (simp add: word_unat_eq_iff and_low32 unat_take_bit unat_ucast_mod [where 'a = 64])
  obtain x0 x1 x2 x3 x4 x5 x6 x7 where "a = [x0, x1, x2, x3, x4, x5, x6, x7]"
    using a by (auto simp: bu_wf_def WIDTH_def numeral_eq_Suc length_Suc_conv)
  moreover have "[2..<8] = [2, 3, 4, 5, 6, 7]" by (simp add: upt_rec)
  moreover have "replicate 6 (0 :: u32) = [0, 0, 0, 0, 0, 0]" by (simp add: numeral_eq_Suc)
  ultimately have "EqualTo a b \<longleftrightarrow> a = bu_of_u64 b"
    by (auto simp: EqualTo_def WIDTH_def hi lo bu_of_u64_def)
  then show ?thesis using a by (simp add: bu_eq_iff val_bu_of_u64)
qed

lemma GetCompact_rounds:
  assumes "bu_wf a"
  shows "\<exists>c. GetCompact a False = Some c \<and>
    (let r = SetCompact c
     in \<not> fNegative r \<and> \<not> fOverflow r \<and> words_val (target r) \<le> words_val a
        \<and> (words_val a - words_val (target r)) * 2 ^ 15 \<le> words_val a
        \<and> (words_val a < 2 ^ 23 \<longrightarrow> words_val (target r) = words_val a)
        \<and> GetCompact (target r) False = Some c)"
proof -
  obtain c sz m where c: "GetCompact a False = Some c" "unat c = m + sz * 2 ^ 24" "m < 2 ^ 23"
    "compact_value sz m = val a - val a mod 256 ^ (sz - 3)" "val a \<noteq> 0 \<Longrightarrow> 2 ^ 15 \<le> m"
    using GetCompact_spec [OF assms] by metis
  note cut = compact_cut [OF c(4,3,5)]
  have "compact_value sz m < 2 ^ 256" using cut(1) val_bound [OF assms] by linarith
  note r = SetCompact_of_parts [OF c(2,3) this]
  have "GetCompact (target (SetCompact c)) False = Some c"
  proof (cases "val a = 0 \<or> sz \<le> 3")
    case True
    then have "val (target (SetCompact c)) = val a" using r(2) c(4) by auto
    then have "target (SetCompact c) = a" using r(1) assms by (simp add: bu_eq_iff)
    then show ?thesis using c(1) by simp
  next
    case False
    then have t: "val (target (SetCompact c)) = m * 256 ^ (sz - 3)" "2 ^ 15 \<le> m"
      using r(2) c(5) by (auto simp: compact_value_def)
    obtain c' sz' m' where c': "GetCompact (target (SetCompact c)) False = Some c'"
      "unat c' = m' + sz' * 2 ^ 24" "m' < 2 ^ 23"
      "compact_value sz' m' = m * 256 ^ (sz - 3) - m * 256 ^ (sz - 3) mod 256 ^ (sz' - 3)"
      "m * 256 ^ (sz - 3) \<noteq> 0 \<Longrightarrow> 2 ^ 15 \<le> m'"
      using GetCompact_spec [OF r(1)] unfolding t(1) by metis
    have "sz' = sz \<and> m' = m"
      using False t(2) c(3) c' by (intro compact_value_unique) auto
    then have "c' = c" using c(2) c'(2) by (simp add: word_unat_eq_iff)
    then show ?thesis using c'(1) by simp
  qed
  then show ?thesis using c(1) r cut by (auto simp: Let_def)
qed

section \<open>The interface of target arithmetic\<close>

text \<open>
  What retargeting relies on: numbers of a fixed width with a 32-bit multiplication that
  wraps, a division that fails on zero only, and a comparison.
\<close>

locale target_arith =
  fixes wf :: "'a \<Rightarrow> bool" and num :: "'a \<Rightarrow> nat" and width :: nat
    and of64 :: "u64 \<Rightarrow> 'a" and mul :: "'a \<Rightarrow> u32 \<Rightarrow> 'a" and quot :: "'a \<Rightarrow> 'a \<Rightarrow> 'e + 'a"
    and cmp :: "'a \<Rightarrow> 'a \<Rightarrow> int"
  assumes num_less: "wf a \<Longrightarrow> num a < 2 ^ width"
    and wf_of64: "wf (of64 w)" and num_of64: "num (of64 w) = unat w"
    and wf_mul: "wf a \<Longrightarrow> wf (mul a m)" and num_mul: "wf a \<Longrightarrow> num (mul a m) = num a * unat m mod 2 ^ width"
    and quot_num: "wf a \<Longrightarrow> wf b \<Longrightarrow> num b \<noteq> 0 \<Longrightarrow> \<exists>q. quot a b = Inr q \<and> wf q \<and> num q = num a div num b"
    and quot_zero: "wf a \<Longrightarrow> wf b \<Longrightarrow> num b = 0 \<Longrightarrow> \<exists>e. quot a b = Inl e"
    and cmp_num: "wf a \<Longrightarrow> wf b \<Longrightarrow> cmp a b = (if num a < num b then - 1 else if num b < num a then 1 else 0)"
begin

lemma num_clamp:
  assumes "wf a" and "wf l"
  shows "num (if cmp a l > 0 then l else a) = min (num a) (num l)"
  using assms by (simp add: cmp_num)

lemma divide_scale:
  assumes "wf a" and "d \<noteq> 0"
  obtains q where "quot a (of64 d) = Inr q" and "wf (mul q m)"
    and "num (mul q m) = num a div unat d * unat m mod 2 ^ width"
proof -
  have "num (of64 d) \<noteq> 0" using assms(2) by (simp add: num_of64 unat_eq_0)
  then obtain q where "quot a (of64 d) = Inr q" "wf q" "num q = num a div unat d"
    using quot_num [OF assms(1) wf_of64] by (auto simp: num_of64)
  then show thesis using that by (simp add: wf_mul num_mul)
qed

lemma divide_scale_le:
  assumes "wf a" and "unat m \<le> unat d" and "d \<noteq> 0"
  obtains q where "quot a (of64 d) = Inr q" and "wf (mul q m)"
    and "num (mul q m) = num a div unat d * unat m" and "num (mul q m) \<le> num a"
proof -
  obtain q where q: "quot a (of64 d) = Inr q" "wf (mul q m)"
    "num (mul q m) = num a div unat d * unat m mod 2 ^ width"
    using divide_scale [OF assms(1,3)] by blast
  have le: "num a div unat d * unat m \<le> num a"
    using assms(2) div_times_less_eq_dividend [of "num a" "unat d"] mult_le_mono2 [of "unat m" "unat d" "num a div unat d"]
    by linarith
  then have "num (mul q m) = num a div unat d * unat m"
    using q(3) num_less [OF assms(1)] by simp
  then show thesis using that [OF q(1,2)] le by simp
qed

lemma scale_divide:
  assumes "wf a" and "d \<noteq> 0"
  obtains q where "quot (mul a m) (of64 d) = Inr q" and "wf q"
    and "num q = (num a * unat m mod 2 ^ width) div unat d"
proof -
  have "num (of64 d) \<noteq> 0" using assms(2) by (simp add: num_of64 unat_eq_0)
  then show thesis
    using quot_num [OF wf_mul [OF assms(1)] wf_of64, of d m] that assms(1) by (auto simp: num_of64 num_mul)
qed

end

interpretation bu: target_arith bu_wf words_val 256 bu_of_u64 bu_mul32 bu_div CompareTo
proof
  show "\<exists>q. bu_div a b = Inr q \<and> bu_wf q \<and> val q = val a div val b" if "bu_wf a" "bu_wf b" "val b \<noteq> 0" for a b
    using that by (rule bu_div_val)
  show "\<exists>e. bu_div a b = Inl e" if "bu_wf a" "bu_wf b" "val b = 0" for a b
    using that by (simp add: bu_div_def bits_eq_0_iff)
  show "val (bu_mul32 a m) = val a * unat m mod 2 ^ 256" if "bu_wf a" for a m
    using that by (rule val_bu_mul32)
  show "val a < 2 ^ 256" if "bu_wf a" for a using that by (rule val_bound)
qed (simp_all add: val_bu_of_u64 CompareTo_val)

section \<open>Properties\<close>

text \<open>
  C9: the limb loops of \<open>base_uint<256>\<close> compute in the integers modulo \<open>2 ^ 256\<close>: sum,
  difference, product, product with a 32-bit factor, negation and complement, and the two
  shifts.
\<close>

theorem base_uint_arithmetic:
  assumes "bu_wf a" and "bu_wf b"
  shows "words_val (bu_add a b) = (words_val a + words_val b) mod 2 ^ 256
    \<and> words_val (bu_sub a b) = (words_val a + (2 ^ 256 - words_val b)) mod 2 ^ 256
    \<and> words_val (bu_mul a b) = (words_val a * words_val b) mod 2 ^ 256
    \<and> words_val (bu_mul32 a m) = (words_val a * unat m) mod 2 ^ 256
    \<and> words_val (bu_neg a) = (2 ^ 256 - words_val a) mod 2 ^ 256
    \<and> words_val (bu_not a) = 2 ^ 256 - 1 - words_val a
    \<and> words_val (bu_shl a s) = (words_val a * 2 ^ s) mod 2 ^ 256
    \<and> words_val (bu_shr a s) = words_val a div 2 ^ s"
  using assms by (intro conjI bu_val)

theorem base_uint_arithmetic_witness:
  "bu_wf (bu_of_u64 0xffffffffffffffff) \<and> bu_wf (bu_of_u64 2) \<and>
   words_val (bu_mul (bu_of_u64 0xffffffffffffffff) (bu_of_u64 2)) = 36893488147419103230"
  using base_uint_arithmetic [of "bu_of_u64 0xffffffffffffffff" "bu_of_u64 2"]
  by (simp add: val_bu_of_u64)

text \<open>
  C10: the shift-and-subtract loop of \<open>operator/=\<close> returns the integer quotient, and throws
  exactly when the divisor is zero.
\<close>

theorem base_uint_division:
  assumes "bu_wf a" and "bu_wf b"
  shows "bu_div a b = (if words_val b = 0 then Inl DivisionByZero
     else Inr (words_of WIDTH (words_val a div words_val b)))"
proof (cases "words_val b = 0")
  case True
  then show ?thesis using assms by (simp add: bu_div_def bits_eq_0_iff)
next
  case False
  then obtain q where q: "bu_div a b = Inr q" "bu_wf q" "val q = val a div val b"
    using bu_div_val [OF assms] by blast
  then have "words_of WIDTH (val a div val b) = q"
    using words_of_val [of q] by (simp add: bu_wf_def)
  then show ?thesis using False q by simp
qed

theorem base_uint_division_witness:
  "bu_div (bu_of_u64 1000000007) (bu_of_u64 10) = Inr (words_of WIDTH 100000000)"
  using base_uint_division [of "bu_of_u64 1000000007" "bu_of_u64 10"] by (simp add: val_bu_of_u64)

text \<open>
  \<open>SetCompact\<close> decodes size and 23-bit mantissa to \<open>mantissa * 256 ^ (size - 3)\<close>
  (rounded down for sizes below 3), reports overflow exactly when that number needs more
  than 256 bits, and reports a negative number exactly when it is nonzero with the sign
  bit set.
\<close>

theorem SetCompact_decodes:
  "let r = SetCompact c; v = compact_value (unat c div 2 ^ 24) (unat c mod 2 ^ 23)
   in words_val (target r) = v mod 2 ^ 256 \<and> (fOverflow r \<longleftrightarrow> 2 ^ 256 \<le> v)
      \<and> (fNegative r \<longleftrightarrow> v \<noteq> 0 \<and> odd (unat c div 2 ^ 23))"
  using SetCompact_value [of c] by (simp add: Let_def)

text \<open>
  C11: \<open>GetCompact\<close> never fails its assertions; decoding its result gives a valid target
  that is not larger than the number, loses at most one part in \<open>2 ^ 15\<close> (nothing below
  \<open>2 ^ 23\<close>), and encodes to the same compact value again.
\<close>

theorem GetCompact_roundtrip:
  assumes "bu_wf a"
  shows "\<exists>c. GetCompact a False = Some c \<and>
    (let r = SetCompact c
     in \<not> fNegative r \<and> \<not> fOverflow r \<and> words_val (target r) \<le> words_val a
        \<and> (words_val a - words_val (target r)) * 2 ^ 15 \<le> words_val a
        \<and> (words_val a < 2 ^ 23 \<longrightarrow> words_val (target r) = words_val a)
        \<and> GetCompact (target r) False = Some c)"
  by (rule GetCompact_rounds [OF assms])

theorem GetCompact_roundtrip_witness:
  "bu_wf (bu_of_u64 0x12345678) \<and> GetCompact (bu_of_u64 0x12345678) False = Some 0x04123456 \<and>
   GetCompact (target (SetCompact 0x04123456)) False = Some 0x04123456"
proof -
  have "GetCompact (bu_of_u64 0x12345678) False = Some 0x04123456" by code_simp
  then show ?thesis using GetCompact_roundtrip [of "bu_of_u64 0x12345678"] by (auto simp: Let_def)
qed

end
