(* ===== verification/HashStream.thy ===== *)
theory HashStream
  imports Endian
begin

text \<open>
  The streaming hash objects of \<open>src/src/crypto\<close>: \<open>CSHA256\<close>, \<open>CSHA1\<close> and \<open>CRIPEMD160\<close> share the
  state (chaining value, 64-byte buffer, byte counter) and the code of \<open>Write\<close>, \<open>Finalize\<close> and
  \<open>Reset\<close>; they differ in the compression function, the initial value and the byte order of
  the length and the digest. The shared code is modelled here once, over the compression
  function, and the contract of a streaming hash is a locale that each class interprets.
\<close>

section \<open>Definitions\<close>

record hash_ctx =
  ctx_s :: "u32 list"
  ctx_buf :: "u8 list"
  ctx_bytes :: u64

definition memcpy :: "'a list \<Rightarrow> nat \<Rightarrow> 'a list \<Rightarrow> 'a list" where
  "memcpy dst off src = take off dst @ src @ drop (off + length src) dst"

definition ctx_init :: "u32 list \<Rightarrow> hash_ctx" where
  "ctx_init s = \<lparr> ctx_s = s, ctx_buf = replicate 64 0, ctx_bytes = 0 \<rparr>"

text \<open>\<open>while (end - data >= 64)\<close>: compress whole blocks, return the rest of the data.\<close>

function md_blocks :: "(u32 list \<Rightarrow> u8 list \<Rightarrow> u32 list) \<Rightarrow> u32 list \<Rightarrow> u64 \<Rightarrow> u8 list \<Rightarrow> u32 list \<times> u64 \<times> u8 list" where
  "md_blocks transform s bytes data =
     (if length data \<ge> 64 then md_blocks transform (transform s (take 64 data)) (bytes + 64) (drop 64 data)
      else (s, bytes, data))"
  by pat_completeness auto
termination
  by (relation "measure (\<lambda>(f, s, b, data). length data)") auto

declare md_blocks.simps [simp del]

definition md_Write :: "(u32 list \<Rightarrow> u8 list \<Rightarrow> u32 list) \<Rightarrow> hash_ctx \<Rightarrow> u8 list \<Rightarrow> hash_ctx" where
  "md_Write transform ctx data =
     (let bufsize = unat (ctx_bytes ctx mod 64);
          (ctx, data, bufsize) =
            (if bufsize \<noteq> 0 \<and> bufsize + length data \<ge> 64 then
               let n = 64 - bufsize; buf = memcpy (ctx_buf ctx) bufsize (take n data)
               in (\<lparr> ctx_s = transform (ctx_s ctx) buf, ctx_buf = buf, ctx_bytes = ctx_bytes ctx + of_nat n \<rparr>,
                   drop n data, 0)
             else (ctx, data, bufsize));
          (s, bytes, data) = md_blocks transform (ctx_s ctx) (ctx_bytes ctx) data
      in if data \<noteq> [] then \<lparr> ctx_s = s, ctx_buf = memcpy (ctx_buf ctx) bufsize data, ctx_bytes = bytes + of_nat (length data) \<rparr>
         else \<lparr> ctx_s = s, ctx_buf = ctx_buf ctx, ctx_bytes = bytes \<rparr>)"

definition md_pad :: "u8 list" where
  "md_pad = 0x80 # replicate 63 0"

text \<open>The two writes of \<open>Finalize\<close>, which leave the context changed, and the bytes it then prints.\<close>

definition md_seal :: "(u32 list \<Rightarrow> u8 list \<Rightarrow> u32 list) \<Rightarrow> (u64 \<Rightarrow> u8 list) \<Rightarrow> hash_ctx \<Rightarrow> hash_ctx" where
  "md_seal transform put64 ctx =
     (let sizedesc = put64 (push_bit 3 (ctx_bytes ctx));
          ctx = md_Write transform ctx (take (1 + unat ((119 - ctx_bytes ctx mod 64) mod 64)) md_pad)
      in md_Write transform ctx sizedesc)"

definition md_Finalize :: "(u32 list \<Rightarrow> u8 list \<Rightarrow> u32 list) \<Rightarrow> (u64 \<Rightarrow> u8 list) \<Rightarrow> (u32 \<Rightarrow> u8 list) \<Rightarrow> hash_ctx \<Rightarrow> u8 list" where
  "md_Finalize transform put64 put32 ctx = concat (map put32 (ctx_s (md_seal transform put64 ctx)))"

definition md_Reset :: "u32 list \<Rightarrow> hash_ctx \<Rightarrow> hash_ctx" where
  "md_Reset iv ctx = ctx\<lparr>ctx_bytes := 0, ctx_s := iv\<rparr>"

section \<open>The one-shot definition\<close>

fun fold_blocks :: "(u32 list \<Rightarrow> u8 list \<Rightarrow> u32 list) \<Rightarrow> nat \<Rightarrow> u32 list \<Rightarrow> u8 list \<Rightarrow> u32 list" where
  "fold_blocks transform 0 s m = s"
| "fold_blocks transform (Suc n) s m = fold_blocks transform n (transform s (take 64 m)) (drop 64 m)"

definition md_padded :: "(u64 \<Rightarrow> u8 list) \<Rightarrow> u8 list \<Rightarrow> u8 list" where
  "md_padded put64 m = m @ [0x80] @ replicate ((119 - length m mod 64) mod 64) 0 @ put64 (of_nat (8 * length m))"

definition md_digest :: "(u32 list \<Rightarrow> u8 list \<Rightarrow> u32 list) \<Rightarrow> (u64 \<Rightarrow> u8 list) \<Rightarrow> (u32 \<Rightarrow> u8 list) \<Rightarrow> u32 list \<Rightarrow> u8 list \<Rightarrow> u8 list" where
  "md_digest transform put64 put32 iv m =
     (let p = md_padded put64 m in concat (map put32 (fold_blocks transform (length p div 64) iv p)))"

section \<open>A context stands for the bytes written to it\<close>

definition absorbed :: "(u32 list \<Rightarrow> u8 list \<Rightarrow> u32 list) \<Rightarrow> u32 list \<Rightarrow> hash_ctx \<Rightarrow> u8 list \<Rightarrow> bool" where
  "absorbed transform iv ctx m \<longleftrightarrow>
     ctx_s ctx = fold_blocks transform (length m div 64) iv m \<and> length (ctx_buf ctx) = 64 \<and>
     take (length m mod 64) (ctx_buf ctx) = drop (64 * (length m div 64)) m \<and>
     ctx_bytes ctx = of_nat (length m)"

lemma fold_blocks_append:
  "length m = 64 * n \<Longrightarrow> fold_blocks f (n + k) s (m @ d) = fold_blocks f k (fold_blocks f n s m) d"
  by (induction n arbitrary: s m) auto

lemma fold_blocks_prefix: "64 * n \<le> length m \<Longrightarrow> fold_blocks f n s (m @ d) = fold_blocks f n s m"
  by (induction n arbitrary: s m) auto

lemma fold_blocks_take: "64 * n \<le> length m \<Longrightarrow> fold_blocks f n s (take (64 * n) m) = fold_blocks f n s m"
  using fold_blocks_prefix [of n "take (64 * n) m" f s "drop (64 * n) m"] by simp

lemma fold_blocks_Suc_last:
  "length m = 64 * Suc q \<Longrightarrow> fold_blocks f (Suc q) iv m = f (fold_blocks f q iv m) (drop (64 * q) m)"
proof (induction q arbitrary: iv m)
  case (Suc q)
  have "fold_blocks f (Suc (Suc q)) iv m = fold_blocks f (Suc q) (f iv (take 64 m)) (drop 64 m)" by simp
  also have "\<dots> = f (fold_blocks f q (f iv (take 64 m)) (drop 64 m)) (drop (64 * q) (drop 64 m))"
    using Suc.prems by (intro Suc.IH) simp
  finally show ?case by (simp add: add.commute)
qed simp

lemma md_blocks_spec:
  "md_blocks f s bytes data =
     (fold_blocks f (length data div 64) s data, bytes + of_nat (64 * (length data div 64)), drop (64 * (length data div 64)) data)"
proof (induction f s bytes data rule: md_blocks.induct)
  case (1 f s bytes data)
  show ?case
  proof (cases "length data \<ge> 64")
    case True
    then have "length data div 64 = Suc ((length data - 64) div 64)" by (simp add: le_div_geq)
    then show ?thesis using 1 True by (simp add: md_blocks.simps [of f s] ac_simps)
  next
    case False
    then show ?thesis by (simp add: md_blocks.simps [of f s])
  qed
qed

lemma u64_mod_64: "unat ((of_nat n :: u64) mod 64) = n mod 64"
proof -
  have "(2 :: nat) ^ 64 = 64 * 2 ^ 58" by simp
  then have "n mod 2 ^ 64 mod 64 = n mod 64" by (simp only: mod_mult_right_eq mod_mod_cancel dvd_triv_left)
  then show ?thesis by (simp add: unat_mod unat_of_nat)
qed

lemma length_memcpy: "off + length src \<le> length dst \<Longrightarrow> length (memcpy dst off src) = length dst"
  by (simp add: memcpy_def)

lemma take_memcpy: "off + length src \<le> length dst \<Longrightarrow> take (off + length src) (memcpy dst off src) = take off dst @ src"
  by (simp add: memcpy_def)

definition md_flush :: "(u32 list \<Rightarrow> u8 list \<Rightarrow> u32 list) \<Rightarrow> hash_ctx \<Rightarrow> u8 list \<Rightarrow> nat \<Rightarrow> hash_ctx" where
  "md_flush transform ctx data bufsize =
     (let (s, bytes, data) = md_blocks transform (ctx_s ctx) (ctx_bytes ctx) data
      in if data \<noteq> [] then \<lparr> ctx_s = s, ctx_buf = memcpy (ctx_buf ctx) bufsize data, ctx_bytes = bytes + of_nat (length data) \<rparr>
         else \<lparr> ctx_s = s, ctx_buf = ctx_buf ctx, ctx_bytes = bytes \<rparr>)"

lemma md_flush_aligned:
  assumes "absorbed f iv ctx m" and "length m mod 64 = 0"
  shows "absorbed f iv (md_flush f ctx d 0) (m @ d)"
proof -
  have m: "length m = 64 * (length m div 64)" using mult_div_mod_eq [of 64 "length m"] assms(2) by linarith
  let ?q = "length d div 64"
  let ?r = "drop (64 * ?q) d"
  have len: "length (m @ d) div 64 = length m div 64 + ?q" "length (m @ d) mod 64 = length d mod 64"
    using div_mult_self4 [of 64 "length m div 64" "length d"] mod_mult_self4 [of 64 "length m div 64" "length d"]
    unfolding m [symmetric] by simp_all
  have r: "length ?r = length d mod 64" by (simp add: minus_mult_div_eq_mod)
  have s: "fold_blocks f ?q (ctx_s ctx) d = fold_blocks f (length (m @ d) div 64) iv (m @ d)"
    using assms(1) fold_blocks_append [OF m, of f ?q iv d] unfolding len(1) by (simp add: absorbed_def)
  have tail: "drop (64 * (length (m @ d) div 64)) (m @ d) = ?r"
    unfolding len(1) using m by (simp add: distrib_left)
  have bytes: "ctx_bytes ctx + of_nat (64 * ?q) + of_nat (length d mod 64) = (of_nat (length (m @ d)) :: u64)"
    using assms(1) by (simp add: absorbed_def) (metis mult_div_mod_eq of_nat_add of_nat_mult of_nat_numeral)
  have "length d mod 64 < 64" by simp
  then have buf: "take (length d mod 64) (memcpy (ctx_buf ctx) 0 ?r) = ?r" "length (memcpy (ctx_buf ctx) 0 ?r) = 64"
    using assms(1) take_memcpy [of 0 ?r "ctx_buf ctx"] length_memcpy [of 0 ?r "ctx_buf ctx"] r by (simp_all add: absorbed_def)
  show ?thesis
  proof (cases "?r = []")
    case True
    then have "length d mod 64 = 0" using r by simp
    then show ?thesis
      using True s tail bytes len assms(1) by (simp add: absorbed_def md_flush_def md_blocks_spec)
  next
    case False
    then show ?thesis
      using s tail bytes len buf r by (simp add: absorbed_def md_flush_def md_blocks_spec)
  qed
qed

lemma block_split: "x < 64 \<Longrightarrow> n = 64 * q + x \<Longrightarrow> n div 64 = q \<and> n mod 64 = (x :: nat)"
  by simp

lemma block_fill: "l = 64 * q + r \<Longrightarrow> r + n = 64 \<Longrightarrow> l + n = 64 * Suc (q :: nat)"
  by simp

lemma md_flush_partial:
  assumes "absorbed f iv ctx m" and "length m mod 64 + length d < 64"
  shows "absorbed f iv (md_flush f ctx d (length m mod 64)) (m @ d)"
proof -
  let ?q = "length m div 64" and ?r = "length m mod 64"
  have m: "length m = 64 * ?q + ?r" by simp
  then have "length (m @ d) = 64 * ?q + (?r + length d)" by simp
  from block_split [OF assms(2) this]
  have len: "length (m @ d) div 64 = ?q" "length (m @ d) mod 64 = ?r + length d" by simp_all
  have small: "length d div 64 = 0" using assms(2) by simp
  have "64 * ?q \<le> length m" by simp
  then have s: "fold_blocks f (length (m @ d) div 64) iv (m @ d) = ctx_s ctx"
    and tail: "drop (64 * (length (m @ d) div 64)) (m @ d) = take ?r (ctx_buf ctx) @ d"
    unfolding len(1) using assms(1) by (simp_all add: absorbed_def fold_blocks_prefix)
  have "ctx_bytes ctx + of_nat (length d) = (of_nat (length (m @ d)) :: u64)"
    using assms(1) by (simp add: absorbed_def)
  then show ?thesis
    using assms s tail len small take_memcpy [of ?r d "ctx_buf ctx"] length_memcpy [of ?r d "ctx_buf ctx"]
    by (cases "d = []") (simp_all add: absorbed_def md_flush_def md_blocks_spec)
qed

lemma absorbed_Write:
  assumes "absorbed f iv ctx m"
  shows "absorbed f iv (md_Write f ctx d) (m @ d)"
proof -
  let ?q = "length m div 64" and ?r = "length m mod 64"
  have bufsize: "unat (ctx_bytes ctx mod 64) = ?r" using assms u64_mod_64 by (simp add: absorbed_def)
  show ?thesis
  proof (cases "?r \<noteq> 0 \<and> ?r + length d \<ge> 64")
    case False
    then have "md_Write f ctx d = md_flush f ctx d ?r"
      by (auto simp: md_Write_def md_flush_def bufsize Let_def)
    then show ?thesis
      using False md_flush_aligned [OF assms, of d] md_flush_partial [OF assms, of d] by (cases "?r = 0") auto
  next
    case True
    let ?n = "64 - ?r"
    let ?m = "m @ take ?n d" and ?buf = "memcpy (ctx_buf ctx) ?r (take ?n d)"
    let ?ctx = "\<lparr> ctx_s = f (ctx_s ctx) ?buf, ctx_buf = ?buf, ctx_bytes = ctx_bytes ctx + of_nat ?n \<rparr>"
    have n: "length (take ?n d) = ?n" "?r + ?n = 64" using True by auto
    have m: "length m = 64 * ?q + ?r" by simp
    have "length ?m = length m + ?n" using n by simp
    then have len: "length ?m = 64 * Suc ?q" unfolding block_fill [OF m n(2), symmetric] .
    have lbuf: "length (ctx_buf ctx) = 64" using assms by (simp add: absorbed_def)
    have buf: "?buf = drop (64 * ?q) ?m"
      using take_memcpy [of ?r "take ?n d" "ctx_buf ctx"] length_memcpy [of ?r "take ?n d" "ctx_buf ctx"] n lbuf assms
      by (simp add: absorbed_def)
    have "fold_blocks f ?q iv ?m = ctx_s ctx"
      using assms fold_blocks_prefix [of ?q m f iv] by (simp add: absorbed_def)
    then have s: "fold_blocks f (Suc ?q) iv ?m = f (ctx_s ctx) ?buf"
      unfolding buf fold_blocks_Suc_last [OF len] by simp
    have l64: "length ?buf = 64" using length_memcpy [of ?r "take ?n d" "ctx_buf ctx"] n lbuf by simp
    have bytes: "ctx_bytes ctx + of_nat ?n = (of_nat (length ?m) :: u64)"
      using assms n by (simp add: absorbed_def)
    have dm: "length ?m div 64 = Suc ?q" "length ?m mod 64 = 0" unfolding len by simp_all
    have "drop (64 * Suc ?q) ?m = []" using len by (simp only: drop_all order_refl)
    then have "absorbed f iv ?ctx ?m"
      unfolding absorbed_def dm s bytes hash_ctx.simps using l64 by (simp only: take_0)
    from md_flush_aligned [OF this dm(2), of "drop ?n d"]
    have "absorbed f iv (md_flush f ?ctx (drop ?n d) 0) (m @ d)" by simp
    moreover have "md_Write f ctx d = md_flush f ?ctx (drop ?n d) 0"
      using True by (simp add: md_Write_def md_flush_def bufsize Let_def)
    ultimately show ?thesis by simp
  qed
qed

section \<open>Finalize computes the one-shot definition\<close>

lemma pad_count: "unat ((119 - (of_nat n :: u64) mod 64) mod 64) = (119 - n mod 64) mod 64"
proof -
  let ?r = "(of_nat n :: u64) mod 64"
  have r: "unat ?r = n mod 64" by (rule u64_mod_64)
  then have "?r \<le> 119" by (simp add: word_le_nat_alt)
  then have "unat (119 - ?r) = 119 - n mod 64" using r by (simp add: unat_sub)
  then show ?thesis by (simp add: unat_mod)
qed

lemma take_md_pad: "z < 64 \<Longrightarrow> take (1 + z) md_pad = 0x80 # replicate z 0"
  by (simp add: md_pad_def take_replicate)

lemma md_seal_absorbed:
  assumes "absorbed f iv ctx m"
  shows "absorbed f iv (md_seal f put64 ctx) (md_padded put64 m)"
proof -
  let ?z = "(119 - length m mod 64) mod 64" and ?size = "put64 (of_nat (8 * length m))"
  have bytes: "ctx_bytes ctx = of_nat (length m)" using assms by (simp add: absorbed_def)
  have size: "push_bit 3 (ctx_bytes ctx) = of_nat (8 * length m)"
    unfolding bytes by (simp add: push_bit_eq_mult mult.commute)
  have pad: "take (1 + unat ((119 - ctx_bytes ctx mod 64) mod 64)) md_pad = 0x80 # replicate ?z 0"
    unfolding bytes pad_count by (rule take_md_pad) simp
  have "absorbed f iv (md_Write f (md_Write f ctx (0x80 # replicate ?z 0)) ?size) ((m @ (0x80 # replicate ?z 0)) @ ?size)"
    by (intro absorbed_Write assms)
  then show ?thesis unfolding md_seal_def pad size Let_def by (simp add: md_padded_def)
qed

lemma md_Finalize_digest:
  "absorbed f iv ctx m \<Longrightarrow> md_Finalize f put64 put32 ctx = md_digest f put64 put32 iv m"
  using md_seal_absorbed [of f iv ctx m put64] by (simp add: md_Finalize_def md_digest_def absorbed_def Let_def)

lemma absorbed_Reset: "absorbed f iv ctx m \<Longrightarrow> absorbed f iv (md_Reset iv ctx) []"
  by (simp add: absorbed_def md_Reset_def)

lemma absorbed_init: "absorbed f iv (ctx_init iv) []"
  by (simp add: absorbed_def ctx_init_def)

lemma md_padded_aligned:
  assumes "\<And>x. length (put64 x) = 8"
  shows "length (md_padded put64 m) mod 64 = 0"
proof -
  have "(r + (119 - r) mod 64 + 9) mod 64 = 0" if "r < 64" for r :: nat
  proof (cases "r \<le> 55")
    case True
    then have "(119 - r) mod 64 = 55 - r" using that by (simp add: mod_if)
    then show ?thesis using True by simp
  next
    case False
    then show ?thesis using that by simp
  qed
  from this [of "length m mod 64"]
  have "(length m mod 64 + ((119 - length m mod 64) mod 64 + 9)) mod 64 = 0" by (simp add: add.assoc)
  then have "(length m + ((119 - length m mod 64) mod 64 + 9)) mod 64 = 0" by (simp only: mod_add_left_eq)
  then show ?thesis using assms by (simp add: md_padded_def ac_simps)
qed

section \<open>The contract of a streaming hash\<close>

locale stream_hash =
  fixes holds :: "'c \<Rightarrow> u8 list \<Rightarrow> bool" and fresh :: 'c and seal reset :: "'c \<Rightarrow> 'c"
    and absorb :: "'c \<Rightarrow> u8 list \<Rightarrow> 'c" and finish :: "'c \<Rightarrow> u8 list" and digest :: "u8 list \<Rightarrow> u8 list"
  assumes holds_fresh: "holds fresh []"
    and holds_write: "holds c m \<Longrightarrow> holds (absorb c d) (m @ d)"
    and finish_digest: "holds c m \<Longrightarrow> finish c = digest m"
    and holds_reset: "holds c m \<Longrightarrow> holds (reset (seal c)) []"
begin

lemma holds_writes: "holds c m \<Longrightarrow> holds (foldl absorb c ds) (m @ concat ds)"
proof (induction ds arbitrary: c m)
  case (Cons d ds)
  then show ?case using holds_write [OF Cons.prems, of d] by (metis append.assoc concat.simps(2) foldl_Cons)
qed simp

lemma chunked_digest: "finish (foldl absorb fresh ds) = digest (concat ds)"
  using holds_writes [OF holds_fresh, of ds] finish_digest by simp

lemma chunking_irrelevant:
  "concat ds = concat es \<Longrightarrow> finish (foldl absorb fresh ds) = finish (foldl absorb fresh es)"
  by (simp add: chunked_digest)

lemma reused_digest: "holds c m \<Longrightarrow> finish (absorb (reset (seal c)) d) = digest d"
  using holds_write [OF holds_reset, of c m d] finish_digest by simp

lemma one_write: "finish (absorb fresh m) = digest m"
  using chunked_digest [of "[m]"] by simp

end

end
