(* ===== verification/Sha256.thy ===== *)
theory Sha256
  imports HashStream
begin

text \<open>
  SHA-256, \<open>src/src/crypto/sha256.cpp\<close>: the portable compression function and the streaming
  class \<open>CSHA256\<close>. The unrolled code renames its registers from one \<open>Round\<close> to the next and
  updates its sixteen message words in place; here the registers rotate and the words are a
  sliding window of sixteen.
\<close>

section \<open>Definitions\<close>

type_synonym sha256_regs = "u32 \<times> u32 \<times> u32 \<times> u32 \<times> u32 \<times> u32 \<times> u32 \<times> u32"

definition Ch :: "u32 \<Rightarrow> u32 \<Rightarrow> u32 \<Rightarrow> u32" where "Ch x y z = z XOR (x AND (y XOR z))"
definition Maj :: "u32 \<Rightarrow> u32 \<Rightarrow> u32 \<Rightarrow> u32" where "Maj x y z = (x AND y) OR (z AND (x OR y))"
definition Sigma0 :: "u32 \<Rightarrow> u32" where
  "Sigma0 x = (drop_bit 2 x OR push_bit 30 x) XOR (drop_bit 13 x OR push_bit 19 x) XOR (drop_bit 22 x OR push_bit 10 x)"
definition Sigma1 :: "u32 \<Rightarrow> u32" where
  "Sigma1 x = (drop_bit 6 x OR push_bit 26 x) XOR (drop_bit 11 x OR push_bit 21 x) XOR (drop_bit 25 x OR push_bit 7 x)"
definition sigma0 :: "u32 \<Rightarrow> u32" where
  "sigma0 x = (drop_bit 7 x OR push_bit 25 x) XOR (drop_bit 18 x OR push_bit 14 x) XOR (drop_bit 3 x)"
definition sigma1 :: "u32 \<Rightarrow> u32" where
  "sigma1 x = (drop_bit 17 x OR push_bit 15 x) XOR (drop_bit 19 x OR push_bit 13 x) XOR (drop_bit 10 x)"

fun sha256_Round :: "sha256_regs \<Rightarrow> u32 \<Rightarrow> sha256_regs" where
  "sha256_Round (a, b, c, d, e, f, g, h) k =
     (let t1 = h + Sigma1 e + Ch e f g + k; t2 = Sigma0 a + Maj a b c
      in (t1 + t2, a, b, c, d + t1, e, f, g))"

definition sha256_Initialize :: "u32 list" where
  "sha256_Initialize = [0x6a09e667, 0xbb67ae85, 0x3c6ef372, 0xa54ff53a, 0x510e527f, 0x9b05688c, 0x1f83d9ab, 0x5be0cd19]"

text \<open>
  The constants of the 64 calls of \<open>Round\<close> in \<open>Transform\<close>, in their order. They are the
  published constants of the standard, read from the source, which writes them in hexadecimal;
  here they are in decimal.
\<close>

definition sha256_K :: "u32 list" where
  "sha256_K =
    [1116352408, 1899447441, 3049323471, 3921009573, 961987163, 1508970993, 2453635748, 2870763221,
     3624381080, 310598401, 607225278, 1426881987, 1925078388, 2162078206, 2614888103, 3248222580,
     3835390401, 4022224774, 264347078, 604807628, 770255983, 1249150122, 1555081692, 1996064986,
     2554220882, 2821834349, 2952996808, 3210313671, 3336571891, 3584528711, 113926993, 338241895,
     666307205, 773529912, 1294757372, 1396182291, 1695183700, 1986661051, 2177026350, 2456956037,
     2730485921, 2820302411, 3259730800, 3345764771, 3516065817, 3600352804, 4094571909, 275423344,
     430227734, 506948616, 659060556, 883997877, 958139571, 1322822218, 1537002063, 1747873779,
     1955562222, 2024104815, 2227730452, 2361852424, 2428436474, 2756734187, 3204031479, 3329325298]"

text \<open>Rounds 16 to 63 update a message word, \<open>w0 += sigma1(w14) + w9 + sigma0(w1)\<close>, and consume it.\<close>

fun sha256_extend :: "u32 list \<Rightarrow> sha256_regs \<Rightarrow> u32 list \<Rightarrow> sha256_regs" where
  "sha256_extend [] r w = r"
| "sha256_extend (k # ks) r w =
     (let x = w ! 0 + (sigma1 (w ! 14) + w ! 9 + sigma0 (w ! 1))
      in sha256_extend ks (sha256_Round r (k + x)) (tl w @ [x]))"

definition load_regs :: "u32 list \<Rightarrow> sha256_regs" where
  "load_regs s = (s ! 0, s ! 1, s ! 2, s ! 3, s ! 4, s ! 5, s ! 6, s ! 7)"

definition add_regs :: "u32 list \<Rightarrow> sha256_regs \<Rightarrow> u32 list" where
  "add_regs s r = (case r of (a, b, c, d, e, f, g, h) \<Rightarrow>
     [s ! 0 + a, s ! 1 + b, s ! 2 + c, s ! 3 + d, s ! 4 + e, s ! 5 + f, s ! 6 + g, s ! 7 + h])"

text \<open>One iteration of \<open>Transform\<close>, on the 64 bytes of a block.\<close>

definition block_words :: "u8 list \<Rightarrow> u32 list" where
  "block_words chunk = map (\<lambda>i. ReadBE32 (drop (4 * i) chunk)) [0..<16]"

definition sha256_compress :: "u32 list \<Rightarrow> u32 list \<Rightarrow> u32 list" where
  "sha256_compress s w =
     add_regs s (sha256_extend (drop 16 sha256_K) (foldl sha256_Round (load_regs s) (map2 (+) (take 16 sha256_K) w)) w)"

definition sha256_Transform :: "u32 list \<Rightarrow> u8 list \<Rightarrow> u32 list" where
  "sha256_Transform s chunk = sha256_compress s (block_words chunk)"

definition CSHA256 :: hash_ctx where "CSHA256 = ctx_init sha256_Initialize"
definition CSHA256_Write :: "hash_ctx \<Rightarrow> u8 list \<Rightarrow> hash_ctx" where
  "CSHA256_Write = md_Write sha256_Transform"
definition CSHA256_Finalize :: "hash_ctx \<Rightarrow> u8 list" where
  "CSHA256_Finalize = md_Finalize sha256_Transform WriteBE64 WriteBE32"
definition CSHA256_seal :: "hash_ctx \<Rightarrow> hash_ctx" where
  "CSHA256_seal = md_seal sha256_Transform WriteBE64"
definition CSHA256_Reset :: "hash_ctx \<Rightarrow> hash_ctx" where
  "CSHA256_Reset = md_Reset sha256_Initialize"

text \<open>The one-shot digest the streaming class is compared with.\<close>

definition sha256 :: "u8 list \<Rightarrow> u8 list" where
  "sha256 m = md_digest sha256_Transform WriteBE64 WriteBE32 sha256_Initialize m"

lemmas CSHA256_defs = CSHA256_def CSHA256_Write_def CSHA256_Finalize_def CSHA256_seal_def CSHA256_Reset_def

subsection \<open>The unrolled double hash of a 64-byte block\<close>

text \<open>
  \<open>TransformD64\<close> hashes 64 bytes twice. Its second compression runs on the constant padding
  block, whose schedule is folded into the round constants; its third runs on eight digest words
  and constant padding, with rounds 16 to 31 simplified by hand.
\<close>

definition d64_pad_k :: "u32 list" where
  "d64_pad_k =
    [0xc28a2f98, 0x71374491, 0xb5c0fbcf, 0xe9b5dba5, 0x3956c25b, 0x59f111f1, 0x923f82a4, 0xab1c5ed5,
     0xd807aa98, 0x12835b01, 0x243185be, 0x550c7dc3, 0x72be5d74, 0x80deb1fe, 0x9bdc06a7, 0xc19bf374,
     0x649b69c1, 0xf0fe4786, 0x0fe1edc6, 0x240cf254, 0x4fe9346f, 0x6cc984be, 0x61b9411e, 0x16f988fa,
     0xf2c65152, 0xa88e5a6d, 0xb019fc65, 0xb9d99ec7, 0x9a1231c3, 0xe70eeaa0, 0xfdb1232b, 0xc7353eb0,
     0x3069bad5, 0xcb976d5f, 0x5a0f118f, 0xdc1eeefd, 0x0a35b689, 0xde0b7a04, 0x58f4ca9d, 0xe15d5b16,
     0x007f3e86, 0x37088980, 0xa507ea32, 0x6fab9537, 0x17406110, 0x0d8cd6f1, 0xcdaa3b6d, 0xc0bbbe37,
     0x83613bda, 0xdb48a363, 0x0b02e931, 0x6fd15ca7, 0x521afaca, 0x31338431, 0x6ed41a95, 0x6d437890,
     0xc39c91f2, 0x9eccabbd, 0xb5c9a0e6, 0x532fb63c, 0xd2c741c6, 0x07237ea3, 0xa4954b68, 0x4c191d76]"

definition TransformD64_first :: "u8 list \<Rightarrow> u32 list" where
  "TransformD64_first inp =
     add_regs sha256_Initialize
       (sha256_extend (drop 16 sha256_K)
          (foldl sha256_Round (load_regs sha256_Initialize) (map2 (+) (take 16 sha256_K) (block_words inp)))
          (block_words inp))"

definition TransformD64_second :: "u32 list \<Rightarrow> u32 list" where
  "TransformD64_second t = add_regs t (foldl sha256_Round (load_regs t) d64_pad_k)"

definition TransformD64_third :: "u32 list \<Rightarrow> u32 list" where
  "TransformD64_third w =
     (case load_regs w of (w0, w1, w2, w3, w4, w5, w6, w7) \<Rightarrow>
      let
          r = foldl sha256_Round (load_regs sha256_Initialize)
            [0x428a2f98 + w0, 0x71374491 + w1, 0xb5c0fbcf + w2, 0xe9b5dba5 + w3,
             0x3956c25b + w4, 0x59f111f1 + w5, 0x923f82a4 + w6, 0xab1c5ed5 + w7,
             0x5807aa98, 0x12835b01, 0x243185be, 0x550c7dc3, 0x72be5d74, 0x80deb1fe, 0x9bdc06a7, 0xc19bf274];
          w0 = w0 + (sigma0 w1);
          w1 = w1 + (0xa00000 + sigma0 w2);
          w2 = w2 + (sigma1 w0 + sigma0 w3);
          w3 = w3 + (sigma1 w1 + sigma0 w4);
          w4 = w4 + (sigma1 w2 + sigma0 w5);
          w5 = w5 + (sigma1 w3 + sigma0 w6);
          w6 = w6 + (sigma1 w4 + 0x100 + sigma0 w7);
          w7 = w7 + (sigma1 w5 + w0 + 0x11002000);
          w8 = 0x80000000 + sigma1 w6 + w1;
          w9 = sigma1 w7 + w2;
          w10 = sigma1 w8 + w3;
          w11 = sigma1 w9 + w4;
          w12 = sigma1 w10 + w5;
          w13 = sigma1 w11 + w6;
          w14 = sigma1 w12 + w7 + 0x400022;
          w15 = 0x100 + sigma1 w13 + w8 + sigma0 w0;
          r = foldl sha256_Round r
            [0xe49b69c1 + w0, 0xefbe4786 + w1, 0x0fc19dc6 + w2, 0x240ca1cc + w3,
             0x2de92c6f + w4, 0x4a7484aa + w5, 0x5cb0a9dc + w6, 0x76f988da + w7,
             0x983e5152 + w8, 0xa831c66d + w9, 0xb00327c8 + w10, 0xbf597fc7 + w11,
             0xc6e00bf3 + w12, 0xd5a79147 + w13, 0x06ca6351 + w14, 0x14292967 + w15]
      in add_regs sha256_Initialize
           (sha256_extend (drop 32 sha256_K) r [w0, w1, w2, w3, w4, w5, w6, w7, w8, w9, w10, w11, w12, w13, w14, w15]))"

definition TransformD64 :: "u8 list \<Rightarrow> u8 list" where
  "TransformD64 inp = concat (map WriteBE32 (TransformD64_third (TransformD64_second (TransformD64_first inp))))"

text \<open>
  \<open>SHA256D64\<close> hashes \<open>blocks\<close> 64-byte blocks, several at a time where the vector
  implementations behind the function pointers \<open>TransformD64_8way\<close>, \<open>_4way\<close> and \<open>_2way\<close>
  are present (\<^term>\<open>None\<close> is a null pointer). \<open>d64_loop\<close> is one of its four loops.
\<close>

type_synonym TransformD64Type = "u8 list \<Rightarrow> u8 list"

function d64_loop :: "nat \<Rightarrow> TransformD64Type \<Rightarrow> u8 list \<Rightarrow> u8 list \<Rightarrow> nat \<Rightarrow> u8 list \<times> u8 list \<times> nat" where
  "d64_loop n f out inp blocks =
     (if 0 < n \<and> n \<le> blocks then d64_loop n f (out @ f (take (64 * n) inp)) (drop (64 * n) inp) (blocks - n)
      else (out, inp, blocks))"
  by pat_completeness auto
termination by (relation "measure (\<lambda>(n, f, out, inp, blocks). blocks)") auto

declare d64_loop.simps [simp del]

definition d64_ways :: "nat \<Rightarrow> TransformD64Type option \<Rightarrow> u8 list \<times> u8 list \<times> nat \<Rightarrow> u8 list \<times> u8 list \<times> nat" where
  "d64_ways n way st = (case way of None \<Rightarrow> st | Some f \<Rightarrow> (case st of (out, inp, blocks) \<Rightarrow> d64_loop n f out inp blocks))"

record d64_impl =
  TransformD64_8way :: "TransformD64Type option"
  TransformD64_4way :: "TransformD64Type option"
  TransformD64_2way :: "TransformD64Type option"
  TransformD64_1way :: TransformD64Type

definition default_impl :: d64_impl where
  "default_impl = \<lparr> TransformD64_8way = None, TransformD64_4way = None, TransformD64_2way = None,
     TransformD64_1way = TransformD64 \<rparr>"

definition SHA256D64 :: "d64_impl \<Rightarrow> u8 list \<Rightarrow> nat \<Rightarrow> u8 list" where
  "SHA256D64 impl inp blocks =
     fst (d64_ways 1 (Some (TransformD64_1way impl)) (d64_ways 2 (TransformD64_2way impl)
       (d64_ways 4 (TransformD64_4way impl) (d64_ways 8 (TransformD64_8way impl) ([], inp, blocks)))))"

section \<open>The streaming contract\<close>

interpretation sha256_stream: stream_hash "absorbed sha256_Transform sha256_Initialize" CSHA256 CSHA256_seal
  CSHA256_Reset CSHA256_Write CSHA256_Finalize sha256
  by unfold_locales
    (auto simp: CSHA256_defs sha256_def absorbed_init absorbed_Write md_Finalize_digest
      intro: absorbed_Reset md_seal_absorbed)

section \<open>The unrolled double hash is the hash of the hash\<close>

lemma extend_step:
  "x = a + (sigma1 p + j + sigma0 b) \<Longrightarrow>
   sha256_extend (k # ks) r [a, b, c, d, e, f, g, h, i, j, l, m, n, o', p, q] =
   sha256_extend ks (sha256_Round r (k + x)) [b, c, d, e, f, g, h, i, j, l, m, n, o', p, q, x]"
  by (simp add: Let_def)

lemma sigma_consts:
  "sigma0 0 = 0" "sigma1 0 = 0" "sigma1 0x100 = 0xa00000" "sigma0 0x80000000 = 0x11002000" "sigma0 0x100 = 0x400022"
  by (simp_all add: sigma0_def sigma1_def)

text \<open>Sixteen steps of the general schedule on the padded digest are the hand-simplified ones.\<close>

lemma third_schedule:
  fixes w0 w1 w2 w3 w4 w5 w6 w7 :: u32
  assumes v: "v0 = w0 + (sigma0 w1)" "v1 = w1 + (0xa00000 + sigma0 w2)" "v2 = w2 + (sigma1 v0 + sigma0 w3)" "v3 = w3 + (sigma1 v1 + sigma0 w4)" "v4 = w4 + (sigma1 v2 + sigma0 w5)" "v5 = w5 + (sigma1 v3 + sigma0 w6)" "v6 = w6 + (sigma1 v4 + 0x100 + sigma0 w7)" "v7 = w7 + (sigma1 v5 + v0 + 0x11002000)" "v8 = 0x80000000 + sigma1 v6 + v1" "v9 = sigma1 v7 + v2" "v10 = sigma1 v8 + v3" "v11 = sigma1 v9 + v4" "v12 = sigma1 v10 + v5" "v13 = sigma1 v11 + v6" "v14 = sigma1 v12 + v7 + 0x400022" "v15 = 0x100 + sigma1 v13 + v8 + sigma0 v0"
  shows "sha256_extend (k0 # k1 # k2 # k3 # k4 # k5 # k6 # k7 # k8 # k9 # k10 # k11 # k12 # k13 # k14 # k15 # ks) r [w0, w1, w2, w3, w4, w5, w6, w7, 0x80000000, 0, 0, 0, 0, 0, 0, 0x100] =
    sha256_extend ks (foldl sha256_Round r [k0 + v0, k1 + v1, k2 + v2, k3 + v3, k4 + v4, k5 + v5, k6 + v6, k7 + v7, k8 + v8, k9 + v9, k10 + v10, k11 + v11, k12 + v12, k13 + v13, k14 + v14, k15 + v15]) [v0, v1, v2, v3, v4, v5, v6, v7, v8, v9, v10, v11, v12, v13, v14, v15]"
proof -
  have e: "v0 = w0 + (sigma1 0 + 0 + sigma0 w1)"
    "v1 = w1 + (sigma1 0x100 + 0 + sigma0 w2)"
    "v2 = w2 + (sigma1 v0 + 0 + sigma0 w3)"
    "v3 = w3 + (sigma1 v1 + 0 + sigma0 w4)"
    "v4 = w4 + (sigma1 v2 + 0 + sigma0 w5)"
    "v5 = w5 + (sigma1 v3 + 0 + sigma0 w6)"
    "v6 = w6 + (sigma1 v4 + 0x100 + sigma0 w7)"
    "v7 = w7 + (sigma1 v5 + v0 + sigma0 0x80000000)"
    "v8 = 0x80000000 + (sigma1 v6 + v1 + sigma0 0)"
    "v9 = 0 + (sigma1 v7 + v2 + sigma0 0)"
    "v10 = 0 + (sigma1 v8 + v3 + sigma0 0)"
    "v11 = 0 + (sigma1 v9 + v4 + sigma0 0)"
    "v12 = 0 + (sigma1 v10 + v5 + sigma0 0)"
    "v13 = 0 + (sigma1 v11 + v6 + sigma0 0)"
    "v14 = 0 + (sigma1 v12 + v7 + sigma0 0x100)"
    "v15 = 0x100 + (sigma1 v13 + v8 + sigma0 v0)"
    by (simp_all add: v sigma_consts ac_simps)
  show ?thesis unfolding foldl.simps
    by (simp only: extend_step [OF e(1)] extend_step [OF e(2)] extend_step [OF e(3)] extend_step [OF e(4)] extend_step [OF e(5)] extend_step [OF e(6)] extend_step [OF e(7)] extend_step [OF e(8)] extend_step [OF e(9)] extend_step [OF e(10)] extend_step [OF e(11)] extend_step [OF e(12)] extend_step [OF e(13)] extend_step [OF e(14)] extend_step [OF e(15)] extend_step [OF e(16)])
qed

fun sha256_schedule :: "nat \<Rightarrow> u32 list \<Rightarrow> u32 list" where
  "sha256_schedule 0 w = []"
| "sha256_schedule (Suc n) w =
     (let x = w ! 0 + (sigma1 (w ! 14) + w ! 9 + sigma0 (w ! 1)) in x # sha256_schedule n (tl w @ [x]))"

lemma extend_schedule:
  "sha256_extend ks r w = foldl sha256_Round r (map2 (+) ks (sha256_schedule (length ks) w))"
  by (induction ks r w rule: sha256_extend.induct) (simp_all add: Let_def)

abbreviation pad_block :: "u32 list" where
  "pad_block \<equiv> [0x80000000, 0, 0, 0, 0, 0, 0, 0, 0, 0, 0, 0, 0, 0, 0, 0x200]"

lemma pad_schedule:
  "map2 (+) (take 16 sha256_K) pad_block @ map2 (+) (drop 16 sha256_K) (sha256_schedule (length (drop 16 sha256_K)) pad_block) = d64_pad_k"
  by code_simp

lemma TransformD64_second_compress: "TransformD64_second t = sha256_compress t pad_block"
  unfolding TransformD64_second_def sha256_compress_def extend_schedule foldl_append [symmetric] pad_schedule ..

lemma K_middle:
  "drop 16 sha256_K = 0xe49b69c1 # 0xefbe4786 # 0x0fc19dc6 # 0x240ca1cc # 0x2de92c6f # 0x4a7484aa # 0x5cb0a9dc # 0x76f988da # 0x983e5152 # 0xa831c66d # 0xb00327c8 # 0xbf597fc7 # 0xc6e00bf3 # 0xd5a79147 # 0x06ca6351 # 0x14292967 # drop 32 sha256_K"
  by (simp add: sha256_K_def)

lemma third_rounds:
  fixes w0 w1 w2 w3 w4 w5 w6 w7 :: u32
  defines "w \<equiv> [w0, w1, w2, w3, w4, w5, w6, w7] @ [0x80000000, 0, 0, 0, 0, 0, 0, 0x100]"
  assumes r: "r = foldl sha256_Round (load_regs sha256_Initialize)
     [0x428a2f98 + w0, 0x71374491 + w1, 0xb5c0fbcf + w2, 0xe9b5dba5 + w3,
      0x3956c25b + w4, 0x59f111f1 + w5, 0x923f82a4 + w6, 0xab1c5ed5 + w7,
      0x5807aa98, 0x12835b01, 0x243185be, 0x550c7dc3, 0x72be5d74, 0x80deb1fe, 0x9bdc06a7, 0xc19bf274]"
    and v: "v0 = w0 + (sigma0 w1)" "v1 = w1 + (0xa00000 + sigma0 w2)" "v2 = w2 + (sigma1 v0 + sigma0 w3)" "v3 = w3 + (sigma1 v1 + sigma0 w4)" "v4 = w4 + (sigma1 v2 + sigma0 w5)" "v5 = w5 + (sigma1 v3 + sigma0 w6)" "v6 = w6 + (sigma1 v4 + 0x100 + sigma0 w7)" "v7 = w7 + (sigma1 v5 + v0 + 0x11002000)" "v8 = 0x80000000 + sigma1 v6 + v1" "v9 = sigma1 v7 + v2" "v10 = sigma1 v8 + v3" "v11 = sigma1 v9 + v4" "v12 = sigma1 v10 + v5" "v13 = sigma1 v11 + v6" "v14 = sigma1 v12 + v7 + 0x400022" "v15 = 0x100 + sigma1 v13 + v8 + sigma0 v0"
    and r': "r' = foldl sha256_Round r
     [0xe49b69c1 + v0, 0xefbe4786 + v1, 0x0fc19dc6 + v2, 0x240ca1cc + v3,
      0x2de92c6f + v4, 0x4a7484aa + v5, 0x5cb0a9dc + v6, 0x76f988da + v7,
      0x983e5152 + v8, 0xa831c66d + v9, 0xb00327c8 + v10, 0xbf597fc7 + v11,
      0xc6e00bf3 + v12, 0xd5a79147 + v13, 0x06ca6351 + v14, 0x14292967 + v15]"
  shows "sha256_extend (drop 32 sha256_K) r' [v0, v1, v2, v3, v4, v5, v6, v7, v8, v9, v10, v11, v12, v13, v14, v15] =
    sha256_extend (drop 16 sha256_K) (foldl sha256_Round (load_regs sha256_Initialize) (map2 (+) (take 16 sha256_K) w)) w"
proof -
  have "map2 (+) (take 16 sha256_K) w =
     [0x428a2f98 + w0, 0x71374491 + w1, 0xb5c0fbcf + w2, 0xe9b5dba5 + w3,
      0x3956c25b + w4, 0x59f111f1 + w5, 0x923f82a4 + w6, 0xab1c5ed5 + w7,
      0x5807aa98, 0x12835b01, 0x243185be, 0x550c7dc3, 0x72be5d74, 0x80deb1fe, 0x9bdc06a7, 0xc19bf274]"
    unfolding w_def by (simp add: sha256_K_def)
  then have "foldl sha256_Round (load_regs sha256_Initialize) (map2 (+) (take 16 sha256_K) w) = r"
    unfolding r by (rule arg_cong)
  then show ?thesis unfolding r' K_middle w_def append.simps
    by (simp only: third_schedule [OF v])
qed

lemma Let_elim: "(\<And>x. x = a \<Longrightarrow> f x = b) \<Longrightarrow> Let a f = b"
  by (simp add: Let_def)

lemma load_regs_list: "load_regs [a, b, c, d, e, f, g, h] = (a, b, c, d, e, f, g, h)"
  by (simp add: load_regs_def)

lemma TransformD64_third_compress:
  assumes "length w = 8"
  shows "TransformD64_third w = sha256_compress sha256_Initialize (w @ [0x80000000, 0, 0, 0, 0, 0, 0, 0x100])"
proof -
  from assms obtain w0 w1 w2 w3 w4 w5 w6 w7 where w: "w = [w0, w1, w2, w3, w4, w5, w6, w7]"
    by (auto simp: numeral_eq_Suc length_Suc_conv)
  show ?thesis unfolding w TransformD64_third_def sha256_compress_def load_regs_list prod.case
    by (intro Let_elim arg_cong [where f = "add_regs sha256_Initialize"]) (rule third_rounds; assumption)
qed

section \<open>Reading words from bytes\<close>

lemma drop_words: "i < length ws \<Longrightarrow> drop (4 * i) (concat (map WriteBE32 ws)) = WriteBE32 (ws ! i) @ concat (map WriteBE32 (drop (Suc i) ws))"
proof (induction ws arbitrary: i)
  case (Cons x ws)
  then show ?case by (cases i) auto
qed simp

lemma block_words_concat: "length ws = 16 \<Longrightarrow> block_words (concat (map WriteBE32 ws)) = ws"
  unfolding block_words_def by (rule nth_equalityI) (simp_all add: drop_words)

lemma block_words_take: "block_words (take 64 m) = block_words m"
  by (simp add: block_words_def ReadBE32_def drop_take min_def)

lemma length_sha256_compress [simp]: "length (sha256_compress s w) = 8"
  by (simp add: sha256_compress_def add_regs_def split: prod.split)

lemma length_concat_WriteBE32: "length (concat (map WriteBE32 ws)) = 4 * length ws"
  by (induction ws) simp_all

lemma pad_64: "0x80 # replicate 55 0 @ WriteBE64 512 = concat (map WriteBE32 pad_block)"
  by code_simp

lemma pad_32: "0x80 # replicate 23 0 @ WriteBE64 256 = concat (map WriteBE32 [0x80000000, 0, 0, 0, 0, 0, 0, 0x100])"
  by code_simp

lemma sha256_two_blocks:
  assumes p: "md_padded WriteBE64 m = c @ concat (map WriteBE32 w)" and "length c = 64" "length w = 16"
  shows "sha256 m = concat (map WriteBE32 (sha256_compress (sha256_compress sha256_Initialize (block_words c)) w))"
proof -
  have len: "length (concat (map WriteBE32 w)) = 64" using assms(3) by (simp add: length_concat_WriteBE32)
  have two: "128 div 64 = Suc (Suc (0 :: nat))" by simp
  have "length (md_padded WriteBE64 m) = 128" unfolding p using assms(2) len by simp
  then have "sha256 m = concat (map WriteBE32 (fold_blocks sha256_Transform (Suc (Suc 0)) sha256_Initialize (c @ concat (map WriteBE32 w))))"
    unfolding sha256_def md_digest_def Let_def p by (simp only: two)
  then show ?thesis using len block_words_concat [OF assms(3)] assms(2) by (simp add: sha256_Transform_def)
qed

lemma sha256_64:
  assumes "length m = 64"
  shows "sha256 m = concat (map WriteBE32 (sha256_compress (sha256_compress sha256_Initialize (block_words m)) pad_block))"
proof -
  have "md_padded WriteBE64 m = m @ concat (map WriteBE32 pad_block)"
    unfolding pad_64 [symmetric] using assms by (simp add: md_padded_def)
  then show ?thesis using assms by (rule sha256_two_blocks) simp
qed

lemma sha256_32:
  assumes "length w = 8"
  shows "sha256 (concat (map WriteBE32 w)) =
    concat (map WriteBE32 (sha256_compress sha256_Initialize (w @ [0x80000000, 0, 0, 0, 0, 0, 0, 0x100])))"
proof -
  let ?w = "w @ [0x80000000, 0, 0, 0, 0, 0, 0, 0x100]"
  have p: "md_padded WriteBE64 (concat (map WriteBE32 w)) = concat (map WriteBE32 ?w)"
    unfolding map_append concat_append pad_32 [symmetric]
    using assms by (simp add: md_padded_def length_concat_WriteBE32)
  have len: "length (concat (map WriteBE32 ?w)) = 64" using assms by (simp only: length_concat_WriteBE32) simp
  have one: "64 div 64 = Suc (0 :: nat)" by simp
  have "sha256 (concat (map WriteBE32 w)) =
      concat (map WriteBE32 (sha256_Transform sha256_Initialize (concat (map WriteBE32 ?w))))"
    unfolding sha256_def md_digest_def Let_def p len one fold_blocks.simps using len by simp
  then show ?thesis using block_words_concat [of ?w] assms by (simp add: sha256_Transform_def)
qed

lemma TransformD64_sha256: "length m = 64 \<Longrightarrow> TransformD64 m = sha256 (sha256 m)"
  by (simp add: sha256_64 sha256_32 TransformD64_def TransformD64_third_compress TransformD64_second_compress
    TransformD64_first_def sha256_compress_def [symmetric])

section \<open>Many blocks at a time\<close>

definition sha256d :: "u8 list \<Rightarrow> u8 list" where
  "sha256d m = sha256 (sha256 m)"

fun d64_spec :: "nat \<Rightarrow> u8 list \<Rightarrow> u8 list" where
  "d64_spec 0 m = []"
| "d64_spec (Suc n) m = sha256d (take 64 m) @ d64_spec n (drop 64 m)"

text \<open>What a vector implementation promises: the double hash of each of its \<open>n\<close> blocks.\<close>

definition way_ok :: "nat \<Rightarrow> TransformD64Type \<Rightarrow> bool" where
  "way_ok n f \<longleftrightarrow> (\<forall>m. length m = 64 * n \<longrightarrow> f m = d64_spec n m)"

definition way_opt_ok :: "nat \<Rightarrow> TransformD64Type option \<Rightarrow> bool" where
  "way_opt_ok n way \<longleftrightarrow> (\<forall>f. way = Some f \<longrightarrow> way_ok n f)"

definition impl_ok :: "d64_impl \<Rightarrow> bool" where
  "impl_ok impl \<longleftrightarrow> way_opt_ok 8 (TransformD64_8way impl) \<and> way_opt_ok 4 (TransformD64_4way impl) \<and>
     way_opt_ok 2 (TransformD64_2way impl) \<and> way_ok 1 (TransformD64_1way impl)"

lemma d64_spec_add: "d64_spec (n + k) m = d64_spec n m @ d64_spec k (drop (64 * n) m)"
  by (induction n arbitrary: m) (simp_all add: ac_simps)

lemma d64_spec_take: "64 * n \<le> l \<Longrightarrow> d64_spec n (take l m) = d64_spec n m"
proof (induction n arbitrary: m l)
  case (Suc n)
  then show ?case using Suc.IH [of "l - 64" "drop 64 m"] by (simp add: drop_take min_def)
qed simp

definition d64_inv :: "u8 list \<Rightarrow> u8 list \<times> u8 list \<times> nat \<Rightarrow> bool" where
  "d64_inv res st \<longleftrightarrow> (case st of (out, inp, blocks) \<Rightarrow> out @ d64_spec blocks inp = res \<and> length inp = 64 * blocks)"

lemma d64_loop_inv:
  "d64_inv res (out, inp, blocks) \<Longrightarrow> way_ok n f \<Longrightarrow> d64_inv res (d64_loop n f out inp blocks)"
proof (induction n f out inp blocks rule: d64_loop.induct)
  case (1 n f out inp blocks)
  show ?case
  proof (cases "0 < n \<and> n \<le> blocks")
    case True
    have "d64_spec blocks inp = d64_spec n inp @ d64_spec (blocks - n) (drop (64 * n) inp)"
      using d64_spec_add [of n "blocks - n" inp] True by simp
    moreover have "f (take (64 * n) inp) = d64_spec n inp"
      using 1 True by (simp add: way_ok_def d64_inv_def d64_spec_take)
    ultimately have "d64_inv res (out @ f (take (64 * n) inp), drop (64 * n) inp, blocks - n)"
      using 1(2) True by (auto simp: d64_inv_def diff_mult_distrib2)
    then show ?thesis using 1(1) True 1(3) by (simp add: d64_loop.simps [of n f out inp blocks])
  next
    case False
    then show ?thesis using 1(2) by (subst d64_loop.simps) auto
  qed
qed

lemma d64_ways_inv: "way_opt_ok n way \<Longrightarrow> d64_inv res st \<Longrightarrow> d64_inv res (d64_ways n way st)"
  by (auto simp: d64_ways_def way_opt_ok_def d64_loop_inv split: option.split prod.split)

lemma d64_loop_one: "snd (snd (d64_loop 1 f out inp blocks)) = 0"
proof (induction "1 :: nat" f out inp blocks rule: d64_loop.induct)
  case (1 f out inp blocks)
  then show ?case by (subst d64_loop.simps) auto
qed

lemma d64_ways_one: "snd (snd (d64_ways 1 (Some f) st)) = 0"
  using d64_loop_one by (cases st) (simp add: d64_ways_def)

lemma TransformD64_way_ok: "way_ok 1 TransformD64"
  by (simp add: way_ok_def TransformD64_sha256 sha256d_def)

lemma default_impl_ok: "impl_ok default_impl"
  using TransformD64_way_ok by (simp add: impl_ok_def default_impl_def way_opt_ok_def)

lemma SHA256D64_spec:
  assumes "impl_ok impl" "length inp = 64 * blocks"
  shows "SHA256D64 impl inp blocks = d64_spec blocks inp"
proof -
  let ?st = "d64_ways 2 (TransformD64_2way impl)
    (d64_ways 4 (TransformD64_4way impl) (d64_ways 8 (TransformD64_8way impl) ([], inp, blocks)))"
  let ?fin = "d64_ways 1 (Some (TransformD64_1way impl)) ?st"
  have "d64_inv (d64_spec blocks inp) ?fin"
    using assms unfolding impl_ok_def by (intro d64_ways_inv) (simp_all add: way_opt_ok_def d64_inv_def)
  moreover have "snd (snd ?fin) = 0" by (rule d64_ways_one)
  ultimately show ?thesis by (cases ?fin) (simp add: d64_inv_def SHA256D64_def)
qed

lemma d64_spec_map: "d64_spec n m = concat (map (\<lambda>i. sha256d (take 64 (drop (64 * i) m))) [0..<n])"
proof (induction n arbitrary: m)
  case (Suc n)
  have "[0..<Suc n] = 0 # map Suc [0..<n]" by (simp add: map_Suc_upt upt_conv_Cons del: upt_Suc)
  then show ?case using Suc by (simp add: comp_def add.commute del: upt_Suc)
qed simp

section \<open>Properties\<close>

text \<open>
  C21: However the bytes of a message are split over calls of \<open>CSHA256::Write\<close>, \<open>Finalize\<close>
  returns the digest of their concatenation, and a context that was finalized and \<open>Reset\<close>
  hashes the next message as a fresh one does.
\<close>

theorem CSHA256_streams:
  "CSHA256_Finalize (foldl CSHA256_Write CSHA256 ds) = sha256 (concat ds) \<and>
   CSHA256_Finalize (foldl CSHA256_Write (CSHA256_Reset (CSHA256_seal (foldl CSHA256_Write CSHA256 ds))) es) = sha256 (concat es)"
proof -
  let ?ctx = "foldl CSHA256_Write CSHA256 ds"
  have "absorbed sha256_Transform sha256_Initialize ?ctx (concat ds)"
    using sha256_stream.holds_writes [OF sha256_stream.holds_fresh] by simp
  from sha256_stream.holds_writes [OF sha256_stream.holds_reset [OF this], of es]
  show ?thesis using sha256_stream.chunked_digest sha256_stream.finish_digest by simp
qed

text \<open>
  C22: The hand-unrolled \<open>TransformD64\<close>, with its folded padding constants, computes SHA-256 of
  SHA-256 of a 64-byte block; and \<open>SHA256D64\<close>, whichever of its vector implementations are
  present, writes the double hash of every block in order.
\<close>

theorem SHA256D64_correct:
  assumes "impl_ok impl" "length inp = 64 * blocks"
  shows "SHA256D64 impl inp blocks = concat (map (\<lambda>i. sha256 (sha256 (take 64 (drop (64 * i) inp)))) [0..<blocks]) \<and>
    impl_ok default_impl"
  using SHA256D64_spec [OF assms] default_impl_ok by (simp add: d64_spec_map sha256d_def)

theorem SHA256D64_correct_witness:
  "SHA256D64 (default_impl\<lparr>TransformD64_2way := Some (d64_spec 2)\<rparr>) (replicate 192 7) 3 =
   concat (map (\<lambda>i. sha256 (sha256 (take 64 (drop (64 * i) (replicate 192 7))))) [0..<3])"
proof -
  have "impl_ok (default_impl\<lparr>TransformD64_2way := Some (d64_spec 2)\<rparr>)"
    using default_impl_ok by (simp add: impl_ok_def way_opt_ok_def way_ok_def)
  from SHA256D64_correct [OF this, of "replicate 192 7" 3] show ?thesis by simp
qed

end
