(* ===== verification/Ripemd160.thy ===== *)
theory Ripemd160
  imports HashStream
begin

text \<open>
  RIPEMD-160, \<open>src/src/crypto/ripemd160.cpp\<close>. The unrolled code interleaves two lines of eighty
  rounds and renames the five registers from round to round; here the registers rotate and each
  line is a table of message word index and rotation, in the order of the code.
\<close>

section \<open>Definitions\<close>

type_synonym ripemd_regs = "u32 \<times> u32 \<times> u32 \<times> u32 \<times> u32"

definition ripemd_f1 :: "u32 \<Rightarrow> u32 \<Rightarrow> u32 \<Rightarrow> u32" where "ripemd_f1 x y z = x XOR y XOR z"
definition ripemd_f2 :: "u32 \<Rightarrow> u32 \<Rightarrow> u32 \<Rightarrow> u32" where "ripemd_f2 x y z = (x AND y) OR (NOT x AND z)"
definition ripemd_f3 :: "u32 \<Rightarrow> u32 \<Rightarrow> u32 \<Rightarrow> u32" where "ripemd_f3 x y z = (x OR NOT y) XOR z"
definition ripemd_f4 :: "u32 \<Rightarrow> u32 \<Rightarrow> u32 \<Rightarrow> u32" where "ripemd_f4 x y z = (x AND z) OR (y AND NOT z)"
definition ripemd_f5 :: "u32 \<Rightarrow> u32 \<Rightarrow> u32 \<Rightarrow> u32" where "ripemd_f5 x y z = x XOR (y OR NOT z)"

definition ripemd_Initialize :: "u32 list" where
  "ripemd_Initialize = [0x67452301, 0xEFCDAB89, 0x98BADCFE, 0x10325476, 0xC3D2E1F0]"

definition rol :: "u32 \<Rightarrow> nat \<Rightarrow> u32" where
  "rol x i = push_bit i x OR drop_bit (32 - i) x"

fun ripemd_Round :: "ripemd_regs \<Rightarrow> (u32 \<Rightarrow> u32 \<Rightarrow> u32 \<Rightarrow> u32) \<Rightarrow> u32 \<Rightarrow> u32 \<Rightarrow> nat \<Rightarrow> ripemd_regs" where
  "ripemd_Round (a, b, c, d, e) f x k r = (e, rol (a + f b c d + x + k) r + e, b, rol c 10, d)"

text \<open>\<open>R11\<close> to \<open>R51\<close> and \<open>R12\<close> to \<open>R52\<close>: the boolean function and the constant of sixteen rounds.\<close>

definition ripemd_left :: "((u32 \<Rightarrow> u32 \<Rightarrow> u32 \<Rightarrow> u32) \<times> u32) list" where
  "ripemd_left = [(ripemd_f1, 0), (ripemd_f2, 0x5A827999), (ripemd_f3, 0x6ED9EBA1), (ripemd_f4, 0x8F1BBCDC), (ripemd_f5, 0xA953FD4E)]"

definition ripemd_right :: "((u32 \<Rightarrow> u32 \<Rightarrow> u32 \<Rightarrow> u32) \<times> u32) list" where
  "ripemd_right = [(ripemd_f5, 0x50A28BE6), (ripemd_f4, 0x5C4DD124), (ripemd_f3, 0x6D703EF3), (ripemd_f2, 0x7A6D76E9), (ripemd_f1, 0)]"

definition ripemd_left_table :: "(nat \<times> nat) list" where
  "ripemd_left_table =
    [(0, 11), (1, 14), (2, 15), (3, 12), (4, 5), (5, 8), (6, 7), (7, 9), (8, 11), (9, 13),
     (10, 14), (11, 15), (12, 6), (13, 7), (14, 9), (15, 8), (7, 7), (4, 6), (13, 8), (1, 13),
     (10, 11), (6, 9), (15, 7), (3, 15), (12, 7), (0, 12), (9, 15), (5, 9), (2, 11), (14, 7),
     (11, 13), (8, 12), (3, 11), (10, 13), (14, 6), (4, 7), (9, 14), (15, 9), (8, 13), (1, 15),
     (2, 14), (7, 8), (0, 13), (6, 6), (13, 5), (11, 12), (5, 7), (12, 5), (1, 11), (9, 12),
     (11, 14), (10, 15), (0, 14), (8, 15), (12, 9), (4, 8), (13, 9), (3, 14), (7, 5), (15, 6),
     (14, 8), (5, 6), (6, 5), (2, 12), (4, 9), (0, 15), (5, 5), (9, 11), (7, 6), (12, 8),
     (2, 13), (10, 12), (14, 5), (1, 12), (3, 13), (8, 14), (11, 11), (6, 8), (15, 5), (13, 6)]"

definition ripemd_right_table :: "(nat \<times> nat) list" where
  "ripemd_right_table =
    [(5, 8), (14, 9), (7, 9), (0, 11), (9, 13), (2, 15), (11, 15), (4, 5), (13, 7), (6, 7),
     (15, 8), (8, 11), (1, 14), (10, 14), (3, 12), (12, 6), (6, 9), (11, 13), (3, 15), (7, 7),
     (0, 12), (13, 8), (5, 9), (10, 11), (14, 7), (15, 7), (8, 12), (12, 7), (4, 6), (9, 15),
     (1, 13), (2, 11), (15, 9), (5, 7), (1, 15), (3, 11), (7, 8), (14, 6), (6, 6), (9, 14),
     (11, 12), (8, 13), (12, 5), (2, 14), (10, 13), (0, 13), (4, 7), (13, 5), (8, 15), (6, 5),
     (4, 8), (1, 11), (3, 14), (11, 14), (15, 6), (0, 14), (5, 6), (12, 9), (2, 12), (13, 9),
     (9, 12), (7, 5), (10, 15), (14, 8), (12, 8), (15, 5), (10, 12), (4, 9), (1, 12), (5, 5),
     (8, 14), (7, 6), (6, 8), (2, 13), (13, 6), (14, 5), (0, 15), (3, 13), (9, 11), (11, 11)]"

definition ripemd_line :: "((u32 \<Rightarrow> u32 \<Rightarrow> u32 \<Rightarrow> u32) \<times> u32) list \<Rightarrow> (nat \<times> nat) list \<Rightarrow> u32 list \<Rightarrow> ripemd_regs \<Rightarrow> ripemd_regs" where
  "ripemd_line groups table w regs =
     foldl (\<lambda>regs ((f, k), (x, r)). ripemd_Round regs f (w ! x) k r) regs
       (zip (concat (map (replicate 16) groups)) table)"

definition ripemd_Transform :: "u32 list \<Rightarrow> u8 list \<Rightarrow> u32 list" where
  "ripemd_Transform s chunk =
     (let w = map (\<lambda>i. ReadLE32 (drop (4 * i) chunk)) [0..<16];
          regs = (s ! 0, s ! 1, s ! 2, s ! 3, s ! 4);
          (a1, b1, c1, d1, e1) = ripemd_line ripemd_left ripemd_left_table w regs;
          (a2, b2, c2, d2, e2) = ripemd_line ripemd_right ripemd_right_table w regs
      in [s ! 1 + c1 + d2, s ! 2 + d1 + e2, s ! 3 + e1 + a2, s ! 4 + a1 + b2, s ! 0 + b1 + c2])"

definition CRIPEMD160 :: hash_ctx where "CRIPEMD160 = ctx_init ripemd_Initialize"
definition CRIPEMD160_Write :: "hash_ctx \<Rightarrow> u8 list \<Rightarrow> hash_ctx" where
  "CRIPEMD160_Write = md_Write ripemd_Transform"
definition CRIPEMD160_Finalize :: "hash_ctx \<Rightarrow> u8 list" where
  "CRIPEMD160_Finalize = md_Finalize ripemd_Transform WriteLE64 WriteLE32"
definition CRIPEMD160_seal :: "hash_ctx \<Rightarrow> hash_ctx" where
  "CRIPEMD160_seal = md_seal ripemd_Transform WriteLE64"
definition CRIPEMD160_Reset :: "hash_ctx \<Rightarrow> hash_ctx" where
  "CRIPEMD160_Reset = md_Reset ripemd_Initialize"

definition ripemd160 :: "u8 list \<Rightarrow> u8 list" where
  "ripemd160 m = md_digest ripemd_Transform WriteLE64 WriteLE32 ripemd_Initialize m"

lemmas CRIPEMD160_defs = CRIPEMD160_def CRIPEMD160_Write_def CRIPEMD160_Finalize_def CRIPEMD160_seal_def CRIPEMD160_Reset_def

section \<open>The streaming contract\<close>

interpretation ripemd_stream: stream_hash "absorbed ripemd_Transform ripemd_Initialize" CRIPEMD160 CRIPEMD160_seal
  CRIPEMD160_Reset CRIPEMD160_Write CRIPEMD160_Finalize ripemd160
  by unfold_locales
    (auto simp: CRIPEMD160_defs ripemd160_def absorbed_init absorbed_Write md_Finalize_digest
      intro: absorbed_Reset md_seal_absorbed)

end
