(* ===== verification/Sha1.thy ===== *)
theory Sha1
  imports HashStream
begin

text \<open>
  SHA-1, \<open>src/src/crypto/sha1.cpp\<close>, with rotating registers and a sliding window of sixteen
  message words in place of the renamed variables of the unrolled code.
\<close>

section \<open>Definitions\<close>

type_synonym sha1_regs = "u32 \<times> u32 \<times> u32 \<times> u32 \<times> u32"

fun sha1_Round :: "sha1_regs \<Rightarrow> (u32 \<Rightarrow> u32 \<Rightarrow> u32 \<Rightarrow> u32) \<Rightarrow> u32 \<Rightarrow> u32 \<Rightarrow> sha1_regs" where
  "sha1_Round (a, b, c, d, e) f k w =
     (e + ((push_bit 5 a OR drop_bit 27 a) + f b c d + k + w), a, push_bit 30 b OR drop_bit 2 b, c, d)"

definition sha1_f1 :: "u32 \<Rightarrow> u32 \<Rightarrow> u32 \<Rightarrow> u32" where "sha1_f1 b c d = d XOR (b AND (c XOR d))"
definition sha1_f2 :: "u32 \<Rightarrow> u32 \<Rightarrow> u32 \<Rightarrow> u32" where "sha1_f2 b c d = b XOR c XOR d"
definition sha1_f3 :: "u32 \<Rightarrow> u32 \<Rightarrow> u32 \<Rightarrow> u32" where "sha1_f3 b c d = (b AND c) OR (d AND (b OR c))"
definition sha1_left :: "u32 \<Rightarrow> u32" where "sha1_left x = push_bit 1 x OR drop_bit 31 x"

definition sha1_Initialize :: "u32 list" where
  "sha1_Initialize = [0x67452301, 0xEFCDAB89, 0x98BADCFE, 0x10325476, 0xC3D2E1F0]"

definition sha1_groups :: "((u32 \<Rightarrow> u32 \<Rightarrow> u32 \<Rightarrow> u32) \<times> u32) list" where
  "sha1_groups = [(sha1_f1, 0x5A827999), (sha1_f2, 0x6ED9EBA1), (sha1_f3, 0x8F1BBCDC), (sha1_f2, 0xCA62C1D6)]"

fun sha1_extend :: "((u32 \<Rightarrow> u32 \<Rightarrow> u32 \<Rightarrow> u32) \<times> u32) list \<Rightarrow> sha1_regs \<Rightarrow> u32 list \<Rightarrow> sha1_regs" where
  "sha1_extend [] r w = r"
| "sha1_extend ((f, k) # fks) r w =
     (let x = sha1_left (w ! 0 XOR w ! 13 XOR w ! 8 XOR w ! 2)
      in sha1_extend fks (sha1_Round r f k x) (tl w @ [x]))"

definition sha1_Transform :: "u32 list \<Rightarrow> u8 list \<Rightarrow> u32 list" where
  "sha1_Transform s chunk =
     (let w = map (\<lambda>i. ReadBE32 (drop (4 * i) chunk)) [0..<16];
          fks = concat (map (replicate 20) sha1_groups);
          r = foldl (\<lambda>r ((f, k), w). sha1_Round r f k w) (s ! 0, s ! 1, s ! 2, s ! 3, s ! 4) (zip (take 16 fks) w);
          (a, b, c, d, e) = sha1_extend (drop 16 fks) r w
      in [s ! 0 + a, s ! 1 + b, s ! 2 + c, s ! 3 + d, s ! 4 + e])"

definition CSHA1 :: hash_ctx where "CSHA1 = ctx_init sha1_Initialize"
definition CSHA1_Write :: "hash_ctx \<Rightarrow> u8 list \<Rightarrow> hash_ctx" where
  "CSHA1_Write = md_Write sha1_Transform"
definition CSHA1_Finalize :: "hash_ctx \<Rightarrow> u8 list" where
  "CSHA1_Finalize = md_Finalize sha1_Transform WriteBE64 WriteBE32"
definition CSHA1_seal :: "hash_ctx \<Rightarrow> hash_ctx" where
  "CSHA1_seal = md_seal sha1_Transform WriteBE64"
definition CSHA1_Reset :: "hash_ctx \<Rightarrow> hash_ctx" where
  "CSHA1_Reset = md_Reset sha1_Initialize"

definition sha1 :: "u8 list \<Rightarrow> u8 list" where
  "sha1 m = md_digest sha1_Transform WriteBE64 WriteBE32 sha1_Initialize m"

lemmas CSHA1_defs = CSHA1_def CSHA1_Write_def CSHA1_Finalize_def CSHA1_seal_def CSHA1_Reset_def

section \<open>The streaming contract\<close>

interpretation sha1_stream: stream_hash "absorbed sha1_Transform sha1_Initialize" CSHA1 CSHA1_seal
  CSHA1_Reset CSHA1_Write CSHA1_Finalize sha1
  by unfold_locales
    (auto simp: CSHA1_defs sha1_def absorbed_init absorbed_Write md_Finalize_digest
      intro: absorbed_Reset md_seal_absorbed)

end
