(* ===== verification/Hash.thy ===== *)
theory Hash
  imports ArithUint256 Sha256 Ripemd160 Sha1
begin

text \<open>
  The hashing front ends of \<open>src/src/hash.h\<close> and \<open>src/src/hash.cpp\<close>: \<open>CHash256\<close>,
  \<open>CHash160\<close>, \<open>HashWriter\<close>, tagged hashes and \<open>MurmurHash3\<close>, built on the streaming classes.
  Each holds a \<open>CSHA256\<close> context, whose state after a \<open>Finalize\<close> is the sealed one.
\<close>

section \<open>Definitions\<close>

definition CHash256_FinalizeA :: "hash_ctx \<Rightarrow> u8 list" where
  "CHash256_FinalizeA sha =
     (let buf = CSHA256_Finalize sha in CSHA256_Finalize (CSHA256_Write (CSHA256_Reset (CSHA256_seal sha)) buf))"

definition CHash256_Finalize :: "hash_ctx \<Rightarrow> nat \<Rightarrow> fault + u8 list" where
  "CHash256_Finalize sha output_size =
     (if output_size \<noteq> 32 then Inl AssertFailed
      else let buf = CSHA256_Finalize sha
           in Inr (CSHA256_Finalize (CSHA256_Write (CSHA256_Reset (CSHA256_seal sha)) buf)))"

definition CHash256_seal :: "hash_ctx \<Rightarrow> hash_ctx" where
  "CHash256_seal sha =
     (let buf = CSHA256_Finalize sha in CSHA256_seal (CSHA256_Write (CSHA256_Reset (CSHA256_seal sha)) buf))"

definition CHash256_Write :: "hash_ctx \<Rightarrow> u8 list \<Rightarrow> hash_ctx" where
  "CHash256_Write sha input = CSHA256_Write sha input"

definition CHash256_Reset :: "hash_ctx \<Rightarrow> hash_ctx" where
  "CHash256_Reset sha = CSHA256_Reset sha"

definition CHash160_Finalize :: "hash_ctx \<Rightarrow> nat \<Rightarrow> fault + u8 list" where
  "CHash160_Finalize sha output_size =
     (if output_size \<noteq> 20 then Inl AssertFailed
      else let buf = CSHA256_Finalize sha in Inr (CRIPEMD160_Finalize (CRIPEMD160_Write CRIPEMD160 buf)))"

definition CHash160_Write :: "hash_ctx \<Rightarrow> u8 list \<Rightarrow> hash_ctx" where
  "CHash160_Write sha input = CSHA256_Write sha input"

definition CHash160_Reset :: "hash_ctx \<Rightarrow> hash_ctx" where
  "CHash160_Reset sha = CSHA256_Reset sha"

definition Hash1 :: "u8 list \<Rightarrow> fault + uint256" where
  "Hash1 in1 = CHash256_Finalize (CHash256_Write CSHA256 in1) 32"

definition Hash2 :: "u8 list \<Rightarrow> u8 list \<Rightarrow> fault + uint256" where
  "Hash2 in1 in2 = CHash256_Finalize (CHash256_Write (CHash256_Write CSHA256 in1) in2) 32"

definition Hash160 :: "u8 list \<Rightarrow> fault + u8 list" where
  "Hash160 in1 = CHash160_Finalize (CHash160_Write CSHA256 in1) 20"

definition HashWriter_write :: "hash_ctx \<Rightarrow> u8 list \<Rightarrow> hash_ctx" where
  "HashWriter_write ctx src = CSHA256_Write ctx src"

definition HashWriter_GetHash :: "hash_ctx \<Rightarrow> uint256" where
  "HashWriter_GetHash ctx =
     (let result = CSHA256_Finalize ctx
      in CSHA256_Finalize (CSHA256_Write (CSHA256_Reset (CSHA256_seal ctx)) result))"

definition HashWriter_GetSHA256 :: "hash_ctx \<Rightarrow> uint256" where
  "HashWriter_GetSHA256 ctx = CSHA256_Finalize ctx"

definition HashWriter_GetCheapHash :: "hash_ctx \<Rightarrow> u64" where
  "HashWriter_GetCheapHash ctx = ReadLE64 (HashWriter_GetHash ctx)"

definition SHA256Uint256 :: "uint256 \<Rightarrow> uint256" where
  "SHA256Uint256 input = CSHA256_Finalize (CSHA256_Write CSHA256 input)"

definition TaggedHash :: "u8 list \<Rightarrow> hash_ctx" where
  "TaggedHash tag =
     (let taghash = CSHA256_Finalize (CSHA256_Write CSHA256 tag)
      in HashWriter_write (HashWriter_write CSHA256 taghash) taghash)"

definition ROTL32 :: "u32 \<Rightarrow> nat \<Rightarrow> u32" where
  "ROTL32 x r = push_bit r x OR drop_bit (32 - r) x"

definition murmur_mix :: "u32 \<Rightarrow> u32" where
  "murmur_mix k1 = ROTL32 (k1 * 0xcc9e2d51) 15 * 0x1b873593"

fun murmur_blocks :: "nat \<Rightarrow> u32 \<Rightarrow> u8 list \<Rightarrow> u32 \<times> u8 list" where
  "murmur_blocks 0 h1 blocks = (h1, blocks)"
| "murmur_blocks (Suc n) h1 blocks =
     (let h1 = h1 XOR murmur_mix (ReadLE32 blocks)
      in murmur_blocks n (ROTL32 h1 13 * 5 + 0xe6546b64) (drop 4 blocks))"

definition murmur_tail :: "u32 \<Rightarrow> u8 list \<Rightarrow> u32" where
  "murmur_tail h1 tail =
     (let k1 = 0;
          k1 = (if length tail = 3 then k1 XOR push_bit 16 (ucast (tail ! 2)) else k1);
          k1 = (if length tail \<ge> 2 then k1 XOR push_bit 8 (ucast (tail ! 1)) else k1)
      in if length tail \<ge> 1 then h1 XOR murmur_mix (k1 XOR ucast (tail ! 0)) else h1)"

definition MurmurHash3 :: "u32 \<Rightarrow> u8 list \<Rightarrow> u32" where
  "MurmurHash3 nHashSeed vDataToHash =
     (let (h1, tail) = murmur_blocks (length vDataToHash div 4) nHashSeed vDataToHash;
          h1 = murmur_tail h1 tail;
          h1 = h1 XOR of_nat (length vDataToHash);
          h1 = (h1 XOR drop_bit 16 h1) * 0x85ebca6b;
          h1 = (h1 XOR drop_bit 13 h1) * 0xc2b2ae35
      in h1 XOR drop_bit 16 h1)"

section \<open>Contracts\<close>

lemma CHash256_FinalizeA_digest:
  assumes "absorbed sha256_Transform sha256_Initialize sha m"
  shows "CHash256_FinalizeA sha = sha256d m"
  using sha256_stream.finish_digest [OF assms] sha256_stream.reused_digest [OF assms]
  by (simp add: CHash256_FinalizeA_def sha256d_def)

interpretation hash256_stream: stream_hash "absorbed sha256_Transform sha256_Initialize" CSHA256 CHash256_seal
  CHash256_Reset CHash256_Write CHash256_FinalizeA sha256d
proof
  show "absorbed sha256_Transform sha256_Initialize (CHash256_Reset (CHash256_seal c)) []"
    if "absorbed sha256_Transform sha256_Initialize c m" for c m
    using sha256_stream.holds_reset [OF sha256_stream.holds_write [OF sha256_stream.holds_reset [OF that]]]
    by (simp add: CHash256_Reset_def CHash256_seal_def Let_def)
qed (simp_all add: CHash256_Write_def CHash256_FinalizeA_digest sha256_stream.holds_fresh sha256_stream.holds_write)

lemma CHash256_Finalize_A: "CHash256_Finalize sha 32 = Inr (CHash256_FinalizeA sha)"
  by (simp add: CHash256_Finalize_def CHash256_FinalizeA_def)

lemma Hash1_value [simp]: "Hash1 a = Inr (sha256d a)"
  using hash256_stream.one_write by (simp add: Hash1_def CHash256_Finalize_A)

lemma Hash2_value [simp]: "Hash2 a b = Inr (sha256d (a @ b))"
  using hash256_stream.chunked_digest [of "[a, b]"] by (simp add: Hash2_def CHash256_Finalize_A)

lemma Hash160_value [simp]: "Hash160 a = Inr (ripemd160 (sha256 a))"
  using sha256_stream.one_write ripemd_stream.one_write
  by (simp add: Hash160_def CHash160_Finalize_def CHash160_Write_def)

lemma SHA256Uint256_value [simp]: "SHA256Uint256 a = sha256 a"
  using sha256_stream.one_write by (simp add: SHA256Uint256_def)

lemma HashWriter_write_eq: "HashWriter_write = CSHA256_Write"
  by (simp add: HashWriter_write_def fun_eq_iff)

lemma HashWriter_GetHash_eq: "HashWriter_GetHash = CHash256_FinalizeA"
  by (simp add: HashWriter_GetHash_def CHash256_FinalizeA_def fun_eq_iff)

lemma TaggedHash_absorbed: "absorbed sha256_Transform sha256_Initialize (TaggedHash tag) (sha256 tag @ sha256 tag)"
  using sha256_stream.holds_writes [OF sha256_stream.holds_fresh, of "[sha256 tag, sha256 tag]"] sha256_stream.one_write
  by (simp add: TaggedHash_def HashWriter_write_eq Let_def)

section \<open>Properties\<close>

text \<open>
  The hash front ends compute what their names say: \<open>Hash\<close> is double SHA-256 of its
  argument or of both concatenated, \<open>Hash160\<close> is RIPEMD-160 of SHA-256, a \<open>HashWriter\<close> hashes
  the concatenation of what was written to it, and a \<open>TaggedHash\<close> writer prefixes the digest of
  its tag twice. Their size assertions never fail.
\<close>

theorem hash_front_ends:
  "Hash1 a = Inr (sha256 (sha256 a)) \<and> Hash2 a b = Inr (sha256 (sha256 (a @ b))) \<and>
   Hash160 a = Inr (ripemd160 (sha256 a)) \<and> SHA256Uint256 a = sha256 a \<and>
   HashWriter_GetHash (foldl HashWriter_write CSHA256 ds) = sha256 (sha256 (concat ds)) \<and>
   HashWriter_GetSHA256 (foldl HashWriter_write (TaggedHash tag) ds) = sha256 (sha256 tag @ sha256 tag @ concat ds)"
proof -
  have "HashWriter_GetHash (foldl HashWriter_write CSHA256 ds) = sha256d (concat ds)"
    using sha256_stream.holds_writes [OF sha256_stream.holds_fresh, of ds]
    by (simp add: HashWriter_GetHash_eq HashWriter_write_eq CHash256_FinalizeA_digest)
  moreover have "HashWriter_GetSHA256 (foldl HashWriter_write (TaggedHash tag) ds) = sha256 (sha256 tag @ sha256 tag @ concat ds)"
    using sha256_stream.finish_digest [OF sha256_stream.holds_writes [OF TaggedHash_absorbed [of tag], of ds]]
    by (simp add: HashWriter_GetSHA256_def HashWriter_write_eq)
  ultimately show ?thesis by (simp add: sha256d_def)
qed

end
