(* ===== verification/Merkle.thy ===== *)
theory Merkle
  imports Hash
begin

text \<open>
  The Merkle root of \<open>src/src/consensus/merkle.cpp\<close>, computed level by level with
  \<open>SHA256D64\<close>. The code overwrites the vector of hashes in place; a double
  hash is read in full before its 32 bytes are written at or before its own input, so a level is
  a function of the level below it.
\<close>

section \<open>Definitions: the root\<close>

fun equal_pair :: "uint256 list \<Rightarrow> bool" where
  "equal_pair (a # b # hashes) = (a = b \<or> equal_pair hashes)"
| "equal_pair hashes = False"

definition merkle_even :: "uint256 list \<Rightarrow> uint256 list" where
  "merkle_even hashes = (if odd (length hashes) then hashes @ [last hashes] else hashes)"

definition merkle_level :: "d64_impl \<Rightarrow> uint256 list \<Rightarrow> uint256 list" where
  "merkle_level impl hashes =
     (let hashes = merkle_even hashes;
          out = SHA256D64 impl (concat hashes) (length hashes div 2)
      in map (\<lambda>i. take 32 (drop (32 * i) out)) [0..<length hashes div 2])"

lemma length_merkle_level [simp]: "length (merkle_level impl hs) = (length hs + 1) div 2"
  by (simp add: merkle_level_def merkle_even_def Let_def)

function merkle_loop :: "d64_impl \<Rightarrow> bool \<Rightarrow> uint256 list \<Rightarrow> bool \<Rightarrow> uint256 list \<times> bool" where
  "merkle_loop impl mutated hashes mutation =
     (if length hashes > 1
      then merkle_loop impl mutated (merkle_level impl hashes) (mutation \<or> mutated \<and> equal_pair hashes)
      else (hashes, mutation))"
  by pat_completeness auto
termination by (relation "measure (\<lambda>(impl, mutated, hashes, mutation). length hashes)") auto

declare merkle_loop.simps [simp del]

definition ComputeMerkleRoot :: "d64_impl \<Rightarrow> uint256 list \<Rightarrow> bool \<Rightarrow> uint256 \<times> bool" where
  "ComputeMerkleRoot impl hashes mutated =
     (case merkle_loop impl mutated hashes False of (hashes, mutation) \<Rightarrow>
        (if hashes = [] then replicate 32 0 else hd hashes, mutation))"

section \<open>The reference tree\<close>

fun merkle_pairs :: "uint256 list \<Rightarrow> uint256 list" where
  "merkle_pairs [] = []"
| "merkle_pairs [a] = [sha256d (a @ a)]"
| "merkle_pairs (a # b # hs) = sha256d (a @ b) # merkle_pairs hs"

definition all32 :: "uint256 list \<Rightarrow> bool" where
  "all32 hs \<longleftrightarrow> (\<forall>h \<in> set hs. length h = 32)"

lemma all32_simps [simp]: "all32 []" "all32 (h # hs) \<longleftrightarrow> length h = 32 \<and> all32 hs"
  by (auto simp: all32_def)

lemma length_sha256_fold: "length s = 8 \<Longrightarrow> length (fold_blocks sha256_Transform n s m) = 8"
  by (induction n arbitrary: s m) (simp_all add: sha256_Transform_def)

lemma length_sha256 [simp]: "length (sha256 m) = 32"
  by (simp add: sha256_def md_digest_def Let_def length_concat_WriteBE32 length_sha256_fold sha256_Initialize_def)

lemma length_sha256d [simp]: "length (sha256d m) = 32"
  by (simp add: sha256d_def)

lemma all32_pairs [simp]: "all32 (merkle_pairs hs)"
  by (induction hs rule: merkle_pairs.induct) simp_all

lemma length_pairs [simp]: "length (merkle_pairs hs) = (length hs + 1) div 2"
  by (induction hs rule: merkle_pairs.induct) simp_all

lemma pairs_even: "merkle_pairs (merkle_even hs) = merkle_pairs hs"
proof (induction hs rule: merkle_pairs.induct)
  case (3 a b hs)
  then show ?case by (cases hs) (auto simp: merkle_even_def split: if_splits)
qed (simp_all add: merkle_even_def)

lemma d64_spec_pairs:
  "all32 hs \<Longrightarrow> even (length hs) \<Longrightarrow> d64_spec (length hs div 2) (concat hs) = concat (merkle_pairs hs)"
  by (induction hs rule: merkle_pairs.induct) simp_all

lemma length_concat_32: "all32 hs \<Longrightarrow> length (concat hs) = 32 * length hs"
  by (induction hs) simp_all

lemma chunks_concat: "all32 hs \<Longrightarrow> map (\<lambda>i. take 32 (drop (32 * i) (concat hs))) [0..<length hs] = hs"
proof (induction hs)
  case (Cons h hs)
  have "[0..<length (h # hs)] = 0 # map Suc [0..<length hs]" by (simp add: map_Suc_upt upt_conv_Cons del: upt_Suc)
  then show ?case using Cons by (simp add: comp_def del: upt_Suc)
qed simp

lemma all32_even: "all32 hs \<Longrightarrow> all32 (merkle_even hs)"
  by (cases hs rule: rev_cases) (auto simp: merkle_even_def all32_def)

lemma even_merkle_even: "even (length (merkle_even hs))"
  by (simp add: merkle_even_def)

lemma merkle_level_pairs:
  assumes "impl_ok impl" "all32 hs"
  shows "merkle_level impl hs = merkle_pairs hs"
proof -
  let ?hs = "merkle_even hs"
  have len: "length (concat ?hs) = 64 * (length ?hs div 2)"
    using length_concat_32 [OF all32_even [OF assms(2)]] even_merkle_even [of hs] by auto
  have "SHA256D64 impl (concat ?hs) (length ?hs div 2) = concat (merkle_pairs ?hs)"
    using SHA256D64_spec [OF assms(1) len] d64_spec_pairs [OF all32_even [OF assms(2)] even_merkle_even] by simp
  moreover have "length ?hs div 2 = length (merkle_pairs ?hs)"
    using even_merkle_even [of hs] by auto
  ultimately show ?thesis
    using chunks_concat [of "merkle_pairs ?hs"] by (simp add: merkle_level_def Let_def pairs_even)
qed

section \<open>The root commits to the leaves\<close>

text \<open>
  The strings the computation of a root hashes, level by level, and a clash: a string of one list
  and a different one of the other with the same double SHA-256.
\<close>

fun pair_inputs :: "uint256 list \<Rightarrow> u8 list list" where
  "pair_inputs [] = []"
| "pair_inputs [a] = [a @ a]"
| "pair_inputs (a # b # hs) = (a @ b) # pair_inputs hs"

function merkle_inputs :: "uint256 list \<Rightarrow> u8 list list" where
  "merkle_inputs hs = (if length hs > 1 then pair_inputs hs @ merkle_inputs (merkle_pairs hs) else [])"
  by pat_completeness auto
termination by (relation "measure length") auto

declare merkle_inputs.simps [simp del]

definition clash :: "u8 list list \<Rightarrow> u8 list list \<Rightarrow> bool" where
  "clash X Y \<longleftrightarrow> (\<exists>x \<in> set X. \<exists>y \<in> set Y. x \<noteq> y \<and> sha256d x = sha256d y)"

lemma clash_mono: "clash X Y \<Longrightarrow> set X \<subseteq> set X' \<Longrightarrow> set Y \<subseteq> set Y' \<Longrightarrow> clash X' Y'"
  unfolding clash_def by blast

lemma no_clash: "\<not> clash X Y \<Longrightarrow> x \<in> set X \<Longrightarrow> y \<in> set Y \<Longrightarrow> sha256d x = sha256d y \<Longrightarrow> x = y"
  unfolding clash_def by blast

lemma hash_pair_inj:
  assumes "\<not> clash X Y" "a @ b \<in> set X" "c @ d \<in> set Y" "length a = 32" "length c = 32"
    "sha256d (a @ b) = sha256d (c @ d)"
  shows "a = c \<and> b = d"
  using no_clash [OF assms(1-3,6)] assms(4,5) by simp

lemma pairs_inj:
  "\<lbrakk>\<not> clash (pair_inputs xs) (pair_inputs ys); all32 xs; all32 ys; \<not> equal_pair xs; \<not> equal_pair ys;
    merkle_pairs xs = merkle_pairs ys\<rbrakk> \<Longrightarrow> xs = ys"
proof (induction xs arbitrary: ys rule: merkle_pairs.induct)
  case 1
  then show ?case by (cases ys rule: merkle_pairs.cases) auto
next
  case (2 a)
  then show ?case by (cases ys rule: merkle_pairs.cases) (auto simp: clash_def)
next
  case (3 a b xs)
  then show ?case by (cases ys rule: merkle_pairs.cases) (auto simp: clash_def)
qed

fun merkle_depth :: "nat \<Rightarrow> nat" where
  "merkle_depth n = (if n \<le> 1 then 0 else Suc (merkle_depth ((n + 1) div 2)))"

declare merkle_depth.simps [simp del]

lemma merkle_loop_mutation: "snd (merkle_loop impl mutated hs True)"
proof (induction impl mutated hs "True" rule: merkle_loop.induct)
  case (1 impl mutated hs)
  then show ?case by (subst merkle_loop.simps) auto
qed

lemma merkle_loop_unmutated:
  assumes "length hs > 1" "merkle_loop impl True hs False = (r, False)"
  shows "\<not> equal_pair hs \<and> merkle_loop impl True (merkle_level impl hs) False = (r, False)"
proof -
  have "merkle_loop impl True (merkle_level impl hs) (equal_pair hs) = (r, False)"
    using assms merkle_loop.simps [of impl True hs False] by simp
  then show ?thesis using merkle_loop_mutation [of impl True "merkle_level impl hs"] by (cases "equal_pair hs") auto
qed

lemma merkle_loop_inj:
  assumes "impl_ok impl"
  shows "\<lbrakk>\<not> clash (merkle_inputs xs) (merkle_inputs ys); all32 xs; all32 ys; xs \<noteq> []; ys \<noteq> [];
    merkle_depth (length xs) = merkle_depth (length ys);
    merkle_loop impl True xs False = (r, False); merkle_loop impl True ys False = (r, False)\<rbrakk> \<Longrightarrow> xs = ys"
proof (induction "length xs" arbitrary: xs ys rule: less_induct)
  case less
  show ?case
  proof (cases "length xs > 1")
    case False
    then have "\<not> length ys > 1" using less.prems(6) by (simp add: merkle_depth.simps split: if_splits)
    then show ?thesis using False less.prems(7,8) by (simp add: merkle_loop.simps)
  next
    case True
    then have ys: "length ys > 1" using less.prems(6) by (simp add: merkle_depth.simps split: if_splits)
    have inputs: "merkle_inputs xs = pair_inputs xs @ merkle_inputs (merkle_pairs xs)"
      "merkle_inputs ys = pair_inputs ys @ merkle_inputs (merkle_pairs ys)"
      using True ys by (simp_all add: merkle_inputs.simps)
    have nc: "\<not> clash (pair_inputs xs) (pair_inputs ys)"
      "\<not> clash (merkle_inputs (merkle_pairs xs)) (merkle_inputs (merkle_pairs ys))"
      using less.prems(1) unfolding inputs clash_def by auto
    note step = merkle_loop_unmutated [OF True less.prems(7)] merkle_loop_unmutated [OF ys less.prems(8)]
    have "merkle_loop impl True (merkle_pairs xs) False = (r, False)" "merkle_loop impl True (merkle_pairs ys) False = (r, False)"
      using step less.prems(2,3) merkle_level_pairs [OF assms] by simp_all
    moreover have "merkle_depth ((length xs + 1) div 2) = merkle_depth ((length ys + 1) div 2)"
      using less.prems(6) True ys by (simp add: merkle_depth.simps)
    ultimately have "merkle_pairs xs = merkle_pairs ys"
      using less.hyps [of "merkle_pairs xs" "merkle_pairs ys"] nc(2) True ys by (auto simp flip: length_0_conv)
    then show ?thesis using pairs_inj [OF nc(1)] less.prems(2,3) step by blast
  qed
qed

section \<open>Nodes by height and position\<close>

definition width :: "nat \<Rightarrow> nat \<Rightarrow> nat" where
  "width n h = (n + 2 ^ h - 1) div 2 ^ h"

fun tree_hash :: "uint256 list \<Rightarrow> nat \<Rightarrow> nat \<Rightarrow> uint256" where
  "tree_hash xs 0 p = xs ! p"
| "tree_hash xs (Suc h) p =
     sha256d (tree_hash xs h (2 * p) @
       (if 2 * p + 1 < width (length xs) h then tree_hash xs h (2 * p + 1) else tree_hash xs h (2 * p)))"

definition tree_level :: "uint256 list \<Rightarrow> nat \<Rightarrow> uint256 list" where
  "tree_level xs h = map (tree_hash xs h) [0..<width (length xs) h]"

lemma width_0 [simp]: "width n 0 = n"
  by (simp add: width_def)

lemma width_Suc: "width n (Suc h) = (width n h + 1) div 2"
proof -
  have "n + 2 ^ Suc h - 1 = (n + 2 ^ h - 1) + 2 ^ h"
    by (simp add: Suc_leI)
  then have "width n (Suc h) = ((n + 2 ^ h - 1) + 2 ^ h) div (2 ^ h * 2)"
    unfolding width_def by (simp only: power_Suc2)
  moreover have "(a + 2 ^ h) div 2 ^ h = a div 2 ^ h + 1" for a :: nat by (rule div_add_self2) simp
  ultimately have "width n (Suc h) = ((n + 2 ^ h - 1) div 2 ^ h + 1) div 2"
    by (simp only: div_mult2_eq)
  then show ?thesis unfolding width_def .
qed

lemma width_le: "width n h \<le> n"
proof (induction h)
  case (Suc h)
  then show ?case unfolding width_Suc by linarith
qed simp

lemma width_pos [simp]: "0 < width n h \<longleftrightarrow> 0 < n"
  by (induction h) (auto simp: width_Suc)

lemma width_le_1: "width n h \<le> 1 \<longleftrightarrow> n \<le> 2 ^ h"
proof -
  have "0 < (2 ^ h :: nat)" by simp
  then have "width n h < 2 \<longleftrightarrow> n + 2 ^ h - 1 < 2 * 2 ^ h"
    unfolding width_def by (rule div_less_iff_less_mult)
  then show ?thesis using \<open>0 < 2 ^ h\<close> by linarith
qed

lemma pairs_nth:
  "p < (length hs + 1) div 2 \<Longrightarrow>
   merkle_pairs hs ! p = sha256d (hs ! (2 * p) @ (if 2 * p + 1 < length hs then hs ! (2 * p + 1) else hs ! (2 * p)))"
proof (induction hs arbitrary: p rule: merkle_pairs.induct)
  case (3 a b hs)
  then show ?case by (cases p) auto
qed auto

lemma equal_pair_nth: "equal_pair hs \<longleftrightarrow> (\<exists>p. 2 * p + 1 < length hs \<and> hs ! (2 * p) = hs ! (2 * p + 1))"
proof (induction hs rule: equal_pair.induct)
  case (1 a b hs)
  have "(\<exists>p. 2 * p + 1 < length (a # b # hs) \<and> (a # b # hs) ! (2 * p) = (a # b # hs) ! (2 * p + 1)) \<longleftrightarrow>
     a = b \<or> (\<exists>p. 2 * p + 1 < length hs \<and> hs ! (2 * p) = hs ! (2 * p + 1))" (is "?l \<longleftrightarrow> ?r")
  proof
    assume ?l
    then obtain p where "2 * p + 1 < length (a # b # hs)" "(a # b # hs) ! (2 * p) = (a # b # hs) ! (2 * p + 1)" by blast
    then show ?r by (cases p) auto
  next
    assume ?r
    then show ?l
    proof
      assume "a = b"
      then show ?l by (intro exI [of _ 0]) simp
    next
      assume "\<exists>p. 2 * p + 1 < length hs \<and> hs ! (2 * p) = hs ! (2 * p + 1)"
      then obtain p where "2 * p + 1 < length hs" "hs ! (2 * p) = hs ! (2 * p + 1)" by blast
      then show ?l by (intro exI [of _ "Suc p"]) simp
    qed
  qed
  then show ?case using 1 by simp
qed simp_all

lemma pairs_tree_level: "merkle_pairs (tree_level xs h) = tree_level xs (Suc h)"
proof (rule nth_equalityI)
  show "length (merkle_pairs (tree_level xs h)) = length (tree_level xs (Suc h))"
    by (simp add: tree_level_def width_Suc)
next
  fix p
  assume "p < length (merkle_pairs (tree_level xs h))"
  then have "p < (width (length xs) h + 1) div 2" by (simp add: tree_level_def)
  then show "merkle_pairs (tree_level xs h) ! p = tree_level xs (Suc h) ! p"
    by (subst pairs_nth) (auto simp: tree_level_def width_Suc)
qed

lemma tree_level_0 [simp]: "tree_level xs 0 = xs"
  by (rule nth_equalityI) (simp_all add: tree_level_def)

lemma all32_tree_level: "all32 xs \<Longrightarrow> all32 (tree_level xs h)"
  by (induction h) (simp_all flip: pairs_tree_level)

text \<open>The height of the tree: the loop stops at the first level of width at most one.\<close>

definition is_height :: "nat \<Rightarrow> nat \<Rightarrow> bool" where
  "is_height n H \<longleftrightarrow> width n H \<le> 1 \<and> (\<forall>k < H. width n k > 1)"

lemma merkle_loop_levels:
  assumes "impl_ok impl" "all32 xs" "is_height (length xs) H"
  shows "h \<le> H \<Longrightarrow> merkle_loop impl mutated (tree_level xs h) m =
    (tree_level xs H, m \<or> mutated \<and> (\<exists>k. h \<le> k \<and> k < H \<and> equal_pair (tree_level xs k)))"
proof (induction "H - h" arbitrary: h m)
  case 0
  then have "h = H" by simp
  then show ?case using assms(3) by (subst merkle_loop.simps) (auto simp: is_height_def tree_level_def)
next
  case (Suc d)
  then have "h < H" "d = H - Suc h" by simp_all
  then have "length (tree_level xs h) > 1" using assms(3) by (simp add: is_height_def tree_level_def)
  moreover have "merkle_level impl (tree_level xs h) = tree_level xs (Suc h)"
    using merkle_level_pairs [OF assms(1) all32_tree_level [OF assms(2)]] pairs_tree_level by simp
  ultimately have "merkle_loop impl mutated (tree_level xs h) m =
      merkle_loop impl mutated (tree_level xs (Suc h)) (m \<or> mutated \<and> equal_pair (tree_level xs h))"
    by (subst merkle_loop.simps) simp
  moreover have "(\<exists>k. h \<le> k \<and> k < H \<and> equal_pair (tree_level xs k)) \<longleftrightarrow>
      equal_pair (tree_level xs h) \<or> (\<exists>k. Suc h \<le> k \<and> k < H \<and> equal_pair (tree_level xs k))"
    using \<open>h < H\<close> by (metis Suc_leD Suc_leI le_neq_implies_less order_refl)
  moreover have "Suc h \<le> H" using \<open>h < H\<close> by simp
  ultimately show ?case
    using Suc.hyps(1) [OF \<open>d = H - Suc h\<close>] by (simp only: conj_disj_distribL disj_assoc)
qed

lemma ComputeMerkleRoot_tree:
  assumes "impl_ok impl" "all32 xs" "is_height (length xs) H" "xs \<noteq> []"
  shows "ComputeMerkleRoot impl xs mutated =
    (tree_hash xs H 0, mutated \<and> (\<exists>k < H. equal_pair (tree_level xs k)))"
proof -
  have "0 < width (length xs) H" using assms(4) by simp
  then have "width (length xs) H = 1" using assms(3) unfolding is_height_def by linarith
  then have "tree_level xs H = [tree_hash xs H 0]" by (simp add: tree_level_def)
  then show ?thesis
    using merkle_loop_levels [OF assms(1-3), of 0 mutated False] by (simp add: ComputeMerkleRoot_def)
qed

lemma merkle_loop_single: "hs \<noteq> [] \<Longrightarrow> length (fst (merkle_loop impl mutated hs m)) = 1"
proof (induction impl mutated hs m rule: merkle_loop.induct)
  case (1 impl mutated hs m)
  show ?case
  proof (cases "length hs > 1")
    case True
    then have "merkle_level impl hs \<noteq> []" by (simp flip: length_0_conv)
    then show ?thesis using True 1 by (subst merkle_loop.simps) simp
  next
    case False
    then show ?thesis using 1(2) by (subst merkle_loop.simps) (simp add: Suc_leI le_antisym)
  qed
qed

lemma ComputeMerkleRoot_loop:
  assumes "hs \<noteq> []" "ComputeMerkleRoot impl hs mutated = (root, m)"
  shows "merkle_loop impl mutated hs False = ([root], m)"
  using assms merkle_loop_single [OF assms(1), of impl mutated False]
  by (auto simp: ComputeMerkleRoot_def length_Suc_conv split: prod.splits if_splits)

definition node_input :: "uint256 list \<Rightarrow> nat \<Rightarrow> nat \<Rightarrow> u8 list" where
  "node_input xs h p = tree_hash xs h (2 * p) @
     (if 2 * p + 1 < width (length xs) h then tree_hash xs h (2 * p + 1) else tree_hash xs h (2 * p))"

lemma pair_inputs_nth:
  "p < (length hs + 1) div 2 \<Longrightarrow> p < length (pair_inputs hs) \<and>
   pair_inputs hs ! p = hs ! (2 * p) @ (if 2 * p + 1 < length hs then hs ! (2 * p + 1) else hs ! (2 * p))"
proof (induction hs arbitrary: p rule: pair_inputs.induct)
  case (3 a b hs)
  then show ?case by (cases p) auto
qed auto

lemma node_input_level: "p < width (length xs) (Suc h) \<Longrightarrow> node_input xs h p \<in> set (pair_inputs (tree_level xs h))"
  using pair_inputs_nth [of p "tree_level xs h"]
  by (auto simp: node_input_def in_set_conv_nth tree_level_def width_Suc intro!: exI [of _ p])

lemma node_input_merkle:
  assumes "is_height (length xs) H" "h < H" "p < width (length xs) (Suc h)"
  shows "node_input xs h p \<in> set (merkle_inputs xs)"
proof -
  have level: "set (merkle_inputs (tree_level xs k)) \<subseteq> set (merkle_inputs xs)" if "k \<le> H" for k
    using that
  proof (induction k)
    case (Suc k)
    then have "length (tree_level xs k) > 1" using assms(1) by (simp add: is_height_def tree_level_def)
    then have "merkle_inputs (tree_level xs k) = pair_inputs (tree_level xs k) @ merkle_inputs (tree_level xs (Suc k))"
      by (subst merkle_inputs.simps) (simp add: pairs_tree_level)
    then show ?case using Suc by simp
  qed simp
  have "length (tree_level xs h) > 1" using assms(1,2) by (simp add: is_height_def tree_level_def)
  then have "set (pair_inputs (tree_level xs h)) \<subseteq> set (merkle_inputs (tree_level xs h))"
    by (subst merkle_inputs.simps) simp
  then show ?thesis using level [of h] node_input_level [OF assms(3)] assms(2) by auto
qed

section \<open>Properties\<close>

abbreviation two_leaves :: "uint256 list" where
  "two_leaves \<equiv> [replicate 32 1, replicate 32 2]"

lemma two_leaves_root: "ComputeMerkleRoot default_impl two_leaves True = (sha256d (concat two_leaves), False)"
proof -
  have h: "is_height (length two_leaves) 1" by (simp add: is_height_def width_def)
  have "replicate 32 1 \<noteq> (replicate 32 2 :: uint256)" by simp
  then show ?thesis using ComputeMerkleRoot_tree [OF default_impl_ok _ h, of True] by simp
qed

text \<open>
  C23: The root that \<open>ComputeMerkleRoot\<close> returns without reporting a mutation commits to the
  leaves: two lists of hashes of the same tree depth with the same root, neither reported as
  mutated, are equal, or among the strings hashed to compute the two roots there are two different
  ones with the same double SHA-256. (Lists that only repeat trailing leaves have equal roots and
  are told apart by the mutation report.)
\<close>

theorem ComputeMerkleRoot_binding:
  assumes "impl_ok impl" "all32 xs" "all32 ys" "xs \<noteq> []" "ys \<noteq> []"
    and "merkle_depth (length xs) = merkle_depth (length ys)"
    and "ComputeMerkleRoot impl xs True = (root, False)" "ComputeMerkleRoot impl ys True = (root, False)"
  shows "xs = ys \<or> clash (merkle_inputs xs) (merkle_inputs ys)"
  using merkle_loop_inj [OF assms(1) _ assms(2-6) ComputeMerkleRoot_loop [OF assms(4,7)] ComputeMerkleRoot_loop [OF assms(5,8)]]
  by blast

theorem ComputeMerkleRoot_binding_witness:
  "ComputeMerkleRoot default_impl two_leaves True = (sha256d (concat two_leaves), False) \<and>
   (two_leaves = two_leaves \<or> clash (merkle_inputs two_leaves) (merkle_inputs two_leaves))"
  using ComputeMerkleRoot_binding [OF default_impl_ok _ _ _ _ refl two_leaves_root two_leaves_root] two_leaves_root
  by simp

end
