(* ===== verification/ConsensusParams.thy ===== *)
theory ConsensusParams
  imports ArithUint256
begin

text \<open>
  \<open>Consensus::Params\<close> of \<open>src/src/consensus/params.h\<close>: its fields, the
  BIP9 deployment records and the heights of the buried deployments; and the limits of
  \<open>src/src/consensus/consensus.h\<close>.
\<close>

definition MAX_BLOCK_SERIALIZED_SIZE :: nat where "MAX_BLOCK_SERIALIZED_SIZE = 4000000"
definition MAX_BLOCK_WEIGHT :: nat where "MAX_BLOCK_WEIGHT = 4000000"
definition MAX_BLOCK_SIGOPS_COST :: int where "MAX_BLOCK_SIGOPS_COST = 80000"
definition COINBASE_MATURITY :: int where "COINBASE_MATURITY = 100"
definition WITNESS_SCALE_FACTOR :: nat where "WITNESS_SCALE_FACTOR = 4"
definition MIN_TRANSACTION_WEIGHT :: nat where "MIN_TRANSACTION_WEIGHT = WITNESS_SCALE_FACTOR * 60"
definition MIN_SERIALIZABLE_TRANSACTION_WEIGHT :: nat where
  "MIN_SERIALIZABLE_TRANSACTION_WEIGHT = WITNESS_SCALE_FACTOR * 10"
definition LOCKTIME_VERIFY_SEQUENCE :: u32 where "LOCKTIME_VERIFY_SEQUENCE = push_bit 0 1"

definition ALWAYS_ACTIVE :: int where "ALWAYS_ACTIVE = - 1"
definition NEVER_ACTIVE :: int where "NEVER_ACTIVE = - 2"

datatype BuriedDeployment = DEPLOYMENT_HEIGHTINCB | DEPLOYMENT_CLTV | DEPLOYMENT_DERSIG
  | DEPLOYMENT_CSV | DEPLOYMENT_SEGWIT

record BIP9Deployment =
  dep_bit :: int
  nStartTime :: int
  nTimeout :: int
  min_activation_height :: int

record Params =
  hashGenesisBlock :: uint256
  nSubsidyHalvingInterval :: int
  script_flag_exceptions :: "(uint256 \<times> u32) list"
  BIP34Height :: int
  BIP34Hash :: uint256
  BIP65Height :: int
  BIP66Height :: int
  CSVHeight :: int
  SegwitHeight :: int
  MinBIP9WarningHeight :: int
  nRuleChangeActivationThreshold :: u32
  nMinerConfirmationWindow :: u32
  vDeployments :: "BIP9Deployment list"
  powLimit :: uint256
  fPowAllowMinDifficultyBlocks :: bool
  fPowNoRetargeting :: bool
  nPowTargetSpacing :: int
  nPowTargetTimespan :: int
  nMinimumChainWork :: uint256
  defaultAssumeValid :: uint256
  signet_blocks :: bool
  signet_challenge :: "u8 list"

definition DifficultyAdjustmentInterval :: "Params \<Rightarrow> fault + int" where
  "DifficultyAdjustmentInterval params = cdiv (nPowTargetTimespan params) (nPowTargetSpacing params)"

fun DeploymentHeight :: "Params \<Rightarrow> BuriedDeployment \<Rightarrow> int" where
  "DeploymentHeight params DEPLOYMENT_HEIGHTINCB = BIP34Height params"
| "DeploymentHeight params DEPLOYMENT_CLTV = BIP65Height params"
| "DeploymentHeight params DEPLOYMENT_DERSIG = BIP66Height params"
| "DeploymentHeight params DEPLOYMENT_CSV = CSVHeight params"
| "DeploymentHeight params DEPLOYMENT_SEGWIT = SegwitHeight params"

section \<open>The networks\<close>

text \<open>
  The consensus part of \<open>CMainParams\<close>, \<open>CTestNetParams\<close> and \<open>CRegTestParams\<close> in \<open>src/src/chainparams.cpp\<close>,
  the last without command-line overrides. The main and test networks compute the activation threshold from the
  confirmation window one line before the window is assigned, so the value they get is an argument.
  A \<open>uint256S\<close> literal writes the bytes from the last to the first.
\<close>

definition NO_TIMEOUT :: int where "NO_TIMEOUT = 2 ^ 63 - 1"

definition genesis_hash :: uint256 where
  "genesis_hash = rev
    [0x2f, 0xd6, 0xfa, 0x15, 0x85, 0x98, 0x8c, 0xea, 0xe4, 0xd8, 0x94, 0x9a, 0x73, 0x9b, 0x3a, 0x8d,
     0xf6, 0x27, 0x4f, 0x4d, 0x41, 0xc8, 0x8e, 0x2e, 0xff, 0xb9, 0x64, 0x97, 0xf3, 0x5b, 0xde, 0xd6]"

definition regtest_genesis_hash :: uint256 where
  "regtest_genesis_hash = rev
    [0x22, 0x04, 0x09, 0x27, 0x3b, 0xe5, 0xfe, 0x14, 0xa7, 0x5d, 0xd1, 0xb4, 0x45, 0x38, 0x4a, 0x74,
     0xa5, 0xa2, 0x57, 0xb1, 0x61, 0xa2, 0x93, 0x5e, 0x24, 0x98, 0xcf, 0x08, 0x04, 0x5e, 0xad, 0x9b]"

definition always_active :: "int \<Rightarrow> BIP9Deployment" where
  "always_active b = \<lparr> dep_bit = b, nStartTime = ALWAYS_ACTIVE, nTimeout = NO_TIMEOUT, min_activation_height = 0 \<rparr>"

definition main_consensus :: "u32 \<Rightarrow> Params" where
  "main_consensus threshold =
     \<lparr> hashGenesisBlock = genesis_hash, nSubsidyHalvingInterval = 210240, script_flag_exceptions = [],
       BIP34Height = 0, BIP34Hash = genesis_hash, BIP65Height = 0, BIP66Height = 0, CSVHeight = 0, SegwitHeight = 0,
       MinBIP9WarningHeight = 0, nRuleChangeActivationThreshold = threshold, nMinerConfirmationWindow = 6,
       vDeployments = [always_active 28, always_active 2], powLimit = replicate 31 0xff @ [0x7f],
       fPowAllowMinDifficultyBlocks = False, fPowNoRetargeting = False, nPowTargetSpacing = 10 * 60,
       nPowTargetTimespan = 1 * 1 * 60 * 60, nMinimumChainWork = 1 # replicate 31 0, defaultAssumeValid = replicate 32 0,
       signet_blocks = False, signet_challenge = [] \<rparr>"

definition test_consensus :: "u32 \<Rightarrow> Params" where
  "test_consensus threshold = (main_consensus threshold)\<lparr> fPowAllowMinDifficultyBlocks := True \<rparr>"

definition regtest_consensus :: Params where
  "regtest_consensus = (main_consensus 108)
     \<lparr> hashGenesisBlock := regtest_genesis_hash, nSubsidyHalvingInterval := 150, BIP34Hash := replicate 32 0, fPowAllowMinDifficultyBlocks := True,
       fPowNoRetargeting := True, nMinerConfirmationWindow := 144, nMinimumChainWork := replicate 32 0 \<rparr>"

end
