(* ===== verification/PartialMerkle.thy ===== *)
theory PartialMerkle
  imports Merkle ConsensusParams
begin

text \<open>
  The partial Merkle trees of \<open>src/src/merkleblock.cpp\<close>, which prove that chosen transactions
  are under a root: \<open>TraverseAndBuild\<close> writes a depth-first stream of flag bits and hashes,
  \<open>TraverseAndExtract\<close> reads it back. The counters of the extraction count its own calls, at
  most two per node, and are natural numbers.
\<close>

section \<open>Definitions\<close>

definition BitsToBytes :: "bool list \<Rightarrow> u8 list" where
  "BitsToBytes vb =
     foldl (\<lambda>ret p. ret[p div 8 := ret ! (p div 8) OR push_bit (p mod 8) (of_bool (vb ! p))])
       (replicate ((length vb + 7) div 8) 0) [0..<length vb]"

definition BytesToBits :: "u8 list \<Rightarrow> bool list" where
  "BytesToBits bytes = map (\<lambda>p. bytes ! (p div 8) AND push_bit (p mod 8) 1 \<noteq> 0) [0..<length bytes * 8]"

record CPartialMerkleTree =
  nTransactions :: u32
  vBits :: "bool list"
  vHash :: "uint256 list"
  fBad :: bool

definition CalcTreeWidth :: "u32 \<Rightarrow> nat \<Rightarrow> u32" where
  "CalcTreeWidth nTx height = drop_bit height (nTx + push_bit height 1 - 1)"

definition vector_at :: "'a list \<Rightarrow> nat \<Rightarrow> fault + 'a" where
  "vector_at xs i = (if i < length xs then Inr (xs ! i) else Inl OutOfRange)"

fun CalcHash :: "u32 \<Rightarrow> nat \<Rightarrow> u32 \<Rightarrow> uint256 list \<Rightarrow> fault + uint256" where
  "CalcHash nTx 0 pos vTxid = (if vTxid = [] then Inl AssertFailed else vector_at vTxid (unat pos))"
| "CalcHash nTx (Suc height) pos vTxid =
     (if vTxid = [] then Inl AssertFailed
      else sum_bind (CalcHash nTx height (pos * 2) vTxid) (\<lambda>left.
           sum_bind (if pos * 2 + 1 < CalcTreeWidth nTx height then CalcHash nTx height (pos * 2 + 1) vTxid else Inr left)
             (\<lambda>right. Hash2 left right)))"

text \<open>The loop over the leaves below a node, \<open>fParentOfMatch |= vMatch[p]\<close>.\<close>

definition parent_of_match :: "u32 \<Rightarrow> nat \<Rightarrow> u32 \<Rightarrow> bool list \<Rightarrow> fault + bool" where
  "parent_of_match nTx height pos vMatch =
     (let ps = [unat (push_bit height pos)..<min (unat (push_bit height (pos + 1))) (unat nTx)]
      in if list_ex (\<lambda>p. p \<ge> length vMatch) ps then Inl OutOfRange else Inr (list_ex (\<lambda>p. vMatch ! p) ps))"

fun TraverseAndBuild :: "u32 \<Rightarrow> nat \<Rightarrow> u32 \<Rightarrow> uint256 list \<Rightarrow> bool list \<Rightarrow> bool list \<times> uint256 list \<Rightarrow> fault + bool list \<times> uint256 list" where
  "TraverseAndBuild nTx 0 pos vTxid vMatch (vb, hashes) =
     sum_bind (parent_of_match nTx 0 pos vMatch) (\<lambda>fParentOfMatch.
     sum_bind (CalcHash nTx 0 pos vTxid) (\<lambda>hash. Inr (vb @ [fParentOfMatch], hashes @ [hash])))"
| "TraverseAndBuild nTx (Suc height) pos vTxid vMatch (vb, hashes) =
     sum_bind (parent_of_match nTx (Suc height) pos vMatch) (\<lambda>fParentOfMatch.
     if \<not> fParentOfMatch then
       sum_bind (CalcHash nTx (Suc height) pos vTxid) (\<lambda>hash. Inr (vb @ [fParentOfMatch], hashes @ [hash]))
     else
       sum_bind (TraverseAndBuild nTx height (pos * 2) vTxid vMatch (vb @ [fParentOfMatch], hashes)) (\<lambda>st.
       if pos * 2 + 1 < CalcTreeWidth nTx height then TraverseAndBuild nTx height (pos * 2 + 1) vTxid vMatch st
       else Inr st))"

text \<open>\<open>while (CalcTreeWidth(nHeight) > 1) nHeight++\<close>: shifts by 32 or more are undefined.\<close>

fun tree_height :: "nat \<Rightarrow> u32 \<Rightarrow> nat \<Rightarrow> fault + nat" where
  "tree_height 0 nTx h = Inl OutOfFuel"
| "tree_height (Suc fuel) nTx h = (if CalcTreeWidth nTx h > 1 then tree_height fuel nTx (h + 1) else Inr h)"

definition make_tree :: "uint256 list \<Rightarrow> bool list \<Rightarrow> fault + CPartialMerkleTree" where
  "make_tree vTxid vMatch =
     (let nTx = of_nat (length vTxid)
      in sum_bind (tree_height 32 nTx 0) (\<lambda>nHeight.
         sum_bind (TraverseAndBuild nTx nHeight 0 vTxid vMatch ([], [])) (\<lambda>(vb, hashes).
           Inr \<lparr> nTransactions = nTx, vBits = vb, vHash = hashes, fBad = False \<rparr>)))"

definition empty_tree :: CPartialMerkleTree where
  "empty_tree = \<lparr> nTransactions = 0, vBits = [], vHash = [], fBad = True \<rparr>"

text \<open>The variables \<open>TraverseAndExtract\<close> updates through its references and its object.\<close>

record extract_state =
  nBitsUsed :: nat
  nHashUsed :: nat
  ex_match :: "uint256 list"
  ex_index :: "u32 list"
  ex_bad :: bool

definition null256 :: uint256 where "null256 = replicate 32 0"

definition extract_leaf :: "CPartialMerkleTree \<Rightarrow> bool \<Rightarrow> u32 \<Rightarrow> bool \<Rightarrow> extract_state \<Rightarrow> fault + uint256 \<times> extract_state" where
  "extract_leaf t at_leaf pos fParentOfMatch st =
     (if nHashUsed st \<ge> length (vHash t) then Inr (null256, st\<lparr>ex_bad := True\<rparr>)
      else let hash = vHash t ! nHashUsed st; st = st\<lparr>nHashUsed := nHashUsed st + 1\<rparr>
           in Inr (hash, if at_leaf \<and> fParentOfMatch
                then st\<lparr>ex_match := ex_match st @ [hash], ex_index := ex_index st @ [pos]\<rparr> else st))"

fun TraverseAndExtract :: "CPartialMerkleTree \<Rightarrow> nat \<Rightarrow> u32 \<Rightarrow> extract_state \<Rightarrow> fault + uint256 \<times> extract_state" where
  "TraverseAndExtract t 0 pos st =
     (if nBitsUsed st \<ge> length (vBits t) then Inr (null256, st\<lparr>ex_bad := True\<rparr>)
      else extract_leaf t True pos (vBits t ! nBitsUsed st) (st\<lparr>nBitsUsed := nBitsUsed st + 1\<rparr>))"
| "TraverseAndExtract t (Suc height) pos st =
     (if nBitsUsed st \<ge> length (vBits t) then Inr (null256, st\<lparr>ex_bad := True\<rparr>)
      else let fParentOfMatch = vBits t ! nBitsUsed st; st = st\<lparr>nBitsUsed := nBitsUsed st + 1\<rparr>
           in if \<not> fParentOfMatch then extract_leaf t False pos fParentOfMatch st
              else sum_bind (TraverseAndExtract t height (pos * 2) st) (\<lambda>(left, st).
                   sum_bind (if pos * 2 + 1 < CalcTreeWidth (nTransactions t) height
                             then sum_bind (TraverseAndExtract t height (pos * 2 + 1) st) (\<lambda>(right, st).
                               Inr (right, if right = left then st\<lparr>ex_bad := True\<rparr> else st))
                             else Inr (left, st)) (\<lambda>(right, st).
                   sum_bind (Hash2 left right) (\<lambda>hash. Inr (hash, st)))))"

text \<open>\<open>ExtractMatches\<close> returns the root with \<open>vMatch\<close> and \<open>vnIndex\<close>; a null root reports a bad tree.
  The code clears \<open>vMatch\<close> and appends to \<open>vnIndex\<close>, which is empty here, as its callers pass it.\<close>

definition ExtractMatches :: "CPartialMerkleTree \<Rightarrow> fault + uint256 \<times> extract_state" where
  "ExtractMatches t =
     (let st = \<lparr> nBitsUsed = 0, nHashUsed = 0, ex_match = [], ex_index = [], ex_bad = fBad t \<rparr>
      in if nTransactions t = 0 then Inr (null256, st)
         else if unat (nTransactions t) > MAX_BLOCK_WEIGHT div MIN_TRANSACTION_WEIGHT then Inr (null256, st)
         else if length (vHash t) > unat (nTransactions t) then Inr (null256, st)
         else if length (vBits t) < length (vHash t) then Inr (null256, st)
         else sum_bind (tree_height 32 (nTransactions t) 0) (\<lambda>nHeight.
              sum_bind (TraverseAndExtract t nHeight 0 st) (\<lambda>(hashMerkleRoot, st).
                if ex_bad st then Inr (null256, st)
                else if (nBitsUsed st + 7) div 8 \<noteq> (length (vBits t) + 7) div 8 then Inr (null256, st)
                else if nHashUsed st \<noteq> length (vHash t) then Inr (null256, st)
                else Inr (hashMerkleRoot, st))))"

section \<open>Widths and positions as numbers\<close>

text \<open>The trees \<open>ExtractMatches\<close> accepts have at most \<open>MAX_BLOCK_WEIGHT / MIN_TRANSACTION_WEIGHT\<close> leaves; all is exact up to \<open>2 ^ 31\<close>.\<close>

definition node_at :: "u32 \<Rightarrow> nat \<Rightarrow> u32 \<Rightarrow> bool" where
  "node_at nTx h pos \<longleftrightarrow> unat nTx \<le> 2 ^ 31 \<and> h \<le> 31 \<and> unat pos < width (unat nTx) h"

lemma CalcTreeWidth_width:
  assumes "unat nTx \<le> 2 ^ 31" "h \<le> 31"
  shows "unat (CalcTreeWidth nTx h) = width (unat nTx) h"
proof -
  have h: "(2 :: nat) ^ h \<le> 2 ^ 31" using assms(2) by (rule power_increasing) simp
  then have "unat nTx + 2 ^ h - 1 < 2 ^ 32" using assms(1) by simp
  moreover have "nTx + push_bit h 1 - 1 = of_nat (unat nTx + 2 ^ h - 1)"
    by (simp add: push_bit_eq_mult of_nat_diff Suc_leI)
  ultimately have "unat (nTx + push_bit h 1 - 1) = unat nTx + 2 ^ h - 1"
    by (simp add: unat_of_nat)
  then show ?thesis by (simp add: CalcTreeWidth_def unat_drop_bit width_def)
qed

lemma node_children:
  assumes "node_at nTx (Suc h) pos"
  shows "unat (pos * 2) = 2 * unat pos" "unat (pos * 2 + 1) = 2 * unat pos + 1" "node_at nTx h (pos * 2)"
    "pos * 2 + 1 < CalcTreeWidth nTx h \<longleftrightarrow> 2 * unat pos + 1 < width (unat nTx) h"
    "pos * 2 + 1 < CalcTreeWidth nTx h \<Longrightarrow> node_at nTx h (pos * 2 + 1)"
proof -
  have "unat pos < (width (unat nTx) h + 1) div 2" using assms unfolding node_at_def width_Suc by blast
  then have p: "2 * unat pos < width (unat nTx) h" by arith
  also have "\<dots> \<le> 2 ^ 31" using width_le [of "unat nTx" h] assms by (simp add: node_at_def)
  finally have b: "2 * unat pos < 2 ^ 31" .
  have "pos * 2 = of_nat (2 * unat pos)" "pos * 2 + 1 = of_nat (2 * unat pos + 1)" by simp_all
  then show d: "unat (pos * 2) = 2 * unat pos" and s: "unat (pos * 2 + 1) = 2 * unat pos + 1"
    using b by (simp_all add: unat_of_nat del: of_nat_mult of_nat_add of_nat_Suc)
  show "node_at nTx h (pos * 2)" using assms p d by (simp add: node_at_def)
  have w: "unat (CalcTreeWidth nTx h) = width (unat nTx) h"
    using CalcTreeWidth_width assms by (simp add: node_at_def)
  show iff: "pos * 2 + 1 < CalcTreeWidth nTx h \<longleftrightarrow> 2 * unat pos + 1 < width (unat nTx) h"
    by (simp only: word_less_nat_alt s w)
  show "node_at nTx h (pos * 2 + 1)" if "pos * 2 + 1 < CalcTreeWidth nTx h"
    using that assms s unfolding iff by (simp add: node_at_def)
qed

lemma CalcHash_tree:
  assumes "unat nTx = length vTxid" "vTxid \<noteq> []"
  shows "node_at nTx h pos \<Longrightarrow> CalcHash nTx h pos vTxid = Inr (tree_hash vTxid h (unat pos))"
proof (induction h arbitrary: pos)
  case 0
  then show ?case using assms by (simp add: node_at_def vector_at_def)
next
  case (Suc h)
  note c = node_children [OF Suc.prems]
  show ?case using Suc.IH [OF c(3)] Suc.IH [OF c(5)] assms c(1,2,4) by simp
qed

definition leaves :: "nat \<Rightarrow> nat \<Rightarrow> nat \<Rightarrow> nat list" where
  "leaves n h p = [p * 2 ^ h..<min ((p + 1) * 2 ^ h) n]"

lemma width_iff: "p < width n h \<longleftrightarrow> p * 2 ^ h < n"
proof -
  have pos: "0 < (2 ^ h :: nat)" by simp
  have "p < width n h \<longleftrightarrow> Suc p * 2 ^ h \<le> n + 2 ^ h - 1"
    unfolding width_def by (simp only: less_eq_div_iff_mult_less_eq [OF pos] flip: Suc_le_eq)
  also have "\<dots> \<longleftrightarrow> p * 2 ^ h < n" using pos by (simp only: mult_Suc) linarith
  finally show ?thesis .
qed

lemma upt_min_split:
  assumes "a \<le> b" "b \<le> c"
  shows "[a..<min c n] = [a..<min b n] @ [b..<min c n]"
proof (cases "b \<le> n")
  case True
  then show ?thesis using upt_add_eq_append [OF assms(1), of "min c n - b"] assms by simp
next
  case False
  then show ?thesis using assms by simp
qed

lemma leaves_split: "leaves n (Suc h) p = leaves n h (2 * p) @ leaves n h (2 * p + 1)"
  using upt_min_split [of "2 * p * 2 ^ h" "(2 * p + 1) * 2 ^ h" "(2 * p + 2) * 2 ^ h" n]
  by (simp add: leaves_def algebra_simps)

lemma leaves_empty: "\<not> p < width n h \<Longrightarrow> leaves n h p = []"
  unfolding width_iff leaves_def by simp

lemma parent_of_match_leaves:
  assumes "node_at nTx h pos" "length vM = unat nTx"
  shows "parent_of_match nTx h pos vM = Inr (list_ex ((!) vM) (leaves (unat nTx) h (unat pos)))"
proof -
  let ?p = "unat pos" and ?n = "unat nTx"
  have n: "?n \<le> 2 ^ 31" and h: "h \<le> 31" and p: "?p * 2 ^ h < ?n"
    using assms(1) unfolding node_at_def width_iff by simp_all
  have "(2 :: nat) ^ h \<le> 2 ^ 31" using h by (rule power_increasing) simp
  then have b: "?p * 2 ^ h < 2 ^ 32" "(?p + 1) * 2 ^ h < 2 ^ 32" using n p by simp_all
  have "push_bit h pos = of_nat (?p * 2 ^ h)" "push_bit h (pos + 1) = of_nat ((?p + 1) * 2 ^ h)"
    by (simp_all add: push_bit_eq_mult algebra_simps)
  then have "unat (push_bit h pos) = ?p * 2 ^ h" "unat (push_bit h (pos + 1)) = (?p + 1) * 2 ^ h"
    using b by (simp_all add: unat_of_nat del: of_nat_mult of_nat_add of_nat_Suc of_nat_power)
  then show ?thesis
    using assms(2) by (auto simp: parent_of_match_def leaves_def list_ex_iff)
qed

section \<open>The stream of a partial tree\<close>

abbreviation matched :: "bool list \<Rightarrow> nat \<Rightarrow> nat \<Rightarrow> bool" where
  "matched vM h p \<equiv> list_ex ((!) vM) (leaves (length vM) h p)"

fun part_bits :: "bool list \<Rightarrow> nat \<Rightarrow> nat \<Rightarrow> bool list" where
  "part_bits vM 0 p = [vM ! p]"
| "part_bits vM (Suc h) p =
     (if matched vM (Suc h) p
      then True # part_bits vM h (2 * p) @ (if 2 * p + 1 < width (length vM) h then part_bits vM h (2 * p + 1) else [])
      else [False])"

fun part_hashes :: "uint256 list \<Rightarrow> bool list \<Rightarrow> nat \<Rightarrow> nat \<Rightarrow> uint256 list" where
  "part_hashes xs vM 0 p = [xs ! p]"
| "part_hashes xs vM (Suc h) p =
     (if matched vM (Suc h) p
      then part_hashes xs vM h (2 * p) @ (if 2 * p + 1 < width (length vM) h then part_hashes xs vM h (2 * p + 1) else [])
      else [tree_hash xs (Suc h) p])"

definition tree_input :: "u32 \<Rightarrow> uint256 list \<Rightarrow> bool list \<Rightarrow> bool" where
  "tree_input nTx xs vM \<longleftrightarrow> xs \<noteq> [] \<and> unat nTx = length xs \<and> length vM = length xs"

lemma leaves_0: "p < n \<Longrightarrow> leaves n 0 p = [p]"
  by (simp add: leaves_def min_def)

lemma TraverseAndBuild_stream:
  assumes "tree_input nTx xs vM"
  shows "node_at nTx h pos \<Longrightarrow> TraverseAndBuild nTx h pos xs vM (vb, vh) =
    Inr (vb @ part_bits vM h (unat pos), vh @ part_hashes xs vM h (unat pos))"
proof (induction h arbitrary: pos vb vh)
  case 0
  then show ?case
    using assms parent_of_match_leaves [OF 0, of vM]
    by (simp add: tree_input_def node_at_def vector_at_def leaves_0)
next
  case (Suc h)
  note c = node_children [OF Suc.prems]
  have n: "unat nTx = length vM" using assms by (simp add: tree_input_def)
  have hash: "CalcHash nTx (Suc h) pos xs = Inr (tree_hash xs (Suc h) (unat pos))"
    using CalcHash_tree [OF _ _ Suc.prems] assms by (simp add: tree_input_def)
  show ?case
    using Suc.IH [OF c(3)] Suc.IH [OF c(5)] parent_of_match_leaves [OF Suc.prems n [symmetric]] hash c(1,2,4)
    by (simp add: n)
qed

definition reads :: "CPartialMerkleTree \<Rightarrow> extract_state \<Rightarrow> bool list \<Rightarrow> uint256 list \<Rightarrow> bool" where
  "reads t st bs hs \<longleftrightarrow> (\<exists>r. drop (nBitsUsed st) (vBits t) = bs @ r) \<and> (\<exists>r. drop (nHashUsed st) (vHash t) = hs @ r)"

definition advance :: "extract_state \<Rightarrow> nat \<Rightarrow> nat \<Rightarrow> uint256 list \<Rightarrow> u32 list \<Rightarrow> extract_state" where
  "advance st b h ms is = st\<lparr>nBitsUsed := nBitsUsed st + b, nHashUsed := nHashUsed st + h,
     ex_match := ex_match st @ ms, ex_index := ex_index st @ is\<rparr>"

lemma advance_advance: "advance (advance st b h ms is) b' h' ms' is' = advance st (b + b') (h + h') (ms @ ms') (is @ is')"
  by (simp add: advance_def)

lemma reads_bit:
  assumes "reads t st (b # bs) hs"
  shows "nBitsUsed st < length (vBits t)" "vBits t ! nBitsUsed st = b" "reads t (st\<lparr>nBitsUsed := nBitsUsed st + 1\<rparr>) bs hs"
proof -
  from assms obtain r where r: "drop (nBitsUsed st) (vBits t) = b # bs @ r" by (auto simp: reads_def)
  then show lt: "nBitsUsed st < length (vBits t)" by (metis drop_eq_Nil leI list.discI)
  from r show "vBits t ! nBitsUsed st = b" using lt by (simp add: Cons_nth_drop_Suc [symmetric])
  from r have "drop (nBitsUsed st + 1) (vBits t) = bs @ r" using lt by (simp add: Cons_nth_drop_Suc [symmetric])
  then show "reads t (st\<lparr>nBitsUsed := nBitsUsed st + 1\<rparr>) bs hs" using assms by (simp add: reads_def)
qed

lemma reads_hash:
  assumes "reads t st bs (h # hs)"
  shows "nHashUsed st < length (vHash t)" "vHash t ! nHashUsed st = h"
proof -
  from assms obtain r where r: "drop (nHashUsed st) (vHash t) = h # hs @ r" by (auto simp: reads_def)
  then show lt: "nHashUsed st < length (vHash t)" by (metis drop_eq_Nil leI list.discI)
  from r show "vHash t ! nHashUsed st = h" using lt by (simp add: Cons_nth_drop_Suc [symmetric])
qed

lemma reads_append:
  assumes "reads t st (b1 @ b2) (h1 @ h2)"
  shows "reads t st b1 h1" "reads t (advance st (length b1) (length h1) ms is) b2 h2"
proof -
  from assms obtain r s where r: "drop (nBitsUsed st) (vBits t) = b1 @ b2 @ r"
    and s: "drop (nHashUsed st) (vHash t) = h1 @ h2 @ s" by (auto simp: reads_def)
  then show "reads t st b1 h1" by (auto simp: reads_def)
  have "drop (length b1) (drop (nBitsUsed st) (vBits t)) = b2 @ r" "drop (length h1) (drop (nHashUsed st) (vHash t)) = h2 @ s"
    unfolding r s by simp_all
  then show "reads t (advance st (length b1) (length h1) ms is) b2 h2"
    by (simp add: reads_def advance_def add.commute)
qed

text \<open>No two children of a node below height \<open>h\<close> have equal hashes.\<close>

definition distinct_siblings :: "uint256 list \<Rightarrow> nat \<Rightarrow> bool" where
  "distinct_siblings xs h \<longleftrightarrow>
     (\<forall>k < h. \<forall>q. 2 * q + 1 < width (length xs) k \<longrightarrow> tree_hash xs k (2 * q) \<noteq> tree_hash xs k (2 * q + 1))"

abbreviation picked :: "bool list \<Rightarrow> nat \<Rightarrow> nat \<Rightarrow> nat list" where
  "picked vM h p \<equiv> filter ((!) vM) (leaves (length vM) h p)"

lemma TraverseAndExtract_stream:
  assumes "tree_input (nTransactions t) xs vM"
  shows "\<lbrakk>node_at (nTransactions t) h pos; distinct_siblings xs h;
    reads t st (part_bits vM h (unat pos)) (part_hashes xs vM h (unat pos))\<rbrakk> \<Longrightarrow>
    TraverseAndExtract t h pos st = Inr (tree_hash xs h (unat pos),
      advance st (length (part_bits vM h (unat pos))) (length (part_hashes xs vM h (unat pos)))
        (map ((!) xs) (picked vM h (unat pos))) (map of_nat (picked vM h (unat pos))))"
proof (induction h arbitrary: pos st)
  case 0
  have p: "unat pos < length vM" using 0 assms by (simp add: node_at_def tree_input_def)
  note rb = reads_bit [OF 0(3) [unfolded part_bits.simps]]
  note rh = reads_hash [OF rb(3) [unfolded part_hashes.simps]]
  show ?case using rb rh p by (simp add: extract_leaf_def advance_def leaves_0 Let_def)
next
  case (Suc h)
  note c = node_children [OF Suc.prems(1)]
  let ?p = "unat pos" and ?st = "st\<lparr>nBitsUsed := nBitsUsed st + 1\<rparr>"
  have n: "unat (nTransactions t) = length vM" "length xs = length vM" using assms by (simp_all add: tree_input_def)
  have d: "distinct_siblings xs h" using Suc.prems(2) by (simp add: distinct_siblings_def)
  show ?case
  proof (cases "matched vM (Suc h) ?p")
    case False
    then have "picked vM (Suc h) ?p = []" by (simp add: filter_empty_conv list_ex_iff)
    moreover have r: "reads t st [False] [tree_hash xs (Suc h) ?p]" using Suc.prems(3) False by simp
    ultimately show ?thesis
      using False reads_bit [OF r] reads_hash [OF reads_bit(3) [OF r]]
      by (simp add: extract_leaf_def advance_def Let_def)
  next
    case True
    let ?right = "2 * ?p + 1 < width (length vM) h"
    let ?b2 = "if ?right then part_bits vM h (2 * ?p + 1) else []"
      and ?h2 = "if ?right then part_hashes xs vM h (2 * ?p + 1) else []"
    have r: "reads t st (True # part_bits vM h (2 * ?p) @ ?b2) (part_hashes xs vM h (2 * ?p) @ ?h2)"
      using Suc.prems(3) True by simp
    note r' = reads_append [OF reads_bit(3) [OF r]]
    let ?st1 = "advance ?st (length (part_bits vM h (2 * ?p))) (length (part_hashes xs vM h (2 * ?p)))
      (map ((!) xs) (picked vM h (2 * ?p))) (map of_nat (picked vM h (2 * ?p)))"
    have left: "TraverseAndExtract t h (pos * 2) ?st = Inr (tree_hash xs h (2 * ?p), ?st1)"
      using Suc.IH [OF c(3) d] r'(1) c(1) by simp
    show ?thesis
    proof (cases ?right)
      case right: True
      have "TraverseAndExtract t h (pos * 2 + 1) ?st1 = Inr (tree_hash xs h (2 * ?p + 1),
          advance ?st1 (length (part_bits vM h (2 * ?p + 1))) (length (part_hashes xs vM h (2 * ?p + 1)))
            (map ((!) xs) (picked vM h (2 * ?p + 1))) (map of_nat (picked vM h (2 * ?p + 1))))"
        using Suc.IH [OF c(5) d] r'(2) c(2,4) right n by simp
      moreover have "tree_hash xs h (2 * ?p + 1) \<noteq> tree_hash xs h (2 * ?p)"
        using Suc.prems(2) right n unfolding distinct_siblings_def by (metis lessI)
      ultimately show ?thesis
        using True right left reads_bit(1,2) [OF r] c(4) n
        by (simp add: leaves_split advance_def)
    next
      case False
      then show ?thesis
        using True left reads_bit(1,2) [OF r] c(4) n leaves_empty [OF False]
        by (simp add: leaves_split advance_def)
    qed
  qed
qed

section \<open>Building and extracting\<close>

lemma tree_height_reaches:
  "\<lbrakk>unat nTx \<le> 2 ^ 31; fuel + h = 32; fuel > 0; \<forall>k < h. width (unat nTx) k > 1\<rbrakk> \<Longrightarrow>
   \<exists>H \<le> 31. tree_height fuel nTx h = Inr H \<and> is_height (unat nTx) H"
proof (induction fuel nTx h rule: tree_height.induct)
  case (2 fuel nTx h)
  have w: "1 < CalcTreeWidth nTx h \<longleftrightarrow> 1 < width (unat nTx) h"
    using CalcTreeWidth_width [of nTx h] 2(2,3) by (simp add: word_less_nat_alt)
  show ?case
  proof (cases "1 < width (unat nTx) h")
    case True
    then have "h < 31" using width_le_1 [of "unat nTx" 31] 2(2,3) by (cases "h = 31") auto
    then show ?thesis using 2 True w by (auto simp: less_Suc_eq)
  next
    case False
    then show ?thesis using 2 w by (auto simp: is_height_def)
  qed
qed simp

lemma tree_height_total:
  "unat nTx \<le> 2 ^ 31 \<Longrightarrow> \<exists>H \<le> 31. tree_height 32 nTx 0 = Inr H \<and> is_height (unat nTx) H"
  by (rule tree_height_reaches) simp_all

lemma stream_counts:
  "p < width (length vM) h \<Longrightarrow>
   length (part_hashes xs vM h p) \<le> length (leaves (length vM) h p) \<and>
   length (part_hashes xs vM h p) \<le> length (part_bits vM h p)"
proof (induction h arbitrary: p)
  case 0
  then show ?case by (simp add: leaves_0)
next
  case (Suc h)
  have "p * 2 ^ Suc h < length vM" using Suc.prems width_iff by blast
  then have "p * 2 ^ Suc h < min ((p + 1) * 2 ^ Suc h) (length vM)" by simp
  then have some: "length (leaves (length vM) (Suc h) p) \<ge> 1" unfolding leaves_def length_upt by linarith
  have "2 * p < width (length vM) h" using Suc.prems unfolding width_Suc by arith
  note left = Suc.IH [OF this]
  show ?case
  proof (cases "2 * p + 1 < width (length vM) h")
    case True
    then show ?thesis using Suc.IH [OF True] left some by (simp add: leaves_split)
  next
    case False
    then show ?thesis using left some leaves_empty [OF False] by (simp add: leaves_split)
  qed
qed

lemma distinct_siblings_levels:
  "distinct_siblings xs H \<longleftrightarrow> \<not> (\<exists>k < H. equal_pair (tree_level xs k))"
  by (auto simp: distinct_siblings_def equal_pair_nth tree_level_def)

lemma MAX_TREE: "MAX_BLOCK_WEIGHT div MIN_TRANSACTION_WEIGHT = 16666"
  by (simp add: MAX_BLOCK_WEIGHT_def MIN_TRANSACTION_WEIGHT_def WITNESS_SCALE_FACTOR_def)

lemma leaves_root: "is_height n H \<Longrightarrow> leaves n H 0 = [0..<n]"
  using width_le_1 [of n H] by (simp add: leaves_def is_height_def min_def)

lemma make_tree_stream:
  assumes "xs \<noteq> []" "length xs \<le> 2 ^ 31" "length vM = length xs"
  obtains H where "H \<le> 31" "is_height (length xs) H" "tree_height 32 (of_nat (length xs)) 0 = Inr H"
    "make_tree xs vM = Inr \<lparr> nTransactions = of_nat (length xs), vBits = part_bits vM H 0,
       vHash = part_hashes xs vM H 0, fBad = False \<rparr>"
proof -
  let ?n = "of_nat (length xs) :: u32"
  have n: "unat ?n = length xs" using assms(2) by (simp add: unat_of_nat)
  then obtain H where H: "H \<le> 31" "tree_height 32 ?n 0 = Inr H" "is_height (length xs) H"
    using tree_height_total [of ?n] assms(2) by auto
  moreover have "node_at ?n H 0" using n assms(1,2) H(1) by (simp add: node_at_def)
  moreover have "tree_input ?n xs vM" using n assms by (simp add: tree_input_def)
  ultimately have "TraverseAndBuild ?n H 0 xs vM ([], []) = Inr (part_bits vM H 0, part_hashes xs vM H 0)"
    using TraverseAndBuild_stream [of ?n xs vM H 0 "[]" "[]"] by simp
  then show thesis using that H by (simp add: make_tree_def Let_def)
qed

text \<open>
  C24: A partial Merkle tree proves what it was built from: for at most 16666 transaction hashes,
  \<open>CPartialMerkleTree(vTxid, vMatch)\<close> succeeds, and \<open>ExtractMatches\<close> on it returns the root
  that \<open>ComputeMerkleRoot\<close> computes for the whole list, with exactly the matched hashes and their
  positions, provided the list is not mutated.
\<close>

theorem partial_tree_roundtrip:
  assumes "impl_ok impl" "all32 xs" "xs \<noteq> []" "length xs \<le> 16666" "length vM = length xs"
    and "ComputeMerkleRoot impl xs True = (root, False)"
  shows "\<exists>t st. make_tree xs vM = Inr t \<and> ExtractMatches t = Inr (root, st) \<and>
    ex_match st = map ((!) xs) (filter ((!) vM) [0..<length xs]) \<and>
    ex_index st = map of_nat (filter ((!) vM) [0..<length xs])"
proof -
  have "length xs \<le> 2 ^ 31" using assms(4) by simp
  then obtain H where H: "H \<le> 31" "is_height (length xs) H" "tree_height 32 (of_nat (length xs)) 0 = Inr H"
    and make: "make_tree xs vM = Inr \<lparr> nTransactions = of_nat (length xs), vBits = part_bits vM H 0,
      vHash = part_hashes xs vM H 0, fBad = False \<rparr>" (is "_ = Inr ?t")
    using make_tree_stream [OF assms(3) _ assms(5)] by metis
  let ?st = "\<lparr> nBitsUsed = 0, nHashUsed = 0, ex_match = [], ex_index = [], ex_bad = False \<rparr>"
  have n: "unat (nTransactions ?t) = length xs" using assms(4) by (simp add: unat_of_nat)
  have root: "root = tree_hash xs H 0" "distinct_siblings xs H"
    using ComputeMerkleRoot_tree [OF assms(1,2) H(2) assms(3), of True] assms(6) by (simp_all add: distinct_siblings_levels)
  have "TraverseAndExtract ?t H 0 ?st = Inr (root, advance ?st (length (vBits ?t)) (length (vHash ?t))
      (map ((!) xs) (picked vM H 0)) (map of_nat (picked vM H 0)))"
    using TraverseAndExtract_stream [of ?t xs vM H 0 ?st] root assms(3-5) H(1) n
    by (simp add: tree_input_def node_at_def reads_def)
  moreover have "length (vHash ?t) \<le> length xs" "length (vHash ?t) \<le> length (vBits ?t)"
    using stream_counts [of 0 vM H xs] leaves_root [OF H(2)] assms(3,5) by simp_all
  ultimately have "ExtractMatches ?t = Inr (root, advance ?st (length (vBits ?t)) (length (vHash ?t))
      (map ((!) xs) (picked vM H 0)) (map of_nat (picked vM H 0)))"
    using n assms(3,4) H(3) by (auto simp: ExtractMatches_def MAX_TREE Let_def advance_def)
  then show ?thesis
    using make leaves_root [OF H(2)] assms(5) by (auto simp: advance_def)
qed

theorem partial_tree_roundtrip_witness:
  "\<exists>t st. make_tree two_leaves [False, True] = Inr t \<and> ExtractMatches t = Inr (sha256d (concat two_leaves), st) \<and>
    ex_match st = [replicate 32 2] \<and> ex_index st = [1]"
  using partial_tree_roundtrip [OF default_impl_ok _ _ _ _ two_leaves_root, of "[False, True]"]
  by (simp add: upt_rec)

section \<open>Accepted proofs are sound\<close>

lemma length_tree_hash:
  "all32 xs \<Longrightarrow> p < width (length xs) h \<Longrightarrow> length (tree_hash xs h p) = 32"
  by (cases h) (auto simp: all32_def)

lemma extract_leaf_props:
  assumes "extract_leaf t at_leaf pos m st = Inr (v, st')" "all32 (vHash t)"
  shows "length v = 32" "ex_bad st \<Longrightarrow> ex_bad st'"
    "\<not> ex_bad st' \<Longrightarrow> (ex_match st' = ex_match st \<and> ex_index st' = ex_index st) \<or>
       (at_leaf \<and> ex_match st' = ex_match st @ [v] \<and> ex_index st' = ex_index st @ [pos])"
  using assms by (auto simp: extract_leaf_def null256_def all32_def Let_def split: if_splits)

lemma extract_SucE:
  assumes "TraverseAndExtract t (Suc h) pos st = Inr (v, st')"
  obtains (short) "v = null256" "ex_bad st'"
    | (pruned) "extract_leaf t False pos False (st\<lparr>nBitsUsed := nBitsUsed st + 1\<rparr>) = Inr (v, st')"
    | (left_only) left where "\<not> pos * 2 + 1 < CalcTreeWidth (nTransactions t) h" "v = sha256d (left @ left)"
        "TraverseAndExtract t h (pos * 2) (st\<lparr>nBitsUsed := nBitsUsed st + 1\<rparr>) = Inr (left, st')"
    | (both) left st2 right st3 where "pos * 2 + 1 < CalcTreeWidth (nTransactions t) h"
        "TraverseAndExtract t h (pos * 2) (st\<lparr>nBitsUsed := nBitsUsed st + 1\<rparr>) = Inr (left, st2)"
        "TraverseAndExtract t h (pos * 2 + 1) st2 = Inr (right, st3)" "v = sha256d (left @ right)"
        "st' = (if right = left then st3\<lparr>ex_bad := True\<rparr> else st3)"
proof -
  let ?st = "st\<lparr>nBitsUsed := nBitsUsed st + 1\<rparr>"
  consider "nBitsUsed st \<ge> length (vBits t)" | "nBitsUsed st < length (vBits t)" "\<not> vBits t ! nBitsUsed st"
    | "nBitsUsed st < length (vBits t)" "vBits t ! nBitsUsed st" by linarith
  then show thesis
  proof cases
    case 1
    then show thesis using assms short by auto
  next
    case 2
    then show thesis using assms pruned by (auto simp: Let_def)
  next
    case 3
    then obtain left st2 where l: "TraverseAndExtract t h (pos * 2) ?st = Inr (left, st2)"
      using assms by (cases "TraverseAndExtract t h (pos * 2) ?st") (auto simp: Let_def)
    show thesis
    proof (cases "pos * 2 + 1 < CalcTreeWidth (nTransactions t) h")
      case True
      then obtain right st3 where r: "TraverseAndExtract t h (pos * 2 + 1) st2 = Inr (right, st3)"
        using assms 3 l by (cases "TraverseAndExtract t h (pos * 2 + 1) st2") (auto simp: Let_def)
      show thesis by (rule both [OF True l r]) (use assms 3 l r True in \<open>simp_all add: Let_def\<close>)
    next
      case False
      show thesis by (rule left_only [OF False]) (use assms 3 l False in \<open>simp_all add: Let_def\<close>)
    qed
  qed
qed

lemma extract_bad: "\<lbrakk>TraverseAndExtract t h pos st = Inr (v, st'); all32 (vHash t)\<rbrakk> \<Longrightarrow>
   length v = 32 \<and> (ex_bad st \<longrightarrow> ex_bad st')"
proof (induction h arbitrary: pos st v st')
  case 0
  then show ?case using extract_leaf_props by (fastforce simp: null256_def split: if_splits)
next
  case (Suc h)
  from Suc.prems(1) show ?case
  proof (cases rule: extract_SucE)
    case pruned
    then show ?thesis using extract_leaf_props [OF pruned Suc.prems(2)] by simp
  next
    case (left_only left)
    then show ?thesis using Suc.IH [OF left_only(3) Suc.prems(2)] by simp
  next
    case (both left st2 right st3)
    then show ?thesis using Suc.IH [OF both(2) Suc.prems(2)] Suc.IH [OF both(3) Suc.prems(2)] by auto
  qed (simp add: null256_def)
qed

text \<open>The matches a traversal adds, each with the position it claims.\<close>

definition proved :: "uint256 list \<Rightarrow> extract_state \<Rightarrow> extract_state \<Rightarrow> bool" where
  "proved xs st st' \<longleftrightarrow> (\<exists>ms is. ex_match st' = ex_match st @ ms \<and> ex_index st' = ex_index st @ is \<and>
     list_all2 (\<lambda>m i. unat i < length xs \<and> m = xs ! unat i) ms is)"

lemma proved_trans: "proved xs st st' \<Longrightarrow> proved xs st' st'' \<Longrightarrow> proved xs st st''" (is "_ \<Longrightarrow> _ \<Longrightarrow> ?thesis")
proof -
  assume "proved xs st st'" "proved xs st' st''"
  then obtain ms js ms' js' where "ex_match st' = ex_match st @ ms" "ex_index st' = ex_index st @ js"
    "ex_match st'' = ex_match st' @ ms'" "ex_index st'' = ex_index st' @ js'"
    "list_all2 (\<lambda>m i. unat i < length xs \<and> m = xs ! unat i) ms js"
    "list_all2 (\<lambda>m i. unat i < length xs \<and> m = xs ! unat i) ms' js'"
    unfolding proved_def by blast
  then show ?thesis unfolding proved_def by (intro exI [of _ "ms @ ms'"] exI [of _ "js @ js'"]) (simp add: list_all2_appendI)
qed

text \<open>The strings a traversal hashes on the branches it opens.\<close>

fun extract_inputs :: "CPartialMerkleTree \<Rightarrow> nat \<Rightarrow> u32 \<Rightarrow> extract_state \<Rightarrow> u8 list list" where
  "extract_inputs t 0 pos st = []"
| "extract_inputs t (Suc height) pos st =
     (let st = st\<lparr>nBitsUsed := nBitsUsed st + 1\<rparr>
      in case TraverseAndExtract t height (pos * 2) st of
           Inl _ \<Rightarrow> []
         | Inr (left, st2) \<Rightarrow> extract_inputs t height (pos * 2) st @
             (if pos * 2 + 1 < CalcTreeWidth (nTransactions t) height
              then (case TraverseAndExtract t height (pos * 2 + 1) st2 of
                      Inl _ \<Rightarrow> []
                    | Inr (right, _) \<Rightarrow> extract_inputs t height (pos * 2 + 1) st2 @ [left @ right])
              else [left @ left]))"

lemma extract_sound:
  assumes all: "all32 (vHash t)" "all32 xs" and n: "unat (nTransactions t) = length xs"
    and H: "is_height (length xs) H"
  shows "\<lbrakk>TraverseAndExtract t h pos st = Inr (v, st'); node_at (nTransactions t) h pos; \<not> ex_bad st'; h \<le> H;
    \<not> clash (extract_inputs t h pos st) (merkle_inputs xs); v = tree_hash xs h (unat pos)\<rbrakk> \<Longrightarrow> proved xs st st'"
proof (induction h arbitrary: pos st v st')
  case 0
  then have "extract_leaf t True pos (vBits t ! nBitsUsed st) (st\<lparr>nBitsUsed := nBitsUsed st + 1\<rparr>) = Inr (v, st')"
    by (auto split: if_splits)
  from extract_leaf_props(3) [OF this all(1) 0(3)] show ?case
    using 0(2,6) n by (auto simp: proved_def node_at_def)
next
  case (Suc h)
  note c = node_children [OF Suc.prems(2)]
  let ?p = "unat pos" and ?X = "extract_inputs t (Suc h) pos st"
  have p: "2 * ?p < width (length xs) h" using c(1,3) n by (simp add: node_at_def)
  have "?p < width (length xs) (Suc h)" using Suc.prems(2) n by (simp add: node_at_def)
  then have node: "node_input xs h ?p \<in> set (merkle_inputs xs)" using node_input_merkle [OF H] Suc.prems(4) by simp
  note len = length_tree_hash [OF all(2)]
  from Suc.prems(1) show ?case
  proof (cases rule: extract_SucE)
    case pruned
    then show ?thesis
      using extract_leaf_props(3) [OF pruned all(1) Suc.prems(3)] by (auto simp: proved_def)
  next
    case (left_only left)
    then have X: "?X = extract_inputs t h (pos * 2) (st\<lparr>nBitsUsed := nBitsUsed st + 1\<rparr>) @ [left @ left]" by simp
    have "\<not> 2 * ?p + 1 < width (length xs) h" using left_only(1) c(4) n by simp
    then have "left = tree_hash xs h (2 * ?p)"
      using hash_pair_inj [OF Suc.prems(5), of left left "tree_hash xs h (2 * ?p)" "tree_hash xs h (2 * ?p)"] X node
        Suc.prems(6) left_only len p extract_bad [OF left_only(3) all(1)] by (simp add: node_input_def)
    moreover have "\<not> clash (extract_inputs t h (pos * 2) (st\<lparr>nBitsUsed := nBitsUsed st + 1\<rparr>)) (merkle_inputs xs)"
      using Suc.prems(5) unfolding X by (auto simp: clash_def)
    ultimately show ?thesis using Suc.IH [OF left_only(3) c(3) Suc.prems(3)] Suc.prems(4) c(1) by (auto simp: proved_def)
  next
    case (both left st2 right st3)
    then have X: "?X = extract_inputs t h (pos * 2) (st\<lparr>nBitsUsed := nBitsUsed st + 1\<rparr>)
        @ extract_inputs t h (pos * 2 + 1) st2 @ [left @ right]" by simp
    have "2 * ?p + 1 < width (length xs) h" using both(1) c(4) n by simp
    then have "left = tree_hash xs h (2 * ?p) \<and> right = tree_hash xs h (2 * ?p + 1)"
      using hash_pair_inj [OF Suc.prems(5), of left right "tree_hash xs h (2 * ?p)" "tree_hash xs h (2 * ?p + 1)"] X node
        Suc.prems(6) both(4) len p extract_bad [OF both(2) all(1)] by (simp add: node_input_def)
    moreover have "\<not> ex_bad st3" "\<not> ex_bad st2"
      using Suc.prems(3) both(5) extract_bad [OF both(3) all(1)] by (auto split: if_splits)
    moreover have "\<not> clash (extract_inputs t h (pos * 2) (st\<lparr>nBitsUsed := nBitsUsed st + 1\<rparr>)) (merkle_inputs xs)"
      "\<not> clash (extract_inputs t h (pos * 2 + 1) st2) (merkle_inputs xs)"
      using Suc.prems(5) unfolding X by (auto simp: clash_def)
    ultimately have "proved xs (st\<lparr>nBitsUsed := nBitsUsed st + 1\<rparr>) st2" "proved xs st2 st3"
      using Suc.IH [OF both(2) c(3)] Suc.IH [OF both(3) c(5) [OF both(1)]] Suc.prems(4) c(1,2) by simp_all
    then have "proved xs (st\<lparr>nBitsUsed := nBitsUsed st + 1\<rparr>) st3" by (rule proved_trans)
    then show ?thesis using Suc.prems(3) both(5) by (auto simp: proved_def split: if_splits)
  qed (use Suc.prems in simp)
qed

definition ExtractMatches_inputs :: "CPartialMerkleTree \<Rightarrow> u8 list list" where
  "ExtractMatches_inputs t =
     (case tree_height 32 (nTransactions t) 0 of
        Inl _ \<Rightarrow> []
      | Inr nHeight \<Rightarrow> extract_inputs t nHeight 0
          \<lparr> nBitsUsed = 0, nHashUsed = 0, ex_match = [], ex_index = [], ex_bad = fBad t \<rparr>)"

lemma ExtractMatches_accepts:
  assumes "ExtractMatches t = Inr (root, st)" "root \<noteq> null256"
  obtains H where "nTransactions t \<noteq> 0" "unat (nTransactions t) \<le> 16666" "tree_height 32 (nTransactions t) 0 = Inr H"
    "TraverseAndExtract t H 0 \<lparr> nBitsUsed = 0, nHashUsed = 0, ex_match = [], ex_index = [], ex_bad = fBad t \<rparr> = Inr (root, st)"
    "\<not> ex_bad st"
  using assms unfolding ExtractMatches_def Let_def MAX_TREE
  by (auto simp: sum_bind_Inr_iff split: if_splits)

text \<open>
  C25: A partial Merkle tree cannot prove a transaction that is not there. If \<open>ExtractMatches\<close>
  accepts a tree for the transaction count of a block and returns the block's Merkle root, then
  every hash it reports is the block's transaction hash at the reported position, or a string it
  hashed and a different one hashed for the block's root have the same double SHA-256.
\<close>

theorem ExtractMatches_sound:
  assumes "impl_ok impl" "all32 xs" "all32 (vHash t)" "xs \<noteq> []" "unat (nTransactions t) = length xs"
    and "ExtractMatches t = Inr (root, st)" "root \<noteq> null256" "root = fst (ComputeMerkleRoot impl xs mutated)"
  shows "list_all2 (\<lambda>m i. unat i < length xs \<and> m = xs ! unat i) (ex_match st) (ex_index st) \<or>
    clash (ExtractMatches_inputs t) (merkle_inputs xs)"
proof (rule disjCI)
  assume nc: "\<not> clash (ExtractMatches_inputs t) (merkle_inputs xs)"
  from assms(6,7) obtain H where n: "unat (nTransactions t) \<le> 16666" and H: "tree_height 32 (nTransactions t) 0 = Inr H"
    and tr: "TraverseAndExtract t H 0 \<lparr> nBitsUsed = 0, nHashUsed = 0, ex_match = [], ex_index = [], ex_bad = fBad t \<rparr> = Inr (root, st)"
    and ok: "\<not> ex_bad st" by (rule ExtractMatches_accepts)
  from n H have h: "H \<le> 31" "is_height (length xs) H"
    using tree_height_total [of "nTransactions t"] assms(5) by auto
  then have "root = tree_hash xs H 0" "node_at (nTransactions t) H 0"
    using ComputeMerkleRoot_tree [OF assms(1,2) _ assms(4)] assms(4,5,8) n by (auto simp: node_at_def)
  with extract_sound [OF assms(3,2,5) h(2) tr _ ok] nc H
  show "list_all2 (\<lambda>m i. unat i < length xs \<and> m = xs ! unat i) (ex_match st) (ex_index st)"
    by (simp add: proved_def ExtractMatches_inputs_def)
qed

text \<open>A tree of one transaction, whose root is that transaction: nothing is hashed, so nothing can clash.\<close>

theorem ExtractMatches_sound_witness:
  "\<exists>st. ExtractMatches \<lparr> nTransactions = 1, vBits = [True], vHash = [replicate 32 1], fBad = False \<rparr> = Inr (replicate 32 1, st) \<and>
    ex_match st = [replicate 32 1] \<and>
    list_all2 (\<lambda>m i. unat i < 1 \<and> m = [replicate 32 1] ! unat i) (ex_match st) (ex_index st)"
proof -
  let ?t = "\<lparr> nTransactions = 1, vBits = [True], vHash = [replicate 32 1], fBad = False \<rparr>"
  let ?st = "\<lparr> nBitsUsed = 1, nHashUsed = 1, ex_match = [replicate 32 1], ex_index = [0], ex_bad = False \<rparr>"
  have h: "is_height (length [replicate 32 (1 :: u8)]) 0" by (simp add: is_height_def)
  have "tree_height 32 1 0 = Inr 0" by code_simp
  then have ex: "ExtractMatches ?t = Inr (replicate 32 1, ?st)" and no: "ExtractMatches_inputs ?t = []"
    by (simp_all add: ExtractMatches_def ExtractMatches_inputs_def MAX_TREE Let_def extract_leaf_def)
  have "fst (ComputeMerkleRoot default_impl [replicate 32 1] True) = replicate 32 1"
    using ComputeMerkleRoot_tree [OF default_impl_ok _ h, of True] by simp
  then show ?thesis
    using ExtractMatches_sound [OF default_impl_ok _ _ _ _ ex, of "[replicate 32 1]" True] ex no
    by (simp add: null256_def clash_def)
qed

end
