(* ===== verification/BlockChain.thy ===== *)
theory BlockChain
  imports ArithUint256
begin

text \<open>
  The block index of \<open>src/src/chain.h\<close> and \<open>src/src/chain.cpp\<close>: the tree of
  \<open>CBlockIndex\<close> nodes with their predecessor and skip pointers, the active chain \<open>CChain\<close>,
  block locators, validity levels, proof of work of a block and median time past. Nodes
  live in a store, so a pointer is an address and a null pointer is \<open>None\<close>.
\<close>

section \<open>Definitions\<close>

subsection \<open>Block files and block status\<close>

record CBlockFileInfo =
  nBlocks :: u32
  nSize :: u32
  nUndoSize :: u32
  nHeightFirst :: u32
  nHeightLast :: u32
  nTimeFirst :: u64
  nTimeLast :: u64

definition CBlockFileInfo_SetNull :: CBlockFileInfo where
  "CBlockFileInfo_SetNull = \<lparr> nBlocks = 0, nSize = 0, nUndoSize = 0, nHeightFirst = 0,
     nHeightLast = 0, nTimeFirst = 0, nTimeLast = 0 \<rparr>"

definition AddBlock :: "CBlockFileInfo \<Rightarrow> u32 \<Rightarrow> u64 \<Rightarrow> CBlockFileInfo" where
  "AddBlock f nHeightIn nTimeIn =
     (let f = (if nBlocks f = 0 \<or> nHeightFirst f > nHeightIn then f\<lparr>nHeightFirst := nHeightIn\<rparr> else f);
          f = (if nBlocks f = 0 \<or> nTimeFirst f > nTimeIn then f\<lparr>nTimeFirst := nTimeIn\<rparr> else f);
          f = f\<lparr>nBlocks := nBlocks f + 1\<rparr>;
          f = (if nHeightIn > nHeightLast f then f\<lparr>nHeightLast := nHeightIn\<rparr> else f)
      in if nTimeIn > nTimeLast f then f\<lparr>nTimeLast := nTimeIn\<rparr> else f)"

type_synonym BlockStatus = u32

definition BLOCK_VALID_RESERVED :: BlockStatus where "BLOCK_VALID_RESERVED = 1"
definition BLOCK_VALID_TREE :: BlockStatus where "BLOCK_VALID_TREE = 2"
definition BLOCK_VALID_TRANSACTIONS :: BlockStatus where "BLOCK_VALID_TRANSACTIONS = 3"
definition BLOCK_VALID_CHAIN :: BlockStatus where "BLOCK_VALID_CHAIN = 4"
definition BLOCK_VALID_SCRIPTS :: BlockStatus where "BLOCK_VALID_SCRIPTS = 5"
definition BLOCK_VALID_MASK :: BlockStatus where
  "BLOCK_VALID_MASK = BLOCK_VALID_RESERVED OR BLOCK_VALID_TREE OR BLOCK_VALID_TRANSACTIONS OR
     BLOCK_VALID_CHAIN OR BLOCK_VALID_SCRIPTS"
definition BLOCK_HAVE_DATA :: BlockStatus where "BLOCK_HAVE_DATA = 8"
definition BLOCK_HAVE_UNDO :: BlockStatus where "BLOCK_HAVE_UNDO = 16"
definition BLOCK_FAILED_VALID :: BlockStatus where "BLOCK_FAILED_VALID = 32"
definition BLOCK_FAILED_CHILD :: BlockStatus where "BLOCK_FAILED_CHILD = 64"
definition BLOCK_FAILED_MASK :: BlockStatus where
  "BLOCK_FAILED_MASK = BLOCK_FAILED_VALID OR BLOCK_FAILED_CHILD"
definition BLOCK_ASSUMED_VALID :: BlockStatus where "BLOCK_ASSUMED_VALID = 256"

lemmas block_status_defs = BLOCK_VALID_RESERVED_def BLOCK_VALID_TREE_def
  BLOCK_VALID_TRANSACTIONS_def BLOCK_VALID_CHAIN_def BLOCK_VALID_SCRIPTS_def BLOCK_VALID_MASK_def
  BLOCK_HAVE_DATA_def BLOCK_HAVE_UNDO_def BLOCK_FAILED_VALID_def BLOCK_FAILED_CHILD_def
  BLOCK_FAILED_MASK_def BLOCK_ASSUMED_VALID_def

subsection \<open>The block index\<close>

type_synonym bid = nat

record CBlockIndex =
  phashBlock :: "uint256 option"
  pprev :: "bid option"
  pskip :: "bid option"
  nHeight :: int
  nFile :: int
  nDataPos :: u32
  nUndoPos :: u32
  nChainWork :: base_uint
  nTx :: u32
  nChainTx :: u32
  nStatus :: u32
  nVersion :: u32
  hashMerkleRoot :: uint256
  nTime :: u32
  nBits :: u32
  nNonce :: u32
  nSequenceId :: int
  nTimeMax :: u32

type_synonym block_store = "bid \<rightharpoonup> CBlockIndex"

definition deref :: "block_store \<Rightarrow> bid \<Rightarrow> fault + CBlockIndex" where
  "deref st p = (case st p of None \<Rightarrow> Inl BadPointer | Some b \<Rightarrow> Inr b)"

record FlatFilePos =
  pos_nFile :: int
  nPos :: u32

definition GetBlockPos :: "CBlockIndex \<Rightarrow> FlatFilePos" where
  "GetBlockPos b = (if nStatus b AND BLOCK_HAVE_DATA \<noteq> 0
     then \<lparr> pos_nFile = nFile b, nPos = nDataPos b \<rparr> else \<lparr> pos_nFile = - 1, nPos = 0 \<rparr>)"

definition GetUndoPos :: "CBlockIndex \<Rightarrow> FlatFilePos" where
  "GetUndoPos b = (if nStatus b AND BLOCK_HAVE_UNDO \<noteq> 0
     then \<lparr> pos_nFile = nFile b, nPos = nUndoPos b \<rparr> else \<lparr> pos_nFile = - 1, nPos = 0 \<rparr>)"

definition GetBlockHash :: "CBlockIndex \<Rightarrow> fault + uint256" where
  "GetBlockHash b = (case phashBlock b of None \<Rightarrow> Inl AssertFailed | Some h \<Rightarrow> Inr h)"

definition HaveTxsDownloaded :: "CBlockIndex \<Rightarrow> bool" where
  "HaveTxsDownloaded b \<longleftrightarrow> nChainTx b \<noteq> 0"

definition GetBlockTime :: "CBlockIndex \<Rightarrow> int" where
  "GetBlockTime b = uint (nTime b)"

definition GetBlockTimeMax :: "CBlockIndex \<Rightarrow> int" where
  "GetBlockTimeMax b = uint (nTimeMax b)"

definition nMedianTimeSpan :: nat where
  "nMedianTimeSpan = 11"

fun median_times :: "block_store \<Rightarrow> nat \<Rightarrow> bid option \<Rightarrow> fault + int list" where
  "median_times st 0 p = Inr []"
| "median_times st (Suc n) None = Inr []"
| "median_times st (Suc n) (Some p) =
     sum_bind (deref st p) (\<lambda>b. sum_bind (median_times st n (pprev b))
       (\<lambda>ts. Inr (ts @ [GetBlockTime b])))"

definition GetMedianTimePast :: "block_store \<Rightarrow> bid \<Rightarrow> fault + int" where
  "GetMedianTimePast st p = sum_bind (median_times st nMedianTimeSpan (Some p))
     (\<lambda>ts. Inr (sort ts ! (length ts div 2)))"

definition IsValid :: "CBlockIndex \<Rightarrow> u32 \<Rightarrow> fault + bool" where
  "IsValid b nUpTo =
     (if nUpTo AND NOT BLOCK_VALID_MASK \<noteq> 0 then Inl AssertFailed
      else if nStatus b AND BLOCK_FAILED_MASK \<noteq> 0 then Inr False
      else Inr (nStatus b AND BLOCK_VALID_MASK \<ge> nUpTo))"

definition IsAssumedValid :: "CBlockIndex \<Rightarrow> bool" where
  "IsAssumedValid b \<longleftrightarrow> nStatus b AND BLOCK_ASSUMED_VALID \<noteq> 0"

definition RaiseValidity :: "CBlockIndex \<Rightarrow> u32 \<Rightarrow> fault + (CBlockIndex \<times> bool)" where
  "RaiseValidity b nUpTo =
     (if nUpTo AND NOT BLOCK_VALID_MASK \<noteq> 0 then Inl AssertFailed
      else if nStatus b AND BLOCK_FAILED_MASK \<noteq> 0 then Inr (b, False)
      else if nStatus b AND BLOCK_VALID_MASK < nUpTo then
        let s = (if nStatus b AND BLOCK_ASSUMED_VALID \<noteq> 0 \<and> nUpTo \<ge> BLOCK_VALID_SCRIPTS
                 then nStatus b AND NOT BLOCK_ASSUMED_VALID else nStatus b)
        in Inr (b\<lparr>nStatus := (s AND NOT BLOCK_VALID_MASK) OR nUpTo\<rparr>, True)
      else Inr (b, False))"

subsection \<open>Ancestors\<close>

definition InvertLowestOne :: "int \<Rightarrow> int" where
  "InvertLowestOne n = n AND (n - 1)"

definition GetSkipHeight :: "int \<Rightarrow> int" where
  "GetSkipHeight height =
     (if height < 2 then 0
      else if height AND 1 \<noteq> 0 then InvertLowestOne (InvertLowestOne (height - 1)) + 1
      else InvertLowestOne height)"

lemma InvertLowestOne_bounds:
  assumes "0 < n"
  shows "0 \<le> InvertLowestOne n \<and> InvertLowestOne n < n"
proof -
  have "n AND (n - 1) \<le> n - 1" using assms by (intro AND_upper2) simp
  moreover have "0 \<le> n AND (n - 1)" using assms by simp
  ultimately show ?thesis by (simp add: InvertLowestOne_def)
qed

lemma GetSkipHeight_bounds:
  assumes "0 < h"
  shows "0 \<le> GetSkipHeight h \<and> GetSkipHeight h < h"
proof (cases "h < 2")
  case True
  then show ?thesis using assms by (simp add: GetSkipHeight_def)
next
  case False
  have a: "0 \<le> InvertLowestOne (h - 1) \<and> InvertLowestOne (h - 1) < h - 1"
    using False by (intro InvertLowestOne_bounds) simp
  have "0 \<le> InvertLowestOne m \<and> InvertLowestOne m \<le> m" if "0 \<le> m" for m
    using that InvertLowestOne_bounds [of m] by (cases "m = 0") (auto simp: InvertLowestOne_def)
  from this [of "InvertLowestOne (h - 1)"] a InvertLowestOne_bounds [of h] False assms
  show ?thesis by (auto simp: GetSkipHeight_def)
qed

lemma GetSkipHeight_less: "int h < hw \<Longrightarrow> GetSkipHeight hw < hw"
  using GetSkipHeight_bounds [of hw] by simp

definition take_skip :: "CBlockIndex \<Rightarrow> int \<Rightarrow> int \<Rightarrow> bool" where
  "take_skip b heightWalk height =
     (let heightSkip = GetSkipHeight heightWalk; heightSkipPrev = GetSkipHeight (heightWalk - 1)
      in pskip b \<noteq> None \<and>
         (heightSkip = height \<or>
          (heightSkip > height \<and> \<not> (heightSkipPrev < heightSkip - 2 \<and> heightSkipPrev \<ge> height))))"

function GetAncestor_loop :: "block_store \<Rightarrow> bid \<Rightarrow> int \<Rightarrow> nat \<Rightarrow> fault + bid" where
  "GetAncestor_loop st pindexWalk heightWalk height =
     (if heightWalk > int height then
        (case st pindexWalk of
           None \<Rightarrow> Inl BadPointer
         | Some b \<Rightarrow>
             if take_skip b heightWalk (int height)
             then GetAncestor_loop st (the (pskip b)) (GetSkipHeight heightWalk) height
             else (case pprev b of
                     None \<Rightarrow> Inl AssertFailed
                   | Some q \<Rightarrow> GetAncestor_loop st q (heightWalk - 1) height))
      else Inr pindexWalk)"
  by pat_completeness auto
termination
  by (relation "measure (\<lambda>(st, p, hw, h). nat hw)") (auto dest: GetSkipHeight_less)

declare GetAncestor_loop.simps [simp del]

definition GetAncestor :: "block_store \<Rightarrow> bid \<Rightarrow> int \<Rightarrow> fault + bid option" where
  "GetAncestor st p height =
     sum_bind (deref st p) (\<lambda>b.
       if height > nHeight b \<or> height < 0 then Inr None
       else sum_bind (GetAncestor_loop st p (nHeight b) (nat height)) (\<lambda>q. Inr (Some q)))"

definition BuildSkip :: "block_store \<Rightarrow> bid \<Rightarrow> fault + block_store" where
  "BuildSkip st p =
     sum_bind (deref st p) (\<lambda>b.
       case pprev b of
         None \<Rightarrow> Inr st
       | Some q \<Rightarrow> sum_bind (GetAncestor st q (GetSkipHeight (nHeight b)))
                     (\<lambda>r. Inr (st(p \<mapsto> b\<lparr>pskip := r\<rparr>))))"

subsection \<open>Work and chains\<close>

definition GetBlockProof :: "CBlockIndex \<Rightarrow> uint_error + base_uint" where
  "GetBlockProof b =
     (let r = SetCompact (nBits b); bnTarget = target r
      in if fNegative r \<or> fOverflow r \<or> EqualTo bnTarget 0 then Inr (bu_of_u64 0)
         else sum_bind (bu_div (bu_not bnTarget) (bu_add bnTarget (bu_of_u64 1)))
                (\<lambda>q. Inr (bu_add q (bu_of_u64 1))))"

definition GetBlockProofEquivalentTime ::
    "CBlockIndex \<Rightarrow> CBlockIndex \<Rightarrow> CBlockIndex \<Rightarrow> int \<Rightarrow> uint_error + int" where
  "GetBlockProofEquivalentTime to from tip nPowTargetSpacing =
     (let (r, sign) = (if CompareTo (nChainWork to) (nChainWork from) > 0
                       then (bu_sub (nChainWork to) (nChainWork from), 1)
                       else (bu_sub (nChainWork from) (nChainWork to), - 1))
      in sum_bind (GetBlockProof tip) (\<lambda>proof.
           sum_bind (bu_div (bu_mul r (bu_of_u64 (of_int nPowTargetSpacing))) proof) (\<lambda>q.
             Inr (if bits q > 63 then sign * (2 ^ 63 - 1) else sign * sint (GetLow64 q)))))"

text \<open>
  \<open>CChain\<close> is the vector \<open>vChain\<close>; a slot is null between \<open>resize\<close> and the walk of
  \<open>SetTip\<close>. The walks that follow \<open>pprev\<close> carry fuel, since a store is an arbitrary graph.
\<close>

type_synonym CChain = "bid option list"

definition vector_resize :: "nat \<Rightarrow> 'a \<Rightarrow> 'a list \<Rightarrow> 'a list" where
  "vector_resize n x xs = take n xs @ replicate (n - length xs) x"

definition chain_at :: "CChain \<Rightarrow> int \<Rightarrow> bid option" where
  "chain_at vChain h = (if h < 0 \<or> h \<ge> int (length vChain) then None else vChain ! nat h)"

definition Genesis :: "CChain \<Rightarrow> bid option" where
  "Genesis vChain = (if length vChain > 0 then vChain ! 0 else None)"

definition Tip :: "CChain \<Rightarrow> bid option" where
  "Tip vChain = (if length vChain > 0 then vChain ! (length vChain - 1) else None)"

definition Contains :: "block_store \<Rightarrow> CChain \<Rightarrow> bid \<Rightarrow> fault + bool" where
  "Contains st vChain p = sum_bind (deref st p) (\<lambda>b. Inr (chain_at vChain (nHeight b) = Some p))"

definition Next :: "block_store \<Rightarrow> CChain \<Rightarrow> bid \<Rightarrow> fault + bid option" where
  "Next st vChain p = sum_bind (deref st p) (\<lambda>b.
     sum_bind (Contains st vChain p) (\<lambda>c.
       Inr (if c then chain_at vChain (nHeight b + 1) else None)))"

definition Height :: "CChain \<Rightarrow> int" where
  "Height vChain = int (length vChain) - 1"

fun SetTip_loop :: "nat \<Rightarrow> block_store \<Rightarrow> CChain \<Rightarrow> bid option \<Rightarrow> fault + CChain" where
  "SetTip_loop fuel st vChain None = Inr vChain"
| "SetTip_loop 0 st vChain (Some p) = Inl OutOfFuel"
| "SetTip_loop (Suc fuel) st vChain (Some p) =
     sum_bind (deref st p) (\<lambda>b.
       if nHeight b < 0 \<or> nHeight b \<ge> int (length vChain) then Inl OutOfRange
       else if vChain ! nat (nHeight b) \<noteq> Some p
       then SetTip_loop fuel st (vChain[nat (nHeight b) := Some p]) (pprev b)
       else Inr vChain)"

definition SetTip :: "block_store \<Rightarrow> CChain \<Rightarrow> bid \<Rightarrow> fault + CChain" where
  "SetTip st vChain p = sum_bind (deref st p) (\<lambda>b.
     SetTip_loop (Suc (nat (nHeight b))) st (vector_resize (nat (nHeight b + 1)) None vChain) (Some p))"

fun FindFork_loop :: "nat \<Rightarrow> block_store \<Rightarrow> CChain \<Rightarrow> bid option \<Rightarrow> fault + bid option" where
  "FindFork_loop fuel st vChain None = Inr None"
| "FindFork_loop 0 st vChain (Some p) = Inl OutOfFuel"
| "FindFork_loop (Suc fuel) st vChain (Some p) =
     sum_bind (Contains st vChain p) (\<lambda>c. if c then Inr (Some p)
       else sum_bind (deref st p) (\<lambda>b. FindFork_loop fuel st vChain (pprev b)))"

definition FindFork :: "block_store \<Rightarrow> CChain \<Rightarrow> bid option \<Rightarrow> fault + bid option" where
  "FindFork st vChain pindex =
     (case pindex of
        None \<Rightarrow> Inr None
      | Some p \<Rightarrow> sum_bind (deref st p) (\<lambda>b.
          sum_bind (if nHeight b > Height vChain then GetAncestor st p (Height vChain) else Inr (Some p))
            (\<lambda>q. FindFork_loop (Suc (nat (nHeight b))) st vChain q)))"

fun LocatorEntries_loop ::
    "nat \<Rightarrow> block_store \<Rightarrow> bid option \<Rightarrow> int \<Rightarrow> uint256 list \<Rightarrow> fault + uint256 list" where
  "LocatorEntries_loop fuel st None step have' = Inr have'"
| "LocatorEntries_loop 0 st (Some p) step have' = Inl OutOfFuel"
| "LocatorEntries_loop (Suc fuel) st (Some p) step have' =
     sum_bind (deref st p) (\<lambda>b. sum_bind (GetBlockHash b) (\<lambda>h.
       let have' = have' @ [h]
       in if nHeight b = 0 then Inr have'
          else sum_bind (GetAncestor st p (max (nHeight b - step) 0)) (\<lambda>q.
                 LocatorEntries_loop fuel st q (if length have' > 10 then step * 2 else step) have')))"

definition LocatorEntries :: "block_store \<Rightarrow> bid option \<Rightarrow> fault + uint256 list" where
  "LocatorEntries st index =
     (case index of None \<Rightarrow> Inr []
      | Some p \<Rightarrow> sum_bind (deref st p) (\<lambda>b.
          LocatorEntries_loop (Suc (nat (nHeight b))) st (Some p) 1 []))"

definition GetLocator :: "block_store \<Rightarrow> CChain \<Rightarrow> fault + uint256 list" where
  "GetLocator st vChain = LocatorEntries st (Tip vChain)"

fun LastCommonAncestor_loop ::
    "nat \<Rightarrow> block_store \<Rightarrow> bid option \<Rightarrow> bid option \<Rightarrow> fault + bid option" where
  "LastCommonAncestor_loop fuel st pa pb =
     (case (pa, pb) of
        (Some a, Some b) \<Rightarrow>
          if a = b then Inr pa
          else (case fuel of
                  0 \<Rightarrow> Inl OutOfFuel
                | Suc fuel \<Rightarrow> sum_bind (deref st a) (\<lambda>ba. sum_bind (deref st b) (\<lambda>bb.
                    LastCommonAncestor_loop fuel st (pprev ba) (pprev bb))))
      | _ \<Rightarrow> if pa = pb then Inr pa else Inl AssertFailed)"

declare LastCommonAncestor_loop.simps [simp del]

definition LastCommonAncestor :: "block_store \<Rightarrow> bid \<Rightarrow> bid \<Rightarrow> fault + bid option" where
  "LastCommonAncestor st pa pb =
     sum_bind (deref st pa) (\<lambda>ba. sum_bind (deref st pb) (\<lambda>bb.
       sum_bind (if nHeight ba > nHeight bb then GetAncestor st pa (nHeight bb) else Inr (Some pa)) (\<lambda>qa.
         sum_bind (if nHeight ba > nHeight bb then Inr (Some pb)
                   else if nHeight bb > nHeight ba then GetAncestor st pb (nHeight ba)
                   else Inr (Some pb)) (\<lambda>qb.
           LastCommonAncestor_loop (Suc (nat (min (nHeight ba) (nHeight bb)))) st qa qb))))"

text \<open>\<open>std::lower_bound\<close>, the binary search of the standard library.\<close>

function lower_bound :: "('a \<Rightarrow> fault + bool) \<Rightarrow> 'a list \<Rightarrow> nat \<Rightarrow> nat \<Rightarrow> fault + nat" where
  "lower_bound cmp xs first len =
     (if len > 0 then
        let half = len div 2; middle = first + half
        in if middle \<ge> length xs then Inl OutOfRange
           else sum_bind (cmp (xs ! middle)) (\<lambda>less.
             if less then lower_bound cmp xs (middle + 1) (len - half - 1)
             else lower_bound cmp xs first half)
      else Inr first)"
  by pat_completeness auto
termination
  by (relation "measure (\<lambda>(c, xs, f, len). len)") auto

declare lower_bound.simps [simp del]

definition earlier_than :: "block_store \<Rightarrow> int \<Rightarrow> int \<Rightarrow> bid option \<Rightarrow> fault + bool" where
  "earlier_than st nTime' height pBlock =
     (case pBlock of None \<Rightarrow> Inl BadPointer
      | Some p \<Rightarrow> sum_bind (deref st p) (\<lambda>b. Inr (GetBlockTimeMax b < nTime' \<or> nHeight b < height)))"

definition FindEarliestAtLeast :: "block_store \<Rightarrow> CChain \<Rightarrow> int \<Rightarrow> int \<Rightarrow> fault + bid option" where
  "FindEarliestAtLeast st vChain nTime' height =
     sum_bind (lower_bound (earlier_than st nTime' height) vChain 0 (length vChain))
       (\<lambda>i. Inr (if i = length vChain then None else vChain ! i))"

section \<open>The tree invariant\<close>

fun nth_prev :: "block_store \<Rightarrow> nat \<Rightarrow> bid \<Rightarrow> bid option" where
  "nth_prev st 0 p = Some p"
| "nth_prev st (Suc n) p =
     (case st p of None \<Rightarrow> None | Some b \<Rightarrow>
        (case pprev b of None \<Rightarrow> None | Some q \<Rightarrow> nth_prev st n q))"

definition prev_at :: "block_store \<Rightarrow> bid \<Rightarrow> int \<Rightarrow> bid option" where
  "prev_at st p h = (case st p of None \<Rightarrow> None | Some b \<Rightarrow>
     if h < 0 \<or> nHeight b < h then None else nth_prev st (nat (nHeight b - h)) p)"

definition node_wf :: "block_store \<Rightarrow> bid \<Rightarrow> CBlockIndex \<Rightarrow> bool" where
  "node_wf st p b \<longleftrightarrow> 0 \<le> nHeight b \<and>
     (case pprev b of None \<Rightarrow> nHeight b = 0
      | Some q \<Rightarrow> \<exists>c. st q = Some c \<and> nHeight b = nHeight c + 1) \<and>
     (\<forall>sk. pskip b = Some sk \<longrightarrow> prev_at st p (GetSkipHeight (nHeight b)) = Some sk)"

definition index_wf :: "block_store \<Rightarrow> bool" where
  "index_wf st \<longleftrightarrow> (\<forall>p b. st p = Some b \<longrightarrow> node_wf st p b)"

lemma index_wfD:
  assumes "index_wf st" and "st p = Some b"
  shows "0 \<le> nHeight b"
    and "pprev b = None \<Longrightarrow> nHeight b = 0"
    and "pprev b = Some q \<Longrightarrow> \<exists>c. st q = Some c \<and> nHeight b = nHeight c + 1"
    and "pskip b = Some sk \<Longrightarrow> prev_at st p (GetSkipHeight (nHeight b)) = Some sk"
proof -
  have "node_wf st p b" using assms by (simp add: index_wf_def)
  then show "0 \<le> nHeight b" "pprev b = None \<Longrightarrow> nHeight b = 0"
    "pprev b = Some q \<Longrightarrow> \<exists>c. st q = Some c \<and> nHeight b = nHeight c + 1"
    "pskip b = Some sk \<Longrightarrow> prev_at st p (GetSkipHeight (nHeight b)) = Some sk"
    by (simp_all add: node_wf_def)
qed

lemma index_wf_parent:
  assumes "index_wf st" and "st p = Some b" and "0 < nHeight b"
  obtains q c where "pprev b = Some q" and "st q = Some c" and "nHeight c = nHeight b - 1"
  using index_wfD [OF assms(1,2)] assms(3) by (cases "pprev b") fastforce+

lemma nth_prev_height:
  assumes "index_wf st" and "st p = Some b" and "int n \<le> nHeight b"
  shows "\<exists>q c. nth_prev st n p = Some q \<and> st q = Some c \<and> nHeight c = nHeight b - int n"
  using assms(2,3)
proof (induction n arbitrary: p b)
  case 0
  then show ?case by simp
next
  case (Suc n)
  obtain q c where q: "pprev b = Some q" "st q = Some c" "nHeight c = nHeight b - 1"
    using index_wf_parent [OF assms(1) Suc.prems(1)] Suc.prems(2) by auto
  obtain r d where "nth_prev st n q = Some r" "st r = Some d" "nHeight d = nHeight c - int n"
    using Suc.IH [OF q(2)] q(3) Suc.prems(2) by auto
  then show ?case using q Suc.prems by auto
qed

lemma nth_prev_add: "nth_prev st (m + n) p = Option.bind (nth_prev st m p) (nth_prev st n)"
  by (induction m arbitrary: p) (auto split: option.splits)

lemma prev_at_Some:
  assumes "index_wf st" and "st p = Some b" and "0 \<le> h" and "h \<le> nHeight b"
  shows "\<exists>q c. prev_at st p h = Some q \<and> st q = Some c \<and> nHeight c = h"
  using nth_prev_height [OF assms(1,2), of "nat (nHeight b - h)"] assms
  by (auto simp: prev_at_def)

lemma prev_at_self [simp]: "st p = Some b \<Longrightarrow> 0 \<le> nHeight b \<Longrightarrow> prev_at st p (nHeight b) = Some p"
  by (simp add: prev_at_def)

lemma prev_at_trans:
  assumes "index_wf st" and "st p = Some b" and "0 \<le> h" and "h \<le> h'"
    and "prev_at st p h' = Some q"
  shows "prev_at st q h = prev_at st p h"
proof -
  have b: "h' \<le> nHeight b" "0 \<le> h'" using assms by (auto simp: prev_at_def split: if_splits)
  then obtain c where c: "st q = Some c" "nHeight c = h'"
    using prev_at_Some [OF assms(1,2) b(2,1)] assms(5) by auto
  have "nat (nHeight b - h) = nat (nHeight b - h') + nat (h' - h)" using b assms by simp
  then show ?thesis
    using assms b c by (simp add: prev_at_def nth_prev_add)
qed

lemma prev_at_parent:
  assumes "st p = Some b" and "pprev b = Some q" and "st q = Some c" and "nHeight b = nHeight c + 1"
    and "h \<le> nHeight c"
  shows "prev_at st p h = prev_at st q h"
proof -
  have "nat (nHeight c + 1 - h) = Suc (nat (nHeight c - h))" using assms(5) by simp
  then show ?thesis using assms by (simp add: prev_at_def)
qed

lemma GetAncestor_loop_prev_at:
  assumes "index_wf st" and "st p = Some b" and "int h \<le> nHeight b"
  shows "\<exists>q. GetAncestor_loop st p (nHeight b) h = Inr q \<and> prev_at st p (int h) = Some q"
  using assms(2,3)
proof (induction "nat (nHeight b)" arbitrary: p b rule: less_induct)
  case less
  show ?case
  proof (cases "int h < nHeight b")
    case False
    then have "nHeight b = int h" using less.prems by simp
    then show ?thesis using less.prems prev_at_self [of st p b]
      by (simp add: GetAncestor_loop.simps [of st p])
  next
    case True
    obtain q c where q: "pprev b = Some q" "st q = Some c" "nHeight c = nHeight b - 1"
      using index_wf_parent [OF assms(1) less.prems(1)] True by auto
    show ?thesis
    proof (cases "take_skip b (nHeight b) (int h)")
      case skip: True
      then obtain sk where sk: "pskip b = Some sk" by (auto simp: take_skip_def Let_def)
      let ?hs = "GetSkipHeight (nHeight b)"
      have hs: "int h \<le> ?hs" "?hs < nHeight b"
        using skip GetSkipHeight_less [OF True] by (auto simp: take_skip_def Let_def)
      have at: "prev_at st p ?hs = Some sk" by (rule index_wfD(4) [OF assms(1) less.prems(1) sk])
      then obtain d where d: "st sk = Some d" "nHeight d = ?hs"
        using prev_at_Some [OF assms(1) less.prems(1), of ?hs] hs by auto
      have "nat (nHeight d) < nat (nHeight b)" using d hs by simp
      from less.hyps [OF this d(1)] d(2) hs
      obtain r where "GetAncestor_loop st sk ?hs h = Inr r" "prev_at st sk (int h) = Some r" by auto
      moreover have "prev_at st sk (int h) = prev_at st p (int h)"
        using prev_at_trans [OF assms(1) less.prems(1) _ hs(1) at] by simp
      ultimately show ?thesis
        using True skip sk less.prems by (simp add: GetAncestor_loop.simps [of st p])
    next
      case False
      have "nat (nHeight c) < nat (nHeight b)" using q True by simp
      from less.hyps [OF this q(2)] q(3) True
      obtain r where "GetAncestor_loop st q (nHeight b - 1) h = Inr r" "prev_at st q (int h) = Some r" by auto
      moreover have "prev_at st p (int h) = prev_at st q (int h)"
        using prev_at_parent [OF less.prems(1) q(1,2)] q(3) True by simp
      ultimately show ?thesis
        using True False q less.prems by (simp add: GetAncestor_loop.simps [of st p])
    qed
  qed
qed

lemma GetAncestor_prev_at:
  assumes "index_wf st" and "st p = Some b"
  shows "GetAncestor st p h = Inr (prev_at st p h)"
proof (cases "nHeight b < h \<or> h < 0")
  case True
  then show ?thesis using assms by (auto simp: GetAncestor_def deref_def prev_at_def)
next
  case False
  then obtain q where "GetAncestor_loop st p (nHeight b) (nat h) = Inr q" "prev_at st p h = Some q"
    using GetAncestor_loop_prev_at [OF assms, of "nat h"] by auto
  then show ?thesis using assms False by (simp add: GetAncestor_def deref_def)
qed

section \<open>The ancestor interface\<close>

text \<open>
  What the users of the block index rely on: every node but the root has a parent one level
  below it, and \<open>GetAncestor\<close> agrees with following parents. The facts about forks and
  common ancestors below follow from these laws alone.
\<close>

locale ancestor_index =
  fixes invar :: "'s \<Rightarrow> bool"
    and height :: "'s \<Rightarrow> 'p \<Rightarrow> int option"
    and parent :: "'s \<Rightarrow> 'p \<Rightarrow> 'p option"
    and ancestor :: "'s \<Rightarrow> 'p \<Rightarrow> int \<Rightarrow> 'p option"
  assumes height_nonneg: "invar s \<Longrightarrow> height s p = Some k \<Longrightarrow> 0 \<le> k"
    and root: "invar s \<Longrightarrow> height s p = Some k \<Longrightarrow> parent s p = None \<longleftrightarrow> k = 0"
    and parent_height: "invar s \<Longrightarrow> height s p = Some k \<Longrightarrow> parent s p = Some q \<Longrightarrow>
       height s q = Some (k - 1)"
    and ancestor_self: "invar s \<Longrightarrow> height s p = Some k \<Longrightarrow> ancestor s p k = Some p"
    and ancestor_parent: "invar s \<Longrightarrow> height s p = Some k \<Longrightarrow> parent s p = Some q \<Longrightarrow>
       h < k \<Longrightarrow> ancestor s p h = ancestor s q h"
    and ancestor_outside: "invar s \<Longrightarrow> height s p = Some k \<Longrightarrow> h < 0 \<or> k < h \<Longrightarrow>
       ancestor s p h = None"
begin

lemma height_induct:
  assumes "invar s" and "height s p = Some k"
    and step: "\<And>p k. height s p = Some k \<Longrightarrow>
      (\<And>q. parent s p = Some q \<Longrightarrow> height s q = Some (k - 1) \<Longrightarrow> P q (k - 1)) \<Longrightarrow> P p k"
  shows "P p k"
  using assms(2)
proof (induction "nat k" arbitrary: p k rule: less_induct)
  case less
  show ?case
  proof (rule step [OF less.prems])
    fix q assume q: "parent s p = Some q" "height s q = Some (k - 1)"
    then have "0 \<le> k - 1" using assms(1) by (blast intro: height_nonneg)
    then show "P q (k - 1)" using less.hyps [OF _ q(2)] by simp
  qed
qed

lemma ancestor_height:
  assumes "invar s" and "height s p = Some k" and "0 \<le> h" and "h \<le> k"
  shows "\<exists>q. ancestor s p h = Some q \<and> height s q = Some h"
proof -
  have "h \<le> k \<longrightarrow> (\<exists>q. ancestor s p h = Some q \<and> height s q = Some h)"
  proof (rule height_induct [OF assms(1,2)])
    fix p k
    assume k: "height s p = Some k"
      and IH: "\<And>q. parent s p = Some q \<Longrightarrow> height s q = Some (k - 1) \<Longrightarrow>
        h \<le> k - 1 \<longrightarrow> (\<exists>r. ancestor s q h = Some r \<and> height s r = Some h)"
    show "h \<le> k \<longrightarrow> (\<exists>q. ancestor s p h = Some q \<and> height s q = Some h)"
    proof (intro impI, cases "h = k")
      case True
      then show "\<exists>q. ancestor s p h = Some q \<and> height s q = Some h"
        using assms(1) k by (auto simp: ancestor_self)
    next
      case False
      assume "h \<le> k"
      then have lt: "h < k" using False by simp
      then obtain q where q: "parent s p = Some q"
        using root [OF assms(1) k] assms(3) by (cases "parent s p") auto
      then show "\<exists>q. ancestor s p h = Some q \<and> height s q = Some h"
        using IH [OF q parent_height [OF assms(1) k q]] lt ancestor_parent [OF assms(1) k q lt] by auto
    qed
  qed
  then show ?thesis using assms(4) by blast
qed

lemma ancestor_ancestor:
  assumes "invar s" and "height s p = Some k" and "ancestor s p h = Some q" and "h' \<le> h"
  shows "ancestor s q h' = ancestor s p h'"
proof -
  have "ancestor s p h = Some q \<longrightarrow> ancestor s q h' = ancestor s p h'"
  proof (rule height_induct [OF assms(1,2)])
    fix p k
    assume k: "height s p = Some k"
      and IH: "\<And>r. parent s p = Some r \<Longrightarrow> height s r = Some (k - 1) \<Longrightarrow>
        ancestor s r h = Some q \<longrightarrow> ancestor s q h' = ancestor s r h'"
    show "ancestor s p h = Some q \<longrightarrow> ancestor s q h' = ancestor s p h'"
    proof
      assume q: "ancestor s p h = Some q"
      then have "h \<le> k" "0 \<le> h" using ancestor_outside [OF assms(1) k, of h] by fastforce+
      show "ancestor s q h' = ancestor s p h'"
      proof (cases "h = k")
        case True
        then show ?thesis using q ancestor_self [OF assms(1) k] by simp
      next
        case False
        then have lt: "h < k" using \<open>h \<le> k\<close> by simp
        then obtain r where r: "parent s p = Some r"
          using root [OF assms(1) k] \<open>0 \<le> h\<close> by (cases "parent s p") auto
        have "ancestor s r h = Some q" using q ancestor_parent [OF assms(1) k r lt] by simp
        then have "ancestor s q h' = ancestor s r h'"
          using IH [OF r parent_height [OF assms(1) k r]] by simp
        also have "\<dots> = ancestor s p h'"
          using ancestor_parent [OF assms(1) k r, of h'] lt assms(4) by simp
        finally show ?thesis .
      qed
    qed
  qed
  then show ?thesis using assms(3) by blast
qed

lemma shared_ancestor_below:
  assumes "invar s" and "height s p = Some k" and "height s q = Some l"
    and "ancestor s p h = ancestor s q h" and "ancestor s p h \<noteq> None" and "h' \<le> h"
  shows "ancestor s p h' = ancestor s q h'"
proof -
  obtain r where r: "ancestor s p h = Some r" "ancestor s q h = Some r" using assms(4,5) by auto
  have "ancestor s r h' = ancestor s p h'" by (rule ancestor_ancestor [OF assms(1,2) r(1) assms(6)])
  moreover have "ancestor s r h' = ancestor s q h'" by (rule ancestor_ancestor [OF assms(1,3) r(2) assms(6)])
  ultimately show ?thesis by simp
qed

end

definition block_height :: "block_store \<Rightarrow> bid \<Rightarrow> int option" where
  "block_height st p = map_option nHeight (st p)"

definition block_parent :: "block_store \<Rightarrow> bid \<Rightarrow> bid option" where
  "block_parent st p = Option.bind (st p) pprev"

interpretation bt: ancestor_index index_wf block_height block_parent prev_at
proof
  fix s p k q h
  assume wf: "index_wf s" and k: "block_height s p = Some k"
  then obtain b where b: "s p = Some b" "nHeight b = k" by (auto simp: block_height_def)
  show "0 \<le> k" using index_wfD(1) [OF wf b(1)] b(2) by simp
  show "block_parent s p = None \<longleftrightarrow> k = 0"
    using index_wfD(1,2,3) [OF wf b(1)] b by (cases "pprev b") (auto simp: block_parent_def dest: index_wfD(1) [OF wf])
  show "prev_at s p k = Some p" using b index_wfD(1) [OF wf b(1)] by auto
  show "h < 0 \<or> k < h \<Longrightarrow> prev_at s p h = None" using b by (auto simp: prev_at_def)
  assume "block_parent s p = Some q"
  then have q: "pprev b = Some q" using b by (simp add: block_parent_def)
  then obtain c where c: "s q = Some c" "nHeight b = nHeight c + 1" using index_wfD(3) [OF wf b(1)] by blast
  then show "block_height s q = Some (k - 1)" using b by (simp add: block_height_def)
  show "h < k \<Longrightarrow> prev_at s p h = prev_at s q h"
    using prev_at_parent [OF b(1) q c] c b by simp
qed

section \<open>Adding a block\<close>

lemma nth_prev_fresh:
  assumes "index_wf st" and "st p = None" and "st r = Some d" and "int n \<le> nHeight d"
  shows "nth_prev (st(p \<mapsto> b)) n r = nth_prev st n r"
  using assms(3,4)
proof (induction n arbitrary: r d)
  case 0
  then show ?case by simp
next
  case (Suc n)
  obtain q c where q: "pprev d = Some q" "st q = Some c" "nHeight c = nHeight d - 1"
    using index_wf_parent [OF assms(1) Suc.prems(1)] Suc.prems(2) by auto
  have "r \<noteq> p" using Suc.prems(1) assms(2) by auto
  then show ?case using Suc.IH [OF q(2)] q Suc.prems by simp
qed

lemma prev_at_fresh:
  assumes "index_wf st" and "st p = None" and "st r = Some d"
  shows "prev_at (st(p \<mapsto> b)) r h = prev_at st r h"
proof -
  have "r \<noteq> p" using assms by auto
  then show ?thesis
    using assms nth_prev_fresh [OF assms, of "nat (nHeight d - h)" b] by (auto simp: prev_at_def)
qed

lemma index_wf_add:
  assumes "index_wf st" and "st p = None"
    and "pprev b = Some q" and "st q = Some c" and "nHeight b = nHeight c + 1"
    and "pskip b = None \<or> pskip b = prev_at st q (GetSkipHeight (nHeight b))"
  shows "index_wf (st(p \<mapsto> b))"
  unfolding index_wf_def
proof (intro allI impI)
  fix r d assume r: "(st(p \<mapsto> b)) r = Some d"
  have c0: "0 \<le> nHeight c" by (rule index_wfD(1) [OF assms(1,4)])
  show "node_wf (st(p \<mapsto> b)) r d"
  proof (cases "r = p")
    case True
    have qp: "q \<noteq> p" using assms by auto
    have "0 < nHeight b" using c0 assms(5) by simp
    then have "GetSkipHeight (nHeight b) \<le> nHeight c"
      using GetSkipHeight_bounds [of "nHeight b"] assms(5) by simp
    then have "prev_at (st(p \<mapsto> b)) p (GetSkipHeight (nHeight b)) = prev_at st q (GetSkipHeight (nHeight b))"
      using prev_at_parent [of "st(p \<mapsto> b)" p b q c] prev_at_fresh [OF assms(1,2,4)] qp assms by simp
    then show ?thesis
      using True r c0 assms qp by (auto simp: node_wf_def)
  next
    case False
    then have d: "st r = Some d" using r by simp
    show ?thesis
      using index_wfD [OF assms(1) d] prev_at_fresh [OF assms(1,2) d] assms(2)
      by (auto simp: node_wf_def fun_upd_def split: option.splits)
  qed
qed

lemma BuildSkip_value:
  assumes "index_wf st" and "st p = None"
    and "pprev b = Some q" and "st q = Some c" and "nHeight b = nHeight c + 1" and "pskip b = None"
  shows "BuildSkip (st(p \<mapsto> b)) p =
    Inr (st(p \<mapsto> b\<lparr>pskip := prev_at st q (GetSkipHeight (nHeight b))\<rparr>))"
proof -
  have wf: "index_wf (st(p \<mapsto> b))" using assms by (intro index_wf_add) auto
  have "q \<noteq> p" using assms by auto
  then have "(st(p \<mapsto> b)) q = Some c" using assms by simp
  then have "GetAncestor (st(p \<mapsto> b)) q h = Inr (prev_at st q h)" for h
    using GetAncestor_prev_at [OF wf] prev_at_fresh [OF assms(1,2,4)] by simp
  then show ?thesis using assms by (simp add: BuildSkip_def deref_def)
qed

section \<open>The active chain\<close>

definition chain_closed :: "block_store \<Rightarrow> CChain \<Rightarrow> bool" where
  "chain_closed st vc \<longleftrightarrow> (\<forall>i < length vc. \<forall>r. vc ! i = Some r \<longrightarrow>
     block_height st r = Some (int i) \<and> (\<forall>j \<le> i. vc ! j = prev_at st r (int j)))"

definition chain_wf :: "block_store \<Rightarrow> CChain \<Rightarrow> bool" where
  "chain_wf st vc \<longleftrightarrow> chain_closed st vc \<and> (\<forall>i < length vc. vc ! i \<noteq> None)"

lemma chain_closedD:
  assumes "chain_closed st vc" and "i < length vc" and "vc ! i = Some r"
  shows "block_height st r = Some (int i)" and "j \<le> i \<Longrightarrow> vc ! j = prev_at st r (int j)"
  using assms by (auto simp: chain_closed_def)

definition ancestors_of :: "block_store \<Rightarrow> bid \<Rightarrow> int \<Rightarrow> CChain" where
  "ancestors_of st p h = map (\<lambda>i. prev_at st p (int i)) [0..<nat (h + 1)]"

lemma chain_wf_ancestors:
  assumes "index_wf st" and "st p = Some b"
  shows "chain_wf st (ancestors_of st p (nHeight b))"
proof -
  have nn: "ancestors_of st p (nHeight b) ! i = prev_at st p (int i)" if "i < nat (nHeight b + 1)" for i
    using that by (simp add: ancestors_of_def)
  have len: "length (ancestors_of st p (nHeight b)) = nat (nHeight b + 1)"
    by (simp add: ancestors_of_def)
  have anc: "\<exists>r c. prev_at st p (int i) = Some r \<and> st r = Some c \<and> nHeight c = int i"
    if "i < nat (nHeight b + 1)" for i
    using prev_at_Some [OF assms, of "int i"] that by auto
  have below: "prev_at st p (int j) = prev_at st r (int j)"
    if "i < nat (nHeight b + 1)" "prev_at st p (int i) = Some r" "j \<le> i" for i r j
    using prev_at_trans [OF assms, of "int j" "int i" r] that by simp
  have "chain_closed st (ancestors_of st p (nHeight b))"
    unfolding chain_closed_def len
  proof (intro allI impI conjI)
    fix i r assume i: "i < nat (nHeight b + 1)" "ancestors_of st p (nHeight b) ! i = Some r"
    then show "block_height st r = Some (int i)"
      using anc [OF i(1)] nn [OF i(1)] by (auto simp: block_height_def)
    fix j assume "j \<le> i"
    then show "ancestors_of st p (nHeight b) ! j = prev_at st r (int j)"
      using below [OF i(1) _ \<open>j \<le> i\<close>] i nn by simp
  qed
  moreover have "\<forall>i < nat (nHeight b + 1). ancestors_of st p (nHeight b) ! i \<noteq> None"
    using anc nn by auto
  ultimately show ?thesis by (simp add: chain_wf_def len)
qed

lemma chain_closed_resize:
  assumes "chain_closed st vc"
  shows "chain_closed st (vector_resize n None vc)"
  using assms by (auto simp: chain_closed_def vector_resize_def nth_append)

lemma SetTip_loop_spec:
  assumes "index_wf st" and "st p = Some b" and "length vc = nat (nHeight b + 1)"
    and "prev_at st p h = Some q" and "h \<le> nHeight b" and "0 \<le> h"
    and "\<And>i. nat h < i \<Longrightarrow> i < length vc \<Longrightarrow> vc ! i = prev_at st p (int i)"
    and "\<And>i r j. i \<le> nat h \<Longrightarrow> vc ! i = Some r \<Longrightarrow> j \<le> i \<Longrightarrow> vc ! j = prev_at st r (int j)"
    and "nat h < fuel"
  shows "SetTip_loop fuel st vc (Some q) = Inr (ancestors_of st p (nHeight b))"
  using assms(3-9)
proof (induction fuel arbitrary: vc h q)
  case 0
  then show ?case by simp
next
  case (Suc fuel)
  obtain c where c: "st q = Some c" "nHeight c = h"
    using prev_at_Some [OF assms(1,2) Suc.prems(4,3)] Suc.prems(2) by auto
  have range: "nat h < length vc" "h < int (length vc)" using Suc.prems by simp_all
  show ?case
  proof (cases "vc ! nat h = Some q")
    case True
    have "vc ! i = prev_at st p (int i)" if "i < length vc" for i
    proof (cases "i \<le> nat h")
      case le: True
      then have "vc ! i = prev_at st q (int i)" using Suc.prems(6) [OF _ True] by simp
      also have "\<dots> = prev_at st p (int i)"
        using prev_at_trans [OF assms(1,2) _ _ Suc.prems(2), of "int i"] le Suc.prems(4) by simp
      finally show ?thesis .
    next
      case False
      then show ?thesis using Suc.prems(5) that by simp
    qed
    then have "vc = ancestors_of st p (nHeight b)"
      using Suc.prems(1) by (intro nth_equalityI) (simp_all add: ancestors_of_def)
    then show ?thesis using True c Suc.prems(4) range by (simp add: deref_def)
  next
    case False
    let ?vc = "vc[nat h := Some q]"
    have step: "SetTip_loop (Suc fuel) st vc (Some q) = SetTip_loop fuel st ?vc (pprev c)"
      using False c Suc.prems(4) range by (simp add: deref_def)
    have upper: "?vc ! i = prev_at st p (int i)" if "nat h \<le> i" "i < length ?vc" for i
      using that Suc.prems(2,4,5) by (cases "i = nat h") simp_all
    show ?thesis
    proof (cases "h = 0")
      case True
      then have "pprev c = None"
        using index_wfD(3) [OF assms(1) c(1)] index_wfD(1) [OF assms(1)] c(2)
        by (cases "pprev c") fastforce+
      moreover have "?vc = ancestors_of st p (nHeight b)"
        using Suc.prems(1) upper True by (intro nth_equalityI) (simp_all add: ancestors_of_def)
      ultimately show ?thesis using step by simp
    next
      case h: False
      then obtain q' c' where q': "pprev c = Some q'" "st q' = Some c'" "nHeight c' = h - 1"
        using index_wf_parent [OF assms(1) c(1)] c(2) Suc.prems(4) by auto
      have at: "prev_at st p (h - 1) = Some q'"
      proof -
        have "prev_at st p (h - 1) = prev_at st q (h - 1)"
          using prev_at_trans [OF assms(1,2) _ _ Suc.prems(2), of "h - 1"] h Suc.prems(4) by simp
        also have "\<dots> = prev_at st q' (h - 1)"
          using prev_at_parent [OF c(1) q'(1,2)] q'(3) c(2) by simp
        also have "\<dots> = Some q'"
          using q' h Suc.prems(4) prev_at_self [of st q' c'] by simp
        finally show ?thesis .
      qed
      have "SetTip_loop fuel st ?vc (Some q') = Inr (ancestors_of st p (nHeight b))"
      proof (rule Suc.IH)
        show "?vc ! i = prev_at st p (int i)" if "nat (h - 1) < i" "i < length ?vc" for i
          using upper that h Suc.prems(4) by simp
        show "?vc ! j = prev_at st r (int j)" if "i \<le> nat (h - 1)" "?vc ! i = Some r" "j \<le> i" for i r j
          using Suc.prems(6) [of i r j] that h Suc.prems(4) by simp
      qed (use Suc.prems at h in simp_all)
      then show ?thesis using step q'(1) by simp
    qed
  qed
qed

lemma SetTip_value:
  assumes "index_wf st" and "chain_closed st vc" and "st p = Some b"
  shows "SetTip st vc p = Inr (ancestors_of st p (nHeight b))"
proof -
  have b: "0 \<le> nHeight b" by (rule index_wfD(1) [OF assms(1,3)])
  let ?vc = "vector_resize (nat (nHeight b + 1)) None vc"
  have len: "length ?vc = nat (nHeight b + 1)" by (simp add: vector_resize_def)
  have "SetTip_loop (Suc (nat (nHeight b))) st ?vc (Some p) = Inr (ancestors_of st p (nHeight b))"
  proof (rule SetTip_loop_spec [OF assms(1,3) len])
    show "prev_at st p (nHeight b) = Some p" using assms(3) b by simp
    show "?vc ! j = prev_at st r (int j)" if "i \<le> nat (nHeight b)" "?vc ! i = Some r" "j \<le> i" for i r j
    proof -
      have "i < length ?vc" using that(1) len b by simp
      then show ?thesis
        using chain_closedD(2) [OF chain_closed_resize [OF assms(2)] _ that(2,3)] by simp
    qed
  qed (use b len in auto)
  then show ?thesis using assms(3) by (simp add: SetTip_def deref_def)
qed

lemma chain_at_ancestors:
  assumes "index_wf st" and "st p = Some b"
  shows "chain_at (ancestors_of st p (nHeight b)) h = prev_at st p h"
  using assms index_wfD(1) [OF assms]
  by (auto simp: chain_at_def ancestors_of_def prev_at_def nat_less_iff)

lemma chain_at_closed:
  assumes "chain_wf st vc" and "chain_at vc h = Some q"
  shows "block_height st q = Some h" and "0 \<le> h'  \<Longrightarrow> h' \<le> h \<Longrightarrow> chain_at vc h' = prev_at st q h'"
proof -
  have vc: "chain_closed st vc" "nat h < length vc" "vc ! nat h = Some q" "0 \<le> h"
    using assms by (auto simp: chain_at_def chain_wf_def split: if_splits)
  show "block_height st q = Some h" using chain_closedD(1) [OF vc(1-3)] vc(4) by simp
  assume h': "0 \<le> h'" "h' \<le> h"
  then have "h' < int (length vc)" using vc(2) by simp
  then show "chain_at vc h' = prev_at st q h'"
    using h' chain_closedD(2) [OF vc(1-3), of "nat h'"] vc(2) by (simp add: chain_at_def)
qed

text \<open>
  Forks. The walk of \<open>FindFork\<close> and of \<open>LastCommonAncestor\<close> stops at the highest height on
  which two lines of ancestors agree; \<open>is_fork\<close> says so for any two height-indexed lines.
\<close>

definition agree_at :: "(int \<Rightarrow> bid option) \<Rightarrow> (int \<Rightarrow> bid option) \<Rightarrow> int \<Rightarrow> bid \<Rightarrow> bool" where
  "agree_at f g h q \<longleftrightarrow> f h = Some q \<and> g h = Some q"

definition is_fork :: "(int \<Rightarrow> bid option) \<Rightarrow> (int \<Rightarrow> bid option) \<Rightarrow> bid option \<Rightarrow> bool" where
  "is_fork f g r \<longleftrightarrow>
     (case r of
        None \<Rightarrow> \<forall>h q. \<not> agree_at f g h q
      | Some q \<Rightarrow> \<exists>h. agree_at f g h q \<and> (\<forall>h' q'. agree_at f g h' q' \<longrightarrow> h' \<le> h))"

lemma is_fork_cong:
  assumes "\<And>h q. agree_at f g h q = agree_at f' g' h q"
  shows "is_fork f g r = is_fork f' g' r"
  by (cases r) (simp_all add: is_fork_def assms)

lemma prev_at_range: "prev_at st p h = Some q \<Longrightarrow> 0 \<le> h \<and> (\<exists>b. st p = Some b \<and> h \<le> nHeight b)"
  by (auto simp: prev_at_def split: option.splits if_splits)

lemma FindFork_loop_spec:
  assumes "index_wf st" and "st p = Some b" and "nat (nHeight b) < fuel"
  shows "\<exists>r. FindFork_loop fuel st vc (Some p) = Inr r \<and> is_fork (prev_at st p) (chain_at vc) r"
  using assms(2,3)
proof (induction fuel arbitrary: p b)
  case 0
  then show ?case by simp
next
  case (Suc fuel)
  have b0: "0 \<le> nHeight b" by (rule index_wfD(1) [OF assms(1) Suc.prems(1)])
  show ?case
  proof (cases "chain_at vc (nHeight b) = Some p")
    case True
    have "is_fork (prev_at st p) (chain_at vc) (Some p)"
      unfolding is_fork_def option.case
    proof (intro exI [of _ "nHeight b"] conjI allI impI)
      fix h' q' assume "agree_at (prev_at st p) (chain_at vc) h' q'"
      then show "h' \<le> nHeight b"
        using prev_at_range [of st p h' q'] Suc.prems by (auto simp: agree_at_def)
    qed (use True Suc.prems b0 in \<open>simp add: agree_at_def\<close>)
    then show ?thesis using True Suc.prems by (simp add: Contains_def deref_def)
  next
    case False
    have step: "FindFork_loop (Suc fuel) st vc (Some p) = FindFork_loop fuel st vc (pprev b)"
      using False Suc.prems by (simp add: Contains_def deref_def)
    have top: "h < nHeight b" if "prev_at st p h = Some q" "chain_at vc h = Some q" for h q
      using that False prev_at_range [OF that(1)] Suc.prems b0 by (cases "h = nHeight b") auto
    show ?thesis
    proof (cases "pprev b")
      case None
      then have "nHeight b = 0" using index_wfD(2) [OF assms(1) Suc.prems(1)] by simp
      then have "is_fork (prev_at st p) (chain_at vc) None"
        using top prev_at_range by (fastforce simp: is_fork_def agree_at_def)
      then show ?thesis using step None by simp
    next
      case (Some q)
      then obtain c where c: "st q = Some c" "nHeight b = nHeight c + 1"
        using index_wfD(3) [OF assms(1) Suc.prems(1)] by auto
      have "nat (nHeight c) < fuel"
        using c Suc.prems index_wfD(1) [OF assms(1) c(1)] by simp
      from Suc.IH [OF c(1) this] obtain r where
        r: "FindFork_loop fuel st vc (Some q) = Inr r" "is_fork (prev_at st q) (chain_at vc) r" by auto
      have "agree_at (prev_at st p) (chain_at vc) h x = agree_at (prev_at st q) (chain_at vc) h x" for h x
        using prev_at_parent [OF Suc.prems(1) Some c, of h] top [of h x] prev_at_range [of st q h x] c
        by (auto simp: agree_at_def)
      then have "is_fork (prev_at st p) (chain_at vc) r"
        using r(2) is_fork_cong by metis
      then show ?thesis using step Some r(1) by simp
    qed
  qed
qed

lemma FindFork_spec:
  assumes "index_wf st" and "chain_wf st vc" and "st p = Some b"
  shows "\<exists>r. FindFork st vc (Some p) = Inr r \<and> is_fork (prev_at st p) (chain_at vc) r"
proof (cases "nHeight b > Height vc")
  case False
  then show ?thesis
    using FindFork_loop_spec [OF assms(1,3), of "Suc (nat (nHeight b))"] assms(3)
    by (simp add: FindFork_def deref_def)
next
  case True
  have anc: "GetAncestor st p (Height vc) = Inr (prev_at st p (Height vc))"
    by (rule GetAncestor_prev_at [OF assms(1,3)])
  show ?thesis
  proof (cases "vc = []")
    case empty: True
    then have "prev_at st p (Height vc) = None"
      using assms(3) by (simp add: prev_at_def Height_def)
    moreover have "is_fork (prev_at st p) (chain_at vc) None"
      using empty by (auto simp: is_fork_def agree_at_def chain_at_def)
    ultimately show ?thesis using True anc assms(3) by (simp add: FindFork_def deref_def)
  next
    case False
    then obtain q c where q: "prev_at st p (Height vc) = Some q" "st q = Some c" "nHeight c = Height vc"
      using prev_at_Some [OF assms(1,3), of "Height vc"] True by (auto simp: Height_def Suc_le_eq)
    then have "nat (nHeight c) < Suc (nat (nHeight b))" using True by simp
    then obtain r where r: "FindFork_loop (Suc (nat (nHeight b))) st vc (Some q) = Inr r"
      "is_fork (prev_at st q) (chain_at vc) r"
      using FindFork_loop_spec [OF assms(1) q(2)] by blast
    have "agree_at (prev_at st q) (chain_at vc) h x = agree_at (prev_at st p) (chain_at vc) h x" for h x
    proof (cases "0 \<le> h \<and> h \<le> Height vc")
      case True
      then show ?thesis using prev_at_trans [OF assms(1,3) _ _ q(1), of h] by (simp add: agree_at_def)
    next
      case False
      then show ?thesis by (auto simp: agree_at_def chain_at_def Height_def)
    qed
    then have "is_fork (prev_at st p) (chain_at vc) r"
      using r(2) is_fork_cong [of "prev_at st q" "chain_at vc" "prev_at st p" "chain_at vc" r] by simp
    moreover have "FindFork st vc (Some p) = FindFork_loop (Suc (nat (nHeight b))) st vc (Some q)"
      using True anc q(1) assms(3) by (simp add: FindFork_def deref_def del: FindFork_loop.simps)
    ultimately show ?thesis using r(1) by simp
  qed
qed

lemma LastCommonAncestor_loop_spec:
  assumes "index_wf st" and "st p = Some b" and "st q = Some c" and "nHeight b = nHeight c"
    and "nat (nHeight b) < fuel" and "prev_at st p 0 = prev_at st q 0"
  shows "\<exists>r. LastCommonAncestor_loop fuel st (Some p) (Some q) = Inr (Some r) \<and>
             is_fork (prev_at st p) (prev_at st q) (Some r)"
  using assms(2-6)
proof (induction fuel arbitrary: p b q c)
  case 0
  then show ?case by simp
next
  case (Suc fuel)
  have b0: "0 \<le> nHeight b" by (rule index_wfD(1) [OF assms(1) Suc.prems(1)])
  show ?case
  proof (cases "p = q")
    case True
    have "is_fork (prev_at st p) (prev_at st p) (Some p)"
      using Suc.prems(1) b0 prev_at_range [of st p]
      by (auto simp: is_fork_def agree_at_def intro!: exI [of _ "nHeight b"])
    then show ?thesis using True by (simp add: LastCommonAncestor_loop.simps [of "Suc fuel"])
  next
    case False
    have pos: "0 < nHeight b"
    proof (rule ccontr)
      assume "\<not> 0 < nHeight b"
      then show False using Suc.prems b0 False prev_at_self [of st p b] prev_at_self [of st q c] by simp
    qed
    obtain p' b' where p': "pprev b = Some p'" "st p' = Some b'" "nHeight b' = nHeight b - 1"
      using index_wf_parent [OF assms(1) Suc.prems(1) pos] by auto
    obtain q' c' where q': "pprev c = Some q'" "st q' = Some c'" "nHeight c' = nHeight c - 1"
      using index_wf_parent [OF assms(1) Suc.prems(2)] pos Suc.prems(3) by auto
    have pp: "prev_at st p h = prev_at st p' h" if "h < nHeight b" for h
      using prev_at_parent [OF Suc.prems(1) p'(1,2)] p'(3) that by simp
    have qq: "prev_at st q h = prev_at st q' h" if "h < nHeight b" for h
      using prev_at_parent [OF Suc.prems(2) q'(1,2)] q'(3) Suc.prems(3) that by simp
    have "nHeight b' = nHeight c'" "nat (nHeight b') < fuel" "prev_at st p' 0 = prev_at st q' 0"
      using p' q' Suc.prems pos pp [of 0] qq [of 0] by simp_all
    then obtain r where r: "LastCommonAncestor_loop fuel st (Some p') (Some q') = Inr (Some r)"
      "is_fork (prev_at st p') (prev_at st q') (Some r)"
      using Suc.IH [OF p'(2) q'(2)] by blast
    have "agree_at (prev_at st p') (prev_at st q') h x = agree_at (prev_at st p) (prev_at st q) h x" for h x
    proof (cases "h < nHeight b")
      case True
      then show ?thesis using pp qq by (simp add: agree_at_def)
    next
      case h: False
      have "prev_at st p h \<noteq> prev_at st q h \<or> prev_at st p h = None"
        using h Suc.prems b0 False by (cases "h = nHeight b") (auto simp: prev_at_def)
      then show ?thesis
        using h p' prev_at_range [of st p' h x] by (auto simp: agree_at_def)
    qed
    then have "is_fork (prev_at st p) (prev_at st q) (Some r)"
      using r(2) is_fork_cong [of "prev_at st p'" "prev_at st q'" "prev_at st p" "prev_at st q"] by simp
    moreover have "LastCommonAncestor_loop (Suc fuel) st (Some p) (Some q) = Inr (Some r)"
      using r(1) False Suc.prems(1,2) p'(1) q'(1)
      by (simp add: deref_def LastCommonAncestor_loop.simps [of "Suc fuel"])
    ultimately show ?thesis by simp
  qed
qed

lemma prev_at_cap:
  assumes "index_wf st" and "st p = Some b" and "0 \<le> k" and "k \<le> nHeight b"
  obtains q c where "GetAncestor st p k = Inr (Some q)" and "st q = Some c" and "nHeight c = k"
    and "\<And>h. h \<le> k \<Longrightarrow> prev_at st q h = prev_at st p h"
proof -
  obtain q c where q: "prev_at st p k = Some q" "st q = Some c" "nHeight c = k"
    using prev_at_Some [OF assms] by auto
  have "prev_at st q h = prev_at st p h" if "h \<le> k" for h
  proof (cases "0 \<le> h")
    case True
    then show ?thesis using prev_at_trans [OF assms(1,2) _ that q(1)] by simp
  next
    case False
    then show ?thesis by (auto simp: prev_at_def split: option.splits)
  qed
  then show thesis using that q GetAncestor_prev_at [OF assms(1,2), of k] by auto
qed

lemma agree_at_cap:
  assumes "st p = Some b" and "st q = Some c" and "nHeight c \<le> nHeight b"
    and "st q' = Some c'" and "nHeight c' = nHeight c"
    and "\<And>h. h \<le> nHeight c \<Longrightarrow> prev_at st q' h = prev_at st p h"
  shows "agree_at (prev_at st q') (prev_at st q) h x = agree_at (prev_at st p) (prev_at st q) h x"
  using assms prev_at_range [of st q h x] by (cases "h \<le> nHeight c") (auto simp: agree_at_def)

lemma agree_at_sym: "agree_at f g h x = agree_at g f h x"
  by (auto simp: agree_at_def)

lemma LastCommonAncestor_spec:
  assumes "index_wf st" and "st p = Some b" and "st q = Some c" and "prev_at st p 0 = prev_at st q 0"
  shows "\<exists>r. LastCommonAncestor st p q = Inr (Some r) \<and> is_fork (prev_at st p) (prev_at st q) (Some r)"
proof -
  have b0: "0 \<le> nHeight b" "0 \<le> nHeight c"
    using index_wfD(1) [OF assms(1)] assms(2,3) by auto
  let ?n = "Suc (nat (min (nHeight b) (nHeight c)))"
  consider "nHeight b = nHeight c" | "nHeight b > nHeight c" | "nHeight c > nHeight b" by linarith
  then show ?thesis
  proof cases
    case 1
    then have "nat (nHeight b) < ?n" by simp
    from LastCommonAncestor_loop_spec [OF assms(1-3) 1 this assms(4)]
    show ?thesis using 1 assms(2,3) by (simp add: LastCommonAncestor_def deref_def)
  next
    case 2
    obtain p' b' where p': "GetAncestor st p (nHeight c) = Inr (Some p')" "st p' = Some b'"
      "nHeight b' = nHeight c" "\<And>h. h \<le> nHeight c \<Longrightarrow> prev_at st p' h = prev_at st p h"
      using prev_at_cap [OF assms(1,2) b0(2)] 2 by auto
    have "nat (nHeight b') < ?n" "prev_at st p' 0 = prev_at st q 0" using p' b0 2 assms(4) by simp_all
    from LastCommonAncestor_loop_spec [OF assms(1) p'(2) assms(3) p'(3) this]
    obtain r where r: "LastCommonAncestor_loop ?n st (Some p') (Some q) = Inr (Some r)"
      "is_fork (prev_at st p') (prev_at st q) (Some r)" by auto
    have "is_fork (prev_at st p) (prev_at st q) (Some r)"
      using r(2) is_fork_cong [of "prev_at st p'" "prev_at st q" "prev_at st p" "prev_at st q"]
        agree_at_cap [OF assms(2,3) _ p'(2,3,4)] 2 by simp
    then show ?thesis using r(1) p'(1) 2 assms(2,3) by (simp add: LastCommonAncestor_def deref_def)
  next
    case 3
    obtain q' c' where q': "GetAncestor st q (nHeight b) = Inr (Some q')" "st q' = Some c'"
      "nHeight c' = nHeight b" "\<And>h. h \<le> nHeight b \<Longrightarrow> prev_at st q' h = prev_at st q h"
      using prev_at_cap [OF assms(1,3) b0(1)] 3 by auto
    have "nat (nHeight b) < ?n" "prev_at st p 0 = prev_at st q' 0" using q' b0 3 assms(4) by simp_all
    from LastCommonAncestor_loop_spec [OF assms(1,2) q'(2) q'(3) [symmetric] this]
    obtain r where r: "LastCommonAncestor_loop ?n st (Some p) (Some q') = Inr (Some r)"
      "is_fork (prev_at st p) (prev_at st q') (Some r)" by auto
    have "is_fork (prev_at st p) (prev_at st q) (Some r)"
      using r(2) is_fork_cong [of "prev_at st p" "prev_at st q'" "prev_at st p" "prev_at st q"]
        agree_at_cap [OF assms(3,2) _ q'(2,3,4)] 3
      by (simp add: agree_at_sym [of "prev_at st p"])
    then show ?thesis using r(1) q'(1) 3 assms(2,3) by (simp add: LastCommonAncestor_def deref_def)
  qed
qed

section \<open>Block locators\<close>

lemma LocatorEntries_loop_spec:
  assumes "index_wf st" and "\<And>r d. st r = Some d \<Longrightarrow> phashBlock d \<noteq> None"
    and "st p = Some b" and "1 \<le> step" and "nat (nHeight b) < fuel"
  shows "\<exists>l g d. LocatorEntries_loop fuel st (Some p) step hv = Inr (hv @ l) \<and>
           l \<noteq> [] \<and> hd l = the (phashBlock b) \<and>
           prev_at st p 0 = Some g \<and> st g = Some d \<and> last l = the (phashBlock d)"
  using assms(3-5)
proof (induction fuel arbitrary: p b step hv)
  case 0
  then show ?case by simp
next
  case (Suc fuel)
  have b0: "0 \<le> nHeight b" by (rule index_wfD(1) [OF assms(1) Suc.prems(1)])
  obtain hash where h: "phashBlock b = Some hash" using assms(2) [OF Suc.prems(1)] by auto
  show ?case
  proof (cases "nHeight b = 0")
    case True
    then show ?thesis using Suc.prems h prev_at_self [of st p b] by (auto simp: deref_def GetBlockHash_def)
  next
    case False
    let ?k = "max (nHeight b - step) 0" and ?s = "if length (hv @ [hash]) > 10 then step * 2 else step"
    obtain q c where q: "GetAncestor st p ?k = Inr (Some q)" "st q = Some c" "nHeight c = ?k"
      "\<And>h. h \<le> ?k \<Longrightarrow> prev_at st q h = prev_at st p h"
      using prev_at_cap [OF assms(1) Suc.prems(1), of ?k] Suc.prems(2) b0 by auto
    have "1 \<le> ?s" using Suc.prems(2) by simp
    moreover have "nat (nHeight c) < fuel" using q(3) False b0 Suc.prems(2,3) by linarith
    ultimately obtain l g d where l: "LocatorEntries_loop fuel st (Some q) ?s (hv @ [hash]) = Inr ((hv @ [hash]) @ l)"
      "l \<noteq> []" "prev_at st q 0 = Some g" "st g = Some d" "last l = the (phashBlock d)"
      using Suc.IH [OF q(2)] by blast
    then show ?thesis
      using False Suc.prems(1) h q(1) q(4) [of 0]
      by (intro exI [of _ "hash # l"] exI [of _ g] exI [of _ d]) (simp add: deref_def GetBlockHash_def)
  qed
qed

section \<open>Median time past\<close>

lemma length_filter_sort: "length (filter P (sort xs)) = length (filter P xs)"
  by (simp add: filter_sort)

lemma sort_nth_ge:
  fixes xs :: "'a::linorder list"
  assumes "i < length xs" and "length xs - i \<le> length (filter (\<lambda>x. v \<le> x) xs)"
  shows "v \<le> sort xs ! i"
proof (rule ccontr)
  let ?ys = "sort xs" and ?P = "\<lambda>x. v \<le> x"
  assume "\<not> v \<le> ?ys ! i"
  then have "\<not> ?P x" if "x \<in> set (take (Suc i) ?ys)" for x
    using that sorted_nth_mono [OF sorted_sort, of _ i xs] assms(1)
    by (auto simp: in_set_conv_nth) (meson dual_order.trans le_less_trans less_Suc_eq_le not_le_imp_less)
  then have "filter ?P (take (Suc i) ?ys) = []" by (simp add: filter_empty_conv)
  moreover have "filter ?P ?ys = filter ?P (take (Suc i) ?ys) @ filter ?P (drop (Suc i) ?ys)"
    by (metis append_take_drop_id filter_append)
  ultimately have "length (filter ?P ?ys) \<le> length (drop (Suc i) ?ys)"
    using length_filter_le [of ?P "drop (Suc i) ?ys"] by simp
  then show False using assms by (simp add: length_filter_sort)
qed

lemma filter_nth_sort:
  fixes xs :: "'a::linorder list"
  assumes "i < length xs"
  shows "length xs - i \<le> length (filter (\<lambda>x. sort xs ! i \<le> x) xs)"
proof -
  let ?ys = "sort xs" and ?P = "\<lambda>x. sort xs ! i \<le> x"
  have "?P x" if "x \<in> set (drop i ?ys)" for x
    using that sorted_nth_mono [OF sorted_sort, of i _ xs] assms
    by (auto simp: in_set_conv_nth)
  then have "filter ?P (drop i ?ys) = drop i ?ys" by simp
  moreover have "filter ?P ?ys = filter ?P (take i ?ys) @ filter ?P (drop i ?ys)"
    by (metis append_take_drop_id filter_append)
  ultimately have "length (drop i ?ys) \<le> length (filter ?P ?ys)" by simp
  then show ?thesis by (simp add: length_filter_sort)
qed

lemma median_slide:
  fixes ts :: "int list"
  assumes "ts \<noteq> []" and "ts = ts' \<or> ts = x # ts'" and "sort ts ! (length ts div 2) \<le> y"
  shows "sort ts ! (length ts div 2) \<le> sort (ts' @ [y]) ! (length (ts' @ [y]) div 2)"
proof (rule sort_nth_ge)
  let ?v = "sort ts ! (length ts div 2)"
  have "length ts div 2 < length ts" using assms(1) by (cases ts) auto
  from filter_nth_sort [OF this]
  show "length (ts' @ [y]) - length (ts' @ [y]) div 2 \<le> length (filter (\<lambda>z. ?v \<le> z) (ts' @ [y]))"
    using assms(2,3) by (auto split: if_splits)
qed auto

lemma median_times_total:
  assumes "index_wf st" and "st p = Some b"
  shows "\<exists>ts. median_times st n (Some p) = Inr ts"
  using assms(2)
proof (induction n arbitrary: p b)
  case 0
  then show ?case by simp
next
  case (Suc n)
  show ?case
  proof (cases "pprev b")
    case None
    then show ?thesis using Suc.prems by (cases n) (simp_all add: deref_def)
  next
    case (Some q)
    then obtain c where "st q = Some c" using index_wfD(3) [OF assms(1) Suc.prems] by auto
    then show ?thesis using Suc.IH Suc.prems Some by (fastforce simp: deref_def)
  qed
qed

lemma GetMedianTimePast_total:
  assumes "index_wf st" and "st p = Some b"
  obtains m where "GetMedianTimePast st p = Inr m"
  using median_times_total [OF assms, of nMedianTimeSpan] that by (auto simp: GetMedianTimePast_def)

lemma median_times_Suc:
  assumes "median_times st (Suc n) p = Inr ts"
  shows "\<exists>ts' x. median_times st n p = Inr ts' \<and> (ts = ts' \<or> ts = x # ts')"
  using assms
proof (induction n arbitrary: p ts)
  case 0
  then show ?case by (cases p) (auto simp: deref_def sum_bind_Inr_iff split: option.splits)
next
  case (Suc n)
  show ?case
  proof (cases p)
    case None
    then show ?thesis using Suc.prems by simp
  next
    case (Some r)
    then obtain b where b: "st r = Some b"
      using Suc.prems by (auto simp: deref_def sum_bind_Inr_iff split: option.splits)
    then obtain us where us: "median_times st (Suc n) (pprev b) = Inr us" "ts = us @ [GetBlockTime b]"
      using Suc.prems(1) Some by (auto simp: deref_def sum_bind_Inr_iff)
    obtain us' x where "median_times st n (pprev b) = Inr us'" "us = us' \<or> us = x # us'"
      using Suc.IH [OF us(1)] by blast
    then show ?thesis using us Some b by (auto simp: deref_def)
  qed
qed

section \<open>Work of a block\<close>

lemma compact_target_not_max:
  assumes "\<not> fOverflow (SetCompact c)"
  shows "words_val (target (SetCompact c)) + 1 < 2 ^ 256"
proof -
  let ?sz = "unat c div 2 ^ 24" and ?m = "unat c mod 2 ^ 23"
  let ?v = "compact_value ?sz ?m"
  have small: "?v < 2 ^ 256" and val: "words_val (target (SetCompact c)) = ?v"
    using SetCompact_value(2,4) [of c] assms by simp_all
  have "?v + 1 \<noteq> 2 ^ 256"
  proof (cases "?sz \<le> 3")
    case True
    have "?v \<le> ?m" using True by (simp add: compact_value_def div_le_dividend)
    also have "?m < 2 ^ 23" by simp
    finally show ?thesis by simp
  next
    case False
    then obtain k where "?sz - 3 = Suc k" by (cases "?sz - 3") auto
    then have "even ?v" using False by (simp add: compact_value_def)
    then have "odd (?v + 1)" by simp
    then show ?thesis by (metis even_numeral even_power zero_less_numeral)
  qed
  then show ?thesis using small val by linarith
qed

lemma GetBlockProof_val:
  assumes "\<not> fNegative (SetCompact (nBits b))" and "\<not> fOverflow (SetCompact (nBits b))"
    and "words_val (target (SetCompact (nBits b))) \<noteq> 0"
  shows "\<exists>q. GetBlockProof b = Inr q \<and> bu_wf q \<and>
    words_val q = 2 ^ 256 div (words_val (target (SetCompact (nBits b))) + 1)"
proof -
  let ?t = "target (SetCompact (nBits b))"
  let ?T = "words_val ?t"
  have wf: "bu_wf ?t" by (rule SetCompact_value(1))
  have one: "bu_wf (bu_of_u64 1)" "words_val (bu_of_u64 1) = 1"
    by (simp_all add: val_bu_of_u64)
  have T: "?T + 1 < 2 ^ 256" by (rule compact_target_not_max [OF assms(2)])
  have den: "bu_wf (bu_add ?t (bu_of_u64 1))" "words_val (bu_add ?t (bu_of_u64 1)) = ?T + 1"
    using T wf one by (simp_all add: val_bu_add)
  have num: "bu_wf (bu_not ?t)" "words_val (bu_not ?t) = 2 ^ 256 - 1 - ?T"
    using wf by (simp_all add: val_bu_not)
  obtain q where q: "bu_div (bu_not ?t) (bu_add ?t (bu_of_u64 1)) = Inr q" "bu_wf q"
    "words_val q = (2 ^ 256 - 1 - ?T) div (?T + 1)"
    using bu_div_val [OF num(1) den(1)] den(2) num(2) by auto
  have split: "2 ^ 256 = (2 ^ 256 - 1 - ?T) + (?T + 1)" using T by simp
  have quot: "2 ^ 256 div (?T + 1) = words_val q + 1"
    unfolding q(3) by (subst split) (simp only: div_add_self2 add_is_0 one_neq_zero simp_thms)
  have "2 ^ 256 div (?T + 1) \<le> 2 ^ 256 div 2"
    using assms(3) by (intro div_le_mono2) simp_all
  then have "words_val (bu_add q (bu_of_u64 1)) = 2 ^ 256 div (?T + 1)"
    using q(2) one quot by (simp add: val_bu_add)
  moreover have "GetBlockProof b = Inr (bu_add q (bu_of_u64 1))"
    using assms q(1) wf by (simp add: GetBlockProof_def Let_def EqualTo_val)
  ultimately show ?thesis using q(2) one by auto
qed

section \<open>A concrete index for the witnesses\<close>

text \<open>Four blocks: 0 - 1 - 2, and 3 a second child of 1.\<close>

definition sample_node :: "bid option \<Rightarrow> bid option \<Rightarrow> int \<Rightarrow> u32 \<Rightarrow> CBlockIndex" where
  "sample_node prev skip h t = \<lparr> phashBlock = Some (replicate 32 (word_of_int h)), pprev = prev, pskip = skip,
     nHeight = h, nFile = 0, nDataPos = 0, nUndoPos = 0, nChainWork = bu_zero, nTx = 0, nChainTx = 0,
     nStatus = 0, nVersion = 4, hashMerkleRoot = replicate 32 0, nTime = t, nBits = 0x1d00ffff,
     nNonce = 0, nSequenceId = 0, nTimeMax = t \<rparr>"

definition sample_trunk :: block_store where
  "sample_trunk = (Map.empty(0 \<mapsto> sample_node None None 0 1000))(1 \<mapsto> sample_node (Some 0) (Some 0) 1 1600)"

definition sample_index :: block_store where
  "sample_index = sample_trunk(2 \<mapsto> sample_node (Some 1) (Some 0) 2 2200, 3 \<mapsto> sample_node (Some 1) (Some 0) 2 2100)"

lemmas sample_defs = sample_index_def sample_trunk_def sample_node_def

lemma sample_trunk_wf: "index_wf sample_trunk"
proof -
  let ?g = "sample_node None None 0 1000"
  have "index_wf (Map.empty(0 \<mapsto> ?g))"
    by (auto simp: index_wf_def node_wf_def sample_node_def split: if_splits)
  then show ?thesis unfolding sample_trunk_def
    by (rule index_wf_add [where q = 0 and c = ?g])
      (auto simp: sample_node_def prev_at_def GetSkipHeight_def)
qed

lemma sample_index_wf: "index_wf sample_index"
proof -
  have skip: "GetSkipHeight 2 = 0" by code_simp
  have wf2: "index_wf (sample_trunk(2 \<mapsto> sample_node (Some 1) (Some 0) 2 2200))"
    by (rule index_wf_add [OF sample_trunk_wf, where q = 1 and c = "sample_node (Some 0) (Some 0) 1 1600"])
      (simp_all add: sample_trunk_def sample_node_def skip prev_at_def)
  show ?thesis unfolding sample_index_def
    by (rule index_wf_add [OF wf2, where q = 1 and c = "sample_node (Some 0) (Some 0) 1 1600"])
      (simp_all add: sample_trunk_def sample_node_def skip prev_at_def)
qed

lemma sample_index_2: "sample_index 2 = Some (sample_node (Some 1) (Some 0) 2 2200)"
  and sample_index_3: "sample_index 3 = Some (sample_node (Some 1) (Some 0) 2 2100)"
  and sample_index_4: "sample_index 4 = None"
  by (simp_all add: sample_index_def sample_trunk_def)

lemma sample_node_simps [simp]:
  "pprev (sample_node prev skip h t) = prev" "pskip (sample_node prev skip h t) = skip"
  "nHeight (sample_node prev skip h t) = h" "nTime (sample_node prev skip h t) = t"
  "nBits (sample_node prev skip h t) = 0x1d00ffff"
  by (simp_all add: sample_node_def)

lemma sample_chain_wf: "chain_wf sample_index [Some 0, Some 1, Some 2]"
proof -
  have "ancestors_of sample_index 2 2 = [Some 0, Some 1, Some 2]" by code_simp
  then show ?thesis using chain_wf_ancestors [OF sample_index_wf sample_index_2] by simp
qed

section \<open>Properties\<close>

text \<open>
  C12: in a well-formed index \<open>GetAncestor\<close>, with its skip pointers, never dereferences a null
  pointer nor fails its assertion, and returns exactly the block that following \<open>pprev\<close>
  one step at a time reaches at that height; outside \<open>0..nHeight\<close> it returns null.
\<close>

theorem GetAncestor_correct:
  assumes "index_wf st" and "st p = Some b"
  shows "GetAncestor st p h = Inr (if 0 \<le> h \<and> h \<le> nHeight b then nth_prev st (nat (nHeight b - h)) p else None) \<and>
    (0 \<le> h \<and> h \<le> nHeight b \<longrightarrow> (\<exists>q c. GetAncestor st p h = Inr (Some q) \<and> st q = Some c \<and> nHeight c = h))"
  using GetAncestor_prev_at [OF assms, of h] prev_at_Some [OF assms, of h] assms(2)
  by (auto simp: prev_at_def)

theorem GetAncestor_correct_witness:
  "index_wf sample_index \<and> GetAncestor sample_index 2 0 = Inr (Some 0)"
proof -
  have "nth_prev sample_index 2 2 = Some 0" by code_simp
  then show ?thesis
    using GetAncestor_correct [OF sample_index_wf sample_index_2, of 0] sample_index_wf by simp
qed

text \<open>
  Adding a block below a known parent and building its skip pointer never fails, keeps
  the index well formed, leaves every other entry alone, and lets \<open>pskip\<close> be the ancestor at
  the skip height.
\<close>

theorem BuildSkip_keeps_index:
  assumes "index_wf st" and "st p = None"
    and "pprev b = Some q" and "st q = Some c" and "nHeight b = nHeight c + 1" and "pskip b = None"
  shows "\<exists>sk. BuildSkip (st(p \<mapsto> b)) p = Inr (st(p \<mapsto> b\<lparr>pskip := Some sk\<rparr>)) \<and>
     index_wf (st(p \<mapsto> b\<lparr>pskip := Some sk\<rparr>)) \<and> prev_at st q (GetSkipHeight (nHeight b)) = Some sk"
proof -
  have "0 \<le> nHeight c" by (rule index_wfD(1) [OF assms(1,4)])
  then have "0 \<le> GetSkipHeight (nHeight b)" "GetSkipHeight (nHeight b) \<le> nHeight c"
    using GetSkipHeight_bounds [of "nHeight b"] assms(5) by simp_all
  then obtain sk where sk: "prev_at st q (GetSkipHeight (nHeight b)) = Some sk"
    using prev_at_Some [OF assms(1,4)] by blast
  have "index_wf (st(p \<mapsto> b\<lparr>pskip := Some sk\<rparr>))"
    by (rule index_wf_add [OF assms(1,2) _ assms(4)]) (use assms sk in simp_all)
  then show ?thesis using BuildSkip_value [OF assms] sk by auto
qed

theorem BuildSkip_keeps_index_witness:
  "\<exists>sk. index_wf (sample_index(4 \<mapsto> (sample_node (Some 2) None 3 2800)\<lparr>pskip := Some sk\<rparr>))"
  using BuildSkip_keeps_index [OF sample_index_wf sample_index_4 _ sample_index_2, of "sample_node (Some 2) None 3 2800"]
  by auto

text \<open>
  C13: \<open>SetTip\<close> makes the active chain the ancestors of the new tip, at every height and with
  no null slot, whatever branch was active before; it never indexes out of range.
\<close>

theorem SetTip_selects_branch:
  assumes "index_wf st" and "chain_wf st vc" and "st p = Some b"
  shows "\<exists>vc'. SetTip st vc p = Inr vc' \<and> chain_wf st vc' \<and> Tip vc' = Some p \<and> Height vc' = nHeight b \<and>
    (\<forall>h. chain_at vc' h = prev_at st p h)"
proof -
  let ?vc = "ancestors_of st p (nHeight b)"
  have b0: "0 \<le> nHeight b" by (rule index_wfD(1) [OF assms(1,3)])
  then have "Tip ?vc = Some p" "Height ?vc = nHeight b"
    using assms(3) by (simp_all add: Tip_def Height_def ancestors_of_def)
  then show ?thesis
    using SetTip_value [OF assms(1) _ assms(3)] assms(2) chain_wf_ancestors [OF assms(1,3)]
      chain_at_ancestors [OF assms(1,3)] by (simp add: chain_wf_def)
qed

theorem SetTip_selects_branch_witness:
  "SetTip sample_index [Some 0, Some 1, Some 2] 3 = Inr [Some 0, Some 1, Some 3] \<and>
   chain_wf sample_index [Some 0, Some 1, Some 3]"
proof -
  have "SetTip sample_index [Some 0, Some 1, Some 2] 3 = Inr [Some 0, Some 1, Some 3]" by code_simp
  then show ?thesis
    using SetTip_selects_branch [OF sample_index_wf sample_chain_wf sample_index_3] by simp
qed

text \<open>
  \<open>FindFork\<close> always returns, and returns the highest block that is both an ancestor of the
  given block and in the active chain at that height; null exactly when there is none.
\<close>

theorem FindFork_correct:
  assumes "index_wf st" and "chain_wf st vc" and "st p = Some b"
  shows "\<exists>r. FindFork st vc (Some p) = Inr r \<and>
    (case r of
       None \<Rightarrow> \<not> (\<exists>h q. prev_at st p h = Some q \<and> chain_at vc h = Some q)
     | Some q \<Rightarrow> \<exists>h. prev_at st p h = Some q \<and> chain_at vc h = Some q \<and>
         \<not> (\<exists>h' q'. h < h' \<and> prev_at st p h' = Some q' \<and> chain_at vc h' = Some q'))"
proof -
  obtain r where "FindFork st vc (Some p) = Inr r" "is_fork (prev_at st p) (chain_at vc) r"
    using FindFork_spec [OF assms] by blast
  then show ?thesis
    by (intro exI [of _ r]) (cases r; fastforce simp: is_fork_def agree_at_def not_less)
qed

theorem FindFork_correct_witness:
  "\<exists>r. FindFork sample_index [Some 0, Some 1, Some 2] (Some 3) = Inr r \<and> r = Some 1"
proof -
  have "FindFork sample_index [Some 0, Some 1, Some 2] (Some 3) = Inr (Some 1)" by code_simp
  then show ?thesis
    using FindFork_correct [OF sample_index_wf sample_chain_wf sample_index_3] by auto
qed

text \<open>
  For two blocks over the same genesis block \<open>LastCommonAncestor\<close> returns their highest
  common ancestor, and its final assertion (the two walks met) never fails.
\<close>

theorem LastCommonAncestor_correct:
  assumes "index_wf st" and "st p = Some b" and "st q = Some c" and "prev_at st p 0 = prev_at st q 0"
  shows "\<exists>r h. LastCommonAncestor st p q = Inr (Some r) \<and> prev_at st p h = Some r \<and> prev_at st q h = Some r \<and>
     \<not> (\<exists>h' r'. h < h' \<and> prev_at st p h' = Some r' \<and> prev_at st q h' = Some r')"
  using LastCommonAncestor_spec [OF assms] by (fastforce simp: is_fork_def agree_at_def not_less)

theorem LastCommonAncestor_correct_witness:
  "\<exists>r h. LastCommonAncestor sample_index 2 3 = Inr (Some r) \<and> prev_at sample_index 2 h = Some r"
proof -
  have "prev_at sample_index 2 0 = prev_at sample_index 3 0" by code_simp
  then show ?thesis
    using LastCommonAncestor_correct [OF sample_index_wf sample_index_2 sample_index_3] by blast
qed

text \<open>
  C14: a block locator always exists, starts with the hash of the block it is built for and
  ends with the hash of its genesis block, although its steps grow exponentially.
\<close>

theorem LocatorEntries_spans:
  assumes "index_wf st" and "\<And>r d. st r = Some d \<Longrightarrow> phashBlock d \<noteq> None" and "st p = Some b"
  shows "\<exists>l g d. LocatorEntries st (Some p) = Inr l \<and> l \<noteq> [] \<and> Some (hd l) = phashBlock b \<and>
    prev_at st p 0 = Some g \<and> st g = Some d \<and> Some (last l) = phashBlock d"
proof -
  have known: "Some (the (phashBlock d)) = phashBlock d" if "st r = Some d" for r d
    using assms(2) [OF that] by simp
  obtain l g d where l: "LocatorEntries_loop (Suc (nat (nHeight b))) st (Some p) 1 [] = Inr ([] @ l)"
    "l \<noteq> []" "hd l = the (phashBlock b)" "prev_at st p 0 = Some g" "st g = Some d" "last l = the (phashBlock d)"
    using LocatorEntries_loop_spec [OF assms(1) _ assms(3), where step = 1 and hv = "[]"
        and fuel = "Suc (nat (nHeight b))"] assms(2) by blast
  have "LocatorEntries st (Some p) = Inr l"
    using l(1) assms(3) by (simp add: LocatorEntries_def deref_def del: LocatorEntries_loop.simps)
  then show ?thesis using l known [OF assms(3)] known [OF l(5)] by auto
qed

theorem LocatorEntries_spans_witness:
  "\<exists>l. LocatorEntries sample_index (Some 3) = Inr l \<and> hd l = replicate 32 2 \<and> l \<noteq> []"
proof -
  have "phashBlock d \<noteq> None" if "sample_index r = Some d" for r d
    using that by (auto simp: sample_index_def sample_trunk_def sample_node_def split: if_splits)
  then show ?thesis
    using LocatorEntries_spans [OF sample_index_wf _ sample_index_3] by (auto simp: sample_node_def)
qed

text \<open>
  The median time past is always defined, and a child whose time is not before its
  parent's median time past (which header checks demand) never lowers it: median time past
  is monotone along every accepted chain.
\<close>

theorem MedianTimePast_monotone:
  assumes "index_wf st" and "st p = Some b" and "pprev b = Some q"
  shows "\<exists>m m'. GetMedianTimePast st q = Inr m \<and> GetMedianTimePast st p = Inr m' \<and>
    (m \<le> GetBlockTime b \<longrightarrow> m \<le> m')"
proof -
  obtain c where c: "st q = Some c" using index_wfD(3) [OF assms(1,2,3)] by auto
  obtain ts where ts: "median_times st nMedianTimeSpan (Some q) = Inr ts"
    using median_times_total [OF assms(1) c] by blast
  obtain ts' x where ts': "median_times st 10 (Some q) = Inr ts'" "ts = ts' \<or> ts = x # ts'"
    using median_times_Suc [of st 10 "Some q" ts] ts by (auto simp: nMedianTimeSpan_def)
  have new: "median_times st nMedianTimeSpan (Some p) = Inr (ts' @ [GetBlockTime b])"
    using median_times.simps(3) [of st 10 p] ts'(1) assms(2,3) by (simp add: nMedianTimeSpan_def deref_def)
  have "ts \<noteq> []"
    using ts median_times.simps(3) [of st 10 q] c
    by (cases "median_times st 10 (pprev c)") (auto simp: nMedianTimeSpan_def deref_def)
  from median_slide [OF this ts'(2), of "GetBlockTime b"] ts new show ?thesis
    by (simp add: GetMedianTimePast_def)
qed

theorem MedianTimePast_monotone_witness:
  "GetMedianTimePast sample_index 1 = Inr 1600 \<and> GetMedianTimePast sample_index 3 = Inr 1600"
proof -
  have "GetMedianTimePast sample_index 1 = Inr 1600" "GetMedianTimePast sample_index 3 = Inr 1600"
    by code_simp+
  then show ?thesis
    using MedianTimePast_monotone [OF sample_index_wf sample_index_3, of 1] by simp
qed

text \<open>
  The work of a block with a valid target \<open>t\<close> is \<open>2^256 div (t + 1)\<close>, computed without
  a number wider than 256 bits and without a division by zero; an invalid target has work 0.
\<close>

theorem GetBlockProof_correct:
  "let r = SetCompact (nBits b)
   in GetBlockProof b = Inr (if fNegative r \<or> fOverflow r \<or> words_val (target r) = 0 then bu_zero
        else words_of WIDTH (2 ^ 256 div (words_val (target r) + 1)))"
proof -
  let ?r = "SetCompact (nBits b)"
  have zero: "bu_of_u64 0 = bu_zero" by code_simp
  have "GetBlockProof b = Inr (words_of WIDTH (2 ^ 256 div (words_val (target ?r) + 1)))"
    if valid: "\<not> (fNegative ?r \<or> fOverflow ?r \<or> words_val (target ?r) = 0)"
  proof -
    obtain q where "GetBlockProof b = Inr q" "bu_wf q" "words_val q = 2 ^ 256 div (words_val (target ?r) + 1)"
      using GetBlockProof_val [of b] valid by blast
    then show ?thesis using words_of_val [of q] by (simp add: bu_wf_def del: words_of_val)
  qed
  then show ?thesis
    using SetCompact_value(1) [of "nBits b"] zero by (auto simp: GetBlockProof_def Let_def EqualTo_val)
qed

end
