(* ===== verification/Pow.thy ===== *)
theory Pow
  imports BlockChain ConsensusParams
begin

text \<open>
  Proof of work, \<open>src/src/pow.cpp\<close>: the MIDAS retargeting that lcryp runs at every block
  (\<open>avgRecentTimestamps\<close>, \<open>GetNextWorkRequired\<close>), the interval retargeting it inherits
  (\<open>CalculateNextWorkRequired\<close>, \<open>PermittedDifficultyTransition\<close>) and \<open>CheckProofOfWork\<close>.
  C++ integer division truncates, which is \<open>sdiv\<close>. Times are 32 bits wide, so the signed
  64-bit sums of the code stay exact and are modelled as integers. The genesis time that
  \<open>Params().GenesisBlock()\<close> supplies is an argument.
\<close>

section \<open>Definitions\<close>

record averages =
  avgOf5 :: int
  avgOf7 :: int
  avgOf9 :: int
  avgOf17 :: int

definition add_interval :: "nat \<Rightarrow> int \<Rightarrow> averages \<Rightarrow> averages" where
  "add_interval blockoffset d a =
     \<lparr> avgOf5 = (if blockoffset < 5 then avgOf5 a + d else avgOf5 a),
       avgOf7 = (if blockoffset < 7 then avgOf7 a + d else avgOf7 a),
       avgOf9 = (if blockoffset < 9 then avgOf9 a + d else avgOf9 a),
       avgOf17 = (if blockoffset < 17 then avgOf17 a + d else avgOf17 a) \<rparr>"

text \<open>The loop of \<open>avgRecentTimestamps\<close>: \<open>n\<close> rounds are left, \<open>blockoffset\<close> of them done.\<close>

fun avg_loop :: "block_store \<Rightarrow> nat \<Rightarrow> nat \<Rightarrow> bid \<Rightarrow> int \<Rightarrow> int \<Rightarrow> averages \<Rightarrow>
    fault + (averages \<times> int \<times> int)" where
  "avg_loop st 0 blockoffset p blocktime count_limit a = Inr (a, blocktime, count_limit)"
| "avg_loop st (Suc n) blockoffset p blocktime count_limit a =
     sum_bind (deref st p) (\<lambda>b.
       case pprev b of
         None \<Rightarrow> Inr (a, blocktime, count_limit)
       | Some q \<Rightarrow> sum_bind (deref st q) (\<lambda>c.
           avg_loop st n (blockoffset + 1) q (GetBlockTime c) (count_limit + 1)
             (add_interval blockoffset (blocktime - GetBlockTime c) a)))"

definition avgRecentTimestamps ::
    "block_store \<Rightarrow> bid option \<Rightarrow> Params \<Rightarrow> int \<Rightarrow> fault + (averages \<times> int)" where
  "avgRecentTimestamps st pindexLast params genesis_time =
     (let zero = \<lparr> avgOf5 = 0, avgOf7 = 0, avgOf9 = 0, avgOf17 = 0 \<rparr>
      in sum_bind (case pindexLast of
                     None \<Rightarrow> Inr (zero, 0, 0)
                   | Some p \<Rightarrow> sum_bind (deref st p) (\<lambda>b. avg_loop st 17 0 p (GetBlockTime b) 0 zero))
           (\<lambda>(a, blocktime, count_limit).
             let s = nPowTargetSpacing params;
                 avg = (if count_limit \<noteq> 0
                        then \<lparr> avgOf5 = avgOf5 a sdiv min count_limit 5, avgOf7 = avgOf7 a sdiv min count_limit 7,
                               avgOf9 = avgOf9 a sdiv min count_limit 9, avgOf17 = avgOf17 a sdiv min count_limit 17 \<rparr>
                        else \<lparr> avgOf5 = s, avgOf7 = s, avgOf9 = s, avgOf17 = s \<rparr>)
             in Inr (avg, if blocktime = 0 then genesis_time else blocktime + count_limit * s)))"

definition nFastInterval :: "Params \<Rightarrow> int" where
  "nFastInterval params = (nPowTargetSpacing params * 9) sdiv 10"

definition nSlowInterval :: "Params \<Rightarrow> int" where
  "nSlowInterval params = (nPowTargetSpacing params * 11) sdiv 10"

text \<open>Lines 92 to 111 of the source: the block interval that leads back to the schedule.\<close>

definition nIntervalDesired :: "Params \<Rightarrow> int \<Rightarrow> int \<Rightarrow> fault + int" where
  "nIntervalDesired params now BlockHeightTime =
     sum_bind (DifficultyAdjustmentInterval params) (\<lambda>dai.
       if now < BlockHeightTime + dai \<and> now > BlockHeightTime then
         cdiv ((dai - (now - BlockHeightTime)) * nPowTargetSpacing params +
               (now - BlockHeightTime) * nFastInterval params) dai
       else if now + dai > BlockHeightTime \<and> now < BlockHeightTime then
         cdiv ((dai - (BlockHeightTime - now)) * nPowTargetSpacing params +
               (BlockHeightTime - now) * nSlowInterval params) dai
       else if now < BlockHeightTime then Inr (nSlowInterval params)
       else if now > BlockHeightTime then Inr (nFastInterval params)
       else Inr (nPowTargetSpacing params))"

text \<open>Lines 112 to 197: the factor, in ten-thousandths, by which difficulty grows.\<close>

definition difficultyfactor :: "averages \<Rightarrow> int \<Rightarrow> fault + int" where
  "difficultyfactor a desired =
     (let a5 = avgOf5 a; a7 = avgOf7 a; a9 = avgOf9 a; a17 = avgOf17 a;
          toofast = (desired * 2) sdiv 3; tooslow = (desired * 3) sdiv 2
      in if a5 < toofast \<and> a7 < toofast \<and> a9 < toofast \<and> a17 < desired then
           let reg = (if a5 > a7 \<and> a5 > a9 then a5 else if a7 > a9 then a7 else a9)
           in cdiv (10000 * (4 * toofast)) (reg + 3 * toofast)
         else if a5 > tooslow \<and> a7 > tooslow \<and> a9 > tooslow \<and> a17 > desired then
           let reg = (if a5 < a7 \<and> a5 < a9 then a5 else if a7 < a9 then a7 else a9)
           in cdiv (10000 * (4 * tooslow)) (reg + 3 * tooslow)
         else if a5 < desired \<and> a7 < desired \<and> a9 < desired \<and> a17 < desired then
           let reg = (if a5 > a7 \<and> a5 > a9 \<and> a5 > a17 then a5
                      else if a7 > a9 \<and> a7 > a17 then a7 else if a9 > a17 then a9 else a17)
           in cdiv (10000 * (4 * desired)) (reg + 3 * desired)
         else if a5 > desired \<and> a7 > desired \<and> a9 > desired \<and> a17 > desired then
           let reg = (if a5 < a7 \<and> a5 < a9 \<and> a5 < a17 then a5
                      else if a7 < a9 \<and> a7 < a17 then a7 else if a9 < a17 then a9 else a17)
           in cdiv (10000 * (4 * desired)) (reg + 3 * desired)
         else Inr 10000)"

definition compact_of :: "base_uint \<Rightarrow> fault + u32" where
  "compact_of a = (case GetCompact a False of None \<Rightarrow> Inl AssertFailed | Some c \<Rightarrow> Inr c)"

definition clamp_to_limit :: "Params \<Rightarrow> base_uint \<Rightarrow> base_uint" where
  "clamp_to_limit params bnNew =
     (if CompareTo bnNew (UintToArith256 (powLimit params)) > 0 then UintToArith256 (powLimit params) else bnNew)"

text \<open>
  Lines 198 to 209. The signed factor is converted to \<open>uint64_t\<close> and then to 256 bits, and
  \<open>10000\<close> selects the 32-bit multiplication.
\<close>

definition scale_target :: "u32 \<Rightarrow> int \<Rightarrow> uint_error + base_uint" where
  "scale_target bits' factor =
     (let bnOld = target (SetCompact bits')
      in if factor \<noteq> 10000
         then sum_bind (bu_div bnOld (bu_of_u64 (of_int factor))) (\<lambda>q. Inr (bu_mul32 q 10000))
         else Inr bnOld)"

definition GetNextWorkRequired ::
    "block_store \<Rightarrow> bid option \<Rightarrow> Params \<Rightarrow> int \<Rightarrow> fault + u32" where
  "GetNextWorkRequired st pindexLast params genesis_time =
     (case pindexLast of
        None \<Rightarrow> Inl AssertFailed
      | Some p \<Rightarrow> sum_bind (deref st p) (\<lambda>b.
          sum_bind (avgRecentTimestamps st pindexLast params genesis_time) (\<lambda>(a, BlockHeightTime).
          sum_bind (nIntervalDesired params (GetBlockTime b) BlockHeightTime) (\<lambda>desired.
          sum_bind (difficultyfactor a desired) (\<lambda>factor.
            case scale_target (nBits b) factor of
              Inl _ \<Rightarrow> compact_of (UintToArith256 (powLimit params))
            | Inr bnNew \<Rightarrow> compact_of (clamp_to_limit params bnNew))))))"

definition throws :: "uint_error + 'a \<Rightarrow> fault + 'a" where
  "throws r = (case r of Inl _ \<Rightarrow> Inl Uncaught | Inr x \<Rightarrow> Inr x)"

definition rescale :: "u32 \<Rightarrow> int \<Rightarrow> Params \<Rightarrow> fault + base_uint" where
  "rescale bits' timespan params =
     sum_bind (throws (bu_div (bu_mul32 (target (SetCompact bits')) (of_int timespan))
                        (bu_of_u64 (of_int (nPowTargetTimespan params)))))
       (\<lambda>t. Inr (clamp_to_limit params t))"

definition CalculateNextWorkRequired :: "CBlockIndex \<Rightarrow> int \<Rightarrow> Params \<Rightarrow> fault + u32" where
  "CalculateNextWorkRequired b nFirstBlockTime params =
     (if fPowNoRetargeting params then Inr (nBits b)
      else
        let t = GetBlockTime b - nFirstBlockTime;
            t = (if t < nPowTargetTimespan params sdiv 4 then nPowTargetTimespan params sdiv 4 else t);
            t = (if t > nPowTargetTimespan params * 4 then nPowTargetTimespan params * 4 else t)
        in sum_bind (rescale (nBits b) t params) compact_of)"

definition PermittedDifficultyTransition :: "Params \<Rightarrow> int \<Rightarrow> u32 \<Rightarrow> u32 \<Rightarrow> fault + bool" where
  "PermittedDifficultyTransition params height old_nbits new_nbits =
     (if fPowAllowMinDifficultyBlocks params then Inr True
      else sum_bind (DifficultyAdjustmentInterval params) (\<lambda>dai.
        if dai = 0 then Inl DivByZero
        else if height smod dai = 0 then
          let observed = target (SetCompact new_nbits)
          in sum_bind (rescale old_nbits (nPowTargetTimespan params * 4) params) (\<lambda>largest.
             sum_bind (compact_of largest) (\<lambda>c.
               if CompareTo (target (SetCompact c)) observed < 0 then Inr False
               else sum_bind (rescale old_nbits (nPowTargetTimespan params sdiv 4) params) (\<lambda>smallest.
                    sum_bind (compact_of smallest) (\<lambda>c'.
                      Inr (\<not> CompareTo (target (SetCompact c')) observed > 0)))))
        else Inr (old_nbits = new_nbits)))"

definition CheckProofOfWork :: "uint256 \<Rightarrow> u32 \<Rightarrow> Params \<Rightarrow> bool" where
  "CheckProofOfWork hash bits' params =
     (let r = SetCompact bits'; bnTarget = target r
      in if fNegative r \<or> EqualTo bnTarget 0 \<or> fOverflow r \<or>
            CompareTo bnTarget (UintToArith256 (powLimit params)) > 0 then False
         else if CompareTo (UintToArith256 hash) bnTarget > 0 then False
         else True)"

section \<open>Averages of recent intervals\<close>

definition back_time :: "block_store \<Rightarrow> bid \<Rightarrow> nat \<Rightarrow> int" where
  "back_time st p i = GetBlockTime (the (st (the (nth_prev st i p))))"

lemma back_time_0 [simp]: "st p = Some b \<Longrightarrow> back_time st p 0 = GetBlockTime b"
  by (simp add: back_time_def)

lemma back_time_Suc [simp]:
  "st p = Some b \<Longrightarrow> pprev b = Some q \<Longrightarrow> back_time st p (Suc i) = back_time st q i"
  by (simp add: back_time_def)

lemma avg_loop_spec:
  assumes "index_wf st" and "st p = Some b"
  shows "\<exists>a'. avg_loop st n off p (GetBlockTime b) cnt a =
      Inr (a', back_time st p (min n (nat (nHeight b))), cnt + int (min n (nat (nHeight b)))) \<and>
    avgOf5 a' = avgOf5 a + (back_time st p 0 - back_time st p (min (5 - off) (min n (nat (nHeight b))))) \<and>
    avgOf7 a' = avgOf7 a + (back_time st p 0 - back_time st p (min (7 - off) (min n (nat (nHeight b))))) \<and>
    avgOf9 a' = avgOf9 a + (back_time st p 0 - back_time st p (min (9 - off) (min n (nat (nHeight b))))) \<and>
    avgOf17 a' = avgOf17 a + (back_time st p 0 - back_time st p (min (17 - off) (min n (nat (nHeight b)))))"
  using assms(2)
proof (induction n arbitrary: off p b cnt a)
  case 0
  then show ?case by simp
next
  case (Suc n)
  show ?case
  proof (cases "pprev b")
    case None
    then have "nHeight b = 0" using index_wfD(2) [OF assms(1) Suc.prems] by simp
    then show ?thesis using None Suc.prems by (simp add: deref_def)
  next
    case (Some q)
    then obtain c where c: "st q = Some c" "nHeight b = nHeight c + 1"
      using index_wfD(3) [OF assms(1) Suc.prems] by auto
    have k: "min (Suc n) (nat (nHeight b)) = Suc (min n (nat (nHeight c)))"
      using c(2) index_wfD(1) [OF assms(1) c(1)] by simp
    let ?k = "min n (nat (nHeight c))"
    have cut: "min (j - off) (Suc ?k) = (if off < j then Suc (min (j - (off + 1)) ?k) else 0)" for j
      by (simp add: min_def) arith
    have bt: "back_time st p (min (j - off) (Suc ?k)) =
        (if off < j then back_time st q (min (j - (off + 1)) ?k) else back_time st p 0)" for j
      unfolding cut using Suc.prems Some by simp
    let ?d = "GetBlockTime b - GetBlockTime c"
    obtain a' where a': "avg_loop st n (off + 1) q (GetBlockTime c) (cnt + 1) (add_interval off ?d a) =
        Inr (a', back_time st q ?k, cnt + 1 + int ?k)"
      "avgOf5 a' = avgOf5 (add_interval off ?d a) + (back_time st q 0 - back_time st q (min (5 - (off + 1)) ?k))"
      "avgOf7 a' = avgOf7 (add_interval off ?d a) + (back_time st q 0 - back_time st q (min (7 - (off + 1)) ?k))"
      "avgOf9 a' = avgOf9 (add_interval off ?d a) + (back_time st q 0 - back_time st q (min (9 - (off + 1)) ?k))"
      "avgOf17 a' = avgOf17 (add_interval off ?d a) + (back_time st q 0 - back_time st q (min (17 - (off + 1)) ?k))"
      using Suc.IH [OF c(1), of "off + 1" "cnt + 1" "add_interval off ?d a"] by blast
    have "avg_loop st (Suc n) off p (GetBlockTime b) cnt a = Inr (a', back_time st p (Suc ?k), cnt + int (Suc ?k))"
      using a'(1) Suc.prems Some c(1) by (simp add: deref_def)
    moreover have
      "avgOf5 a' = avgOf5 a + (back_time st p 0 - back_time st p (min (5 - off) (Suc ?k)))"
      "avgOf7 a' = avgOf7 a + (back_time st p 0 - back_time st p (min (7 - off) (Suc ?k)))"
      "avgOf9 a' = avgOf9 a + (back_time st p 0 - back_time st p (min (9 - off) (Suc ?k)))"
      "avgOf17 a' = avgOf17 a + (back_time st p 0 - back_time st p (min (17 - off) (Suc ?k)))"
      unfolding bt a'(2-5) using Suc.prems c(1) by (simp_all add: add_interval_def)
    ultimately show ?thesis unfolding k by blast
  qed
qed

definition mean_interval :: "block_store \<Rightarrow> bid \<Rightarrow> int \<Rightarrow> nat \<Rightarrow> int" where
  "mean_interval st p h k = (back_time st p 0 - back_time st p (min k (nat h))) sdiv min h (int k)"

lemma avgRecentTimestamps_value:
  assumes "index_wf st" and "st p = Some b"
  shows "avgRecentTimestamps st (Some p) params genesis_time =
    (let h = nHeight b; n = min 17 (nat h); s = nPowTargetSpacing params
     in Inr (if h = 0 then \<lparr> avgOf5 = s, avgOf7 = s, avgOf9 = s, avgOf17 = s \<rparr>
             else \<lparr> avgOf5 = mean_interval st p h 5, avgOf7 = mean_interval st p h 7,
                    avgOf9 = mean_interval st p h 9, avgOf17 = mean_interval st p h 17 \<rparr>,
             if back_time st p n = 0 then genesis_time else back_time st p n + int n * s))"
proof -
  let ?zero = "\<lparr> avgOf5 = 0, avgOf7 = 0, avgOf9 = 0, avgOf17 = 0 \<rparr>"
  have h: "0 \<le> nHeight b" by (rule index_wfD(1) [OF assms])
  have mins: "min i (min 17 (nat (nHeight b))) = min i (nat (nHeight b))" if "i \<le> 17" for i
    using that by simp
  define n where "n = min 17 (nat (nHeight b))"
  have cnt: "min (int n) 5 = min (nHeight b) 5" "min (int n) 7 = min (nHeight b) 7"
    "min (int n) 9 = min (nHeight b) 9" "min (int n) 17 = min (nHeight b) 17"
    "(int n = 0) = (nHeight b = 0)" "n = 0 \<longleftrightarrow> nHeight b = 0"
    using h unfolding n_def by linarith+
  obtain a where a: "avg_loop st 17 0 p (GetBlockTime b) 0 ?zero = Inr (a, back_time st p n, int n)"
    "avgOf5 a = back_time st p 0 - back_time st p (min 5 (nat (nHeight b)))"
    "avgOf7 a = back_time st p 0 - back_time st p (min 7 (nat (nHeight b)))"
    "avgOf9 a = back_time st p 0 - back_time st p (min 9 (nat (nHeight b)))"
    "avgOf17 a = back_time st p 0 - back_time st p n"
    using avg_loop_spec [OF assms, of 17 0 0 ?zero] mins [of 5] mins [of 7] mins [of 9] mins [of 17]
    unfolding n_def by auto
  have "avgRecentTimestamps st (Some p) params genesis_time =
    (let s = nPowTargetSpacing params
     in Inr (if nHeight b = 0 then \<lparr> avgOf5 = s, avgOf7 = s, avgOf9 = s, avgOf17 = s \<rparr>
             else \<lparr> avgOf5 = avgOf5 a sdiv min (int n) 5, avgOf7 = avgOf7 a sdiv min (int n) 7,
                    avgOf9 = avgOf9 a sdiv min (int n) 9, avgOf17 = avgOf17 a sdiv min (int n) 17 \<rparr>,
             if back_time st p n = 0 then genesis_time else back_time st p n + int n * s))"
    using a(1) assms(2) cnt(5,6) by (simp add: avgRecentTimestamps_def deref_def Let_def)
  then show ?thesis
    unfolding cnt(1-4) a(2-5) mean_interval_def Let_def n_def [symmetric] by simp
qed

section \<open>The difficulty factor\<close>

lemma regulated_increase:
  fixes t reg :: int
  assumes "0 \<le> reg" and "reg < t"
  shows "\<exists>f. cdiv (10000 * (4 * t)) (reg + 3 * t) = Inr f \<and> 10000 \<le> f \<and> f \<le> 13333"
proof -
  have pos: "0 < reg + 3 * t" using assms by simp
  have "10000 * (4 * t) div (reg + 3 * t) < 13334"
    using assms pos by (intro int_div_less) simp_all
  moreover have "10000 \<le> 10000 * (4 * t) div (reg + 3 * t)"
    using assms pos by (intro int_div_ge) simp_all
  ultimately show ?thesis using pos assms by (simp add: cdiv_def sdiv_nonneg)
qed

lemma regulated_decrease:
  fixes t reg :: int
  assumes "0 < t" and "t < reg"
  shows "\<exists>f. cdiv (10000 * (4 * t)) (reg + 3 * t) = Inr f \<and> 0 \<le> f \<and> f < 10000"
proof -
  have pos: "0 < reg + 3 * t" using assms by simp
  have "10000 * (4 * t) div (reg + 3 * t) < 10000"
    using assms pos by (intro int_div_less) simp_all
  moreover have "0 \<le> 10000 * (4 * t) div (reg + 3 * t)"
    using assms pos by (intro int_div_ge) simp_all
  ultimately show ?thesis using pos assms by (simp add: cdiv_def sdiv_nonneg)
qed

lemma interval_thresholds:
  fixes d :: int
  assumes "0 < d"
  shows "(d * 2) sdiv 3 \<le> d" and "d \<le> (d * 3) sdiv 2" and "0 \<le> (d * 2) sdiv 3"
proof -
  have "(d * 2) div 3 < d + 1" "d \<le> (d * 3) div 2" "0 \<le> (d * 2) div 3"
    using assms by (intro int_div_less int_div_ge; simp)+
  then show "(d * 2) sdiv 3 \<le> d" "d \<le> (d * 3) sdiv 2" "0 \<le> (d * 2) sdiv 3"
    using assms by (simp_all add: sdiv_nonneg)
qed

definition all_below :: "averages \<Rightarrow> int \<Rightarrow> bool" where
  "all_below a d \<longleftrightarrow> avgOf5 a < d \<and> avgOf7 a < d \<and> avgOf9 a < d \<and> avgOf17 a < d"

definition all_above :: "averages \<Rightarrow> int \<Rightarrow> bool" where
  "all_above a d \<longleftrightarrow> avgOf5 a > d \<and> avgOf7 a > d \<and> avgOf9 a > d \<and> avgOf17 a > d"

definition all_nonneg :: "averages \<Rightarrow> bool" where
  "all_nonneg a \<longleftrightarrow> 0 \<le> avgOf5 a \<and> 0 \<le> avgOf7 a \<and> 0 \<le> avgOf9 a \<and> 0 \<le> avgOf17 a"

lemmas average_defs = all_below_def all_above_def all_nonneg_def

lemma factor_below:
  assumes "0 < d" and "all_nonneg a" and "all_below a d"
  shows "\<exists>f. difficultyfactor a d = Inr f \<and> 10000 \<le> f \<and> f \<le> 13333"
proof -
  note thr = interval_thresholds [OF assms(1)]
  let ?fast = "(d * 2) sdiv 3"
  have slow: "\<not> (avgOf5 a > (d * 3) sdiv 2 \<and> avgOf7 a > (d * 3) sdiv 2 \<and> avgOf9 a > (d * 3) sdiv 2 \<and> avgOf17 a > d)"
    using assms(3) by (simp add: all_below_def)
  show ?thesis
  proof (cases "avgOf5 a < ?fast \<and> avgOf7 a < ?fast \<and> avgOf9 a < ?fast \<and> avgOf17 a < d")
    case True
    let ?reg = "if avgOf5 a > avgOf7 a \<and> avgOf5 a > avgOf9 a then avgOf5 a
      else if avgOf7 a > avgOf9 a then avgOf7 a else avgOf9 a"
    have "difficultyfactor a d = cdiv (10000 * (4 * ?fast)) (?reg + 3 * ?fast)"
      using True by (simp add: difficultyfactor_def Let_def)
    moreover have "0 \<le> ?reg" "?reg < ?fast" using True assms(2) by (simp_all add: all_nonneg_def)
    ultimately show ?thesis using regulated_increase [of ?reg ?fast] by simp
  next
    case False
    let ?reg = "if avgOf5 a > avgOf7 a \<and> avgOf5 a > avgOf9 a \<and> avgOf5 a > avgOf17 a then avgOf5 a
      else if avgOf7 a > avgOf9 a \<and> avgOf7 a > avgOf17 a then avgOf7 a
      else if avgOf9 a > avgOf17 a then avgOf9 a else avgOf17 a"
    have "difficultyfactor a d = cdiv (10000 * (4 * d)) (?reg + 3 * d)"
      unfolding difficultyfactor_def Let_def if_not_P [OF False] if_not_P [OF slow]
      using assms(3) by (simp only: all_below_def if_True simp_thms)
    moreover have "0 \<le> ?reg" "?reg < d" using assms(2,3) by (simp_all add: average_defs)
    ultimately show ?thesis using regulated_increase [of ?reg d] by simp
  qed
qed

lemma factor_above:
  assumes "0 < d" and "all_above a d"
  shows "\<exists>f. difficultyfactor a d = Inr f \<and> 0 \<le> f \<and> f < 10000"
proof -
  note thr = interval_thresholds [OF assms(1)]
  let ?slow = "(d * 3) sdiv 2"
  have fast: "\<not> (avgOf5 a < (d * 2) sdiv 3 \<and> avgOf7 a < (d * 2) sdiv 3 \<and> avgOf9 a < (d * 2) sdiv 3 \<and> avgOf17 a < d)"
    using assms(2) by (simp add: all_above_def)
  have below: "\<not> (avgOf5 a < d \<and> avgOf7 a < d \<and> avgOf9 a < d \<and> avgOf17 a < d)"
    using assms(2) by (simp add: all_above_def)
  show ?thesis
  proof (cases "avgOf5 a > ?slow \<and> avgOf7 a > ?slow \<and> avgOf9 a > ?slow \<and> avgOf17 a > d")
    case True
    let ?reg = "if avgOf5 a < avgOf7 a \<and> avgOf5 a < avgOf9 a then avgOf5 a
      else if avgOf7 a < avgOf9 a then avgOf7 a else avgOf9 a"
    have "difficultyfactor a d = cdiv (10000 * (4 * ?slow)) (?reg + 3 * ?slow)"
      unfolding difficultyfactor_def Let_def if_not_P [OF fast] if_P [OF True] ..
    moreover have "?slow < ?reg" using True by simp
    ultimately show ?thesis using regulated_decrease [of ?slow ?reg] thr(2) assms(1) by simp
  next
    case False
    let ?reg = "if avgOf5 a < avgOf7 a \<and> avgOf5 a < avgOf9 a \<and> avgOf5 a < avgOf17 a then avgOf5 a
      else if avgOf7 a < avgOf9 a \<and> avgOf7 a < avgOf17 a then avgOf7 a
      else if avgOf9 a < avgOf17 a then avgOf9 a else avgOf17 a"
    have "difficultyfactor a d = cdiv (10000 * (4 * d)) (?reg + 3 * d)"
      unfolding difficultyfactor_def Let_def if_not_P [OF fast] if_not_P [OF False] if_not_P [OF below]
      using assms(2) by (simp only: all_above_def if_True simp_thms)
    moreover have "d < ?reg" using assms(2) by (simp add: all_above_def)
    ultimately show ?thesis using regulated_decrease [of d ?reg] assms(1) by simp
  qed
qed

lemma factor_mixed:
  assumes "0 < d" and "\<not> all_below a d" and "\<not> all_above a d"
  shows "difficultyfactor a d = Inr 10000"
proof -
  note thr = interval_thresholds [OF assms(1)]
  have "\<not> (avgOf5 a < (d * 2) sdiv 3 \<and> avgOf7 a < (d * 2) sdiv 3 \<and> avgOf9 a < (d * 2) sdiv 3 \<and> avgOf17 a < d)"
    using assms(2) thr(1) by (auto simp: all_below_def)
  moreover have "\<not> (avgOf5 a > (d * 3) sdiv 2 \<and> avgOf7 a > (d * 3) sdiv 2 \<and> avgOf9 a > (d * 3) sdiv 2 \<and> avgOf17 a > d)"
    using assms(3) thr(2) by (auto simp: all_above_def)
  moreover note assms(2,3) [unfolded all_below_def all_above_def]
  ultimately show ?thesis
    unfolding difficultyfactor_def Let_def by (simp only: if_False simp_thms)
qed

lemma nIntervalDesired_pos:
  assumes "2 \<le> nPowTargetSpacing params" and "nPowTargetSpacing params \<le> nPowTargetTimespan params"
  shows "\<exists>d. nIntervalDesired params now t = Inr d \<and> 0 < d"
proof -
  let ?s = "nPowTargetSpacing params"
  have fast: "0 < nFastInterval params" "nFastInterval params \<le> ?s"
  proof -
    have "1 \<le> (?s * 9) div 10" "(?s * 9) div 10 < ?s + 1"
      using assms(1) by (intro int_div_ge int_div_less; simp)+
    then show "0 < nFastInterval params" "nFastInterval params \<le> ?s"
      using assms(1) by (simp_all add: nFastInterval_def sdiv_nonneg)
  qed
  have slow: "0 < nSlowInterval params"
  proof -
    have "1 \<le> (?s * 11) div 10" using assms(1) by (intro int_div_ge) simp_all
    then show ?thesis using assms(1) by (simp add: nSlowInterval_def sdiv_nonneg)
  qed
  obtain dai where dai: "DifficultyAdjustmentInterval params = Inr dai" "1 \<le> dai"
  proof -
    have "1 \<le> nPowTargetTimespan params div ?s" using assms by (intro int_div_ge) simp_all
    then show thesis using that assms by (simp add: DifficultyAdjustmentInterval_def cdiv_def sdiv_nonneg)
  qed
  have blend: "\<exists>d. cdiv ((dai - x) * ?s + x * u) dai = Inr d \<and> 0 < d" if "0 < x" "x < dai" "0 < u" for x u
  proof -
    have "dai - x \<le> (dai - x) * ?s" using that(2) assms(1) mult_left_mono [of 1 ?s "dai - x"] by simp
    moreover have "x \<le> x * u" using that(1,3) mult_left_mono [of 1 u x] by simp
    ultimately have "dai \<le> (dai - x) * ?s + x * u" by linarith
    then have "1 \<le> ((dai - x) * ?s + x * u) div dai" using dai(2) by (intro int_div_ge) simp_all
    then show ?thesis
      using \<open>dai \<le> _\<close> dai(2) by (simp add: cdiv_def sdiv_nonneg)
  qed
  show ?thesis
    unfolding nIntervalDesired_def dai(1) sum_bind_simps
    using blend [of "now - t" "nFastInterval params"] blend [of "t - now" "nSlowInterval params"]
      fast slow assms(1) by auto
qed

section \<open>The retarget\<close>

definition limit_num :: "Params \<Rightarrow> nat" where
  "limit_num params = words_val (UintToArith256 (powLimit params))"

definition target_num :: "u32 \<Rightarrow> nat" where
  "target_num c = words_val (target (SetCompact c))"

lemma clamp_to_limit_num:
  assumes "bu_wf a"
  shows "bu_wf (clamp_to_limit params a)"
    and "words_val (clamp_to_limit params a) = min (words_val a) (limit_num params)"
  using bu.num_clamp [OF assms, of "UintToArith256 (powLimit params)"] assms
  by (simp_all add: clamp_to_limit_def limit_num_def)

lemma compact_of_rounds:
  assumes "bu_wf a"
  shows "\<exists>c. compact_of a = Inr c \<and> \<not> fNegative (SetCompact c) \<and> \<not> fOverflow (SetCompact c) \<and>
    target_num c \<le> words_val a \<and> (words_val a - target_num c) * 2 ^ 15 \<le> words_val a"
  using GetCompact_rounds [OF assms] by (auto simp: compact_of_def target_num_def Let_def)

lemma scale_target_num:
  assumes "0 < f" and "f < 2 ^ 64"
  shows "\<exists>t. scale_target c f = Inr t \<and> bu_wf t \<and>
    words_val t = (if f = 10000 then target_num c else target_num c div nat f * 10000 mod 2 ^ 256)"
proof -
  have wf: "bu_wf (target (SetCompact c))" by (rule SetCompact_value(1))
  have "(of_int f :: u64) = of_nat (nat f)" using assms(1) by simp
  moreover have "nat f < 2 ^ 64" using assms by simp
  ultimately have u: "unat (of_int f :: u64) = nat f" by (simp add: unat_of_nat)
  then have nz: "(of_int f :: u64) \<noteq> 0" using assms(1) by auto
  show ?thesis
  proof (cases "f = 10000")
    case True
    then show ?thesis using wf by (simp add: scale_target_def target_num_def)
  next
    case False
    obtain q where "bu_div (target (SetCompact c)) (bu_of_u64 (of_int f)) = Inr q"
      "bu_wf (bu_mul32 q 10000)"
      "words_val (bu_mul32 q 10000) = target_num c div nat f * 10000 mod 2 ^ 256"
      using bu.divide_scale [OF wf nz, of 10000] by (auto simp: u target_num_def)
    then show ?thesis using False by (simp add: scale_target_def Let_def)
  qed
qed

lemma GetNextWorkRequired_num:
  assumes "st p = Some b" and "avgRecentTimestamps st (Some p) params g = Inr (a, t)"
    and "nIntervalDesired params (GetBlockTime b) t = Inr d" and "difficultyfactor a d = Inr f"
    and "0 < f" and "f < 2 ^ 64"
  shows "\<exists>new c. GetNextWorkRequired st (Some p) params g = Inr c \<and> compact_of new = Inr c \<and> bu_wf new \<and>
    words_val new = min (if f = 10000 then target_num (nBits b)
                         else target_num (nBits b) div nat f * 10000 mod 2 ^ 256) (limit_num params)"
proof -
  obtain t' where t': "scale_target (nBits b) f = Inr t'" "bu_wf t'"
    "words_val t' = (if f = 10000 then target_num (nBits b)
                     else target_num (nBits b) div nat f * 10000 mod 2 ^ 256)"
    using scale_target_num [OF assms(5,6)] by blast
  obtain c where "compact_of (clamp_to_limit params t') = Inr c"
    using compact_of_rounds [OF clamp_to_limit_num(1) [OF t'(2)]] by blast
  then show ?thesis
    using clamp_to_limit_num [OF t'(2), of params] t' assms
    by (intro exI [of _ "clamp_to_limit params t'"] exI [of _ c])
      (simp add: GetNextWorkRequired_def deref_def)
qed

lemma scaled_le:
  assumes "10000 \<le> f"
  shows "n div nat f * 10000 \<le> n"
proof -
  have "n div nat f * 10000 \<le> n div nat f * nat f" using assms by (intro mult_le_mono2) simp
  then show ?thesis using div_times_less_eq_dividend [of n "nat f"] by linarith
qed

section \<open>Concrete chains and parameters\<close>

text \<open>The parameters of the main network, with one value of the activation threshold.\<close>

definition main_pow_params :: Params where
  "main_pow_params = main_consensus 5"

definition timed_chain :: "u32 \<Rightarrow> u32 list \<Rightarrow> block_store" where
  "timed_chain c ts = (\<lambda>i. if i < length ts
     then Some ((sample_node (if i = 0 then None else Some (i - 1)) None (int i) (ts ! i))\<lparr>nBits := c\<rparr>)
     else None)"

lemma timed_chain_wf: "index_wf (timed_chain c ts)"
  by (auto simp: index_wf_def node_wf_def timed_chain_def split: if_splits)

text \<open>A chain obeys the time rule of header validation: each block is later than the median
  time past of its parent.\<close>

definition obeys_time_rule :: "u32 \<Rightarrow> u32 list \<Rightarrow> bool" where
  "obeys_time_rule c ts = list_all (\<lambda>i. case GetMedianTimePast (timed_chain c ts) i of
     Inl _ \<Rightarrow> False | Inr m \<Rightarrow> uint (ts ! (i + 1)) > m) [0..<length ts - 1]"

definition backdated_times :: "u32 list" where
  "backdated_times = map (\<lambda>i. 100000 + 60 * of_nat i) [0..<11] @
     [113080, 100720, 110440, 100840, 107800, 100960, 101020, 101080, 101140, 101200]"

definition slow_times :: "u32 list" where
  "slow_times = map (\<lambda>i. 100000 + 4060 * of_nat i) [0..<18]"

definition fast_times :: "u32 list" where
  "fast_times = map (\<lambda>i. 100000 + 300 * of_nat i) [0..<19]"

lemma target_num_compact:
  "target_num c = compact_value (unat c div 2 ^ 24) (unat c mod 2 ^ 23) mod 2 ^ 256"
  by (simp add: target_num_def SetCompact_value(2))

lemma words_val_ones: "words_val (replicate n (0xff :: u8)) + 1 = 256 ^ n"
proof (induction n)
  case (Suc n)
  have "words_val (replicate (Suc n) (0xff :: u8)) + 1 = 256 * (words_val (replicate n (0xff :: u8)) + 1)"
    by simp
  then show ?case using Suc.IH by simp
qed simp

lemma main_limit_num: "limit_num main_pow_params = 2 ^ 255 - 1"
proof -
  have "words_val (replicate 31 (0xff :: u8)) = 256 ^ 31 - 1" using words_val_ones [of 31] by linarith
  then show ?thesis
    by (simp add: limit_num_def main_pow_params_def main_consensus_def val_UintToArith256 words_val_append)
qed

lemma slow_next:
  "\<exists>c. GetNextWorkRequired (timed_chain 0x207fffff slow_times) (Some 17) main_pow_params 0 = Inr c \<and>
       target_num c * 300 < target_num 0x207fffff"
proof -
  let ?st = "timed_chain 0x207fffff slow_times"
  let ?b = "(sample_node (Some 16) None 17 169020)\<lparr>nBits := 0x207fffff\<rparr>"
  let ?a = "\<lparr> avgOf5 = 4060, avgOf7 = 4060, avgOf9 = 4060, avgOf17 = 4060 \<rparr>"
  have b: "?st 17 = Some ?b" by code_simp
  have a: "avgRecentTimestamps ?st (Some 17) main_pow_params 0 = Inr (?a, 110200)" by code_simp
  have d: "nIntervalDesired main_pow_params (GetBlockTime ?b) 110200 = Inr 540" by code_simp
  have f: "difficultyfactor ?a 540 = Inr 4992" by code_simp
  have old: "target_num 0x207fffff = 0x7fffff * 256 ^ 29"
    by (simp add: target_num_compact compact_value_def)
  obtain new c where c: "GetNextWorkRequired ?st (Some 17) main_pow_params 0 = Inr c" "compact_of new = Inr c"
    "bu_wf new" "words_val new = min (target_num 0x207fffff div 4992 * 10000 mod 2 ^ 256) (limit_num main_pow_params)"
    using GetNextWorkRequired_num [OF b a d f] by auto
  have "words_val new * 300 < target_num 0x207fffff" unfolding c(4) old main_limit_num by simp
  then show ?thesis using compact_of_rounds [OF c(3)] c(1,2) by auto
qed

lemma fast_next:
  "\<exists>c. GetNextWorkRequired (timed_chain 0x1d00ffff fast_times) (Some 18) main_pow_params 0 = Inr c \<and>
       c \<noteq> 0x1d00ffff"
proof -
  let ?st = "timed_chain 0x1d00ffff fast_times"
  let ?b = "(sample_node (Some 17) None 18 105400)\<lparr>nBits := 0x1d00ffff\<rparr>"
  let ?a = "\<lparr> avgOf5 = 300, avgOf7 = 300, avgOf9 = 300, avgOf17 = 300 \<rparr>"
  have b: "?st 18 = Some ?b" by code_simp
  have a: "avgRecentTimestamps ?st (Some 18) main_pow_params 0 = Inr (?a, 110500)" by code_simp
  have d: "nIntervalDesired main_pow_params (GetBlockTime ?b) 110500 = Inr 660" by code_simp
  have f: "difficultyfactor ?a 660 = Inr 10864" by code_simp
  have old: "target_num 0x1d00ffff = 0xffff * 256 ^ 26"
    by (simp add: target_num_compact compact_value_def)
  obtain new c where c: "GetNextWorkRequired ?st (Some 18) main_pow_params 0 = Inr c" "compact_of new = Inr c"
    "bu_wf new" "words_val new = min (target_num 0x1d00ffff div 10864 * 10000 mod 2 ^ 256) (limit_num main_pow_params)"
    using GetNextWorkRequired_num [OF b a d f] by auto
  have "words_val new < target_num 0x1d00ffff" unfolding c(4) old main_limit_num by simp
  then show ?thesis using compact_of_rounds [OF c(3)] c(1,2) by auto
qed

lemma mean_interval_nonneg:
  assumes "0 < h" and "back_time st p (min k (nat h)) \<le> back_time st p 0" and "0 < k"
  shows "0 \<le> mean_interval st p h k"
  using assms by (simp add: mean_interval_def sdiv_nonneg pos_imp_zdiv_nonneg_iff)

lemma recent_nonneg:
  assumes "index_wf st" and "st p = Some b" and "\<And>i. i \<le> 17 \<Longrightarrow> int i \<le> nHeight b \<Longrightarrow> back_time st p i \<le> back_time st p 0"
    and "2 \<le> nPowTargetSpacing params"
  shows "\<exists>a t. avgRecentTimestamps st (Some p) params g = Inr (a, t) \<and> all_nonneg a"
proof (cases "nHeight b = 0")
  case True
  then show ?thesis
    using assms(4) unfolding avgRecentTimestamps_value [OF assms(1,2)] by (simp add: Let_def all_nonneg_def)
next
  case False
  then have h: "0 < nHeight b" using index_wfD(1) [OF assms(1,2)] by simp
  have mean: "0 \<le> mean_interval st p (nHeight b) k" if "0 < k" "k \<le> 17" for k
    using mean_interval_nonneg [OF h _ that(1)] assms(3) [of "min k (nat (nHeight b))"] that(2) h by simp
  show ?thesis
    using False mean [of 5] mean [of 7] mean [of 9] mean [of 17]
    unfolding avgRecentTimestamps_value [OF assms(1,2)] by (simp add: Let_def all_nonneg_def)
qed

lemma factor_range:
  assumes "0 < d" and "all_nonneg a"
  shows "\<exists>f. difficultyfactor a d = Inr f \<and> 0 \<le> f \<and> f \<le> 13333"
  using factor_below [OF assms] factor_above [OF assms(1)] factor_mixed [OF assms(1)] by fastforce

text \<open>When the factor divides by zero: the regulating interval is the greatest average when blocks are fast.\<close>

lemma cdiv_DivByZero_iff: "cdiv x y = Inl DivByZero \<longleftrightarrow> y = 0"
  by (simp add: cdiv_def)

lemma factor_DivByZero_iff:
  assumes "0 < d"
  shows "difficultyfactor a d = Inl DivByZero \<longleftrightarrow>
    (let fast = (d * 2) sdiv 3; m = max (max (avgOf5 a) (avgOf7 a)) (avgOf9 a)
     in if m < fast \<and> avgOf17 a < d then m + 3 * fast = 0 else max m (avgOf17 a) < d \<and> max m (avgOf17 a) + 3 * d = 0)"
proof -
  let ?fast = "(d * 2) sdiv 3" and ?m = "max (max (avgOf5 a) (avgOf7 a)) (avgOf9 a)"
  have below: "all_below a d \<longleftrightarrow> max ?m (avgOf17 a) < d" by (auto simp: all_below_def)
  show ?thesis
  proof (cases "all_below a d")
    case False
    then have "difficultyfactor a d \<noteq> Inl DivByZero" using factor_above [OF assms] factor_mixed [OF assms] by fastforce
    moreover have "\<not> (?m < ?fast \<and> avgOf17 a < d)" using False below interval_thresholds(1) [OF assms] by auto
    ultimately show ?thesis using False below by (auto simp: Let_def)
  next
    case True
    have slow: "\<not> (avgOf5 a > (d * 3) sdiv 2 \<and> avgOf7 a > (d * 3) sdiv 2 \<and> avgOf9 a > (d * 3) sdiv 2 \<and> avgOf17 a > d)"
      using True by (simp add: all_below_def)
    show ?thesis
    proof (cases "?m < ?fast \<and> avgOf17 a < d")
      case fast: True
      then have "difficultyfactor a d = cdiv (10000 * (4 * ?fast)) (?m + 3 * ?fast)"
        by (auto simp: difficultyfactor_def Let_def max_def)
      then show ?thesis using fast by (simp add: cdiv_DivByZero_iff Let_def)
    next
      case False
      then have f: "\<not> (avgOf5 a < ?fast \<and> avgOf7 a < ?fast \<and> avgOf9 a < ?fast \<and> avgOf17 a < d)" by auto
      have "difficultyfactor a d = cdiv (10000 * (4 * d)) (max ?m (avgOf17 a) + 3 * d)"
        unfolding difficultyfactor_def Let_def if_not_P [OF f] if_not_P [OF slow] if_P [OF True [unfolded all_below_def]]
        by (auto simp: max_def)
      then show ?thesis unfolding Let_def if_not_P [OF False] using True below by (simp add: cdiv_DivByZero_iff)
    qed
  qed
qed

lemma GetNextWorkRequired_DivByZero:
  assumes "st p = Some b" and "avgRecentTimestamps st (Some p) params g = Inr (a, t)"
    and "nIntervalDesired params (GetBlockTime b) t = Inr d"
  shows "GetNextWorkRequired st (Some p) params g = Inl DivByZero \<longleftrightarrow> difficultyfactor a d = Inl DivByZero"
proof -
  have "compact_of x \<noteq> Inl DivByZero" for x by (simp add: compact_of_def split: option.split)
  then show ?thesis using assms by (cases "difficultyfactor a d") (simp_all add: GetNextWorkRequired_def deref_def split: sum.split)
qed

section \<open>Properties\<close>

text \<open>
  \<open>avgRecentTimestamps\<close> telescopes: each average is the time between the block and its
  5th, 7th, 9th or 17th ancestor (or the genesis block, when the chain is shorter) divided
  by the number of blocks between, and the scheduled time counts one target spacing per
  block from the last ancestor visited.
\<close>

theorem avgRecentTimestamps_means:
  assumes "index_wf st" and "st p = Some b"
  shows "avgRecentTimestamps st (Some p) params genesis_time =
    (let h = nHeight b; n = min 17 (nat h); s = nPowTargetSpacing params
     in Inr (if h = 0 then \<lparr> avgOf5 = s, avgOf7 = s, avgOf9 = s, avgOf17 = s \<rparr>
             else \<lparr> avgOf5 = mean_interval st p h 5, avgOf7 = mean_interval st p h 7,
                    avgOf9 = mean_interval st p h 9, avgOf17 = mean_interval st p h 17 \<rparr>,
             if back_time st p n = 0 then genesis_time else back_time st p n + int n * s))"
  by (rule avgRecentTimestamps_value [OF assms])

theorem avgRecentTimestamps_means_witness:
  "\<exists>t. avgRecentTimestamps (timed_chain 0x1d00ffff [100, 700, 1000]) (Some 2) main_pow_params 0 =
     Inr (\<lparr> avgOf5 = 450, avgOf7 = 450, avgOf9 = 450, avgOf17 = 450 \<rparr>, t)"
proof -
  have b: "timed_chain 0x1d00ffff [100, 700, 1000] 2 = Some (sample_node (Some 1) None 2 1000)" by code_simp
  have "mean_interval (timed_chain 0x1d00ffff [100, 700, 1000]) 2 2 k = 450" if "k \<in> {5, 7, 9, 17}" for k
  proof -
    have "min k (nat 2) = 2" "min 2 (int k) = 2" using that by auto
    moreover have "back_time (timed_chain 0x1d00ffff [100, 700, 1000]) 2 0 = 1000"
      "back_time (timed_chain 0x1d00ffff [100, 700, 1000]) 2 2 = 100" by code_simp+
    moreover have "(900 :: int) sdiv 2 = 450" by code_simp
    ultimately show ?thesis by (simp add: mean_interval_def)
  qed
  then show ?thesis
    using avgRecentTimestamps_means [OF timed_chain_wf b] by (simp add: Let_def)
qed

text \<open>
  With intervals that are not negative the MIDAS factor is defined and bounded: when all
  four averages are below the desired interval difficulty grows, by at most a third per
  block; when all four are above it difficulty shrinks; otherwise it is left alone.
\<close>

theorem difficultyfactor_regulates:
  assumes "0 < d" and "all_nonneg a"
  shows "\<exists>f. difficultyfactor a d = Inr f \<and>
    (if all_below a d then 10000 \<le> f \<and> f \<le> 13333
     else if all_above a d then 0 \<le> f \<and> f < 10000 else f = 10000)"
  using factor_below [OF assms] factor_above [OF assms(1)] factor_mixed [OF assms(1)] by auto

theorem difficultyfactor_regulates_witness:
  "all_nonneg \<lparr> avgOf5 = 0, avgOf7 = 0, avgOf9 = 0, avgOf17 = 0 \<rparr> \<and>
   (\<exists>f. difficultyfactor \<lparr> avgOf5 = 0, avgOf7 = 0, avgOf9 = 0, avgOf17 = 0 \<rparr> 600 = Inr f \<and> 10000 \<le> f \<and> f \<le> 13333)"
  using difficultyfactor_regulates [of 600 "\<lparr> avgOf5 = 0, avgOf7 = 0, avgOf9 = 0, avgOf17 = 0 \<rparr>"]
  by (simp add: average_defs)

text \<open>
  On a chain whose recent blocks are not later than its tip, \<open>GetNextWorkRequired\<close> always
  returns, and returns a well-formed compact target (neither negative nor overflowing) that
  is not easier than the proof-of-work limit.
\<close>

theorem GetNextWorkRequired_returns:
  assumes "index_wf st" and "st p = Some b" and "\<And>i. i \<le> 17 \<Longrightarrow> int i \<le> nHeight b \<Longrightarrow> back_time st p i \<le> back_time st p 0"
    and "2 \<le> nPowTargetSpacing params" and "nPowTargetSpacing params \<le> nPowTargetTimespan params"
  shows "\<exists>c. GetNextWorkRequired st (Some p) params g = Inr c \<and> \<not> fNegative (SetCompact c) \<and>
    \<not> fOverflow (SetCompact c) \<and> target_num c \<le> limit_num params"
proof -
  obtain a t where a: "avgRecentTimestamps st (Some p) params g = Inr (a, t)" "all_nonneg a"
    using recent_nonneg [OF assms(1-4)] by blast
  obtain d where d: "nIntervalDesired params (GetBlockTime b) t = Inr d" "0 < d"
    using nIntervalDesired_pos [OF assms(4,5)] by blast
  obtain f where f: "difficultyfactor a d = Inr f" "0 \<le> f" "f \<le> 13333"
    using factor_range [OF d(2) a(2)] by blast
  show ?thesis
  proof (cases "f = 0")
    case True
    have "scale_target (nBits b) 0 = Inl DivisionByZero"
      using bu.quot_zero [of "target (SetCompact (nBits b))" "bu_of_u64 0"] SetCompact_value(1)
      by (auto simp: scale_target_def val_bu_of_u64) (metis uint_error.exhaust)
    then have "GetNextWorkRequired st (Some p) params g = compact_of (UintToArith256 (powLimit params))"
      using a d f True assms(2) by (simp add: GetNextWorkRequired_def deref_def)
    then show ?thesis
      using compact_of_rounds [OF UintToArith256_wf, of "powLimit params"] by (auto simp: limit_num_def)
  next
    case False
    then obtain new c where c: "GetNextWorkRequired st (Some p) params g = Inr c" "compact_of new = Inr c"
      "bu_wf new" "words_val new \<le> limit_num params"
      using GetNextWorkRequired_num [OF assms(2) a(1) d(1) f(1)] f(2,3) by auto
    then show ?thesis using compact_of_rounds [OF c(3)] by auto
  qed
qed

theorem GetNextWorkRequired_returns_witness:
  "\<exists>c. GetNextWorkRequired (timed_chain 0x1d00ffff [100, 700]) (Some 1) main_pow_params 0 = Inr c"
proof -
  let ?st = "timed_chain 0x1d00ffff [100, 700]"
  have b: "?st 1 = Some (sample_node (Some 0) None 1 700)" by code_simp
  have t: "back_time ?st 1 0 = 700" "back_time ?st 1 1 = 100" by code_simp+
  have "back_time ?st 1 i \<le> back_time ?st 1 0" if "int i \<le> 1" for i
    using that t by (cases i) auto
  then show ?thesis
    using GetNextWorkRequired_returns [OF timed_chain_wf b, of main_pow_params 0]
    by (auto simp: main_pow_params_def main_consensus_def)
qed

text \<open>
  C15: if the desired interval is positive and the four averages of the recent intervals are not negative and
  all below it, \<open>GetNextWorkRequired\<close> returns a target that is not easier than the last one: scaling by the
  factor and rounding to the compact form never raise it. With negative averages this can fail: the
  factor then has no lower bound and its division may not even be defined, as the next property says.
\<close>

theorem GetNextWorkRequired_hardens:
  assumes "st p = Some b" and "avgRecentTimestamps st (Some p) params g = Inr (a, t)"
    and "nIntervalDesired params (GetBlockTime b) t = Inr d" and "0 < d" and "all_nonneg a" and "all_below a d"
  shows "\<exists>c. GetNextWorkRequired st (Some p) params g = Inr c \<and> target_num c \<le> target_num (nBits b)"
proof -
  obtain f where f: "difficultyfactor a d = Inr f" "10000 \<le> f" "f \<le> 13333"
    using factor_below [OF assms(4-6)] by blast
  obtain new c where c: "GetNextWorkRequired st (Some p) params g = Inr c" "compact_of new = Inr c" "bu_wf new"
    "words_val new \<le> (if f = 10000 then target_num (nBits b) else target_num (nBits b) div nat f * 10000 mod 2 ^ 256)"
    using GetNextWorkRequired_num [OF assms(1-3) f(1)] f(2,3) by auto
  have "words_val new \<le> target_num (nBits b)"
    using c(4) scaled_le [OF f(2), of "target_num (nBits b)"]
      mod_less_eq_dividend [of "target_num (nBits b) div nat f * 10000" "2 ^ 256"]
    by (cases "f = 10000") auto
  then show ?thesis using compact_of_rounds [OF c(3)] c(1,2) by auto
qed

theorem GetNextWorkRequired_hardens_witness:
  "\<exists>c. GetNextWorkRequired (timed_chain 0x1d00ffff fast_times) (Some 18) main_pow_params 0 = Inr c \<and>
     target_num c \<le> target_num 0x1d00ffff"
proof -
  let ?b = "(sample_node (Some 17) None 18 105400)\<lparr>nBits := 0x1d00ffff\<rparr>"
  let ?a = "\<lparr> avgOf5 = 300, avgOf7 = 300, avgOf9 = 300, avgOf17 = 300 \<rparr>"
  have "timed_chain 0x1d00ffff fast_times 18 = Some ?b" by code_simp
  moreover have "avgRecentTimestamps (timed_chain 0x1d00ffff fast_times) (Some 18) main_pow_params 0 = Inr (?a, 110500)"
    by code_simp
  moreover have "nIntervalDesired main_pow_params (GetBlockTime ?b) 110500 = Inr 660" by code_simp
  ultimately show ?thesis
    using GetNextWorkRequired_hardens [of "timed_chain 0x1d00ffff fast_times" 18 ?b main_pow_params 0 ?a 110500 660]
    by (simp add: average_defs)
qed

text \<open>
  C16: when retargeting divides by zero. Given the averages of the recent intervals and a positive desired
  interval, \<open>GetNextWorkRequired\<close> divides by zero in exactly two cases. Either the averages over 5, 7 and 9
  blocks are below two thirds of the desired interval, the one over 17 is below the desired interval, and the greatest of
  the first three is minus three times these two thirds; or this emergency does not apply, all four
  are below the desired interval and the greatest of them is minus three times the desired interval. So it never
  does while the averages are not negative and never when blocks are slow. It does on a chain under
  the parameters of the main network in which every block is later than the median time past of its parent.
\<close>

theorem GetNextWorkRequired_divides_by_zero_iff:
  assumes "st p = Some b" and "avgRecentTimestamps st (Some p) params g = Inr (a, t)"
    and "nIntervalDesired params (GetBlockTime b) t = Inr d" and "0 < d"
  shows "GetNextWorkRequired st (Some p) params g = Inl DivByZero \<longleftrightarrow>
    (let fast = (d * 2) sdiv 3; m = max (max (avgOf5 a) (avgOf7 a)) (avgOf9 a)
     in if m < fast \<and> avgOf17 a < d then m + 3 * fast = 0 else max m (avgOf17 a) < d \<and> max m (avgOf17 a) + 3 * d = 0)"
  using factor_DivByZero_iff [OF assms(4)] GetNextWorkRequired_DivByZero [OF assms(1-3)] by simp

theorem GetNextWorkRequired_divides_by_zero_iff_witness:
  "obeys_time_rule 0x1d00ffff backdated_times \<and>
   GetNextWorkRequired (timed_chain 0x1d00ffff backdated_times) (Some 20) main_pow_params 0 = Inl DivByZero"
proof -
  let ?st = "timed_chain 0x1d00ffff backdated_times"
  let ?b = "(sample_node (Some 19) None 20 101200)\<lparr>nBits := 0x1d00ffff\<rparr>"
  let ?a = "\<lparr> avgOf5 = - 1320, avgOf7 = - 1320, avgOf9 = - 1320, avgOf17 = 60 \<rparr>"
  have b: "?st 20 = Some ?b" by code_simp
  have a: "avgRecentTimestamps ?st (Some 20) main_pow_params 0 = Inr (?a, 110380)" by code_simp
  have d: "nIntervalDesired main_pow_params (GetBlockTime ?b) 110380 = Inr 660" by code_simp
  have "(1320 :: int) sdiv 3 = 440" by code_simp
  then have "GetNextWorkRequired ?st (Some 20) main_pow_params 0 = Inl DivByZero"
    using GetNextWorkRequired_divides_by_zero_iff [OF b a d] by (simp add: Let_def)
  moreover have "obeys_time_rule 0x1d00ffff backdated_times" by code_simp
  ultimately show ?thesis by simp
qed

text \<open>
  C17: the product \<open>bnNew *= 10000\<close> can wrap: at the limit of the main network, blocks that are
  almost seven times too slow make the next target more than 300 times harder instead of
  leaving it at the limit.
\<close>

theorem GetNextWorkRequired_can_wrap:
  "obeys_time_rule 0x207fffff slow_times \<and>
   (\<exists>c. GetNextWorkRequired (timed_chain 0x207fffff slow_times) (Some 17) main_pow_params 0 = Inr c \<and>
        target_num c * 300 < target_num 0x207fffff)"
proof -
  have "obeys_time_rule 0x207fffff slow_times" by code_simp
  then show ?thesis using slow_next by simp
qed

text \<open>
  C18: \<open>PermittedDifficultyTransition\<close> still allows a change of \<open>nBits\<close> only at multiples of the
  adjustment interval, so it refuses a change that \<open>GetNextWorkRequired\<close> demands.
\<close>

theorem PermittedDifficultyTransition_refuses_MIDAS:
  "\<exists>c. GetNextWorkRequired (timed_chain 0x1d00ffff fast_times) (Some 18) main_pow_params 0 = Inr c \<and>
     PermittedDifficultyTransition main_pow_params 19 0x1d00ffff c = Inr False"
proof -
  obtain c where c: "GetNextWorkRequired (timed_chain 0x1d00ffff fast_times) (Some 18) main_pow_params 0 = Inr c"
    "c \<noteq> 0x1d00ffff" using fast_next by blast
  have "DifficultyAdjustmentInterval main_pow_params = Inr 6" by code_simp
  moreover have "\<not> fPowAllowMinDifficultyBlocks main_pow_params" by code_simp
  moreover have "(19 :: int) smod 6 \<noteq> 0" by code_simp
  ultimately have "PermittedDifficultyTransition main_pow_params 19 0x1d00ffff c = Inr (0x1d00ffff = c)"
    by (simp add: PermittedDifficultyTransition_def)
  then show ?thesis using c by auto
qed

text \<open>
  \<open>CheckProofOfWork\<close> accepts exactly the hashes that, read as little-endian numbers, are at
  most the encoded target, when that target is a positive number of at most 256 bits not
  above the limit.
\<close>

theorem CheckProofOfWork_correct:
  assumes "length hash = 32"
  shows "CheckProofOfWork hash c params \<longleftrightarrow>
    \<not> fNegative (SetCompact c) \<and> \<not> fOverflow (SetCompact c) \<and> 0 < target_num c \<and>
    target_num c \<le> limit_num params \<and> words_val hash \<le> target_num c"
  using SetCompact_value(1) [of c] assms
  by (auto simp: CheckProofOfWork_def Let_def EqualTo_val CompareTo_val val_UintToArith256 target_num_def limit_num_def
      split: if_splits)

theorem CheckProofOfWork_correct_witness:
  "CheckProofOfWork (replicate 32 0) 0x1d00ffff main_pow_params"
proof -
  have "fNegative (SetCompact 0x1d00ffff) = False" "fOverflow (SetCompact 0x1d00ffff) = False" by code_simp+
  then show ?thesis
    using CheckProofOfWork_correct [of "replicate 32 0" "0x1d00ffff" main_pow_params]
    by (simp add: main_limit_num target_num_compact compact_value_def words_val_replicate_0)
qed

end
