(* ===== verification/VersionBits.thy ===== *)
theory VersionBits
  imports BlockChain ConsensusParams
begin

text \<open>
  BIP9 deployments, \<open>src/src/versionbits.h\<close>, \<open>src/src/versionbits.cpp\<close> and
  \<open>src/src/deploymentstatus.h\<close>. The virtual methods of \<open>AbstractThresholdConditionChecker\<close> are
  the fields of a record; the cache maps block pointers (null included) to states and is
  threaded through. \<open>bip9\<close> is the state machine the cached computation has to agree with.
\<close>

section \<open>Definitions\<close>

definition VERSIONBITS_TOP_BITS :: u32 where "VERSIONBITS_TOP_BITS = 0x20000000"
definition VERSIONBITS_TOP_MASK :: u32 where "VERSIONBITS_TOP_MASK = 0xE0000000"

datatype ThresholdState = DEFINED | STARTED | LOCKED_IN | ACTIVE | FAILED

type_synonym ThresholdConditionCache = "bid option \<rightharpoonup> ThresholdState"

record BIP9Stats =
  stat_period :: int
  stat_threshold :: int
  stat_elapsed :: int
  stat_count :: int
  stat_possible :: bool

record AbstractThresholdConditionChecker =
  Condition :: "CBlockIndex \<Rightarrow> bool"
  BeginTime :: int
  EndTime :: int
  MinActivationHeight :: int
  Period :: int
  Threshold :: int

text \<open>\<open>pindexPrev->GetAncestor(pindexPrev->nHeight - ((pindexPrev->nHeight + 1) % nPeriod))\<close>\<close>

definition period_parent :: "block_store \<Rightarrow> int \<Rightarrow> bid \<Rightarrow> fault + bid option" where
  "period_parent st nPeriod p = sum_bind (deref st p) (\<lambda>b.
     sum_bind (cmod (nHeight b + 1) nPeriod) (\<lambda>r. GetAncestor st p (nHeight b - r)))"

definition previous_period :: "block_store \<Rightarrow> int \<Rightarrow> bid \<Rightarrow> fault + bid option" where
  "previous_period st nPeriod p = sum_bind (deref st p) (\<lambda>b. GetAncestor st p (nHeight b - nPeriod))"

text \<open>The first loop of \<open>GetStateFor\<close>; the stack \<open>vToCompute\<close> has its back first.\<close>

fun collect_loop :: "nat \<Rightarrow> block_store \<Rightarrow> AbstractThresholdConditionChecker \<Rightarrow> ThresholdConditionCache \<Rightarrow>
    bid option \<Rightarrow> bid list \<Rightarrow> fault + (ThresholdConditionCache \<times> bid option \<times> bid list)" where
  "collect_loop fuel st chk cache pindexPrev vToCompute =
     (if cache pindexPrev \<noteq> None then Inr (cache, pindexPrev, vToCompute)
      else case pindexPrev of
        None \<Rightarrow> Inr (cache(pindexPrev \<mapsto> DEFINED), pindexPrev, vToCompute)
      | Some p \<Rightarrow> sum_bind (GetMedianTimePast st p) (\<lambda>mtp.
          if mtp < BeginTime chk then Inr (cache(pindexPrev \<mapsto> DEFINED), pindexPrev, vToCompute)
          else sum_bind (previous_period st (Period chk) p) (\<lambda>q.
            case fuel of
              0 \<Rightarrow> Inl OutOfFuel
            | Suc fuel \<Rightarrow> collect_loop fuel st chk cache q (p # vToCompute))))"

declare collect_loop.simps [simp del]

fun count_loop :: "nat \<Rightarrow> block_store \<Rightarrow> (CBlockIndex \<Rightarrow> bool) \<Rightarrow> bid option \<Rightarrow> int \<Rightarrow> fault + int" where
  "count_loop 0 st cond pindexCount count = Inr count"
| "count_loop (Suc n) st cond None count = Inl BadPointer"
| "count_loop (Suc n) st cond (Some p) count = sum_bind (deref st p) (\<lambda>b.
     count_loop n st cond (pprev b) (if cond b then count + 1 else count))"

definition next_state ::
    "block_store \<Rightarrow> AbstractThresholdConditionChecker \<Rightarrow> bid \<Rightarrow> ThresholdState \<Rightarrow> fault + ThresholdState" where
  "next_state st chk p state =
     (case state of
        DEFINED \<Rightarrow> sum_bind (GetMedianTimePast st p) (\<lambda>mtp.
          Inr (if mtp \<ge> BeginTime chk then STARTED else state))
      | STARTED \<Rightarrow> sum_bind (count_loop (nat (Period chk)) st (Condition chk) (Some p) 0) (\<lambda>count.
          if count \<ge> Threshold chk \<and> count > 0 then Inr LOCKED_IN
          else sum_bind (GetMedianTimePast st p) (\<lambda>mtp.
            Inr (if mtp \<ge> EndTime chk then FAILED else state)))
      | LOCKED_IN \<Rightarrow> sum_bind (deref st p) (\<lambda>b.
          Inr (if nHeight b + 1 \<ge> MinActivationHeight chk then ACTIVE else state))
      | FAILED \<Rightarrow> Inr state
      | ACTIVE \<Rightarrow> Inr state)"

fun compute_loop :: "block_store \<Rightarrow> AbstractThresholdConditionChecker \<Rightarrow> ThresholdConditionCache \<Rightarrow>
    ThresholdState \<Rightarrow> bid list \<Rightarrow> fault + (ThresholdState \<times> ThresholdConditionCache)" where
  "compute_loop st chk cache state [] = Inr (state, cache)"
| "compute_loop st chk cache state (p # vToCompute) =
     sum_bind (next_state st chk p state) (\<lambda>stateNext.
       compute_loop st chk (cache(Some p \<mapsto> stateNext)) stateNext vToCompute)"

definition walk_fuel :: "block_store \<Rightarrow> bid option \<Rightarrow> nat" where
  "walk_fuel st p = (case Option.bind p st of None \<Rightarrow> 1 | Some b \<Rightarrow> nat (nHeight b) + 2)"

definition GetStateFor :: "block_store \<Rightarrow> AbstractThresholdConditionChecker \<Rightarrow> bid option \<Rightarrow>
    ThresholdConditionCache \<Rightarrow> fault + (ThresholdState \<times> ThresholdConditionCache)" where
  "GetStateFor st chk pindexPrev cache =
     (if BeginTime chk = ALWAYS_ACTIVE then Inr (ACTIVE, cache)
      else if BeginTime chk = NEVER_ACTIVE then Inr (FAILED, cache)
      else sum_bind (case pindexPrev of None \<Rightarrow> Inr None | Some p \<Rightarrow> period_parent st (Period chk) p) (\<lambda>start.
        sum_bind (collect_loop (walk_fuel st start) st chk cache start []) (\<lambda>(cache, p, vToCompute).
          case cache p of
            None \<Rightarrow> Inl AssertFailed
          | Some state \<Rightarrow> compute_loop st chk cache state vToCompute)))"

text \<open>The loop of \<open>GetStateStatisticsFor\<close>, entered with \<open>blocks_in_period > 0\<close> blocks to go.\<close>

fun stats_loop :: "nat \<Rightarrow> block_store \<Rightarrow> (CBlockIndex \<Rightarrow> bool) \<Rightarrow> bid option \<Rightarrow> int \<Rightarrow> int \<Rightarrow> bool list option \<Rightarrow>
    fault + (int \<times> int \<times> bool list option)" where
  "stats_loop 0 st cond currentIndex elapsed count sig = Inr (elapsed, count, sig)"
| "stats_loop (Suc blocks_in_period) st cond None elapsed count sig = Inl BadPointer"
| "stats_loop (Suc blocks_in_period) st cond (Some p) elapsed count sig = sum_bind (deref st p) (\<lambda>b.
     stats_loop blocks_in_period st cond (pprev b) (elapsed + 1) (if cond b then count + 1 else count)
       (if cond b then map_option (\<lambda>s. s[blocks_in_period := True]) sig else sig))"

definition GetStateStatisticsFor :: "block_store \<Rightarrow> AbstractThresholdConditionChecker \<Rightarrow> bid option \<Rightarrow> bool \<Rightarrow>
    fault + (BIP9Stats \<times> bool list option)" where
  "GetStateStatisticsFor st chk pindex want_blocks =
     (case pindex of
        None \<Rightarrow> Inr (\<lparr> stat_period = Period chk, stat_threshold = Threshold chk, stat_elapsed = 0,
                  stat_count = 0, stat_possible = False \<rparr>, None)
      | Some p \<Rightarrow> sum_bind (deref st p) (\<lambda>b. sum_bind (cmod (nHeight b) (Period chk)) (\<lambda>r.
          let blocks_in_period = nat (1 + r);
              sig = (if want_blocks then Some (replicate blocks_in_period False) else None)
          in sum_bind (stats_loop blocks_in_period st (Condition chk) pindex 0 0 sig) (\<lambda>(elapsed, count, sig).
               Inr (\<lparr> stat_period = Period chk, stat_threshold = Threshold chk, stat_elapsed = elapsed,
                      stat_count = count,
                      stat_possible = (Period chk - Threshold chk \<ge> elapsed - count) \<rparr>, sig)))))"

fun since_loop :: "nat \<Rightarrow> block_store \<Rightarrow> AbstractThresholdConditionChecker \<Rightarrow> ThresholdState \<Rightarrow> bid \<Rightarrow>
    ThresholdConditionCache \<Rightarrow> fault + (int \<times> ThresholdConditionCache)" where
  "since_loop fuel st chk initialState pindexPrev cache =
     sum_bind (deref st pindexPrev) (\<lambda>b. sum_bind (previous_period st (Period chk) pindexPrev) (\<lambda>q.
       case q of
         None \<Rightarrow> Inr (nHeight b + 1, cache)
       | Some q' \<Rightarrow> sum_bind (GetStateFor st chk (Some q') cache) (\<lambda>(s, cache).
           if s = initialState then
             (case fuel of 0 \<Rightarrow> Inl OutOfFuel | Suc fuel \<Rightarrow> since_loop fuel st chk initialState q' cache)
           else Inr (nHeight b + 1, cache))))"

declare since_loop.simps [simp del]

definition GetStateSinceHeightFor :: "block_store \<Rightarrow> AbstractThresholdConditionChecker \<Rightarrow> bid option \<Rightarrow>
    ThresholdConditionCache \<Rightarrow> fault + (int \<times> ThresholdConditionCache)" where
  "GetStateSinceHeightFor st chk pindexPrev cache =
     (if BeginTime chk = ALWAYS_ACTIVE \<or> BeginTime chk = NEVER_ACTIVE then Inr (0, cache)
      else sum_bind (GetStateFor st chk pindexPrev cache) (\<lambda>(initialState, cache).
        if initialState = DEFINED then Inr (0, cache)
        else case pindexPrev of
          None \<Rightarrow> Inl BadPointer
        | Some p \<Rightarrow> sum_bind (period_parent st (Period chk) p) (\<lambda>q.
            case q of None \<Rightarrow> Inl AssertFailed
            | Some q' \<Rightarrow> since_loop (walk_fuel st q) st chk initialState q' cache)))"

subsection \<open>Deployments of the parameters\<close>

definition deployment :: "Params \<Rightarrow> nat \<Rightarrow> fault + BIP9Deployment" where
  "deployment params pos = (if pos < length (vDeployments params) then Inr (vDeployments params ! pos) else Inl OutOfRange)"

definition deployment_mask :: "BIP9Deployment \<Rightarrow> u32" where
  "deployment_mask d = push_bit (nat (dep_bit d)) 1"

definition version_condition :: "BIP9Deployment \<Rightarrow> CBlockIndex \<Rightarrow> bool" where
  "version_condition d b \<longleftrightarrow>
     nVersion b AND VERSIONBITS_TOP_MASK = VERSIONBITS_TOP_BITS \<and> nVersion b AND deployment_mask d \<noteq> 0"

definition VersionBitsConditionChecker :: "Params \<Rightarrow> BIP9Deployment \<Rightarrow> AbstractThresholdConditionChecker" where
  "VersionBitsConditionChecker params d = \<lparr> Condition = version_condition d, BeginTime = nStartTime d,
     EndTime = nTimeout d, MinActivationHeight = min_activation_height d,
     Period = sint (nMinerConfirmationWindow params), Threshold = sint (nRuleChangeActivationThreshold params) \<rparr>"

type_synonym VersionBitsCache = "ThresholdConditionCache list"

definition State :: "block_store \<Rightarrow> VersionBitsCache \<Rightarrow> bid option \<Rightarrow> Params \<Rightarrow> nat \<Rightarrow>
    fault + (ThresholdState \<times> VersionBitsCache)" where
  "State st m_caches pindexPrev params pos = sum_bind (deployment params pos) (\<lambda>d.
     if pos \<ge> length m_caches then Inl OutOfRange
     else sum_bind (GetStateFor st (VersionBitsConditionChecker params d) pindexPrev (m_caches ! pos)) (\<lambda>(s, c).
       Inr (s, m_caches[pos := c])))"

definition Statistics :: "block_store \<Rightarrow> bid option \<Rightarrow> Params \<Rightarrow> nat \<Rightarrow> bool \<Rightarrow>
    fault + (BIP9Stats \<times> bool list option)" where
  "Statistics st pindex params pos want_blocks = sum_bind (deployment params pos) (\<lambda>d.
     GetStateStatisticsFor st (VersionBitsConditionChecker params d) pindex want_blocks)"

definition StateSinceHeight :: "block_store \<Rightarrow> VersionBitsCache \<Rightarrow> bid option \<Rightarrow> Params \<Rightarrow> nat \<Rightarrow>
    fault + (int \<times> VersionBitsCache)" where
  "StateSinceHeight st m_caches pindexPrev params pos = sum_bind (deployment params pos) (\<lambda>d.
     if pos \<ge> length m_caches then Inl OutOfRange
     else sum_bind (GetStateSinceHeightFor st (VersionBitsConditionChecker params d) pindexPrev (m_caches ! pos))
       (\<lambda>(h, c). Inr (h, m_caches[pos := c])))"

fun version_loop :: "nat list \<Rightarrow> block_store \<Rightarrow> VersionBitsCache \<Rightarrow> bid option \<Rightarrow> Params \<Rightarrow> u32 \<Rightarrow>
    fault + (u32 \<times> VersionBitsCache)" where
  "version_loop [] st m_caches pindexPrev params nVersion' = Inr (nVersion', m_caches)"
| "version_loop (pos # ps) st m_caches pindexPrev params nVersion' =
     sum_bind (State st m_caches pindexPrev params pos) (\<lambda>(state, m_caches).
     sum_bind (deployment params pos) (\<lambda>d.
       version_loop ps st m_caches pindexPrev params
         (if state = LOCKED_IN \<or> state = STARTED then nVersion' OR deployment_mask d else nVersion')))"

definition MAX_VERSION_BITS_DEPLOYMENTS :: nat where "MAX_VERSION_BITS_DEPLOYMENTS = 2"

definition ComputeBlockVersion :: "block_store \<Rightarrow> VersionBitsCache \<Rightarrow> bid option \<Rightarrow> Params \<Rightarrow>
    fault + (u32 \<times> VersionBitsCache)" where
  "ComputeBlockVersion st m_caches pindexPrev params =
     version_loop [0..<MAX_VERSION_BITS_DEPLOYMENTS] st m_caches pindexPrev params VERSIONBITS_TOP_BITS"

definition VersionBitsCache_Clear :: "VersionBitsCache \<Rightarrow> VersionBitsCache" where
  "VersionBitsCache_Clear m_caches = map (\<lambda>_. Map.empty) m_caches"

subsection \<open>Deployment status\<close>

definition BuriedActiveAfter :: "block_store \<Rightarrow> bid option \<Rightarrow> Params \<Rightarrow> BuriedDeployment \<Rightarrow> fault + bool" where
  "BuriedActiveAfter st pindexPrev params dep =
     (case pindexPrev of
        None \<Rightarrow> Inr (0 \<ge> DeploymentHeight params dep)
      | Some p \<Rightarrow> sum_bind (deref st p) (\<lambda>b. Inr (nHeight b + 1 \<ge> DeploymentHeight params dep)))"

definition DeploymentActiveAfter :: "block_store \<Rightarrow> VersionBitsCache \<Rightarrow> bid option \<Rightarrow> Params \<Rightarrow> nat \<Rightarrow>
    fault + (bool \<times> VersionBitsCache)" where
  "DeploymentActiveAfter st m_caches pindexPrev params dep =
     (if \<not> dep < MAX_VERSION_BITS_DEPLOYMENTS then Inl AssertFailed
      else sum_bind (State st m_caches pindexPrev params dep) (\<lambda>(s, c). Inr (s = ACTIVE, c)))"

definition BuriedActiveAt :: "CBlockIndex \<Rightarrow> Params \<Rightarrow> BuriedDeployment \<Rightarrow> bool" where
  "BuriedActiveAt index params dep \<longleftrightarrow> nHeight index \<ge> DeploymentHeight params dep"

definition DeploymentActiveAt :: "block_store \<Rightarrow> VersionBitsCache \<Rightarrow> CBlockIndex \<Rightarrow> Params \<Rightarrow> nat \<Rightarrow>
    fault + (bool \<times> VersionBitsCache)" where
  "DeploymentActiveAt st m_caches index params dep =
     (if \<not> dep < MAX_VERSION_BITS_DEPLOYMENTS then Inl AssertFailed
      else DeploymentActiveAfter st m_caches (pprev index) params dep)"

definition BuriedEnabled :: "Params \<Rightarrow> BuriedDeployment \<Rightarrow> bool" where
  "BuriedEnabled params dep \<longleftrightarrow> DeploymentHeight params dep \<noteq> 2 ^ 31 - 1"

definition DeploymentEnabled :: "Params \<Rightarrow> nat \<Rightarrow> fault + bool" where
  "DeploymentEnabled params dep =
     (if \<not> dep < MAX_VERSION_BITS_DEPLOYMENTS then Inl AssertFailed
      else sum_bind (deployment params dep) (\<lambda>d. Inr (nStartTime d \<noteq> NEVER_ACTIVE)))"

section \<open>The state machine\<close>

definition signal_count :: "block_store \<Rightarrow> AbstractThresholdConditionChecker \<Rightarrow> bid \<Rightarrow> nat" where
  "signal_count st chk p =
     card {i. i < nat (Period chk) \<and> (\<exists>q b. nth_prev st i p = Some q \<and> st q = Some b \<and> Condition chk b)}"

definition enough_signals :: "block_store \<Rightarrow> AbstractThresholdConditionChecker \<Rightarrow> bid \<Rightarrow> bool" where
  "enough_signals st chk p \<longleftrightarrow> int (signal_count st chk p) \<ge> Threshold chk \<and> signal_count st chk p > 0"

text \<open>
  The transition at the last block \<open>p\<close> of a period, at height \<open>h\<close> and with median time past
  \<open>m\<close>, and the state reached after a chain of periods.
\<close>

inductive bip9_trans :: "block_store \<Rightarrow> AbstractThresholdConditionChecker \<Rightarrow> bid \<Rightarrow> int \<Rightarrow> int \<Rightarrow>
    ThresholdState \<Rightarrow> ThresholdState \<Rightarrow> bool" for st chk p h m where
  start: "bip9_trans st chk p h m DEFINED STARTED"
| lock_in: "enough_signals st chk p \<Longrightarrow> bip9_trans st chk p h m STARTED LOCKED_IN"
| fail: "\<not> enough_signals st chk p \<Longrightarrow> m \<ge> EndTime chk \<Longrightarrow> bip9_trans st chk p h m STARTED FAILED"
| wait: "\<not> enough_signals st chk p \<Longrightarrow> m < EndTime chk \<Longrightarrow> bip9_trans st chk p h m STARTED STARTED"
| activate: "h + 1 \<ge> MinActivationHeight chk \<Longrightarrow> bip9_trans st chk p h m LOCKED_IN ACTIVE"
| delay: "h + 1 < MinActivationHeight chk \<Longrightarrow> bip9_trans st chk p h m LOCKED_IN LOCKED_IN"
| active: "bip9_trans st chk p h m ACTIVE ACTIVE"
| failed: "bip9_trans st chk p h m FAILED FAILED"

inductive bip9 :: "block_store \<Rightarrow> AbstractThresholdConditionChecker \<Rightarrow> bid option \<Rightarrow> ThresholdState \<Rightarrow> bool"
  for st chk where
  before_genesis: "bip9 st chk None DEFINED"
| before_start: "st p = Some b \<Longrightarrow> GetMedianTimePast st p = Inr m \<Longrightarrow> m < BeginTime chk \<Longrightarrow>
    bip9 st chk (Some p) DEFINED"
| period: "st p = Some b \<Longrightarrow> GetMedianTimePast st p = Inr m \<Longrightarrow> BeginTime chk \<le> m \<Longrightarrow>
    bip9 st chk (prev_at st p (nHeight b - Period chk)) s \<Longrightarrow> bip9_trans st chk p (nHeight b) m s s' \<Longrightarrow>
    bip9 st chk (Some p) s'"

inductive_cases bip9_NoneE: "bip9 st chk None s"
inductive_cases bip9_SomeE: "bip9 st chk (Some p) s"

inductive_simps bip9_trans_simps:
  "bip9_trans st chk p h m DEFINED s" "bip9_trans st chk p h m STARTED s"
  "bip9_trans st chk p h m LOCKED_IN s" "bip9_trans st chk p h m ACTIVE s" "bip9_trans st chk p h m FAILED s"

lemma bip9_trans_unique: "bip9_trans st chk p h m s s1 \<Longrightarrow> bip9_trans st chk p h m s s2 \<Longrightarrow> s1 = s2"
  by (cases s) (auto simp: bip9_trans_simps)

lemma bip9_unique: "bip9 st chk p s1 \<Longrightarrow> bip9 st chk p s2 \<Longrightarrow> s1 = s2"
proof (induction arbitrary: s2 rule: bip9.induct)
  case before_genesis
  then show ?case by (auto elim: bip9_NoneE)
next
  case (before_start p b m)
  then show ?case by (auto elim!: bip9_SomeE)
next
  case (period p b m s s')
  show ?case
  proof (rule bip9_SomeE [OF period.prems])
    fix m' assume "GetMedianTimePast st p = Inr m'" "m' < BeginTime chk"
    then show "s' = s2" using period.hyps by simp
  next
    fix b' m' t assume "st p = Some b'" "GetMedianTimePast st p = Inr m'"
      "bip9 st chk (prev_at st p (nHeight b' - Period chk)) t" "bip9_trans st chk p (nHeight b') m' t s2"
    then have "bip9 st chk (prev_at st p (nHeight b - Period chk)) t" "bip9_trans st chk p (nHeight b) m t s2"
      using period.hyps by simp_all
    then show "s' = s2" using period.IH period.hyps(5) bip9_trans_unique by metis
  qed
qed

section \<open>The cached computation follows the state machine\<close>

lemma count_loop_spec:
  assumes "index_wf st" and "st p = Some b" and "int n \<le> nHeight b + 1"
  shows "count_loop n st cond (Some p) k =
    Inr (k + int (card {i. i < n \<and> (\<exists>q c. nth_prev st i p = Some q \<and> st q = Some c \<and> cond c)}))"
  using assms(2,3)
proof (induction n arbitrary: p b k)
  case 0
  then show ?case by simp
next
  case (Suc n)
  let ?S = "\<lambda>p n. {i. i < n \<and> (\<exists>q c. nth_prev st i p = Some q \<and> st q = Some c \<and> cond c)}"
  show ?case
  proof (cases "n = 0")
    case True
    have "?S p 1 = (if cond b then {0} else {})" using Suc.prems by auto
    then show ?thesis using True Suc.prems by (simp add: deref_def)
  next
    case False
    then obtain q c where q: "pprev b = Some q" "st q = Some c" "nHeight c = nHeight b - 1"
      using index_wf_parent [OF assms(1) Suc.prems(1)] Suc.prems(2) by auto
    have split: "?S p (Suc n) = (if cond b then {0} else {}) \<union> Suc ` ?S q n"
    proof (rule set_eqI)
      fix i show "i \<in> ?S p (Suc n) \<longleftrightarrow> i \<in> (if cond b then {0} else {}) \<union> Suc ` ?S q n"
        using Suc.prems(1) q(1) by (cases i) auto
    qed
    have "card (?S p (Suc n)) = (if cond b then 1 else 0) + card (?S q n)"
      unfolding split by (subst card_Un_disjoint) (auto simp: card_image)
    then show ?thesis
      using Suc.IH [OF q(2)] q Suc.prems by (simp add: deref_def)
  qed
qed

lemma next_state_spec:
  assumes "index_wf st" and "st p = Some b" and "GetMedianTimePast st p = Inr m" and "BeginTime chk \<le> m"
    and "0 < Period chk" and "Period chk \<le> nHeight b + 1"
  shows "\<exists>s'. next_state st chk p s = Inr s' \<and> bip9_trans st chk p (nHeight b) m s s'"
proof -
  have "count_loop (nat (Period chk)) st (Condition chk) (Some p) 0 = Inr (int (signal_count st chk p))"
    using count_loop_spec [OF assms(1,2), of "nat (Period chk)" "Condition chk" 0] assms(5,6)
    by (simp add: signal_count_def)
  then show ?thesis
    using assms by (cases s) (auto simp: next_state_def bip9_trans_simps enough_signals_def deref_def)
qed

definition period_end :: "block_store \<Rightarrow> int \<Rightarrow> bid option \<Rightarrow> bool" where
  "period_end st n p \<longleftrightarrow> (\<forall>q. p = Some q \<longrightarrow> (\<exists>b. st q = Some b \<and> n dvd nHeight b + 1))"

definition cache_ok :: "block_store \<Rightarrow> AbstractThresholdConditionChecker \<Rightarrow> ThresholdConditionCache \<Rightarrow> bool" where
  "cache_ok st chk cache \<longleftrightarrow> (\<forall>p s. cache p = Some s \<longrightarrow> bip9 st chk p s)"

text \<open>The stack leads, one period at a time, from \<open>p\<close> up to its bottom element.\<close>

fun linked :: "block_store \<Rightarrow> AbstractThresholdConditionChecker \<Rightarrow> bid option \<Rightarrow> bid list \<Rightarrow> bool" where
  "linked st chk p [] \<longleftrightarrow> True"
| "linked st chk p (q # qs) \<longleftrightarrow>
     (\<exists>b m. st q = Some b \<and> Period chk \<le> nHeight b + 1 \<and> GetMedianTimePast st q = Inr m \<and> BeginTime chk \<le> m \<and>
        prev_at st q (nHeight b - Period chk) = p) \<and> linked st chk (Some q) qs"

definition bottom :: "bid option \<Rightarrow> bid list \<Rightarrow> bid option" where
  "bottom p qs = (if qs = [] then p else Some (last qs))"

lemma cache_ok_upd: "cache_ok st chk cache \<Longrightarrow> bip9 st chk p s \<Longrightarrow> cache_ok st chk (cache(p \<mapsto> s))"
  by (simp add: cache_ok_def)

lemma period_end_prev:
  assumes "index_wf st" and "st p = Some b" and "n dvd nHeight b + 1" and "0 < n"
  shows "previous_period st n p = Inr (prev_at st p (nHeight b - n))"
    and "period_end st n (prev_at st p (nHeight b - n))" and "n \<le> nHeight b + 1"
    and "walk_fuel st (prev_at st p (nHeight b - n)) \<le> nat (nHeight b) + 1"
proof -
  have b0: "0 \<le> nHeight b" by (rule index_wfD(1) [OF assms(1,2)])
  then show "n \<le> nHeight b + 1" using zdvd_imp_le [OF assms(3)] by simp
  show "previous_period st n p = Inr (prev_at st p (nHeight b - n))"
    using assms(2) GetAncestor_prev_at [OF assms(1,2)] by (simp add: previous_period_def deref_def)
  have "n dvd (nHeight b - n) + 1" using assms(3) dvd_diff [OF assms(3), of n] by (simp add: algebra_simps)
  then show "period_end st n (prev_at st p (nHeight b - n))"
    using prev_at_range [of st p "nHeight b - n"] prev_at_Some [OF assms(1,2), of "nHeight b - n"] assms(2)
    by (fastforce simp: period_end_def)
  show "walk_fuel st (prev_at st p (nHeight b - n)) \<le> nat (nHeight b) + 1"
    using prev_at_range [of st p "nHeight b - n"] prev_at_Some [OF assms(1,2), of "nHeight b - n"] assms(2,4) b0
    by (fastforce simp: walk_fuel_def split: option.splits)
qed

lemma collect_loop_spec:
  assumes "index_wf st" and "0 < Period chk" and "cache_ok st chk cache"
    and "period_end st (Period chk) p" and "linked st chk p vs" and "walk_fuel st p \<le> fuel"
  shows "\<exists>cache' p' vs' s. collect_loop fuel st chk cache p vs = Inr (cache', p', vs') \<and>
    cache' p' = Some s \<and> cache_ok st chk cache' \<and> linked st chk p' vs' \<and> bottom p' vs' = bottom p vs"
  using assms(4-6)
proof (induction fuel arbitrary: p vs)
  case 0
  then show ?case by (simp add: walk_fuel_def split: option.splits)
next
  case (Suc fuel)
  show ?case
  proof (cases "cache p")
    case (Some s)
    then show ?thesis using Suc.prems assms(3) by (simp add: collect_loop.simps)
  next
    case none: None
    show ?thesis
    proof (cases p)
      case None
      then show ?thesis
        using none Suc.prems cache_ok_upd [OF assms(3) before_genesis] by (simp add: collect_loop.simps)
    next
      case (Some q)
      then obtain b where b: "st q = Some b" "Period chk dvd nHeight b + 1"
        using Suc.prems(1) by (auto simp: period_end_def)
      obtain m where m: "GetMedianTimePast st q = Inr m" using GetMedianTimePast_total [OF assms(1) b(1)] .
      note prev = period_end_prev [OF assms(1) b assms(2)]
      let ?q = "prev_at st q (nHeight b - Period chk)"
      show ?thesis
      proof (cases "m < BeginTime chk")
        case True
        then show ?thesis
          using none Some m Suc.prems(2) cache_ok_upd [OF assms(3) before_start [OF b(1) m True]]
          by (simp add: collect_loop.simps)
      next
        case False
        have fuel: "walk_fuel st ?q \<le> fuel"
          using prev(4) Suc.prems(3) Some b(1) by (simp add: walk_fuel_def)
        have link: "linked st chk ?q (q # vs)" using b(1) prev(3) m False Suc.prems(2) Some by auto
        have "bottom ?q (q # vs) = bottom p vs" using Some by (simp add: bottom_def)
        moreover have "collect_loop (Suc fuel) st chk cache p vs = collect_loop fuel st chk cache ?q (q # vs)"
          using none Some m False prev(1) by (simp add: collect_loop.simps [of "Suc fuel"])
        ultimately show ?thesis using Suc.IH [OF prev(2) link fuel] by simp
      qed
    qed
  qed
qed

lemma compute_loop_spec:
  assumes "index_wf st" and "0 < Period chk" and "cache_ok st chk cache" and "bip9 st chk p s" and "linked st chk p vs"
  shows "\<exists>s' cache'. compute_loop st chk cache s vs = Inr (s', cache') \<and> bip9 st chk (bottom p vs) s' \<and>
    cache_ok st chk cache'"
  using assms(3-5)
proof (induction vs arbitrary: cache p s)
  case Nil
  then show ?case by (simp add: bottom_def)
next
  case (Cons q qs)
  then obtain b m where b: "st q = Some b" "Period chk \<le> nHeight b + 1" "GetMedianTimePast st q = Inr m"
    "BeginTime chk \<le> m" "prev_at st q (nHeight b - Period chk) = p" and link: "linked st chk (Some q) qs" by auto
  obtain s' where s': "next_state st chk q s = Inr s'" "bip9_trans st chk q (nHeight b) m s s'"
    using next_state_spec [OF assms(1) b(1,3,4) assms(2) b(2)] by blast
  have now: "bip9 st chk (Some q) s'" using period [OF b(1,3,4)] Cons.prems(2) b(5) s'(2) by simp
  have "bottom (Some q) qs = bottom p (q # qs)" by (simp add: bottom_def)
  moreover obtain s1 cache1 where "compute_loop st chk (cache(Some q \<mapsto> s')) s' qs = Inr (s1, cache1)"
    "bip9 st chk (bottom (Some q) qs) s1" "cache_ok st chk cache1"
    using Cons.IH [OF cache_ok_upd [OF Cons.prems(1) now] now link] by blast
  ultimately show ?case using s'(1) by simp
qed

text \<open>The block whose state \<open>GetStateFor\<close> reports: the last block of the period before \<open>p\<close>'s.\<close>

definition period_base :: "block_store \<Rightarrow> int \<Rightarrow> bid option \<Rightarrow> bid option" where
  "period_base st n p = (case p of None \<Rightarrow> None
     | Some q \<Rightarrow> (case st q of None \<Rightarrow> None | Some b \<Rightarrow> prev_at st q (nHeight b - (nHeight b + 1) mod n)))"

lemma period_parent_spec:
  assumes "index_wf st" and "st q = Some b" and "0 < n"
  shows "period_parent st n q = Inr (period_base st n (Some q))" and "period_end st n (period_base st n (Some q))"
proof -
  have b0: "0 \<le> nHeight b" by (rule index_wfD(1) [OF assms(1,2)])
  then have "cmod (nHeight b + 1) n = Inr ((nHeight b + 1) mod n)"
    using assms(3) by (simp add: cmod_def smod_nonneg)
  then show "period_parent st n q = Inr (period_base st n (Some q))"
    using assms(2) GetAncestor_prev_at [OF assms(1,2)] by (simp add: period_parent_def period_base_def deref_def)
  let ?h = "nHeight b - (nHeight b + 1) mod n"
  have "?h + 1 = (nHeight b + 1) div n * n" by (simp add: minus_mod_eq_div_mult [symmetric])
  then have "n dvd ?h + 1" by simp
  then show "period_end st n (period_base st n (Some q))"
    using prev_at_range [of st q ?h] prev_at_Some [OF assms(1,2), of ?h] assms(2)
    by (fastforce simp: period_end_def period_base_def)
qed

lemma GetStateFor_spec:
  assumes "index_wf st" and "0 < Period chk" and "cache_ok st chk cache"
    and "BeginTime chk \<noteq> ALWAYS_ACTIVE" and "BeginTime chk \<noteq> NEVER_ACTIVE"
    and "\<And>q. p = Some q \<Longrightarrow> st q \<noteq> None"
  shows "\<exists>s cache'. GetStateFor st chk p cache = Inr (s, cache') \<and>
    bip9 st chk (period_base st (Period chk) p) s \<and> cache_ok st chk cache'"
proof -
  let ?p = "period_base st (Period chk) p"
  have pe: "period_end st (Period chk) ?p"
    and start: "(case p of None \<Rightarrow> Inr None | Some q \<Rightarrow> period_parent st (Period chk) q) = Inr ?p"
    using period_parent_spec [OF assms(1) _ assms(2)] assms(6)
    by (cases p; auto simp: period_end_def period_base_def)+
  obtain cache' p' vs' s where c: "collect_loop (walk_fuel st ?p) st chk cache ?p [] = Inr (cache', p', vs')"
    "cache' p' = Some s" "cache_ok st chk cache'" "linked st chk p' vs'" "bottom p' vs' = ?p"
    using collect_loop_spec [OF assms(1-3) pe, of "[]" "walk_fuel st ?p"] by (auto simp: bottom_def)
  have "bip9 st chk p' s" using c(2,3) by (simp add: cache_ok_def)
  from compute_loop_spec [OF assms(1,2) c(3) this c(4)] show ?thesis
    using c start assms(4,5) by (auto simp: GetStateFor_def)
qed



text \<open>From a period that locks the deployment in, one period after another.\<close>

lemma locked_in_activates:
  assumes wf: "index_wf st" "0 < Period chk" "st p = Some b" "0 \<le> h"
    and base: "prev_at st p h = Some q" "bip9 st chk (Some q) LOCKED_IN"
    and late: "\<And>k r m. h \<le> k \<Longrightarrow> prev_at st p k = Some r \<Longrightarrow> GetMedianTimePast st r = Inr m \<Longrightarrow> BeginTime chk \<le> m"
    and "h + int j * Period chk \<le> nHeight b"
  shows "\<exists>r. prev_at st p (h + int j * Period chk) = Some r \<and>
    bip9 st chk (Some r) (if 0 < j \<and> MinActivationHeight chk \<le> h + int j * Period chk + 1 then ACTIVE else LOCKED_IN)"
  using assms(8)
proof (induction j)
  case (Suc j)
  let ?k = "h + int (Suc j) * Period chk" and ?k' = "h + int j * Period chk"
  have le: "?k' \<le> ?k" "0 \<le> ?k'" "h \<le> ?k" "?k - Period chk = ?k'" using wf(2,4) by (simp_all add: algebra_simps)
  then obtain r' where r': "prev_at st p ?k' = Some r'"
    "bip9 st chk (Some r') (if 0 < j \<and> MinActivationHeight chk \<le> ?k' + 1 then ACTIVE else LOCKED_IN)"
    using Suc by fastforce
  obtain r c where r: "prev_at st p ?k = Some r" "st r = Some c" "nHeight c = ?k"
    using prev_at_Some [OF wf(1,3) _ Suc.prems] le by auto
  obtain m where m: "GetMedianTimePast st r = Inr m" using GetMedianTimePast_total [OF wf(1) r(2)] .
  have "prev_at st r (nHeight c - Period chk) = Some r'" 
    unfolding r(3) le(4) using prev_at_trans [OF wf(1,3) le(2,1) r(1)] r'(1) by simp
  moreover have "bip9_trans st chk r (nHeight c) m (if 0 < j \<and> MinActivationHeight chk \<le> ?k' + 1 then ACTIVE else LOCKED_IN)
      (if MinActivationHeight chk \<le> ?k + 1 then ACTIVE else LOCKED_IN)"
    using r(3) le(1) by (auto simp: bip9_trans_simps)
  ultimately have "bip9 st chk (Some r) (if MinActivationHeight chk \<le> ?k + 1 then ACTIVE else LOCKED_IN)"
    using bip9.period [OF r(2) m late [OF le(3) r(1) m]] r'(2) by simp
  then show ?case using r(1) by simp
qed (use base in simp)

lemma period_base_parent:
  assumes "index_wf st" "st q = Some c" "0 < n" "n dvd nHeight c + 1"
  shows "period_base st n (pprev c) = prev_at st q (nHeight c - n)"
proof (cases "pprev c")
  case None
  then have "nHeight c = 0" using index_wfD(2) [OF assms(1,2)] by blast
  then show ?thesis using None assms(2,3) by (simp add: period_base_def prev_at_def)
next
  case (Some r)
  obtain d where d: "st r = Some d" "nHeight c = nHeight d + 1" using index_wfD(3) [OF assms(1,2) Some] by blast
  obtain k where k: "nHeight c = n * k - 1" using assms(4) by (metis add_diff_cancel_right' dvdE)
  have "nHeight c mod n = n - 1" using k assms(3) by (simp add: mod_diff_left_eq [symmetric] zmod_minus1)
  then have e: "nHeight d - (nHeight d + 1) mod n = nHeight c - n" using d(2) by simp
  have "period_base st n (pprev c) = prev_at st r (nHeight d - (nHeight d + 1) mod n)" using Some d(1) by (simp add: period_base_def)
  then show ?thesis unfolding e using prev_at_parent [OF assms(2) Some d, of "nHeight c - n"] assms(3) d(2) by simp
qed

section \<open>Block versions\<close>

definition signals :: "ThresholdState \<Rightarrow> bool" where
  "signals s \<longleftrightarrow> s = LOCKED_IN \<or> s = STARTED"

text \<open>What \<open>GetStateFor\<close> reports for a deployment, the constant deployments included.\<close>

definition deployment_state :: "block_store \<Rightarrow> AbstractThresholdConditionChecker \<Rightarrow> bid option \<Rightarrow> ThresholdState \<Rightarrow> bool" where
  "deployment_state st chk p s \<longleftrightarrow>
     (if BeginTime chk = ALWAYS_ACTIVE then s = ACTIVE
      else if BeginTime chk = NEVER_ACTIVE then s = FAILED
      else bip9 st chk (period_base st (Period chk) p) s)"

definition caches_ok :: "block_store \<Rightarrow> Params \<Rightarrow> VersionBitsCache \<Rightarrow> bool" where
  "caches_ok st params cs \<longleftrightarrow> length cs = length (vDeployments params) \<and>
     (\<forall>i < length cs. cache_ok st (VersionBitsConditionChecker params (vDeployments params ! i)) (cs ! i))"

lemma GetStateFor_deployment:
  assumes "index_wf st" and "0 < Period chk" and "cache_ok st chk cache" and "\<And>q. p = Some q \<Longrightarrow> st q \<noteq> None"
  shows "\<exists>s cache'. GetStateFor st chk p cache = Inr (s, cache') \<and> deployment_state st chk p s \<and> cache_ok st chk cache'"
proof (cases "BeginTime chk = ALWAYS_ACTIVE \<or> BeginTime chk = NEVER_ACTIVE")
  case True
  then show ?thesis using assms(3)
    by (auto simp: GetStateFor_def deployment_state_def ALWAYS_ACTIVE_def NEVER_ACTIVE_def)
next
  case False
  then show ?thesis using GetStateFor_spec [OF assms(1-3) _ _ assms(4)] by (simp add: deployment_state_def)
qed

lemma deployment_state_unique: "deployment_state st chk p s1 \<Longrightarrow> deployment_state st chk p s2 \<Longrightarrow> s1 = s2"
  by (auto simp: deployment_state_def bip9_unique split: if_splits)

lemma State_spec:
  assumes "index_wf st" and "0 < sint (nMinerConfirmationWindow params)" and "caches_ok st params cs"
    and "\<And>q. p = Some q \<Longrightarrow> st q \<noteq> None" and "pos < length (vDeployments params)"
  shows "\<exists>s cs'. State st cs p params pos = Inr (s, cs') \<and> caches_ok st params cs' \<and>
    deployment_state st (VersionBitsConditionChecker params (vDeployments params ! pos)) p s"
proof -
  let ?chk = "VersionBitsConditionChecker params (vDeployments params ! pos)"
  have "0 < Period ?chk" "cache_ok st ?chk (cs ! pos)"
    using assms(2,3,5) by (simp_all add: VersionBitsConditionChecker_def caches_ok_def)
  from GetStateFor_deployment [OF assms(1) this assms(4)] obtain s c where
    c: "GetStateFor st ?chk p (cs ! pos) = Inr (s, c)" "deployment_state st ?chk p s" "cache_ok st ?chk c" by blast
  have "caches_ok st params (cs[pos := c])"
    unfolding caches_ok_def
  proof (intro conjI allI impI)
    fix i assume "i < length (cs[pos := c])"
    then show "cache_ok st (VersionBitsConditionChecker params (vDeployments params ! i)) (cs[pos := c] ! i)"
      using assms(3) c(3) by (cases "i = pos") (simp_all add: caches_ok_def)
  qed (use assms(3) in \<open>simp add: caches_ok_def\<close>)
  then show ?thesis using c(1,2) assms(3,5) by (simp add: State_def deployment_def caches_ok_def)
qed

lemma version_loop_spec:
  assumes "index_wf st" and "0 < sint (nMinerConfirmationWindow params)" and "caches_ok st params cs"
    and "\<And>q. p = Some q \<Longrightarrow> st q \<noteq> None" and "\<And>pos. pos \<in> set ps \<Longrightarrow> pos < length (vDeployments params)"
  shows "\<exists>v' cs'. version_loop ps st cs p params v = Inr (v', cs') \<and> caches_ok st params cs' \<and>
    (\<forall>i. bit v' i \<longleftrightarrow> bit v i \<or> (\<exists>pos \<in> set ps. \<exists>s.
       deployment_state st (VersionBitsConditionChecker params (vDeployments params ! pos)) p s \<and> signals s \<and>
       bit (deployment_mask (vDeployments params ! pos)) i))"
  using assms(3,5)
proof (induction ps arbitrary: cs v)
  case Nil
  then show ?case by simp
next
  case (Cons pos ps)
  let ?d = "vDeployments params ! pos"
  obtain s cs1 where s: "State st cs p params pos = Inr (s, cs1)" "caches_ok st params cs1"
    "deployment_state st (VersionBitsConditionChecker params ?d) p s"
    using State_spec [OF assms(1,2) Cons.prems(1), where p = p and pos = pos] assms(4) Cons.prems(2) by auto
  let ?v = "if signals s then v OR deployment_mask ?d else v"
  have s': "deployment_state st (VersionBitsConditionChecker params ?d) p t \<longleftrightarrow> t = s" for t
    using s(3) deployment_state_unique by blast
  obtain v' cs' where v': "version_loop ps st cs1 p params ?v = Inr (v', cs')" "caches_ok st params cs'"
    "\<forall>i. bit v' i \<longleftrightarrow> bit ?v i \<or> (\<exists>pos \<in> set ps. \<exists>s.
       deployment_state st (VersionBitsConditionChecker params (vDeployments params ! pos)) p s \<and> signals s \<and>
       bit (deployment_mask (vDeployments params ! pos)) i)"
    using Cons.IH [OF s(2), of ?v] Cons.prems(2) by auto
  have "bit ?v i \<longleftrightarrow> bit v i \<or> (signals s \<and> bit (deployment_mask ?d) i)" for i
    by (simp add: bit_or_iff)
  then show ?case
    using v' s(1) Cons.prems(2) by (simp add: deployment_def s' signals_def disj_assoc)
qed

section \<open>Properties\<close>

definition sample_checker :: AbstractThresholdConditionChecker where
  "sample_checker = \<lparr> Condition = (\<lambda>b. True), BeginTime = 1000, EndTime = 5000, MinActivationHeight = 0,
     Period = 1, Threshold = 1 \<rparr>"

text \<open>
  C19: with any cache whose entries are right, in particular the empty one, \<open>GetStateFor\<close>
  returns the state that the BIP9 state machine reaches at the last completed period, never
  fails, and leaves a cache whose entries are right: caching never changes an answer.
\<close>

theorem GetStateFor_follows_bip9:
  assumes "index_wf st" and "0 < Period chk" and "\<And>q. p = Some q \<Longrightarrow> st q \<noteq> None"
    and "BeginTime chk \<noteq> ALWAYS_ACTIVE" and "BeginTime chk \<noteq> NEVER_ACTIVE"
  shows "\<exists>s. bip9 st chk (period_base st (Period chk) p) s \<and>
    (\<forall>cache. cache_ok st chk cache \<longrightarrow>
       (\<exists>cache'. GetStateFor st chk p cache = Inr (s, cache') \<and> cache_ok st chk cache'))"
proof -
  have spec: "\<exists>s cache'. GetStateFor st chk p cache = Inr (s, cache') \<and>
      bip9 st chk (period_base st (Period chk) p) s \<and> cache_ok st chk cache'" if "cache_ok st chk cache" for cache
    using GetStateFor_spec [OF assms(1,2) that assms(4,5,3)] .
  have "cache_ok st chk Map.empty" by (simp add: cache_ok_def)
  from spec [OF this] obtain s where s: "bip9 st chk (period_base st (Period chk) p) s" by blast
  have "\<exists>cache'. GetStateFor st chk p cache = Inr (s, cache') \<and> cache_ok st chk cache'"
    if "cache_ok st chk cache" for cache
    using spec [OF that] bip9_unique [OF _ s] by blast
  then show ?thesis using s by blast
qed

theorem GetStateFor_follows_bip9_witness:
  "\<exists>s. bip9 sample_index sample_checker (period_base sample_index 1 (Some 2)) s \<and>
     (\<exists>cache'. GetStateFor sample_index sample_checker (Some 2) Map.empty = Inr (s, cache'))"
proof -
  have "cache_ok sample_index sample_checker Map.empty" by (simp add: cache_ok_def)
  then show ?thesis
    using GetStateFor_follows_bip9 [OF sample_index_wf, of sample_checker "Some 2"] sample_index_2
    by (auto simp: sample_checker_def ALWAYS_ACTIVE_def NEVER_ACTIVE_def)
qed





text \<open>
  C8: a deployment that gets its signals becomes active. If the state for the last block \<open>q\<close> of a
  period is \<open>STARTED\<close> and at least \<open>Threshold\<close> blocks of the period, and at least one, signal, then on
  every chain through \<open>q\<close> whose later median times are not before the start time, \<open>GetStateFor\<close>
  reports \<open>ACTIVE\<close> as soon as another period has ended and the minimum activation height is reached,
  and at every block after that, whatever later blocks signal and even after the timeout.
\<close>

theorem signalled_deployment_activates:
  assumes wf: "index_wf st" "0 < Period chk" "cache_ok st chk cache" "cache_ok st chk cache0"
    and bt: "BeginTime chk \<noteq> ALWAYS_ACTIVE" "BeginTime chk \<noteq> NEVER_ACTIVE"
    and p: "st p = Some b" "prev_at st p h = Some q" "st q = Some c" "Period chk dvd h + 1"
    and started: "GetStateFor st chk (pprev c) cache0 = Inr (STARTED, cache1)"
    and enough: "Threshold chk \<le> int (signal_count st chk q)" "0 < signal_count st chk q"
    and late: "\<And>k r m. h \<le> k \<Longrightarrow> prev_at st p k = Some r \<Longrightarrow> GetMedianTimePast st r = Inr m \<Longrightarrow> BeginTime chk \<le> m"
    and reach: "h + Period chk \<le> nHeight b" "MinActivationHeight chk \<le> nHeight b + 1 - (nHeight b + 1) mod Period chk"
  shows "\<exists>cache'. GetStateFor st chk (Some p) cache = Inr (ACTIVE, cache')"
proof -
  let ?n = "Period chk" and ?e = "nHeight b - (nHeight b + 1) mod Period chk"
  have h: "0 \<le> h" "nHeight c = h" using prev_at_range [OF p(2)] prev_at_Some [OF wf(1) p(1), of h] p(1-3) by auto
  have "bip9 st chk (period_base st ?n (pprev c)) STARTED"
    using GetStateFor_spec [OF wf(1,2,4) bt, of "pprev c"] started index_wfD(3) [OF wf(1) p(3)] by fastforce
  then have "bip9 st chk (prev_at st q (nHeight c - ?n)) STARTED" using period_base_parent [OF wf(1) p(3) wf(2)] p(4) h(2) by simp
  moreover obtain m where m: "GetMedianTimePast st q = Inr m" using GetMedianTimePast_total [OF wf(1) p(3)] .
  ultimately have lock: "bip9 st chk (Some q) LOCKED_IN"
    using bip9.period [OF p(3) m late [OF order_refl p(2) m]] enough by (auto simp: bip9_trans_simps enough_signals_def)
  have "?n dvd ?e + 1" by (simp add: algebra_simps minus_mod_eq_mult_div)
  then have "?n dvd ?e - h" using p(4) by (metis add_diff_cancel_right dvd_diff)
  then obtain i where i: "?e - h = ?n * i" by blast
  have "?n * 0 < ?n * i" using i reach(1) wf(2) pos_mod_bound [OF wf(2), of "nHeight b + 1"] by linarith
  then have "0 < i" using wf(2) by (simp add: zero_less_mult_iff)
  then have e: "h + int (nat i) * ?n = ?e" "0 < nat i" using i by (simp_all add: mult.commute)
  have "?e \<le> nHeight b" using pos_mod_sign [OF wf(2), of "nHeight b + 1"] by linarith
  then have "\<exists>r. prev_at st p ?e = Some r \<and> bip9 st chk (Some r) (if 0 < nat i \<and> MinActivationHeight chk \<le> ?e + 1 then ACTIVE else LOCKED_IN)"
    using locked_in_activates [OF wf(1,2) p(1) h(1) p(2) lock, where j = "nat i", unfolded e(1)] late by blast
  then obtain r where "prev_at st p ?e = Some r" "bip9 st chk (Some r) ACTIVE" using e(2) reach(2) by auto
  then have "bip9 st chk (period_base st ?n (Some p)) ACTIVE" using p(1) by (simp add: period_base_def)
  then show ?thesis using GetStateFor_spec [OF wf(1-3) bt, of "Some p"] p(1) bip9_unique by blast
qed

theorem signalled_deployment_activates_witness:
  "\<exists>cache'. GetStateFor sample_index sample_checker (Some 2) Map.empty = Inr (ACTIVE, cache')"
proof -
  have m: "GetMedianTimePast sample_index 1 = Inr 1600" "GetMedianTimePast sample_index 2 = Inr 1600" by code_simp+
  have at: "prev_at sample_index 2 1 = Some 1" "prev_at sample_index 2 2 = Some 2" by code_simp+
  have "map_sum id fst (GetStateFor sample_index sample_checker (Some 0) Map.empty) = Inr STARTED" by code_simp
  then obtain c1 where s: "GetStateFor sample_index sample_checker (Some 0) Map.empty = Inr (STARTED, c1)"
    by (cases "GetStateFor sample_index sample_checker (Some 0) Map.empty") auto
  have ok: "cache_ok sample_index sample_checker Map.empty" by (simp add: cache_ok_def)
  have n: "sample_index 1 = Some (sample_node (Some 0) (Some 0) 1 1600)" "sample_index 2 = Some (sample_node (Some 1) (Some 0) 2 2200)"
    by (simp_all add: sample_index_def sample_trunk_def)
  have sig: "signal_count sample_index sample_checker 1 = 1" 
  proof -
    have "{i. i < nat (Period sample_checker) \<and> (\<exists>q b. nth_prev sample_index i 1 = Some q \<and> sample_index q = Some b \<and> Condition sample_checker b)} = {0}"
      using n by (auto simp: sample_checker_def)
    then show ?thesis by (simp add: signal_count_def)
  qed
  have late: "BeginTime sample_checker \<le> t" if "1 \<le> k" "prev_at sample_index 2 k = Some r" "GetMedianTimePast sample_index r = Inr t" for k r t
  proof -
    have "k = 1 \<or> k = 2" using prev_at_range [OF that(2)] that(1) n(2) by (auto simp: sample_node_def)
    then show ?thesis using that(2,3) at m by (auto simp: sample_checker_def)
  qed
  show ?thesis
    by (rule signalled_deployment_activates [OF sample_index_wf _ ok ok _ _ n(2) at(1) n(1) _ _ _ _ late])
      (use s sig in \<open>simp_all add: sample_checker_def ALWAYS_ACTIVE_def NEVER_ACTIVE_def sample_node_def\<close>)
qed

text \<open>
  \<open>ComputeBlockVersion\<close> always returns a version that carries the top bits of BIP9 and,
  besides them, exactly the bits of the deployments that are started or locked in.
\<close>

theorem ComputeBlockVersion_bits:
  assumes "index_wf st" and "0 < sint (nMinerConfirmationWindow params)" and "caches_ok st params cs"
    and "\<And>q. p = Some q \<Longrightarrow> st q \<noteq> None" and "length (vDeployments params) = MAX_VERSION_BITS_DEPLOYMENTS"
  shows "\<exists>v cs'. ComputeBlockVersion st cs p params = Inr (v, cs') \<and> caches_ok st params cs' \<and>
    (\<forall>i. bit v i \<longleftrightarrow> bit VERSIONBITS_TOP_BITS i \<or> (\<exists>pos < MAX_VERSION_BITS_DEPLOYMENTS. \<exists>s.
       deployment_state st (VersionBitsConditionChecker params (vDeployments params ! pos)) p s \<and> signals s \<and>
       bit (deployment_mask (vDeployments params ! pos)) i))"
  using version_loop_spec [OF assms(1-4), where ps = "[0..<MAX_VERSION_BITS_DEPLOYMENTS]" and v = VERSIONBITS_TOP_BITS and p = p]
    assms(4,5) by (simp add: ComputeBlockVersion_def atLeast0LessThan Bex_def)

definition sample_deployments :: Params where
  "sample_deployments = (main_consensus 1)\<lparr> nMinerConfirmationWindow := 1,
     vDeployments := [\<lparr> dep_bit = 28, nStartTime = NEVER_ACTIVE, nTimeout = NEVER_ACTIVE, min_activation_height = 0 \<rparr>,
                      \<lparr> dep_bit = 2, nStartTime = 1000, nTimeout = 5000, min_activation_height = 0 \<rparr>] \<rparr>"

theorem ComputeBlockVersion_bits_witness:
  "\<exists>v cs'. ComputeBlockVersion sample_index [Map.empty, Map.empty] (Some 2) sample_deployments = Inr (v, cs') \<and> bit v 29"
proof -
  have "0 < sint (nMinerConfirmationWindow sample_deployments)" by code_simp
  moreover have "length (vDeployments sample_deployments) = MAX_VERSION_BITS_DEPLOYMENTS" by code_simp
  moreover have "caches_ok sample_index sample_deployments [Map.empty, Map.empty]"
    by (auto simp: caches_ok_def cache_ok_def sample_deployments_def less_Suc_eq)
  moreover have "bit VERSIONBITS_TOP_BITS 29" by code_simp
  ultimately show ?thesis
    using ComputeBlockVersion_bits [OF sample_index_wf, of sample_deployments "[Map.empty, Map.empty]" "Some 2"]
      sample_index_2 by auto
qed

end
