(* ===== verification/Refinement.thy ===== *)
theory Refinement
  imports Prelude
begin

text \<open>
  Data refinement: a concrete structure with an invariant and an abstraction function runs a
  sequence of operations, and a specification says what each operation returns and does on the
  abstract value. A specification step that is \<open>None\<close> is an operation outside its contract.
\<close>

section \<open>Runs\<close>

fun run_ops :: "('op \<Rightarrow> 'c \<Rightarrow> fault + 'r \<times> 'c) \<Rightarrow> 'op list \<Rightarrow> 'c \<Rightarrow> fault + 'r list \<times> 'c" where
  "run_ops step [] c = Inr ([], c)"
| "run_ops step (op # ops) c =
     sum_bind (step op c) (\<lambda>(r, c). sum_bind (run_ops step ops c) (\<lambda>(rs, c). Inr (r # rs, c)))"

fun spec_ops :: "('op \<Rightarrow> 'a \<Rightarrow> ('r \<times> 'a) option) \<Rightarrow> 'op list \<Rightarrow> 'a \<Rightarrow> ('r list \<times> 'a) option" where
  "spec_ops step [] a = Some ([], a)"
| "spec_ops step (op # ops) a =
     (case step op a of
        None \<Rightarrow> None
      | Some (r, a) \<Rightarrow> (case spec_ops step ops a of None \<Rightarrow> None | Some (rs, a) \<Rightarrow> Some (r # rs, a)))"

section \<open>The contract\<close>

locale data_refinement =
  fixes abs :: "'c \<Rightarrow> 'a" and inv :: "'c \<Rightarrow> bool"
    and cstep :: "'op \<Rightarrow> 'c \<Rightarrow> fault + 'r \<times> 'c" and astep :: "'op \<Rightarrow> 'a \<Rightarrow> ('r \<times> 'a) option"
  assumes simulates:
    "inv c \<Longrightarrow> astep op (abs c) = Some (r, a) \<Longrightarrow> \<exists>c'. cstep op c = Inr (r, c') \<and> abs c' = a \<and> inv c'"
begin

lemma runs:
  "inv c \<Longrightarrow> spec_ops astep ops (abs c) = Some (rs, a) \<Longrightarrow>
   \<exists>c'. run_ops cstep ops c = Inr (rs, c') \<and> abs c' = a \<and> inv c'"
proof (induction ops arbitrary: c rs)
  case (Cons op ops)
  then obtain r a1 rs' where s: "astep op (abs c) = Some (r, a1)" "spec_ops astep ops a1 = Some (rs', a)" "rs = r # rs'"
    by (auto split: option.splits)
  from simulates [OF Cons.prems(1) s(1)] obtain c1 where c1: "cstep op c = Inr (r, c1)" "abs c1 = a1" "inv c1" by blast
  from Cons.IH [OF c1(3)] s(2) c1(2) obtain c2 where "run_ops cstep ops c1 = Inr (rs', c2)" "abs c2 = a" "inv c2"
    by blast
  then show ?case using s(3) c1(1) by simp
qed simp

end

end
