(* ===== verification/Serialize.thy ===== *)
theory Serialize
  imports Endian
begin

text \<open>
  Serialization, \<open>src/src/serialize.h\<close>: integers, compact sizes, variable-length integers and
  vectors. A serializer returns the bytes it writes; a deserializer takes the bytes of the stream
  and returns the value with the bytes that are left, or the exception it throws. The readers of
  the source fetch long vectors in blocks of five megabytes; here they fetch them whole, with the
  same bytes consumed and the same exception at the end of the stream.
\<close>

section \<open>Definitions\<close>

datatype ser_error = EndOfData | NonCanonical | SizeTooLarge | SuperfluousWitness | UnknownOptionalData

type_synonym 'a unser = "u8 list \<Rightarrow> ser_error + 'a \<times> u8 list"

definition MAX_SIZE :: nat where "MAX_SIZE = 0x02000000"

definition read_bytes :: "nat \<Rightarrow> u8 list unser" where
  "read_bytes n s = (if length s < n then Inl EndOfData else Inr (take n s, drop n s))"

definition ser_writedata8 :: "u8 \<Rightarrow> u8 list" where "ser_writedata8 obj = [obj]"
definition ser_writedata16 :: "u16 \<Rightarrow> u8 list" where "ser_writedata16 obj = WriteLE16 obj"
definition ser_writedata32 :: "u32 \<Rightarrow> u8 list" where "ser_writedata32 obj = WriteLE32 obj"
definition ser_writedata64 :: "u64 \<Rightarrow> u8 list" where "ser_writedata64 obj = WriteLE64 obj"
definition ser_readdata8 :: "u8 unser" where
  "ser_readdata8 s = sum_bind (read_bytes 1 s) (\<lambda>(b, s). Inr (hd b, s))"
definition ser_readdata16 :: "u16 unser" where
  "ser_readdata16 s = sum_bind (read_bytes 2 s) (\<lambda>(b, s). Inr (ReadLE16 b, s))"
definition ser_readdata32 :: "u32 unser" where
  "ser_readdata32 s = sum_bind (read_bytes 4 s) (\<lambda>(b, s). Inr (ReadLE32 b, s))"
definition ser_readdata64 :: "u64 unser" where
  "ser_readdata64 s = sum_bind (read_bytes 8 s) (\<lambda>(b, s). Inr (ReadLE64 b, s))"

definition GetSizeOfCompactSize :: "u64 \<Rightarrow> nat" where
  "GetSizeOfCompactSize nSize =
     (if nSize < 253 then 1 else if nSize \<le> 0xffff then 3 else if nSize \<le> 0xffffffff then 5 else 9)"

definition WriteCompactSize :: "u64 \<Rightarrow> u8 list" where
  "WriteCompactSize nSize =
     (if nSize < 253 then ser_writedata8 (ucast nSize)
      else if nSize \<le> 0xffff then ser_writedata8 253 @ ser_writedata16 (ucast nSize)
      else if nSize \<le> 0xffffffff then ser_writedata8 254 @ ser_writedata32 (ucast nSize)
      else ser_writedata8 255 @ ser_writedata64 nSize)"

definition compact_tail :: "u8 \<Rightarrow> u64 unser" where
  "compact_tail chSize s =
     (if chSize < 253 then Inr (ucast chSize, s)
      else if chSize = 253 then sum_bind (ser_readdata16 s) (\<lambda>(n, s).
        if (ucast n :: u64) < 253 then Inl NonCanonical else Inr (ucast n, s))
      else if chSize = 254 then sum_bind (ser_readdata32 s) (\<lambda>(n, s).
        if (ucast n :: u64) < 0x10000 then Inl NonCanonical else Inr (ucast n, s))
      else sum_bind (ser_readdata64 s) (\<lambda>(n, s). if n < 0x100000000 then Inl NonCanonical else Inr (n, s)))"

definition ReadCompactSize :: "bool \<Rightarrow> u64 unser" where
  "ReadCompactSize range_check s =
     sum_bind (ser_readdata8 s) (\<lambda>(chSize, s).
     sum_bind (compact_tail chSize s) (\<lambda>(nSizeRet, s).
       if range_check \<and> unat nSizeRet > MAX_SIZE then Inl SizeTooLarge else Inr (nSizeRet, s)))"

text \<open>
  The temporary array of \<open>WriteVarInt\<close>, least significant group first, and the loop of
  \<open>ReadVarInt\<close>, for the unsigned types (\<open>VarIntMode::DEFAULT\<close>).
\<close>

lemma drop_bit_7_decr:
  assumes "\<not> n \<le> 0x7F"
  shows "drop_bit 7 n \<noteq> 0" and "unat (drop_bit 7 n - 1) < unat (n :: 'a :: len word)"
proof -
  show nz: "drop_bit 7 n \<noteq> 0"
  proof
    assume "drop_bit 7 n = 0"
    then have "n = n AND mask 7"
      by (metis take_bit_eq_mask take_bit_eq_self_iff_drop_bit_eq_0)
    then have "n \<le> mask 7" by (metis word_and_le1)
    moreover have "(mask 7 :: 'a word) = 0x7F" by (simp add: mask_eq_exp_minus_1)
    ultimately show False using assms by simp
  qed
  then have "unat (drop_bit 7 n) \<noteq> 0" by (simp add: unat_eq_zero)
  moreover from nz have "unat (drop_bit 7 n - 1) < unat (drop_bit 7 n)"
    by (metis calculation diff_less less_one neq0_conv unat_minus_one)
  moreover have "unat (drop_bit 7 n) \<le> unat n" by (simp add: unat_drop_bit)
  ultimately show "unat (drop_bit 7 n - 1) < unat n" by linarith
qed

function varint_tmp :: "bool \<Rightarrow> 'a :: len word \<Rightarrow> u8 list" where
  "varint_tmp more n =
     (ucast (n AND 0x7F) OR (if more then 0x80 else 0)) # (if n \<le> 0x7F then [] else varint_tmp True (drop_bit 7 n - 1))"
  by pat_completeness auto
termination by (relation "measure (\<lambda>(more, n). unat n)") (simp_all add: drop_bit_7_decr)

declare varint_tmp.simps [simp del]

definition WriteVarInt :: "'a :: len word \<Rightarrow> u8 list" where
  "WriteVarInt n = rev (varint_tmp False n)"

function GetSizeOfVarInt :: "'a :: len word \<Rightarrow> nat" where
  "GetSizeOfVarInt n = (if n \<le> 0x7F then 1 else 1 + GetSizeOfVarInt (drop_bit 7 n - 1))"
  by pat_completeness auto
termination by (relation "measure unat") (simp_all add: drop_bit_7_decr)

declare GetSizeOfVarInt.simps [simp del]

fun varint_loop :: "'a :: len word \<Rightarrow> ('a word) unser" where
  "varint_loop n [] = Inl EndOfData"
| "varint_loop n (chData # s) =
     (if n > drop_bit 7 (- 1) then Inl SizeTooLarge
      else let n = push_bit 7 n OR (ucast (chData AND 0x7F)) in
        if chData AND 0x80 \<noteq> 0 then (if n = - 1 then Inl SizeTooLarge else varint_loop (n + 1) s)
        else Inr (n, s))"

definition ReadVarInt :: "('a :: len word) unser" where
  "ReadVarInt s = varint_loop 0 s"

text \<open>\<open>VectorFormatter\<close> over the element's formatter, and the byte vectors.\<close>

definition ser_vector :: "('a \<Rightarrow> u8 list) \<Rightarrow> 'a list \<Rightarrow> u8 list" where
  "ser_vector ser v = WriteCompactSize (of_nat (length v)) @ concat (map ser v)"

fun unser_n :: "'a unser \<Rightarrow> nat \<Rightarrow> 'a list unser" where
  "unser_n unser 0 s = Inr ([], s)"
| "unser_n unser (Suc n) s =
     sum_bind (unser s) (\<lambda>(x, s). sum_bind (unser_n unser n s) (\<lambda>(xs, s). Inr (x # xs, s)))"

definition unser_vector :: "'a unser \<Rightarrow> 'a list unser" where
  "unser_vector unser s = sum_bind (ReadCompactSize True s) (\<lambda>(size, s). unser_n unser (unat size) s)"

definition ser_bytes :: "u8 list \<Rightarrow> u8 list" where
  "ser_bytes v = WriteCompactSize (of_nat (length v)) @ v"

definition unser_bytes :: "u8 list unser" where
  "unser_bytes s = sum_bind (ReadCompactSize True s) (\<lambda>(nSize, s). read_bytes (unat nSize) s)"

section \<open>The contract of a formatter\<close>

text \<open>
  A formatter pair reads back what it wrote and leaves the rest of the stream alone, and it accepts
  nothing but what it writes for a value that may be written: every byte string has at most one
  reading and every value one encoding.
\<close>

locale codec =
  fixes ser :: "'a \<Rightarrow> u8 list" and unser :: "'a unser" and ok :: "'a \<Rightarrow> bool"
  assumes unser_ser: "ok x \<Longrightarrow> unser (ser x @ r) = Inr (x, r)"
    and canonical: "unser s = Inr (x, r) \<Longrightarrow> ok x \<and> s = ser x @ r"
begin

lemma reads_iff: "unser s = Inr (x, r) \<longleftrightarrow> ok x \<and> s = ser x @ r"
  using unser_ser canonical by auto

lemma bind_iff: "sum_bind (unser s) f = Inr y \<longleftrightarrow> (\<exists>x r. ok x \<and> s = ser x @ r \<and> f (x, r) = Inr y)"
  by (auto simp: sum_bind_Inr_iff reads_iff)

lemma prefix_free: "ok x \<Longrightarrow> ok y \<Longrightarrow> ser x @ r = ser y @ q \<Longrightarrow> x = y \<and> r = q"
  by (metis unser_ser Inr_inject prod.inject)

lemma ser_inj: "ok x \<Longrightarrow> ok y \<Longrightarrow> ser x = ser y \<Longrightarrow> x = y"
  using prefix_free [of x y "[]" "[]"] by simp

lemma concat_inj:
  "list_all ok xs \<Longrightarrow> list_all ok ys \<Longrightarrow> (\<And>x. ok x \<Longrightarrow> ser x \<noteq> []) \<Longrightarrow> concat (map ser xs) = concat (map ser ys) \<Longrightarrow> xs = ys"
proof (induction xs arbitrary: ys)
  case Nil
  then show ?case by (cases ys) auto
next
  case (Cons x xs)
  then obtain y zs where ys: "ys = y # zs" by (cases ys) auto
  then have "x = y \<and> concat (map ser xs) = concat (map ser zs)" using Cons.prems by (intro prefix_free) auto
  then show ?case using Cons ys by auto
qed

lemma unser_n_iff: "unser_n unser n s = Inr (xs, r) \<longleftrightarrow> length xs = n \<and> list_all ok xs \<and> s = concat (map ser xs) @ r"
proof (induction n arbitrary: s xs)
  case (Suc n)
  then show ?case by (cases xs) (fastforce simp: sum_bind_Inr_iff reads_iff)+
qed auto

end

section \<open>The formatters keep the contract\<close>

lemma read_bytes_iff: "read_bytes n s = Inr (x, r) \<longleftrightarrow> length x = n \<and> s = x @ r"
  by (auto simp: read_bytes_def)

interpretation ser8: codec ser_writedata8 ser_readdata8 "\<lambda>_. True"
  by unfold_locales
    (auto simp: ser_writedata8_def ser_readdata8_def read_bytes_def sum_bind_Inr_iff split: if_splits;
     case_tac s; simp)+

lemma endian_exact [simp]:
  "ReadLE16 (WriteLE16 a) = a" "ReadLE32 (WriteLE32 b) = b" "ReadLE64 (WriteLE64 c) = c"
  using endian_roundtrips(1) [of a "[]"] endian_roundtrips(2) [of b "[]"] endian_roundtrips(3) [of c "[]"] by simp_all

interpretation ser16: codec ser_writedata16 ser_readdata16 "\<lambda>_. True"
  by unfold_locales (auto simp: ser_writedata16_def ser_readdata16_def read_bytes_def sum_bind_Inr_iff split: if_splits)

interpretation ser32: codec ser_writedata32 ser_readdata32 "\<lambda>_. True"
  by unfold_locales (auto simp: ser_writedata32_def ser_readdata32_def read_bytes_def sum_bind_Inr_iff split: if_splits)

interpretation ser64: codec ser_writedata64 ser_readdata64 "\<lambda>_. True"
  by unfold_locales (auto simp: ser_writedata64_def ser_readdata64_def read_bytes_def sum_bind_Inr_iff split: if_splits)

lemma compact_tail_small: "chSize < 253 \<Longrightarrow> compact_tail chSize s = Inr (ucast chSize, s)"
  by (simp add: compact_tail_def)

lemma ucast_le_iff: "(ucast (a :: 'a :: len word) :: 'b :: len word) < k \<longleftrightarrow> unat a < unat k" if "LENGTH('a) \<le> LENGTH('b)"
  using that by (simp add: word_less_nat_alt unat_ucast_up)

lemma ucast_down_up: "unat x < 2 ^ LENGTH('b) \<Longrightarrow> (ucast (ucast x :: 'b :: len word) :: 'a :: len word) = x"
  by (simp add: word_unat_eq_iff unat_ucast_mod)

lemma ucast_up_down: "LENGTH('a) \<le> LENGTH('b) \<Longrightarrow> (ucast (ucast x :: 'b :: len word) :: 'a :: len word) = x"
  by (rule bit_eqI) (auto simp: bit_simps)

lemma ReadCompactSize_Write:
  assumes "range_check \<longrightarrow> unat n \<le> MAX_SIZE"
  shows "ReadCompactSize range_check (WriteCompactSize n @ r) = Inr (n, r)"
proof -
  have d: "sum_bind (ser_readdata8 (ser_writedata8 b @ t)) f = f (b, t)" for b t and f :: "_ \<Rightarrow> ser_error + u64 \<times> u8 list"
    by (simp add: ser8.unser_ser)
  consider "n < 253" | "\<not> n < 253" "n \<le> 0xffff" | "\<not> n \<le> 0xffff" "n \<le> 0xffffffff" | "\<not> n \<le> 0xffffffff" by fastforce
  then show ?thesis
  proof cases
    case 1
    then have "unat n < 253" by (simp add: word_less_nat_alt)
    then have "(ucast n :: u8) < 253" "(ucast (ucast n :: u8) :: u64) = n"
      by (simp_all add: word_less_nat_alt unat_ucast_mod ucast_down_up)
    then show ?thesis using 1 assms by (auto simp: WriteCompactSize_def ReadCompactSize_def d compact_tail_small)
  next
    case 2
    then have "unat n < 65536" by (simp add: word_le_nat_alt)
    then have "(ucast (ucast n :: u16) :: u64) = n" by (simp add: ucast_down_up)
    then show ?thesis using 2 assms
      by (auto simp: WriteCompactSize_def ReadCompactSize_def d compact_tail_def ser16.unser_ser)
  next
    case 3
    then have "unat n < 2 ^ 32" "\<not> n < 253" "\<not> n < 0x10000" by (simp_all add: word_le_nat_alt word_less_nat_alt)
    moreover from this have "(ucast (ucast n :: u32) :: u64) = n" by (simp add: ucast_down_up)
    ultimately show ?thesis using 3 assms
      by (auto simp: WriteCompactSize_def ReadCompactSize_def d compact_tail_def ser32.unser_ser)
  next
    case 4
    then have "\<not> n < 253" "\<not> n \<le> 0xffff" "\<not> n < 0x100000000"
      by (simp_all add: word_le_nat_alt word_less_nat_alt)
    then show ?thesis using 4 assms
      by (auto simp: WriteCompactSize_def ReadCompactSize_def d compact_tail_def ser64.unser_ser)
  qed
qed

lemma compact_tail_canonical:
  assumes "compact_tail c s = Inr (n, r)"
  shows "ser_writedata8 c @ s = WriteCompactSize n @ r"
proof -
  consider "c < 253" | "c = 253" | "c = 254" | "\<not> c < 253" "c \<noteq> 253" "c \<noteq> 254" by blast
  then show ?thesis
  proof cases
    case 1
    then have "n = ucast c" "s = r" "unat c < 253" using assms by (simp_all add: compact_tail_small word_less_nat_alt)
    moreover have "(ucast (ucast c :: u64) :: u8) = c" by (rule ucast_up_down) simp
    ultimately show ?thesis by (simp add: WriteCompactSize_def word_less_nat_alt)
  next
    case 2
    then obtain m where m: "s = ser_writedata16 m @ r" "n = ucast m" "\<not> n < 253"
      using assms by (auto simp: compact_tail_def sum_bind_Inr_iff ser16.reads_iff split: if_splits)
    moreover have "n \<le> 0xffff" using m(2) by (simp add: word_le_nat_alt) (use unat_less_pow [of m] in simp)
    ultimately show ?thesis using 2 by (simp add: WriteCompactSize_def ucast_up_down)
  next
    case 3
    then obtain m where m: "s = ser_writedata32 m @ r" "n = ucast m" "\<not> n < 0x10000"
      using assms by (auto simp: compact_tail_def sum_bind_Inr_iff ser32.reads_iff split: if_splits)
    moreover have "n \<le> 0xffffffff" using m(2) by (simp add: word_le_nat_alt) (use unat_less_pow [of m] in simp)
    moreover have "\<not> n < 253" "\<not> n \<le> 0xffff" using m(3) by (simp_all add: word_le_nat_alt word_less_nat_alt)
    ultimately show ?thesis using 3 by (simp add: WriteCompactSize_def ucast_up_down)
  next
    case 4
    then have c: "c = 255" using unat_u8_less [of c] by (simp add: word_less_nat_alt word_unat_eq_iff del: unat_u8_less)
    then obtain m where m: "s = ser_writedata64 n @ r" "\<not> n < 0x100000000"
      using assms by (auto simp: compact_tail_def sum_bind_Inr_iff ser64.reads_iff split: if_splits)
    then show ?thesis using c by (auto simp: WriteCompactSize_def word_le_nat_alt word_less_nat_alt)
  qed
qed

interpretation compact: codec WriteCompactSize "ReadCompactSize True" "\<lambda>n. unat n \<le> MAX_SIZE"
proof
  show "ReadCompactSize True (WriteCompactSize x @ r) = Inr (x, r)" if "unat x \<le> MAX_SIZE" for x r
    using that by (rule ReadCompactSize_Write [OF impI])
  show "unat x \<le> MAX_SIZE \<and> s = WriteCompactSize x @ r" if "ReadCompactSize True s = Inr (x, r)" for s x r
    using that compact_tail_canonical
    by (fastforce simp: ReadCompactSize_def sum_bind_Inr_iff ser8.reads_iff split: if_splits)
qed

interpretation compact64: codec WriteCompactSize "ReadCompactSize False" "\<lambda>_. True"
proof
  show "ReadCompactSize False (WriteCompactSize x @ r) = Inr (x, r)" for x r
    by (rule ReadCompactSize_Write) simp
  show "True \<and> s = WriteCompactSize x @ r" if "ReadCompactSize False s = Inr (x, r)" for s x r
    using that compact_tail_canonical by (fastforce simp: ReadCompactSize_def sum_bind_Inr_iff ser8.reads_iff)
qed

lemma length_WriteCompactSize: "length (WriteCompactSize n) = GetSizeOfCompactSize n"
  by (simp add: WriteCompactSize_def GetSizeOfCompactSize_def ser_writedata8_def ser_writedata16_def
      ser_writedata32_def ser_writedata64_def)

lemma unat_size: "n \<le> MAX_SIZE \<Longrightarrow> unat (of_nat n :: u64) = n"
  by (simp add: unat_of_nat MAX_SIZE_def)

context codec
begin

lemma vector_codec: "codec (ser_vector ser) (unser_vector unser) (\<lambda>v. length v \<le> MAX_SIZE \<and> list_all ok v)"
proof
  fix v r
  assume "length v \<le> MAX_SIZE \<and> list_all ok v"
  then show "unser_vector unser (ser_vector ser v @ r) = Inr (v, r)"
    by (simp add: unser_vector_def ser_vector_def compact.unser_ser unat_size unser_n_iff)
next
  fix s v r
  assume "unser_vector unser s = Inr (v, r)"
  then show "(length v \<le> MAX_SIZE \<and> list_all ok v) \<and> s = ser_vector ser v @ r"
    by (auto simp: unser_vector_def ser_vector_def sum_bind_Inr_iff compact.reads_iff unser_n_iff)
qed

end

interpretation bytes: codec ser_bytes unser_bytes "\<lambda>v. length v \<le> MAX_SIZE"
proof
  show "unser_bytes (ser_bytes v @ r) = Inr (v, r)" if "length v \<le> MAX_SIZE" for v r
    using that by (simp add: unser_bytes_def ser_bytes_def compact.unser_ser unat_size read_bytes_iff)
  show "length v \<le> MAX_SIZE \<and> s = ser_bytes v @ r" if "unser_bytes s = Inr (v, r)" for s v r
    using that by (auto simp: unser_bytes_def ser_bytes_def sum_bind_Inr_iff compact.reads_iff read_bytes_iff)
qed

section \<open>Variable-length integers\<close>

lemma seven_bits: "(0x7F :: 'a :: len word) = mask 7"
  by (simp add: mask_eq_exp_minus_1)

lemma le_7F_iff: "8 \<le> LENGTH('a) \<Longrightarrow> n \<le> 0x7F \<longleftrightarrow> drop_bit 7 n = (0 :: 'a :: len word)"
proof
  assume "8 \<le> LENGTH('a)"
  then have "(2 :: nat) ^ 8 \<le> 2 ^ LENGTH('a)" by (rule power_increasing) simp
  moreover assume "n \<le> 0x7F"
  ultimately have "unat n \<le> 127" by (simp add: word_le_nat_alt take_bit_eq_mod)
  then show "drop_bit 7 n = 0" by (simp add: word_unat_eq_iff unat_drop_bit)
qed (use drop_bit_7_decr(1) in blast)

lemma varint_room:
  assumes "\<not> acc > drop_bit 7 (- 1)"
  shows "take_bit (LENGTH('a) - 7) acc = (acc :: 'a :: len word)"
proof -
  have "(drop_bit 7 (- 1) :: 'a word) = mask (LENGTH('a) - 7)"
    by (rule bit_eqI) (auto simp: bit_simps)
  with assms have "acc \<le> mask (LENGTH('a) - 7)" by simp
  then have "unat acc \<le> unat (mask (LENGTH('a) - 7) :: 'a word)" by (simp only: word_le_nat_alt)
  also have "\<dots> < 2 ^ (LENGTH('a) - 7)" by (simp add: unat_take_bit flip: take_bit_minus_one_eq_mask)
  finally show ?thesis by (simp add: word_unat_eq_iff unat_take_bit)
qed

lemma varint_group:
  fixes acc :: "'a :: len word" and c :: u8
  assumes len: "8 \<le> LENGTH('a)" and room: "\<not> acc > drop_bit 7 (- 1)"
  shows "drop_bit 7 (push_bit 7 acc OR ucast (c AND 0x7F)) = acc"
    and "ucast ((push_bit 7 acc OR ucast (c AND 0x7F)) AND 0x7F) = c AND 0x7F"
proof -
  have hi: "i < LENGTH('a) - 7" if "bit acc i" for i
    using that varint_room [OF room] by (metis bit_take_bit_iff)
  show "drop_bit 7 (push_bit 7 acc OR ucast (c AND 0x7F)) = acc"
    unfolding seven_bits using len by (intro bit_eqI) (auto simp: bit_simps dest: hi)
  show "ucast ((push_bit 7 acc OR ucast (c AND 0x7F)) AND 0x7F) = c AND 0x7F"
    unfolding seven_bits using len by (intro bit_eqI) (auto simp: bit_simps)
qed

lemma bit_0x80: "bit (0x80 :: u8) i \<longleftrightarrow> i = 7"
proof -
  have "(0x80 :: u8) = push_bit 7 1" by simp
  then show ?thesis by (simp only: bit_simps) auto
qed

lemma flag_bits:
  fixes h c :: u8 and n :: "'a :: len word"
  assumes h: "\<And>i. bit h i \<longleftrightarrow> i = 7"
  shows "(ucast (n AND mask 7) OR (if more then h else 0)) AND mask 7 = ucast (n AND mask 7)"
    and "(ucast (n AND mask 7) OR (if more then h else 0)) AND h = (if more then h else 0)"
    and "(more \<longleftrightarrow> c AND h \<noteq> 0) \<Longrightarrow> c AND mask 7 OR (if more then h else 0) = c"
proof -
  show "(ucast (n AND mask 7) OR (if more then h else 0)) AND mask 7 = ucast (n AND mask 7)"
    and "(ucast (n AND mask 7) OR (if more then h else 0)) AND h = (if more then h else 0)"
    by (auto intro!: bit_eqI simp: bit_simps h)
  have "c AND h = (if bit c 7 then h else 0)" by (rule bit_eqI) (auto simp: bit_simps h)
  moreover have "h \<noteq> 0" using h [of 7] by auto
  moreover assume "more \<longleftrightarrow> c AND h \<noteq> 0"
  ultimately have "more \<longleftrightarrow> bit c 7" by auto
  moreover have "i < 8 \<longleftrightarrow> i < 7 \<or> i = 7" for i :: nat by linarith
  ultimately show "c AND mask 7 OR (if more then h else 0) = c"
    by (intro bit_eqI) (auto simp: bit_simps h)
qed

lemma varint_split:
  fixes n :: "'a :: len word"
  assumes len: "8 \<le> LENGTH('a)"
  shows "push_bit 7 (drop_bit 7 n) OR ucast ((ucast (n AND 0x7F) OR (if more then 0x80 else 0 :: u8)) AND 0x7F) = n"
    and "(ucast (n AND 0x7F) OR (if more then 0x80 else 0 :: u8)) AND 0x80 \<noteq> 0 \<longleftrightarrow> more"
    and "\<not> drop_bit 7 n > drop_bit 7 (- 1)"
proof -
  let ?b = "ucast (n AND 0x7F) OR (if more then 0x80 else 0 :: u8)"
  have low: "?b AND 0x7F = ucast (n AND 0x7F)" and high: "?b AND 0x80 = (if more then 0x80 else 0)"
    unfolding seven_bits using flag_bits(1,2) [of "0x80" n more] bit_0x80 by blast+
  have "push_bit 7 (drop_bit 7 n) OR ucast (ucast (n AND 0x7F) :: u8) = n"
    unfolding seven_bits using len by (intro bit_eqI) (auto simp: bit_simps not_less; metis le_add_diff_inverse not_less)
  then show "push_bit 7 (drop_bit 7 n) OR ucast (?b AND 0x7F) = n" by (simp only: low)
  show "?b AND 0x80 \<noteq> 0 \<longleftrightarrow> more" by (simp add: high)
  show "\<not> drop_bit 7 n > drop_bit 7 (- 1)"
  proof -
    have "unat n \<le> unat (- 1 :: 'a word)" by (simp flip: word_le_nat_alt)
    then have "unat n div 2 ^ 7 \<le> unat (- 1 :: 'a word) div 2 ^ 7" by (rule div_le_mono)
    then show ?thesis by (simp only: word_less_nat_alt unat_drop_bit not_less)
  qed
qed

lemma varint_byte:
  fixes n :: "'a :: len word"
  assumes "8 \<le> LENGTH('a)"
  shows "varint_loop (drop_bit 7 n) ((ucast (n AND 0x7F) OR (if more then 0x80 else 0)) # s) =
    (if more then (if n = - 1 then Inl SizeTooLarge else varint_loop (n + 1) s) else Inr (n, s))"
  using varint_split(1) [OF assms, of n more] varint_split(2) [OF assms, of n more] varint_split(3) [OF assms, of n] by (simp add: Let_def)

lemma varint_loop_write:
  fixes n :: "'a :: len word"
  assumes len: "8 \<le> LENGTH('a)"
  shows "varint_loop 0 (rev (varint_tmp more n) @ s) =
    (if more then (if n = - 1 then Inl SizeTooLarge else varint_loop (n + 1) s) else Inr (n, s))"
proof (induction more n arbitrary: s rule: varint_tmp.induct)
  case (1 more n)
  show ?case
  proof (cases "n \<le> 0x7F")
    case True
    then have "drop_bit 7 n = 0" using le_7F_iff [OF len] by blast
    then show ?thesis using True varint_byte [OF len, of n more s] by (subst varint_tmp.simps) simp
  next
    case False
    let ?b = "ucast (n AND 0x7F) OR (if more then 0x80 else 0 :: u8)"
    have "drop_bit 7 n - 1 \<noteq> - 1" using drop_bit_7_decr(1) [OF False] by (metis diff_0 eq_iff_diff_eq_0 diff_add_cancel)
    then have "varint_loop 0 (rev (varint_tmp True (drop_bit 7 n - 1)) @ ?b # s) = varint_loop (drop_bit 7 n) (?b # s)"
      using "1.IH" [OF False, of "?b # s"] by simp
    then show ?thesis using False varint_byte [OF len, of n more s] by (subst varint_tmp.simps) simp
  qed
qed

definition varint_pre :: "'a :: len word \<Rightarrow> u8 list" where
  "varint_pre acc = (if acc = 0 then [] else rev (varint_tmp True (acc - 1)))"

lemma varint_loop_canonical:
  fixes acc :: "'a :: len word"
  assumes len: "8 \<le> LENGTH('a)"
  shows "varint_loop acc s = Inr (n, r) \<Longrightarrow> varint_pre acc @ s = WriteVarInt n @ r"
proof (induction acc s rule: varint_loop.induct)
  case (2 acc c s)
  let ?n = "push_bit 7 acc OR ucast (c AND 0x7F)"
  from "2.prems" have room: "\<not> acc > drop_bit 7 (- 1)" by (auto split: if_splits)
  note g = varint_group [OF len room, of c]
  have step: "varint_pre acc @ [c] = rev (varint_tmp more ?n)" if "more \<longleftrightarrow> c AND 0x80 \<noteq> 0" for more
  proof -
    have "c AND 0x7F OR (if more then 0x80 else 0) = c"
      unfolding seven_bits by (rule flag_bits(3) [OF bit_0x80 that])
    then show ?thesis using le_7F_iff [OF len, of ?n] g
      by (subst varint_tmp.simps) (auto simp: varint_pre_def)
  qed
  show ?case
  proof (cases "c AND 0x80 = 0")
    case True
    then show ?thesis using "2.prems" room step [of False] by (simp add: Let_def WriteVarInt_def)
  next
    case False
    then have nm: "?n \<noteq> - 1" and rec: "varint_loop (?n + 1) s = Inr (n, r)"
      using "2.prems" room by (auto simp: Let_def split: if_splits)
    have "?n + 1 \<noteq> 0" using nm by (metis add_eq_0_iff2)
    then have "varint_pre (?n + 1) = varint_pre acc @ [c]" using step [of True] False by (simp add: varint_pre_def)
    then show ?thesis using "2.IH" [OF room refl] False nm rec by simp
  qed
qed simp

lemma varint_codec: "8 \<le> LENGTH('a) \<Longrightarrow> codec WriteVarInt ReadVarInt (\<lambda>_ :: 'a :: len word. True)"
  using varint_loop_write [of False] varint_loop_canonical [of 0]
  by unfold_locales (auto simp: WriteVarInt_def ReadVarInt_def varint_pre_def)

interpretation varint32: codec WriteVarInt ReadVarInt "\<lambda>_ :: u32. True"
  by (rule varint_codec) simp

interpretation varint64: codec WriteVarInt ReadVarInt "\<lambda>_ :: u64. True"
  by (rule varint_codec) simp

lemma length_varint_tmp: "unat n < 2 ^ (7 * k) \<Longrightarrow> 0 < k \<Longrightarrow> length (varint_tmp more n) \<le> k"
proof (induction more n arbitrary: k rule: varint_tmp.induct)
  case (1 more n)
  show ?case
  proof (cases "n \<le> 0x7F")
    case True
    then show ?thesis using "1.prems" by (subst varint_tmp.simps) simp
  next
    case False
    note d = drop_bit_7_decr(1) [OF False]
    then have u: "unat (drop_bit 7 n - 1) < unat n div 2 ^ 7"
      using unat_minus_one [of "drop_bit 7 n"] unat_eq_zero [of "drop_bit 7 n"] by (simp add: unat_drop_bit)
    obtain j where k: "k = Suc j" using "1.prems" by (cases k) auto
    have "unat n < 2 ^ 7 * 2 ^ (7 * j)" using "1.prems"(1) k by (simp add: power_add)
    then have "unat n div 2 ^ 7 < 2 ^ (7 * j)" by (simp add: less_mult_imp_div_less mult.commute)
    with u have "unat (drop_bit 7 n - 1) < 2 ^ (7 * j)" "0 < j" by (auto intro: Nat.gr0I)
    then have "length (varint_tmp True (drop_bit 7 n - 1)) \<le> j" using "1.IH" [OF False] by blast
    then show ?thesis using k by (subst varint_tmp.simps) simp
  qed
qed

section \<open>Properties\<close>

text \<open>A compact size has one encoding: the reader with the range check accepts a stream exactly
  when it starts with the writer's encoding of a number of at most \<open>MAX_SIZE\<close> and returns that number
  and the rest, so the overlong forms, the short streams and the oversized values are all refused;
  without the range check the same holds of every 64-bit number. The size the size computer adds is the
  number of bytes written.\<close>

theorem ReadCompactSize_exact:
  "(ReadCompactSize True s = Inr (n, r) \<longleftrightarrow> unat n \<le> MAX_SIZE \<and> s = WriteCompactSize n @ r)
   \<and> (ReadCompactSize False s = Inr (n, r) \<longleftrightarrow> s = WriteCompactSize n @ r)
   \<and> length (WriteCompactSize n) = GetSizeOfCompactSize n"
  by (simp add: compact.reads_iff compact64.reads_iff length_WriteCompactSize)

lemma GetSizeOfVarInt_length: "GetSizeOfVarInt n = length (varint_tmp more n)"
proof (induction n arbitrary: more rule: GetSizeOfVarInt.induct)
  case (1 n)
  then show ?case by (subst GetSizeOfVarInt.simps, subst varint_tmp.simps) simp
qed

text \<open>C27: variable-length integers are a bijection between the numbers and their encodings at both
  widths the sources use: the reader accepts exactly the writer's bytes, no overflow of the
  accumulator lets a second encoding through, and the writer's loop stays inside its temporary array of
  \<open>(sizeof(n) * 8 + 6) / 7\<close> bytes.\<close>

theorem VarInt_bijection:
  "(ReadVarInt s = Inr (n :: u64, r) \<longleftrightarrow> s = WriteVarInt n @ r)
   \<and> (ReadVarInt s = Inr (m :: u32, r) \<longleftrightarrow> s = WriteVarInt m @ r)
   \<and> GetSizeOfVarInt n = length (WriteVarInt n) \<and> length (WriteVarInt n) \<le> (8 * 8 + 6) div 7
   \<and> GetSizeOfVarInt m = length (WriteVarInt m) \<and> length (WriteVarInt m) \<le> (4 * 8 + 6) div 7"
proof -
  have "unat n < 2 ^ (7 * 10)" "unat m < 2 ^ (7 * 5)" using unat_u64_less [of n] unat_u32_less [of m] by simp_all
  then have "length (varint_tmp False n) \<le> 10" "length (varint_tmp False m) \<le> 5"
    by (auto intro: length_varint_tmp)
  then show ?thesis
    by (simp add: varint32.reads_iff varint64.reads_iff GetSizeOfVarInt_length [of _ False] WriteVarInt_def)
qed

end
