(* ===== verification/Transaction.thy ===== *)
theory Transaction
  imports Merkle Serialize ConsensusParams
begin

text \<open>
  Transactions and blocks, \<open>src/src/primitives/transaction.h\<close>, \<open>transaction.cpp\<close>,
  \<open>primitives/block.h\<close>, \<open>block.cpp\<close> and the two Merkle roots of a block in
  \<open>consensus/merkle.cpp\<close>: the classes with their wire formats, the transaction identifiers and the
  checked sum of the outputs. The \<open>const\<close> fields that cache the two hashes of a \<open>CTransaction\<close> are
  computed where they are read; amounts are integers, in the range of \<open>int64_t\<close> where the wire
  format matters. A stream's \<open>SERIALIZE_TRANSACTION_NO_WITNESS\<close> version bit is the negation of the
  argument \<open>fAllowWitness\<close>.
\<close>

section \<open>Definitions: amounts\<close>

definition COIN :: int where "COIN = 100000000"
definition MAX_MONEY :: int where "MAX_MONEY = 22024000 * COIN"
definition MoneyRange :: "int \<Rightarrow> bool" where "MoneyRange nValue \<longleftrightarrow> nValue \<ge> 0 \<and> nValue \<le> MAX_MONEY"

definition int64 :: "int \<Rightarrow> bool" where "int64 v \<longleftrightarrow> - (2 ^ 63) \<le> v \<and> v < 2 ^ 63"

section \<open>Definitions: inputs, outputs, transactions\<close>

definition NULL_INDEX :: u32 where "NULL_INDEX = 0xffffffff"

record COutPoint =
  op_hash :: uint256
  op_n :: u32

definition COutPoint_null :: COutPoint where
  "COutPoint_null = \<lparr> op_hash = replicate 32 0, op_n = NULL_INDEX \<rparr>"

definition COutPoint_IsNull :: "COutPoint \<Rightarrow> bool" where
  "COutPoint_IsNull p \<longleftrightarrow> (\<forall>b \<in> set (op_hash p). b = 0) \<and> op_n p = NULL_INDEX"

definition SEQUENCE_FINAL :: u32 where "SEQUENCE_FINAL = 0xffffffff"
definition MAX_SEQUENCE_NONFINAL :: u32 where "MAX_SEQUENCE_NONFINAL = SEQUENCE_FINAL - 1"
definition SEQUENCE_LOCKTIME_DISABLE_FLAG :: u32 where "SEQUENCE_LOCKTIME_DISABLE_FLAG = push_bit 31 1"
definition SEQUENCE_LOCKTIME_TYPE_FLAG :: u32 where "SEQUENCE_LOCKTIME_TYPE_FLAG = push_bit 22 1"
definition SEQUENCE_LOCKTIME_MASK :: u32 where "SEQUENCE_LOCKTIME_MASK = 0x0000ffff"
definition SEQUENCE_LOCKTIME_GRANULARITY :: nat where "SEQUENCE_LOCKTIME_GRANULARITY = 9"

record CTxIn =
  prevout :: COutPoint
  scriptSig :: "u8 list"
  nSequence :: u32
  scriptWitness :: "u8 list list"

record CTxOut =
  nValue :: int
  scriptPubKey :: "u8 list"

definition CTxOut_null :: CTxOut where "CTxOut_null = \<lparr> nValue = - 1, scriptPubKey = [] \<rparr>"
definition CTxOut_IsNull :: "CTxOut \<Rightarrow> bool" where "CTxOut_IsNull out \<longleftrightarrow> nValue out = - 1"

record CTransaction =
  vin :: "CTxIn list"
  vout :: "CTxOut list"
  tx_nVersion :: u32
  nLockTime :: u32

definition HasWitness :: "CTransaction \<Rightarrow> bool" where
  "HasWitness tx \<longleftrightarrow> (\<exists>i \<in> set (vin tx). scriptWitness i \<noteq> [])"

definition tx_IsNull :: "CTransaction \<Rightarrow> bool" where
  "tx_IsNull tx \<longleftrightarrow> vin tx = [] \<and> vout tx = []"

definition IsCoinBase :: "CTransaction \<Rightarrow> bool" where
  "IsCoinBase tx \<longleftrightarrow> length (vin tx) = 1 \<and> COutPoint_IsNull (prevout (vin tx ! 0))"

section \<open>Definitions: the wire format\<close>

definition ser_uint256 :: "uint256 \<Rightarrow> u8 list" where "ser_uint256 h = h"
definition unser_uint256 :: "uint256 unser" where "unser_uint256 s = read_bytes 32 s"

definition ser_int64 :: "int \<Rightarrow> u8 list" where "ser_int64 a = ser_writedata64 (of_int a)"
definition unser_int64 :: "int unser" where
  "unser_int64 s = sum_bind (ser_readdata64 s) (\<lambda>(a, s). Inr (sint a, s))"

definition ser_COutPoint :: "COutPoint \<Rightarrow> u8 list" where
  "ser_COutPoint obj = ser_uint256 (op_hash obj) @ ser_writedata32 (op_n obj)"
definition unser_COutPoint :: "COutPoint unser" where
  "unser_COutPoint s =
     sum_bind (unser_uint256 s) (\<lambda>(h, s). sum_bind (ser_readdata32 s) (\<lambda>(k, s).
       Inr (\<lparr> op_hash = h, op_n = k \<rparr>, s)))"

definition ser_CTxIn :: "CTxIn \<Rightarrow> u8 list" where
  "ser_CTxIn obj = ser_COutPoint (prevout obj) @ ser_bytes (scriptSig obj) @ ser_writedata32 (nSequence obj)"
definition unser_CTxIn :: "CTxIn unser" where
  "unser_CTxIn s =
     sum_bind (unser_COutPoint s) (\<lambda>(p, s). sum_bind (unser_bytes s) (\<lambda>(g, s).
     sum_bind (ser_readdata32 s) (\<lambda>(q, s).
       Inr (\<lparr> prevout = p, scriptSig = g, nSequence = q, scriptWitness = [] \<rparr>, s))))"

definition ser_CTxOut :: "CTxOut \<Rightarrow> u8 list" where
  "ser_CTxOut obj = ser_int64 (nValue obj) @ ser_bytes (scriptPubKey obj)"
definition unser_CTxOut :: "CTxOut unser" where
  "unser_CTxOut s =
     sum_bind (unser_int64 s) (\<lambda>(v, s). sum_bind (unser_bytes s) (\<lambda>(k, s).
       Inr (\<lparr> nValue = v, scriptPubKey = k \<rparr>, s)))"

definition ser_stack :: "u8 list list \<Rightarrow> u8 list" where "ser_stack = ser_vector ser_bytes"
definition unser_stack :: "u8 list list unser" where "unser_stack = unser_vector unser_bytes"

fun unser_witnesses :: "CTxIn list \<Rightarrow> CTxIn list unser" where
  "unser_witnesses [] s = Inr ([], s)"
| "unser_witnesses (i # ins) s =
     sum_bind (unser_stack s) (\<lambda>(w, s). sum_bind (unser_witnesses ins s) (\<lambda>(ins, s).
       Inr (i\<lparr> scriptWitness := w \<rparr> # ins, s)))"

definition SerializeTransaction :: "bool \<Rightarrow> CTransaction \<Rightarrow> u8 list" where
  "SerializeTransaction fAllowWitness tx =
     (let flags = (if fAllowWitness \<and> HasWitness tx then 1 else 0 :: u8)
      in ser_writedata32 (tx_nVersion tx)
         @ (if flags \<noteq> 0 then ser_vector ser_CTxIn [] @ ser_writedata8 flags else [])
         @ ser_vector ser_CTxIn (vin tx) @ ser_vector ser_CTxOut (vout tx)
         @ (if flags AND 1 \<noteq> 0 then concat (map (\<lambda>i. ser_stack (scriptWitness i)) (vin tx)) else [])
         @ ser_writedata32 (nLockTime tx))"

definition unser_rest :: "bool \<Rightarrow> CTxIn list \<Rightarrow> (CTxIn list \<times> CTxOut list \<times> u8) unser" where
  "unser_rest fAllowWitness ins s =
     (if length ins = 0 \<and> fAllowWitness then
        sum_bind (ser_readdata8 s) (\<lambda>(flags, s).
          if flags \<noteq> 0 then
            sum_bind (unser_vector unser_CTxIn s) (\<lambda>(ins, s).
            sum_bind (unser_vector unser_CTxOut s) (\<lambda>(outs, s). Inr ((ins, outs, flags), s)))
          else Inr ((ins, [], flags), s))
      else sum_bind (unser_vector unser_CTxOut s) (\<lambda>(outs, s). Inr ((ins, outs, 0), s)))"

definition unser_body :: "bool \<Rightarrow> (CTxIn list \<times> CTxOut list \<times> u8) unser" where
  "unser_body fAllowWitness s =
     sum_bind (unser_vector unser_CTxIn s) (\<lambda>(ins, s). unser_rest fAllowWitness ins s)"

definition unser_optional :: "bool \<Rightarrow> CTxIn list \<Rightarrow> u8 \<Rightarrow> CTxIn list unser" where
  "unser_optional fAllowWitness ins flags s =
     sum_bind (if flags AND 1 \<noteq> 0 \<and> fAllowWitness then
                 sum_bind (unser_witnesses ins s) (\<lambda>(ins, s).
                   if \<not> (\<exists>i \<in> set ins. scriptWitness i \<noteq> []) then Inl SuperfluousWitness
                   else Inr ((ins, flags XOR 1), s))
               else Inr ((ins, flags), s)) (\<lambda>((ins, flags), s).
       if flags \<noteq> 0 then Inl UnknownOptionalData else Inr (ins, s))"

definition UnserializeTransaction :: "bool \<Rightarrow> CTransaction unser" where
  "UnserializeTransaction fAllowWitness s =
     sum_bind (ser_readdata32 s) (\<lambda>(ver, s).
     sum_bind (unser_body fAllowWitness s) (\<lambda>((ins, outs, flags), s).
     sum_bind (unser_optional fAllowWitness ins flags s) (\<lambda>(ins, s).
     sum_bind (ser_readdata32 s) (\<lambda>(lock, s).
       Inr (\<lparr> vin = ins, vout = outs, tx_nVersion = ver, nLockTime = lock \<rparr>, s)))))"

section \<open>Definitions: identifiers and sums\<close>

definition SerializeHash :: "u8 list \<Rightarrow> uint256" where
  "SerializeHash obj = HashWriter_GetHash (HashWriter_write CSHA256 obj)"

definition tx_GetHash :: "CTransaction \<Rightarrow> uint256" where
  "tx_GetHash tx = SerializeHash (SerializeTransaction False tx)"

definition tx_GetWitnessHash :: "CTransaction \<Rightarrow> uint256" where
  "tx_GetWitnessHash tx = (if \<not> HasWitness tx then tx_GetHash tx else SerializeHash (SerializeTransaction True tx))"

definition GetTotalSize :: "CTransaction \<Rightarrow> nat" where
  "GetTotalSize tx = length (SerializeTransaction True tx)"

fun value_out_loop :: "int \<Rightarrow> CTxOut list \<Rightarrow> int option" where
  "value_out_loop nValueOut [] = Some nValueOut"
| "value_out_loop nValueOut (tx_out # outs) =
     (if \<not> MoneyRange (nValue tx_out) \<or> \<not> MoneyRange (nValueOut + nValue tx_out) then None
      else value_out_loop (nValueOut + nValue tx_out) outs)"

definition GetValueOut :: "CTransaction \<Rightarrow> fault + int" where
  "GetValueOut tx =
     (case value_out_loop 0 (vout tx) of
        None \<Rightarrow> Inl Uncaught
      | Some nValueOut \<Rightarrow> if MoneyRange nValueOut then Inr nValueOut else Inl AssertFailed)"

section \<open>Definitions: blocks\<close>

record CBlockHeader =
  hdr_nVersion :: u32
  hdr_hashPrevBlock :: uint256
  hdr_hashMerkleRoot :: uint256
  hdr_nTime :: u32
  hdr_nBits :: u32
  hdr_nNonce :: u32

record CBlock =
  block_header :: CBlockHeader
  vtx :: "CTransaction list"

definition CBlockHeader_null :: CBlockHeader where
  "CBlockHeader_null = \<lparr> hdr_nVersion = 0, hdr_hashPrevBlock = replicate 32 0, hdr_hashMerkleRoot = replicate 32 0,
     hdr_nTime = 0, hdr_nBits = 0, hdr_nNonce = 0 \<rparr>"

definition CBlockHeader_IsNull :: "CBlockHeader \<Rightarrow> bool" where
  "CBlockHeader_IsNull h \<longleftrightarrow> hdr_nBits h = 0"

definition ser_CBlockHeader :: "CBlockHeader \<Rightarrow> u8 list" where
  "ser_CBlockHeader obj = ser_writedata32 (hdr_nVersion obj) @ ser_uint256 (hdr_hashPrevBlock obj)
     @ ser_uint256 (hdr_hashMerkleRoot obj) @ ser_writedata32 (hdr_nTime obj) @ ser_writedata32 (hdr_nBits obj)
     @ ser_writedata32 (hdr_nNonce obj)"
definition unser_CBlockHeader :: "CBlockHeader unser" where
  "unser_CBlockHeader s =
     sum_bind (ser_readdata32 s) (\<lambda>(ver, s). sum_bind (unser_uint256 s) (\<lambda>(prev, s).
     sum_bind (unser_uint256 s) (\<lambda>(root, s). sum_bind (ser_readdata32 s) (\<lambda>(t, s).
     sum_bind (ser_readdata32 s) (\<lambda>(nb, s). sum_bind (ser_readdata32 s) (\<lambda>(nonce, s).
       Inr (\<lparr> hdr_nVersion = ver, hdr_hashPrevBlock = prev, hdr_hashMerkleRoot = root,
              hdr_nTime = t, hdr_nBits = nb, hdr_nNonce = nonce \<rparr>, s)))))))"

definition ser_CBlock :: "bool \<Rightarrow> CBlock \<Rightarrow> u8 list" where
  "ser_CBlock fAllowWitness obj =
     ser_CBlockHeader (block_header obj) @ ser_vector (SerializeTransaction fAllowWitness) (vtx obj)"
definition unser_CBlock :: "bool \<Rightarrow> CBlock unser" where
  "unser_CBlock fAllowWitness s =
     sum_bind (unser_CBlockHeader s) (\<lambda>(h, s).
     sum_bind (unser_vector (UnserializeTransaction fAllowWitness) s) (\<lambda>(txs, s).
       Inr (\<lparr> block_header = h, vtx = txs \<rparr>, s)))"

definition CBlockHeader_GetHash :: "CBlockHeader \<Rightarrow> uint256" where
  "CBlockHeader_GetHash h = SerializeHash (ser_CBlockHeader h)"

definition BlockMerkleRoot :: "d64_impl \<Rightarrow> CBlock \<Rightarrow> bool \<Rightarrow> uint256 \<times> bool" where
  "BlockMerkleRoot impl block mutated = ComputeMerkleRoot impl (map tx_GetHash (vtx block)) mutated"

definition BlockWitnessMerkleRoot :: "d64_impl \<Rightarrow> CBlock \<Rightarrow> bool \<Rightarrow> fault + uint256 \<times> bool" where
  "BlockWitnessMerkleRoot impl block mutated =
     (if vtx block = [] then Inl OutOfRange
      else Inr (ComputeMerkleRoot impl (replicate 32 0 # map tx_GetWitnessHash (tl (vtx block))) mutated))"

section \<open>What may be written\<close>

definition outpoint_ok :: "COutPoint \<Rightarrow> bool" where "outpoint_ok p \<longleftrightarrow> length (op_hash p) = 32"

definition txin_ok :: "CTxIn \<Rightarrow> bool" where
  "txin_ok i \<longleftrightarrow> outpoint_ok (prevout i) \<and> length (scriptSig i) \<le> MAX_SIZE"

definition stack_ok :: "u8 list list \<Rightarrow> bool" where
  "stack_ok w \<longleftrightarrow> length w \<le> MAX_SIZE \<and> list_all (\<lambda>v. length v \<le> MAX_SIZE) w"

definition txout_ok :: "CTxOut \<Rightarrow> bool" where
  "txout_ok x \<longleftrightarrow> int64 (nValue x) \<and> length (scriptPubKey x) \<le> MAX_SIZE"

text \<open>
  A transaction with no inputs but outputs cannot be written in the format with witnesses: its empty
  input vector is the marker of that format.
\<close>

definition tx_ok :: "bool \<Rightarrow> CTransaction \<Rightarrow> bool" where
  "tx_ok fAllowWitness tx \<longleftrightarrow> length (vin tx) \<le> MAX_SIZE \<and> length (vout tx) \<le> MAX_SIZE
     \<and> list_all (\<lambda>i. txin_ok i \<and> stack_ok (scriptWitness i)) (vin tx) \<and> list_all txout_ok (vout tx)
     \<and> (if fAllowWitness then vin tx = [] \<longrightarrow> vout tx = [] else \<not> HasWitness tx)"

definition header_ok :: "CBlockHeader \<Rightarrow> bool" where
  "header_ok h \<longleftrightarrow> length (hdr_hashPrevBlock h) = 32 \<and> length (hdr_hashMerkleRoot h) = 32"

definition block_ok :: "bool \<Rightarrow> CBlock \<Rightarrow> bool" where
  "block_ok fAllowWitness b \<longleftrightarrow> header_ok (block_header b)
     \<and> length (vtx b) \<le> MAX_SIZE \<and> list_all (tx_ok fAllowWitness) (vtx b)"

section \<open>The formatters keep the contract\<close>

lemma codec_iffI: "(\<And>s x r. unser s = Inr (x, r) \<longleftrightarrow> ok x \<and> s = ser x @ r) \<Longrightarrow> codec ser unser ok"
  by unfold_locales auto

interpretation uint256: codec ser_uint256 unser_uint256 "\<lambda>h. length h = 32"
  by (rule codec_iffI) (auto simp: ser_uint256_def unser_uint256_def read_bytes_iff)

lemma sint_of_int64: "int64 v \<Longrightarrow> sint (of_int v :: u64) = v"
  by (simp add: int64_def signed_of_int signed_take_bit_int_eq_self)

lemma int64_sint: "int64 (sint (a :: u64))"
  using sint_lt [of a] sint_ge [of a] by (simp add: int64_def)

interpretation int64: codec ser_int64 unser_int64 int64
  by (rule codec_iffI)
    (auto simp: ser_int64_def unser_int64_def sum_bind_Inr_iff ser64.reads_iff sint_of_int64 int64_sint)

interpretation outpoint: codec ser_COutPoint unser_COutPoint outpoint_ok
proof (rule codec_iffI)
  fix s x r
  show "unser_COutPoint s = Inr (x, r) \<longleftrightarrow> outpoint_ok x \<and> s = ser_COutPoint x @ r"
    by (cases x) (auto simp: unser_COutPoint_def ser_COutPoint_def outpoint_ok_def sum_bind_Inr_iff
        uint256.reads_iff ser32.reads_iff)
qed

interpretation txin: codec ser_CTxIn unser_CTxIn "\<lambda>i. txin_ok i \<and> scriptWitness i = []"
proof (rule codec_iffI)
  fix s x r
  show "unser_CTxIn s = Inr (x, r) \<longleftrightarrow> (txin_ok x \<and> scriptWitness x = []) \<and> s = ser_CTxIn x @ r"
    by (cases x) (auto simp: unser_CTxIn_def ser_CTxIn_def txin_ok_def sum_bind_Inr_iff
        outpoint.reads_iff bytes.reads_iff ser32.reads_iff)
qed

interpretation txout: codec ser_CTxOut unser_CTxOut txout_ok
proof (rule codec_iffI)
  fix s x r
  show "unser_CTxOut s = Inr (x, r) \<longleftrightarrow> txout_ok x \<and> s = ser_CTxOut x @ r"
    by (cases x) (auto simp: unser_CTxOut_def ser_CTxOut_def txout_ok_def sum_bind_Inr_iff
        int64.reads_iff bytes.reads_iff)
qed

interpretation stack: codec ser_stack unser_stack stack_ok
  using bytes.vector_codec unfolding ser_stack_def unser_stack_def stack_ok_def .

interpretation txins: codec "ser_vector ser_CTxIn" "unser_vector unser_CTxIn"
  "\<lambda>v. length v \<le> MAX_SIZE \<and> list_all (\<lambda>i. txin_ok i \<and> scriptWitness i = []) v"
  by (rule txin.vector_codec)

interpretation txouts: codec "ser_vector ser_CTxOut" "unser_vector unser_CTxOut"
  "\<lambda>v. length v \<le> MAX_SIZE \<and> list_all txout_ok v"
  by (rule txout.vector_codec)

interpretation header: codec ser_CBlockHeader unser_CBlockHeader header_ok
proof (rule codec_iffI)
  fix s x r
  show "unser_CBlockHeader s = Inr (x, r) \<longleftrightarrow> header_ok x \<and> s = ser_CBlockHeader x @ r"
    by (cases x) (auto simp: unser_CBlockHeader_def ser_CBlockHeader_def header_ok_def sum_bind_Inr_iff
        uint256.reads_iff ser32.reads_iff)
qed

definition strip :: "CTxIn \<Rightarrow> CTxIn" where
  "strip i = i\<lparr> scriptWitness := [] \<rparr>"

lemma strip_simps [simp]: "prevout (strip i) = prevout i" "scriptSig (strip i) = scriptSig i"
  "nSequence (strip i) = nSequence i" "scriptWitness (strip i) = []" "txin_ok (strip i) = txin_ok i"
  "strip (i\<lparr> scriptWitness := w \<rparr>) = strip i" "ser_CTxIn (strip i) = ser_CTxIn i"
  by (simp_all add: strip_def txin_ok_def ser_CTxIn_def)

lemma strip_id: "scriptWitness i = [] \<Longrightarrow> strip i = i"
  by (simp add: strip_def)

lemma strip_eq: "strip i = strip j \<longleftrightarrow> i = j\<lparr> scriptWitness := scriptWitness i \<rparr>"
  by (cases i; cases j) (auto simp: strip_def)

lemma ser_vector_strip [simp]: "ser_vector ser_CTxIn (map strip v) = ser_vector ser_CTxIn v"
  by (simp add: ser_vector_def comp_def)

lemma ser_vector_Nil [simp]: "ser_vector f [] = [0]"
  by (simp add: ser_vector_def WriteCompactSize_def ser_writedata8_def)

abbreviation ins_ok :: "CTxIn list \<Rightarrow> bool" where
  "ins_ok v \<equiv> length v \<le> MAX_SIZE \<and> list_all (\<lambda>i. txin_ok i \<and> scriptWitness i = []) v"

abbreviation outs_ok :: "CTxOut list \<Rightarrow> bool" where
  "outs_ok v \<equiv> length v \<le> MAX_SIZE \<and> list_all txout_ok v"

lemma unser_witnesses_iff:
  "unser_witnesses ins s = Inr (jns, r) \<longleftrightarrow> map strip jns = map strip ins
     \<and> list_all (\<lambda>i. stack_ok (scriptWitness i)) jns \<and> s = concat (map (\<lambda>i. ser_stack (scriptWitness i)) jns) @ r"
proof (induction ins arbitrary: s jns)
  case (Cons i ins)
  show ?case
  proof (cases jns)
    case (Cons j js)
    then show ?thesis using Cons.IH
      by (auto simp: sum_bind_Inr_iff stack.reads_iff strip_eq; metis CTxIn.select_convs(4) CTxIn.surjective CTxIn.update_convs(4))
  qed (auto simp: sum_bind_Inr_iff)
qed auto

lemma unser_body_plain:
  "unser_body False s = Inr ((ins, outs, flags), r)
   \<longleftrightarrow> ins_ok ins \<and> outs_ok outs \<and> flags = 0 \<and> s = ser_vector ser_CTxIn ins @ ser_vector ser_CTxOut outs @ r"
  by (auto simp: unser_body_def unser_rest_def txins.bind_iff txouts.bind_iff)

lemma unser_rest_Nil:
  "unser_rest True [] (f # s) = Inr ((ins, outs, flags), r) \<longleftrightarrow> ins_ok ins \<and> outs_ok outs \<and> flags = f
   \<and> (if f = 0 then ins = [] \<and> outs = [] \<and> s = r else s = ser_vector ser_CTxIn ins @ ser_vector ser_CTxOut outs @ r)"
  by (auto simp: unser_rest_def txins.bind_iff txouts.bind_iff ser_readdata8_def read_bytes_def)

lemma unser_rest_Cons:
  "v \<noteq> [] \<Longrightarrow> unser_rest True v s = Inr ((ins, outs, flags), r)
   \<longleftrightarrow> ins = v \<and> outs_ok outs \<and> flags = 0 \<and> s = ser_vector ser_CTxOut outs @ r"
  by (auto simp: unser_rest_def txouts.bind_iff)

lemma unser_body_extended:
  "unser_body True s = Inr ((ins, outs, flags), r) \<longleftrightarrow> ins_ok ins \<and> outs_ok outs
   \<and> (if flags \<noteq> 0 then s = 0 # flags # ser_vector ser_CTxIn ins @ ser_vector ser_CTxOut outs @ r
      else (ins = [] \<longrightarrow> outs = []) \<and> s = ser_vector ser_CTxIn ins @ ser_vector ser_CTxOut outs @ r)"
    (is "?L \<longleftrightarrow> ?R")
proof
  assume ?L
  then obtain v t where v: "ins_ok v" "s = ser_vector ser_CTxIn v @ t"
    and k: "unser_rest True v t = Inr ((ins, outs, flags), r)"
    by (auto simp: unser_body_def txins.bind_iff)
  show ?R
  proof (cases "v = []")
    case True
    with k obtain f u where "t = f # u" by (cases t) (auto simp: unser_rest_def ser_readdata8_def read_bytes_def)
    then show ?thesis using k v True by (auto simp: unser_rest_Nil)
  next
    case False
    then show ?thesis using v k by (auto simp: unser_rest_Cons)
  qed
next
  assume R: ?R
  have "unser_body True (ser_vector ser_CTxIn v @ t) = unser_rest True v t" if "ins_ok v" for v t
    using that by (simp add: unser_body_def txins.unser_ser)
  from this [of ins] this [of "[]"] show ?L using R
    by (cases "flags = 0"; cases "ins = []") (simp_all add: unser_rest_Nil unser_rest_Cons)
qed

lemma flag_byte: "(f :: u8) XOR 1 = 0 \<longleftrightarrow> f = 1"
proof
  assume "f XOR 1 = 0"
  then have "(f XOR 1) XOR 1 = 0 XOR 1" by (rule arg_cong [where f = "\<lambda>x. x XOR 1"])
  then show "f = 1" by (simp only: xor.assoc xor_self_eq xor.right_neutral xor.left_neutral)
qed simp

lemma strip_same: "strip i = i \<longleftrightarrow> scriptWitness i = []"
  by (metis strip_id strip_simps(4))

lemma HasWitness_strip: "\<not> HasWitness tx \<longleftrightarrow> map strip (vin tx) = vin tx"
  using map_eq_conv [of strip "vin tx" "\<lambda>i. i"] by (simp add: HasWitness_def strip_same)

lemma unser_optional_0 [simp]: "unser_optional w ins 0 t = Inr (ins, t)"
  by (simp add: unser_optional_def)

lemma unser_optional_1:
  "unser_optional True jns 1 t = Inr (ins, r) \<longleftrightarrow> unser_witnesses jns t = Inr (ins, r) \<and> (\<exists>i \<in> set ins. scriptWitness i \<noteq> [])"
  by (auto simp: unser_optional_def sum_bind_Inr_iff split: if_splits)

lemma unser_optional_other:
  assumes "f \<noteq> 0" "f \<noteq> 1"
  shows "unser_optional w jns f t \<noteq> Inr x"
  using assms by (auto simp: unser_optional_def sum_bind_Inr_iff flag_byte split: if_splits)

lemma tx_fields: "tx = \<lparr> vin = a, vout = b, tx_nVersion = c, nLockTime = d \<rparr>
  \<longleftrightarrow> vin tx = a \<and> vout tx = b \<and> tx_nVersion tx = c \<and> nLockTime tx = d"
  by (cases tx) auto

lemma UnserializeTransaction_steps:
  "UnserializeTransaction w s = Inr (tx, r) \<longleftrightarrow>
   (\<exists>t jns flags u. s = ser_writedata32 (tx_nVersion tx) @ t \<and> unser_body w t = Inr ((jns, vout tx, flags), u)
      \<and> unser_optional w jns flags u = Inr (vin tx, ser_writedata32 (nLockTime tx) @ r))"
  by (auto simp: UnserializeTransaction_def ser32.reads_iff sum_bind_Inr_iff tx_fields eq_commute [of _ tx]) blast

lemma UnserializeTransaction_plain:
  "UnserializeTransaction False s = Inr (tx, r) \<longleftrightarrow> tx_ok False tx \<and> s = SerializeTransaction False tx @ r"
proof -
  have "list_all (\<lambda>i. txin_ok i \<and> stack_ok (scriptWitness i)) (vin tx) \<and> \<not> HasWitness tx
    \<longleftrightarrow> list_all (\<lambda>i. txin_ok i \<and> scriptWitness i = []) (vin tx)"
    by (auto simp: list_all_iff stack_ok_def HasWitness_def)
  then show ?thesis
    by (auto simp: UnserializeTransaction_steps SerializeTransaction_def tx_ok_def unser_body_plain)
qed

lemma ins_ok_strip: "ins_ok (map strip v) \<longleftrightarrow> length v \<le> MAX_SIZE \<and> list_all txin_ok v"
  by (auto simp: list_all_iff)

lemma unser_body_ins: "unser_body True t = Inr ((jns, outs, flags), u) \<Longrightarrow> map strip jns = jns"
  by (auto simp: unser_body_extended list_all_iff strip_same intro: map_idI)

lemma unserialize_without_witness:
  assumes "\<not> HasWitness tx"
  shows "UnserializeTransaction True s = Inr (tx, r) \<longleftrightarrow> (\<exists>t. s = ser_writedata32 (tx_nVersion tx) @ t
      \<and> unser_body True t = Inr ((vin tx, vout tx, 0), ser_writedata32 (nLockTime tx) @ r))"
proof -
  have "unser_optional True jns flags u = Inr (vin tx, x) \<longleftrightarrow> flags = 0 \<and> jns = vin tx \<and> u = x" for jns flags u x
    using assms unser_optional_other [of flags True jns u] unser_optional_1 [of jns u "vin tx" x]
    by (cases "flags = 0"; cases "flags = 1") (auto simp: HasWitness_def)
  then show ?thesis by (simp only: UnserializeTransaction_steps) auto
qed

lemma unserialize_with_witness:
  assumes "HasWitness tx"
  shows "UnserializeTransaction True s = Inr (tx, r) \<longleftrightarrow> (\<exists>t. s = ser_writedata32 (tx_nVersion tx) @ t
      \<and> unser_body True t = Inr ((map strip (vin tx), vout tx, 1),
            concat (map (\<lambda>i. ser_stack (scriptWitness i)) (vin tx)) @ ser_writedata32 (nLockTime tx) @ r)
      \<and> list_all (\<lambda>i. stack_ok (scriptWitness i)) (vin tx))"
proof -
  have "unser_body True t = Inr ((jns, outs, flags), u) \<and> unser_optional True jns flags u = Inr (vin tx, x)
    \<longleftrightarrow> unser_body True t = Inr ((jns, outs, flags), u) \<and> flags = 1 \<and> jns = map strip (vin tx)
      \<and> list_all (\<lambda>i. stack_ok (scriptWitness i)) (vin tx) \<and> u = concat (map (\<lambda>i. ser_stack (scriptWitness i)) (vin tx)) @ x"
    for t jns outs flags u x
  proof (cases "unser_body True t = Inr ((jns, outs, flags), u)")
    case True
    note s = unser_body_ins [OF True]
    have n: "jns \<noteq> vin tx" using assms s HasWitness_strip [of tx] by auto
    show ?thesis using True n s assms unser_optional_other [of flags True jns u] unser_optional_1 [of jns u "vin tx" x]
      by (cases "flags = 0"; cases "flags = 1") (auto simp: HasWitness_def unser_witnesses_iff)
  qed simp
  then show ?thesis by (simp only: UnserializeTransaction_steps) auto
qed

lemma UnserializeTransaction_extended:
  "UnserializeTransaction True s = Inr (tx, r) \<longleftrightarrow> tx_ok True tx \<and> s = SerializeTransaction True tx @ r"
proof (cases "HasWitness tx")
  case False
  have "list_all (\<lambda>i. txin_ok i \<and> stack_ok (scriptWitness i)) (vin tx)
    \<longleftrightarrow> list_all (\<lambda>i. txin_ok i \<and> scriptWitness i = []) (vin tx)"
    using False by (auto simp: list_all_iff stack_ok_def HasWitness_def)
  then show ?thesis using False
    by (auto simp: unserialize_without_witness SerializeTransaction_def tx_ok_def unser_body_extended)
next
  case True
  then have "vin tx \<noteq> []" by (auto simp: HasWitness_def)
  then show ?thesis using True
    by (auto simp: unserialize_with_witness SerializeTransaction_def tx_ok_def unser_body_extended ins_ok_strip
        list_all_iff ser_writedata8_def)
qed

interpretation tx: codec "SerializeTransaction w" "UnserializeTransaction w" "tx_ok w" for w
  by (rule codec_iffI, cases w) (simp_all add: UnserializeTransaction_extended UnserializeTransaction_plain)

interpretation txs: codec "ser_vector (SerializeTransaction w)" "unser_vector (UnserializeTransaction w)"
  "\<lambda>v. length v \<le> MAX_SIZE \<and> list_all (tx_ok w) v" for w
  by (rule tx.vector_codec)

interpretation block: codec "ser_CBlock w" "unser_CBlock w" "block_ok w" for w
proof (rule codec_iffI)
  fix s x r
  show "unser_CBlock w s = Inr (x, r) \<longleftrightarrow> block_ok w x \<and> s = ser_CBlock w x @ r"
    by (cases x) (auto simp: unser_CBlock_def ser_CBlock_def block_ok_def sum_bind_Inr_iff
        header.reads_iff txs.reads_iff)
qed

section \<open>Identifiers\<close>

lemma SerializeHash_value [simp]: "SerializeHash obj = sha256d obj"
  using hash256_stream.one_write [of obj]
  by (simp add: SerializeHash_def HashWriter_GetHash_eq HashWriter_write_eq CHash256_Write_def)

text \<open>A transaction without its witnesses, what its identifier commits to.\<close>

definition base_tx :: "CTransaction \<Rightarrow> CTransaction" where
  "base_tx tx = tx\<lparr> vin := map strip (vin tx) \<rparr>"

lemma base_tx_simps [simp]: "vin (base_tx tx) = map strip (vin tx)" "vout (base_tx tx) = vout tx"
  "tx_nVersion (base_tx tx) = tx_nVersion tx" "nLockTime (base_tx tx) = nLockTime tx" "\<not> HasWitness (base_tx tx)"
  by (auto simp: base_tx_def HasWitness_def)

lemma ser_base_tx: "SerializeTransaction False (base_tx tx) = SerializeTransaction False tx"
  by (simp add: SerializeTransaction_def)

lemma tx_ok_base: "tx_ok w tx \<Longrightarrow> tx_ok False (base_tx tx)"
  by (auto simp: tx_ok_def list_all_iff stack_ok_def)

lemma base_inj: "tx_ok w a \<Longrightarrow> tx_ok w' b \<Longrightarrow> SerializeTransaction False a = SerializeTransaction False b \<longleftrightarrow> base_tx a = base_tx b"
  by (metis ser_base_tx tx.ser_inj tx_ok_base)

lemma no_witness_ser: "\<not> HasWitness tx \<Longrightarrow> SerializeTransaction True tx = SerializeTransaction False tx"
  by (simp add: SerializeTransaction_def)

lemma tx_GetWitnessHash_value: "tx_GetWitnessHash tx = sha256d (SerializeTransaction True tx)"
  by (simp add: tx_GetWitnessHash_def tx_GetHash_def no_witness_ser)

lemma map_clash:
  assumes "length xs = length ys" "\<not> clash (map f xs) (map f ys)" "map (\<lambda>x. sha256d (f x)) xs = map (\<lambda>y. sha256d (f y)) ys"
  shows "map f xs = map f ys"
  using assms by (induction xs ys rule: list_induct2) (auto simp: clash_def)

definition block_inputs :: "CBlock \<Rightarrow> u8 list list" where
  "block_inputs b = ser_CBlockHeader (block_header b) # merkle_inputs (map tx_GetHash (vtx b)) @
     map (SerializeTransaction False) (vtx b)"

lemma tx_GetHash_fun: "tx_GetHash = (\<lambda>tx. sha256d (SerializeTransaction False tx))"
  by (simp add: fun_eq_iff tx_GetHash_def)

lemma all32_txids: "all32 (map tx_GetHash txs)"
  by (simp add: all32_def tx_GetHash_def)

lemma txids_inj:
  assumes "list_all (tx_ok w) xs" "list_all (tx_ok w) ys" "map tx_GetHash xs = map tx_GetHash ys"
    "\<not> clash (map (SerializeTransaction False) xs) (map (SerializeTransaction False) ys)"
  shows "map base_tx xs = map base_tx ys"
proof -
  have len: "length xs = length ys" using assms(3) by (rule map_eq_imp_length_eq)
  have "map (SerializeTransaction False) xs = map (SerializeTransaction False) ys"
    using map_clash [OF len assms(4)] assms(3) unfolding tx_GetHash_fun by blast
  with len assms(1,2) show ?thesis
    by (induction xs ys rule: list_induct2) (auto dest: base_inj)
qed

section \<open>Sums\<close>

lemma value_out_loop_value:
  "0 \<le> a \<Longrightarrow> value_out_loop a outs =
     (if list_all (\<lambda>x. MoneyRange (nValue x)) outs \<and> (outs = [] \<or> a + sum_list (map nValue outs) \<le> MAX_MONEY)
      then Some (a + sum_list (map nValue outs)) else None)"
proof (induction outs arbitrary: a)
  case (Cons x outs)
  have pos: "list_all (\<lambda>x. MoneyRange (nValue x)) outs \<Longrightarrow> 0 \<le> sum_list (map nValue outs)"
    by (induction outs) (auto simp: MoneyRange_def)
  show ?case
  proof (cases "MoneyRange (nValue x) \<and> MoneyRange (a + nValue x)")
    case True
    then have "value_out_loop a (x # outs) = value_out_loop (a + nValue x) outs" by simp
    also have "\<dots> = (if list_all (\<lambda>x. MoneyRange (nValue x)) outs \<and> (outs = [] \<or> a + nValue x + sum_list (map nValue outs) \<le> MAX_MONEY)
      then Some (a + nValue x + sum_list (map nValue outs)) else None)"
      using Cons.IH True by (simp add: MoneyRange_def)
    finally show ?thesis using True by (auto simp: MoneyRange_def)
  next
    case False
    then have "value_out_loop a (x # outs) = None" by auto
    then show ?thesis using False pos Cons.prems by (auto simp: MoneyRange_def)
  qed
qed simp

section \<open>Properties\<close>

text \<open>C28: the wire formats are exact. With and without witnesses, the reader accepts a byte stream
  exactly when it starts with the bytes the writer produces for a transaction (or a block) that may be
  written, and returns that transaction and the rest of the stream. So writing and reading back is the
  identity, every value has one encoding, and a superfluous witness record, unknown optional data, an
  overlong length or a truncated stream is refused.\<close>

theorem wire_format_exact:
  "(UnserializeTransaction w s = Inr (tx, r) \<longleftrightarrow> tx_ok w tx \<and> s = SerializeTransaction w tx @ r)
   \<and> (unser_CBlock w s = Inr (b, r) \<longleftrightarrow> block_ok w b \<and> s = ser_CBlock w b @ r)"
  by (simp add: tx.reads_iff block.reads_iff)

text \<open>C29: a transaction identifier commits to everything but the witnesses, and to nothing of them;
  the witness identifier commits to everything. Two transactions that may be written have the same
  identifier exactly when they agree once the witnesses are removed, or their two serializations clash
  under double SHA-256; they have the same witness identifier exactly when they are equal or their full
  serializations clash.\<close>

theorem txid_commits:
  assumes "tx_ok True a" "tx_ok True b"
  shows "(tx_GetHash a = tx_GetHash b \<longleftrightarrow>
      base_tx a = base_tx b \<or> clash [SerializeTransaction False a] [SerializeTransaction False b])
    \<and> (tx_GetWitnessHash a = tx_GetWitnessHash b \<longleftrightarrow>
      a = b \<or> clash [SerializeTransaction True a] [SerializeTransaction True b])"
  using base_inj [OF assms] tx.ser_inj [OF assms]
  by (auto simp: tx_GetHash_def tx_GetWitnessHash_value clash_def)

abbreviation sample_tx :: "u8 list list \<Rightarrow> CTransaction" where
  "sample_tx w \<equiv> \<lparr> vin = [\<lparr> prevout = COutPoint_null, scriptSig = [0x51], nSequence = SEQUENCE_FINAL, scriptWitness = w \<rparr>],
     vout = [\<lparr> nValue = 50 * COIN, scriptPubKey = [0x51] \<rparr>], tx_nVersion = 2, nLockTime = 0 \<rparr>"

lemma sample_tx_ok: "stack_ok w \<Longrightarrow> tx_ok True (sample_tx w)"
  by (simp add: tx_ok_def txin_ok_def outpoint_ok_def txout_ok_def int64_def COIN_def COutPoint_null_def MAX_SIZE_def)

text \<open>Two transactions that differ in the witness only have one identifier.\<close>

theorem txid_commits_witness:
  "sample_tx [] \<noteq> sample_tx [[7]] \<and> tx_GetHash (sample_tx []) = tx_GetHash (sample_tx [[7]])"
  using txid_commits [OF sample_tx_ok sample_tx_ok, of "[]" "[[7]]"]
  by (simp add: stack_ok_def MAX_SIZE_def base_tx_def strip_def)

text \<open>C30: the hash of a block header commits to the transactions of the block. If two well-formed blocks, neither
  without transactions, have the same header hash, each header holds the root that \<open>BlockMerkleRoot\<close> computes without reporting a
  mutation, and the two transaction trees have the same depth, then the headers are equal and the
  transactions agree one by one except for witnesses, or two different strings hashed on the way
  clash.\<close>

theorem block_hash_commits:
  assumes "impl_ok impl" "block_ok w b1" "block_ok w b2" "vtx b1 \<noteq> []" "vtx b2 \<noteq> []"
    and "merkle_depth (length (vtx b1)) = merkle_depth (length (vtx b2))"
    and "BlockMerkleRoot impl b1 True = (hdr_hashMerkleRoot (block_header b1), False)"
    and "BlockMerkleRoot impl b2 True = (hdr_hashMerkleRoot (block_header b2), False)"
    and "CBlockHeader_GetHash (block_header b1) = CBlockHeader_GetHash (block_header b2)"
  shows "block_header b1 = block_header b2 \<and> map base_tx (vtx b1) = map base_tx (vtx b2)
    \<or> clash (block_inputs b1) (block_inputs b2)"
proof (rule disjCI)
  let ?t1 = "map tx_GetHash (vtx b1)" and ?t2 = "map tx_GetHash (vtx b2)"
  assume "\<not> clash (block_inputs b1) (block_inputs b2)"
  then have nc: "\<not> clash [ser_CBlockHeader (block_header b1)] [ser_CBlockHeader (block_header b2)]"
    "\<not> clash (merkle_inputs ?t1) (merkle_inputs ?t2)"
    "\<not> clash (map (SerializeTransaction False) (vtx b1)) (map (SerializeTransaction False) (vtx b2))"
    by (auto simp: clash_def block_inputs_def)
  have h: "block_header b1 = block_header b2"
    using nc(1) assms(2,3,9) header.ser_inj by (auto simp: clash_def CBlockHeader_GetHash_def block_ok_def)
  have loops: "merkle_loop impl True ?t1 False = ([hdr_hashMerkleRoot (block_header b1)], False)"
    "merkle_loop impl True ?t2 False = ([hdr_hashMerkleRoot (block_header b1)], False)"
    using assms(4,5,7,8) h ComputeMerkleRoot_loop by (simp_all add: BlockMerkleRoot_def)
  have "?t1 = ?t2"
    by (rule merkle_loop_inj [OF assms(1) nc(2) all32_txids all32_txids _ _ _ loops]) (use assms(4-6) in simp_all)
  then show "block_header b1 = block_header b2 \<and> map base_tx (vtx b1) = map base_tx (vtx b2)"
    using h txids_inj [OF _ _ _ nc(3), of w] assms(2,3) by (simp add: block_ok_def)
qed

abbreviation sample_block :: "u8 list list \<Rightarrow> CBlock" where
  "sample_block w \<equiv> \<lparr> block_header = CBlockHeader_null\<lparr> hdr_hashMerkleRoot := tx_GetHash (sample_tx w) \<rparr>, vtx = [sample_tx w] \<rparr>"

lemma sample_block_ok: "stack_ok w \<Longrightarrow> block_ok True (sample_block w)"
  using sample_tx_ok [of w]
  by (simp add: block_ok_def header_ok_def CBlockHeader_null_def MAX_SIZE_def tx_GetHash_def)

lemma sample_block_root: "BlockMerkleRoot impl (sample_block w) True = (tx_GetHash (sample_tx w), False)"
  by (simp add: BlockMerkleRoot_def ComputeMerkleRoot_def merkle_loop.simps)

lemma sample_tx_hash: "tx_GetHash (sample_tx w) = tx_GetHash (sample_tx [])"
  using ser_base_tx [of "sample_tx w"] ser_base_tx [of "sample_tx []"]
  by (simp add: tx_GetHash_def base_tx_def strip_def)

text \<open>Two blocks with one header hash whose transactions differ in a witness.\<close>

theorem block_hash_commits_witness:
  "vtx (sample_block []) \<noteq> vtx (sample_block [[7]]) \<and>
   CBlockHeader_GetHash (block_header (sample_block [])) = CBlockHeader_GetHash (block_header (sample_block [[7]])) \<and>
   (map base_tx (vtx (sample_block [])) = map base_tx (vtx (sample_block [[7]]))
    \<or> clash (block_inputs (sample_block [])) (block_inputs (sample_block [[7]])))"
  using block_hash_commits [OF default_impl_ok sample_block_ok sample_block_ok, of "[]" "[[7]]"]
    sample_block_root sample_tx_hash [of "[[7]]"]
  by (simp add: stack_ok_def MAX_SIZE_def)

text \<open>\<open>GetValueOut\<close> returns the sum of the outputs when every output is a valid amount and the sum
  is, and throws otherwise. Its final assertion cannot fail.\<close>

theorem GetValueOut_exact:
  "GetValueOut tx =
     (if list_all (\<lambda>x. MoneyRange (nValue x)) (vout tx) \<and> sum_list (map nValue (vout tx)) \<le> MAX_MONEY
      then Inr (sum_list (map nValue (vout tx))) else Inl Uncaught)"
proof -
  have "list_all (\<lambda>x. MoneyRange (nValue x)) outs \<Longrightarrow> 0 \<le> sum_list (map nValue outs)" for outs
    by (induction outs) (auto simp: MoneyRange_def)
  moreover have "0 \<le> MAX_MONEY" by (simp add: MAX_MONEY_def COIN_def)
  ultimately show ?thesis by (auto simp: GetValueOut_def value_out_loop_value MoneyRange_def)
qed

end
