(* ===== verification/Script.thy ===== *)
theory Script
  imports Hash
begin

text \<open>
  Scripts, \<open>src/src/script/script.h\<close> and \<open>src/src/script/script.cpp\<close>: opcodes, script
  numbers, building and parsing of scripts, signature operation counts and the script patterns
  of pay-to-script-hash and witness programs. A script is its list of bytes; an iterator into a
  script is the list of bytes that are left.
\<close>

section \<open>Constants and opcodes\<close>

definition MAX_SCRIPT_ELEMENT_SIZE :: nat where "MAX_SCRIPT_ELEMENT_SIZE = 520"
definition MAX_OPS_PER_SCRIPT :: int where "MAX_OPS_PER_SCRIPT = 201"
definition MAX_PUBKEYS_PER_MULTISIG :: int where "MAX_PUBKEYS_PER_MULTISIG = 20"
definition MAX_SCRIPT_SIZE :: nat where "MAX_SCRIPT_SIZE = 10000"
definition MAX_STACK_SIZE :: nat where "MAX_STACK_SIZE = 1000"
definition LOCKTIME_THRESHOLD :: int where "LOCKTIME_THRESHOLD = 500000000"
definition ANNEX_TAG :: u8 where "ANNEX_TAG = 0x50"
definition VALIDATION_WEIGHT_PER_SIGOP_PASSED :: int where "VALIDATION_WEIGHT_PER_SIGOP_PASSED = 50"
definition VALIDATION_WEIGHT_OFFSET :: int where "VALIDATION_WEIGHT_OFFSET = 50"

type_synonym valtype = "u8 list"
type_synonym CScript = "u8 list"

text \<open>An opcode is one byte of a script; the enumerators are names for bytes.\<close>

type_synonym opcodetype = u8

abbreviation (input) OP_0 :: opcodetype where "OP_0 \<equiv> 0x00"
abbreviation (input) OP_FALSE :: opcodetype where "OP_FALSE \<equiv> 0x00"
abbreviation (input) OP_PUSHDATA1 :: opcodetype where "OP_PUSHDATA1 \<equiv> 0x4c"
abbreviation (input) OP_PUSHDATA2 :: opcodetype where "OP_PUSHDATA2 \<equiv> 0x4d"
abbreviation (input) OP_PUSHDATA4 :: opcodetype where "OP_PUSHDATA4 \<equiv> 0x4e"
abbreviation (input) OP_1NEGATE :: opcodetype where "OP_1NEGATE \<equiv> 0x4f"
abbreviation (input) OP_RESERVED :: opcodetype where "OP_RESERVED \<equiv> 0x50"
abbreviation (input) OP_1 :: opcodetype where "OP_1 \<equiv> 0x51"
abbreviation (input) OP_TRUE :: opcodetype where "OP_TRUE \<equiv> 0x51"
abbreviation (input) OP_2 :: opcodetype where "OP_2 \<equiv> 0x52"
abbreviation (input) OP_3 :: opcodetype where "OP_3 \<equiv> 0x53"
abbreviation (input) OP_4 :: opcodetype where "OP_4 \<equiv> 0x54"
abbreviation (input) OP_5 :: opcodetype where "OP_5 \<equiv> 0x55"
abbreviation (input) OP_6 :: opcodetype where "OP_6 \<equiv> 0x56"
abbreviation (input) OP_7 :: opcodetype where "OP_7 \<equiv> 0x57"
abbreviation (input) OP_8 :: opcodetype where "OP_8 \<equiv> 0x58"
abbreviation (input) OP_9 :: opcodetype where "OP_9 \<equiv> 0x59"
abbreviation (input) OP_10 :: opcodetype where "OP_10 \<equiv> 0x5a"
abbreviation (input) OP_11 :: opcodetype where "OP_11 \<equiv> 0x5b"
abbreviation (input) OP_12 :: opcodetype where "OP_12 \<equiv> 0x5c"
abbreviation (input) OP_13 :: opcodetype where "OP_13 \<equiv> 0x5d"
abbreviation (input) OP_14 :: opcodetype where "OP_14 \<equiv> 0x5e"
abbreviation (input) OP_15 :: opcodetype where "OP_15 \<equiv> 0x5f"
abbreviation (input) OP_16 :: opcodetype where "OP_16 \<equiv> 0x60"
abbreviation (input) OP_NOP :: opcodetype where "OP_NOP \<equiv> 0x61"
abbreviation (input) OP_VER :: opcodetype where "OP_VER \<equiv> 0x62"
abbreviation (input) OP_IF :: opcodetype where "OP_IF \<equiv> 0x63"
abbreviation (input) OP_NOTIF :: opcodetype where "OP_NOTIF \<equiv> 0x64"
abbreviation (input) OP_VERIF :: opcodetype where "OP_VERIF \<equiv> 0x65"
abbreviation (input) OP_VERNOTIF :: opcodetype where "OP_VERNOTIF \<equiv> 0x66"
abbreviation (input) OP_ELSE :: opcodetype where "OP_ELSE \<equiv> 0x67"
abbreviation (input) OP_ENDIF :: opcodetype where "OP_ENDIF \<equiv> 0x68"
abbreviation (input) OP_VERIFY :: opcodetype where "OP_VERIFY \<equiv> 0x69"
abbreviation (input) OP_RETURN :: opcodetype where "OP_RETURN \<equiv> 0x6a"
abbreviation (input) OP_TOALTSTACK :: opcodetype where "OP_TOALTSTACK \<equiv> 0x6b"
abbreviation (input) OP_FROMALTSTACK :: opcodetype where "OP_FROMALTSTACK \<equiv> 0x6c"
abbreviation (input) OP_2DROP :: opcodetype where "OP_2DROP \<equiv> 0x6d"
abbreviation (input) OP_2DUP :: opcodetype where "OP_2DUP \<equiv> 0x6e"
abbreviation (input) OP_3DUP :: opcodetype where "OP_3DUP \<equiv> 0x6f"
abbreviation (input) OP_2OVER :: opcodetype where "OP_2OVER \<equiv> 0x70"
abbreviation (input) OP_2ROT :: opcodetype where "OP_2ROT \<equiv> 0x71"
abbreviation (input) OP_2SWAP :: opcodetype where "OP_2SWAP \<equiv> 0x72"
abbreviation (input) OP_IFDUP :: opcodetype where "OP_IFDUP \<equiv> 0x73"
abbreviation (input) OP_DEPTH :: opcodetype where "OP_DEPTH \<equiv> 0x74"
abbreviation (input) OP_DROP :: opcodetype where "OP_DROP \<equiv> 0x75"
abbreviation (input) OP_DUP :: opcodetype where "OP_DUP \<equiv> 0x76"
abbreviation (input) OP_NIP :: opcodetype where "OP_NIP \<equiv> 0x77"
abbreviation (input) OP_OVER :: opcodetype where "OP_OVER \<equiv> 0x78"
abbreviation (input) OP_PICK :: opcodetype where "OP_PICK \<equiv> 0x79"
abbreviation (input) OP_ROLL :: opcodetype where "OP_ROLL \<equiv> 0x7a"
abbreviation (input) OP_ROT :: opcodetype where "OP_ROT \<equiv> 0x7b"
abbreviation (input) OP_SWAP :: opcodetype where "OP_SWAP \<equiv> 0x7c"
abbreviation (input) OP_TUCK :: opcodetype where "OP_TUCK \<equiv> 0x7d"
abbreviation (input) OP_CAT :: opcodetype where "OP_CAT \<equiv> 0x7e"
abbreviation (input) OP_SUBSTR :: opcodetype where "OP_SUBSTR \<equiv> 0x7f"
abbreviation (input) OP_LEFT :: opcodetype where "OP_LEFT \<equiv> 0x80"
abbreviation (input) OP_RIGHT :: opcodetype where "OP_RIGHT \<equiv> 0x81"
abbreviation (input) OP_SIZE :: opcodetype where "OP_SIZE \<equiv> 0x82"
abbreviation (input) OP_INVERT :: opcodetype where "OP_INVERT \<equiv> 0x83"
abbreviation (input) OP_AND :: opcodetype where "OP_AND \<equiv> 0x84"
abbreviation (input) OP_OR :: opcodetype where "OP_OR \<equiv> 0x85"
abbreviation (input) OP_XOR :: opcodetype where "OP_XOR \<equiv> 0x86"
abbreviation (input) OP_EQUAL :: opcodetype where "OP_EQUAL \<equiv> 0x87"
abbreviation (input) OP_EQUALVERIFY :: opcodetype where "OP_EQUALVERIFY \<equiv> 0x88"
abbreviation (input) OP_RESERVED1 :: opcodetype where "OP_RESERVED1 \<equiv> 0x89"
abbreviation (input) OP_RESERVED2 :: opcodetype where "OP_RESERVED2 \<equiv> 0x8a"
abbreviation (input) OP_1ADD :: opcodetype where "OP_1ADD \<equiv> 0x8b"
abbreviation (input) OP_1SUB :: opcodetype where "OP_1SUB \<equiv> 0x8c"
abbreviation (input) OP_2MUL :: opcodetype where "OP_2MUL \<equiv> 0x8d"
abbreviation (input) OP_2DIV :: opcodetype where "OP_2DIV \<equiv> 0x8e"
abbreviation (input) OP_NEGATE :: opcodetype where "OP_NEGATE \<equiv> 0x8f"
abbreviation (input) OP_ABS :: opcodetype where "OP_ABS \<equiv> 0x90"
abbreviation (input) OP_NOT :: opcodetype where "OP_NOT \<equiv> 0x91"
abbreviation (input) OP_0NOTEQUAL :: opcodetype where "OP_0NOTEQUAL \<equiv> 0x92"
abbreviation (input) OP_ADD :: opcodetype where "OP_ADD \<equiv> 0x93"
abbreviation (input) OP_SUB :: opcodetype where "OP_SUB \<equiv> 0x94"
abbreviation (input) OP_MUL :: opcodetype where "OP_MUL \<equiv> 0x95"
abbreviation (input) OP_DIV :: opcodetype where "OP_DIV \<equiv> 0x96"
abbreviation (input) OP_MOD :: opcodetype where "OP_MOD \<equiv> 0x97"
abbreviation (input) OP_LSHIFT :: opcodetype where "OP_LSHIFT \<equiv> 0x98"
abbreviation (input) OP_RSHIFT :: opcodetype where "OP_RSHIFT \<equiv> 0x99"
abbreviation (input) OP_BOOLAND :: opcodetype where "OP_BOOLAND \<equiv> 0x9a"
abbreviation (input) OP_BOOLOR :: opcodetype where "OP_BOOLOR \<equiv> 0x9b"
abbreviation (input) OP_NUMEQUAL :: opcodetype where "OP_NUMEQUAL \<equiv> 0x9c"
abbreviation (input) OP_NUMEQUALVERIFY :: opcodetype where "OP_NUMEQUALVERIFY \<equiv> 0x9d"
abbreviation (input) OP_NUMNOTEQUAL :: opcodetype where "OP_NUMNOTEQUAL \<equiv> 0x9e"
abbreviation (input) OP_LESSTHAN :: opcodetype where "OP_LESSTHAN \<equiv> 0x9f"
abbreviation (input) OP_GREATERTHAN :: opcodetype where "OP_GREATERTHAN \<equiv> 0xa0"
abbreviation (input) OP_LESSTHANOREQUAL :: opcodetype where "OP_LESSTHANOREQUAL \<equiv> 0xa1"
abbreviation (input) OP_GREATERTHANOREQUAL :: opcodetype where "OP_GREATERTHANOREQUAL \<equiv> 0xa2"
abbreviation (input) OP_MIN :: opcodetype where "OP_MIN \<equiv> 0xa3"
abbreviation (input) OP_MAX :: opcodetype where "OP_MAX \<equiv> 0xa4"
abbreviation (input) OP_WITHIN :: opcodetype where "OP_WITHIN \<equiv> 0xa5"
abbreviation (input) OP_RIPEMD160 :: opcodetype where "OP_RIPEMD160 \<equiv> 0xa6"
abbreviation (input) OP_SHA1 :: opcodetype where "OP_SHA1 \<equiv> 0xa7"
abbreviation (input) OP_SHA256 :: opcodetype where "OP_SHA256 \<equiv> 0xa8"
abbreviation (input) OP_HASH160 :: opcodetype where "OP_HASH160 \<equiv> 0xa9"
abbreviation (input) OP_HASH256 :: opcodetype where "OP_HASH256 \<equiv> 0xaa"
abbreviation (input) OP_CODESEPARATOR :: opcodetype where "OP_CODESEPARATOR \<equiv> 0xab"
abbreviation (input) OP_CHECKSIG :: opcodetype where "OP_CHECKSIG \<equiv> 0xac"
abbreviation (input) OP_CHECKSIGVERIFY :: opcodetype where "OP_CHECKSIGVERIFY \<equiv> 0xad"
abbreviation (input) OP_CHECKMULTISIG :: opcodetype where "OP_CHECKMULTISIG \<equiv> 0xae"
abbreviation (input) OP_CHECKMULTISIGVERIFY :: opcodetype where "OP_CHECKMULTISIGVERIFY \<equiv> 0xaf"
abbreviation (input) OP_NOP1 :: opcodetype where "OP_NOP1 \<equiv> 0xb0"
abbreviation (input) OP_CHECKLOCKTIMEVERIFY :: opcodetype where "OP_CHECKLOCKTIMEVERIFY \<equiv> 0xb1"
abbreviation (input) OP_NOP2 :: opcodetype where "OP_NOP2 \<equiv> 0xb1"
abbreviation (input) OP_CHECKSEQUENCEVERIFY :: opcodetype where "OP_CHECKSEQUENCEVERIFY \<equiv> 0xb2"
abbreviation (input) OP_NOP3 :: opcodetype where "OP_NOP3 \<equiv> 0xb2"
abbreviation (input) OP_NOP4 :: opcodetype where "OP_NOP4 \<equiv> 0xb3"
abbreviation (input) OP_NOP5 :: opcodetype where "OP_NOP5 \<equiv> 0xb4"
abbreviation (input) OP_NOP6 :: opcodetype where "OP_NOP6 \<equiv> 0xb5"
abbreviation (input) OP_NOP7 :: opcodetype where "OP_NOP7 \<equiv> 0xb6"
abbreviation (input) OP_NOP8 :: opcodetype where "OP_NOP8 \<equiv> 0xb7"
abbreviation (input) OP_NOP9 :: opcodetype where "OP_NOP9 \<equiv> 0xb8"
abbreviation (input) OP_NOP10 :: opcodetype where "OP_NOP10 \<equiv> 0xb9"
abbreviation (input) OP_CHECKSIGADD :: opcodetype where "OP_CHECKSIGADD \<equiv> 0xba"
abbreviation (input) OP_INVALIDOPCODE :: opcodetype where "OP_INVALIDOPCODE \<equiv> 0xff"

definition MAX_OPCODE :: opcodetype where "MAX_OPCODE = OP_NOP10"

definition GetOpName :: "opcodetype \<Rightarrow> string" where
  "GetOpName opcode = (case map_of
    [(OP_0, ''0''), (OP_PUSHDATA1, ''OP_PUSHDATA1''), (OP_PUSHDATA2, ''OP_PUSHDATA2''), (OP_PUSHDATA4, ''OP_PUSHDATA4''),
     (OP_1NEGATE, ''-1''), (OP_RESERVED, ''OP_RESERVED''), (OP_1, ''1''), (OP_2, ''2''),
     (OP_3, ''3''), (OP_4, ''4''), (OP_5, ''5''), (OP_6, ''6''),
     (OP_7, ''7''), (OP_8, ''8''), (OP_9, ''9''), (OP_10, ''10''),
     (OP_11, ''11''), (OP_12, ''12''), (OP_13, ''13''), (OP_14, ''14''),
     (OP_15, ''15''), (OP_16, ''16''), (OP_NOP, ''OP_NOP''), (OP_VER, ''OP_VER''),
     (OP_IF, ''OP_IF''), (OP_NOTIF, ''OP_NOTIF''), (OP_VERIF, ''OP_VERIF''), (OP_VERNOTIF, ''OP_VERNOTIF''),
     (OP_ELSE, ''OP_ELSE''), (OP_ENDIF, ''OP_ENDIF''), (OP_VERIFY, ''OP_VERIFY''), (OP_RETURN, ''OP_RETURN''),
     (OP_TOALTSTACK, ''OP_TOALTSTACK''), (OP_FROMALTSTACK, ''OP_FROMALTSTACK''), (OP_2DROP, ''OP_2DROP''), (OP_2DUP, ''OP_2DUP''),
     (OP_3DUP, ''OP_3DUP''), (OP_2OVER, ''OP_2OVER''), (OP_2ROT, ''OP_2ROT''), (OP_2SWAP, ''OP_2SWAP''),
     (OP_IFDUP, ''OP_IFDUP''), (OP_DEPTH, ''OP_DEPTH''), (OP_DROP, ''OP_DROP''), (OP_DUP, ''OP_DUP''),
     (OP_NIP, ''OP_NIP''), (OP_OVER, ''OP_OVER''), (OP_PICK, ''OP_PICK''), (OP_ROLL, ''OP_ROLL''),
     (OP_ROT, ''OP_ROT''), (OP_SWAP, ''OP_SWAP''), (OP_TUCK, ''OP_TUCK''), (OP_CAT, ''OP_CAT''),
     (OP_SUBSTR, ''OP_SUBSTR''), (OP_LEFT, ''OP_LEFT''), (OP_RIGHT, ''OP_RIGHT''), (OP_SIZE, ''OP_SIZE''),
     (OP_INVERT, ''OP_INVERT''), (OP_AND, ''OP_AND''), (OP_OR, ''OP_OR''), (OP_XOR, ''OP_XOR''),
     (OP_EQUAL, ''OP_EQUAL''), (OP_EQUALVERIFY, ''OP_EQUALVERIFY''), (OP_RESERVED1, ''OP_RESERVED1''), (OP_RESERVED2, ''OP_RESERVED2''),
     (OP_1ADD, ''OP_1ADD''), (OP_1SUB, ''OP_1SUB''), (OP_2MUL, ''OP_2MUL''), (OP_2DIV, ''OP_2DIV''),
     (OP_NEGATE, ''OP_NEGATE''), (OP_ABS, ''OP_ABS''), (OP_NOT, ''OP_NOT''), (OP_0NOTEQUAL, ''OP_0NOTEQUAL''),
     (OP_ADD, ''OP_ADD''), (OP_SUB, ''OP_SUB''), (OP_MUL, ''OP_MUL''), (OP_DIV, ''OP_DIV''),
     (OP_MOD, ''OP_MOD''), (OP_LSHIFT, ''OP_LSHIFT''), (OP_RSHIFT, ''OP_RSHIFT''), (OP_BOOLAND, ''OP_BOOLAND''),
     (OP_BOOLOR, ''OP_BOOLOR''), (OP_NUMEQUAL, ''OP_NUMEQUAL''), (OP_NUMEQUALVERIFY, ''OP_NUMEQUALVERIFY''), (OP_NUMNOTEQUAL, ''OP_NUMNOTEQUAL''),
     (OP_LESSTHAN, ''OP_LESSTHAN''), (OP_GREATERTHAN, ''OP_GREATERTHAN''), (OP_LESSTHANOREQUAL, ''OP_LESSTHANOREQUAL''), (OP_GREATERTHANOREQUAL, ''OP_GREATERTHANOREQUAL''),
     (OP_MIN, ''OP_MIN''), (OP_MAX, ''OP_MAX''), (OP_WITHIN, ''OP_WITHIN''), (OP_RIPEMD160, ''OP_RIPEMD160''),
     (OP_SHA1, ''OP_SHA1''), (OP_SHA256, ''OP_SHA256''), (OP_HASH160, ''OP_HASH160''), (OP_HASH256, ''OP_HASH256''),
     (OP_CODESEPARATOR, ''OP_CODESEPARATOR''), (OP_CHECKSIG, ''OP_CHECKSIG''), (OP_CHECKSIGVERIFY, ''OP_CHECKSIGVERIFY''), (OP_CHECKMULTISIG, ''OP_CHECKMULTISIG''),
     (OP_CHECKMULTISIGVERIFY, ''OP_CHECKMULTISIGVERIFY''), (OP_NOP1, ''OP_NOP1''), (OP_CHECKLOCKTIMEVERIFY, ''OP_CHECKLOCKTIMEVERIFY''), (OP_CHECKSEQUENCEVERIFY, ''OP_CHECKSEQUENCEVERIFY''),
     (OP_NOP4, ''OP_NOP4''), (OP_NOP5, ''OP_NOP5''), (OP_NOP6, ''OP_NOP6''), (OP_NOP7, ''OP_NOP7''),
     (OP_NOP8, ''OP_NOP8''), (OP_NOP9, ''OP_NOP9''), (OP_NOP10, ''OP_NOP10''), (OP_CHECKSIGADD, ''OP_CHECKSIGADD''),
     (OP_INVALIDOPCODE, ''OP_INVALIDOPCODE'')]
    opcode of Some name \<Rightarrow> name | None \<Rightarrow> ''OP_UNKNOWN'')"

section \<open>Script numbers\<close>

datatype scriptnum_error = ScriptNumOverflow | ScriptNumNotMinimal

definition nDefaultMaxNumSize :: nat where "nDefaultMaxNumSize = 4"

definition minimal_num :: "valtype \<Rightarrow> bool" where
  "minimal_num vch \<longleftrightarrow>
     \<not> (vch \<noteq> [] \<and> last vch AND 0x7f = 0 \<and> (length vch \<le> 1 \<or> vch ! (length vch - 2) AND 0x80 = 0))"

definition set_vch :: "valtype \<Rightarrow> int" where
  "set_vch vch =
     (if vch = [] then 0
      else let result = word_of_bytes vch :: u64
           in if last vch AND 0x80 \<noteq> 0 then - sint (result AND NOT (push_bit (8 * (length vch - 1)) 0x80))
              else sint result)"

definition CScriptNum :: "valtype \<Rightarrow> bool \<Rightarrow> nat \<Rightarrow> scriptnum_error + int" where
  "CScriptNum vch fRequireMinimal nMaxNumSize =
     (if length vch > nMaxNumSize then Inl ScriptNumOverflow
      else if fRequireMinimal \<and> \<not> minimal_num vch then Inl ScriptNumNotMinimal
      else Inr (set_vch vch))"

function abs_bytes :: "u64 \<Rightarrow> valtype" where
  "abs_bytes absvalue = (if absvalue = 0 then [] else ucast (absvalue AND 0xff) # abs_bytes (drop_bit 8 absvalue))"
  by pat_completeness auto
termination
proof (relation "measure unat", simp)
  fix x :: u64
  assume "x \<noteq> 0"
  then have "0 < unat x" by (simp add: unat_gt_0)
  then show "(drop_bit 8 x, x) \<in> measure unat" by (simp add: unat_drop_bit)
qed

declare abs_bytes.simps [simp del]

definition num_serialize :: "int \<Rightarrow> valtype" where
  "num_serialize value =
     (if value = 0 then []
      else let neg = value < 0;
               absvalue = (if neg then NOT (of_int value) + 1 else of_int value) :: u64;
               result = abs_bytes absvalue
           in if last result AND 0x80 \<noteq> 0 then result @ [if neg then 0x80 else 0]
              else if neg then butlast result @ [last result OR 0x80]
              else result)"

definition getint :: "int \<Rightarrow> int" where
  "getint value = (if value > 2 ^ 31 - 1 then 2 ^ 31 - 1 else if value < - (2 ^ 31) then - (2 ^ 31) else value)"

section \<open>Building and reading scripts\<close>

definition push_opcode :: "CScript \<Rightarrow> opcodetype \<Rightarrow> CScript" where
  "push_opcode script opcode = script @ [opcode]"

definition push_data :: "CScript \<Rightarrow> valtype \<Rightarrow> CScript" where
  "push_data script b =
     script @
     (if length b < unat OP_PUSHDATA1 then [of_nat (length b)]
      else if length b \<le> 0xff then [OP_PUSHDATA1, of_nat (length b)]
      else if length b \<le> 0xffff then OP_PUSHDATA2 # WriteLE16 (of_nat (length b))
      else OP_PUSHDATA4 # WriteLE32 (of_nat (length b))) @ b"

definition push_int64 :: "CScript \<Rightarrow> int \<Rightarrow> CScript" where
  "push_int64 script n =
     (if n = -1 \<or> 1 \<le> n \<and> n \<le> 16 then script @ [of_int (n + (uint OP_1 - 1))]
      else if n = 0 then script @ [OP_0]
      else push_data script (num_serialize n))"

text \<open>The size of a push and the bytes after its size, or \<^term>\<open>None\<close> where the code returns false.\<close>

definition push_size :: "opcodetype \<Rightarrow> CScript \<Rightarrow> (u32 \<times> CScript) option" where
  "push_size opcode pc =
     (if opcode < OP_PUSHDATA1 then Some (ucast opcode, pc)
      else if opcode = OP_PUSHDATA1 then (case pc of [] \<Rightarrow> None | n # pc \<Rightarrow> Some (ucast n, pc))
      else if opcode = OP_PUSHDATA2 then (if length pc < 2 then None else Some (ucast (ReadLE16 pc), drop 2 pc))
      else (if length pc < 4 then None else Some (ReadLE32 pc, drop 4 pc)))"

definition GetScriptOp :: "CScript \<Rightarrow> (opcodetype \<times> valtype \<times> CScript) option" where
  "GetScriptOp pc =
     (case pc of [] \<Rightarrow> None
      | opcode # pc \<Rightarrow>
          if opcode \<le> OP_PUSHDATA4 then
            (case push_size opcode pc of None \<Rightarrow> None
             | Some (nSize, pc) \<Rightarrow>
                 if (of_nat (length pc) :: u32) < nSize then None
                 else Some (opcode, take (unat nSize) pc, drop (unat nSize) pc))
          else Some (opcode, [], pc))"

lemma push_size_shrinks: "push_size opcode pc = Some (n, pc') \<Longrightarrow> length pc' \<le> length pc"
  by (auto simp: push_size_def split: if_splits list.splits)

lemma GetScriptOp_shrinks: "GetScriptOp pc = Some (opcode, data, pc') \<Longrightarrow> length pc' < length pc"
  by (auto simp: GetScriptOp_def split: list.splits if_splits option.splits prod.splits dest!: push_size_shrinks)

definition DecodeOP_N :: "opcodetype \<Rightarrow> fault + int" where
  "DecodeOP_N opcode =
     (if opcode = OP_0 then Inr 0
      else if OP_1 \<le> opcode \<and> opcode \<le> OP_16 then Inr (uint opcode - (uint OP_1 - 1))
      else Inl AssertFailed)"

definition EncodeOP_N :: "int \<Rightarrow> fault + opcodetype" where
  "EncodeOP_N n =
     (if 0 \<le> n \<and> n \<le> 16 then if n = 0 then Inr OP_0 else Inr (of_int (uint OP_1 + n - 1)) else Inl AssertFailed)"

section \<open>Signature operations and patterns\<close>

definition sigops_of :: "bool \<Rightarrow> opcodetype \<Rightarrow> opcodetype \<Rightarrow> fault + u32" where
  "sigops_of fAccurate lastOpcode opcode =
     (if opcode = OP_CHECKSIG \<or> opcode = OP_CHECKSIGVERIFY then Inr 1
      else if opcode = OP_CHECKMULTISIG \<or> opcode = OP_CHECKMULTISIGVERIFY then
        (if fAccurate \<and> OP_1 \<le> lastOpcode \<and> lastOpcode \<le> OP_16 then sum_bind (DecodeOP_N lastOpcode) (\<lambda>k. Inr (of_int k))
         else Inr (of_int MAX_PUBKEYS_PER_MULTISIG))
      else Inr 0)"

function sigop_loop :: "bool \<Rightarrow> opcodetype \<Rightarrow> u32 \<Rightarrow> CScript \<Rightarrow> fault + u32" where
  "sigop_loop fAccurate lastOpcode n pc =
     (case GetScriptOp pc of None \<Rightarrow> Inr n
      | Some (opcode, data, pc) \<Rightarrow>
          sum_bind (sigops_of fAccurate lastOpcode opcode) (\<lambda>k. sigop_loop fAccurate opcode (n + k) pc))"
  by pat_completeness auto
termination
  by (relation "measure (\<lambda>(a, l, n, pc). length pc)") (auto dest: GetScriptOp_shrinks)

declare sigop_loop.simps [simp del]

definition GetSigOpCount :: "CScript \<Rightarrow> bool \<Rightarrow> fault + u32" where
  "GetSigOpCount script fAccurate = sigop_loop fAccurate OP_INVALIDOPCODE 0 script"

definition IsPayToScriptHash :: "CScript \<Rightarrow> bool" where
  "IsPayToScriptHash script \<longleftrightarrow>
     length script = 23 \<and> script ! 0 = OP_HASH160 \<and> script ! 1 = 0x14 \<and> script ! 22 = OP_EQUAL"

definition IsPayToWitnessScriptHash :: "CScript \<Rightarrow> bool" where
  "IsPayToWitnessScriptHash script \<longleftrightarrow> length script = 34 \<and> script ! 0 = OP_0 \<and> script ! 1 = 0x20"

definition IsWitnessProgram :: "CScript \<Rightarrow> fault + (int \<times> valtype) option" where
  "IsWitnessProgram script =
     (if length script < 4 \<or> length script > 42 then Inr None
      else if script ! 0 \<noteq> OP_0 \<and> (script ! 0 < OP_1 \<or> script ! 0 > OP_16) then Inr None
      else if unat (script ! 1) + 2 = length script then
        sum_bind (DecodeOP_N (script ! 0)) (\<lambda>version. Inr (Some (version, drop 2 script)))
      else Inr None)"

text \<open>The data of the last push of a script of pushes only, \<^term>\<open>None\<close> if it is not one.\<close>

function last_push :: "valtype \<Rightarrow> CScript \<Rightarrow> valtype option" where
  "last_push vData pc =
     (if pc = [] then Some vData
      else case GetScriptOp pc of None \<Rightarrow> None
           | Some (opcode, vData, pc) \<Rightarrow> if opcode > OP_16 then None else last_push vData pc)"
  by pat_completeness auto
termination
  by (relation "measure (\<lambda>(d, pc). length pc)") (auto dest: GetScriptOp_shrinks)

declare last_push.simps [simp del]

definition GetSigOpCountP2SH :: "CScript \<Rightarrow> CScript \<Rightarrow> fault + u32" where
  "GetSigOpCountP2SH script scriptSig =
     (if \<not> IsPayToScriptHash script then GetSigOpCount script True
      else case last_push [] scriptSig of None \<Rightarrow> Inr 0 | Some subscript \<Rightarrow> GetSigOpCount subscript True)"

function IsPushOnly :: "CScript \<Rightarrow> bool" where
  "IsPushOnly pc =
     (if pc = [] then True
      else case GetScriptOp pc of None \<Rightarrow> False
           | Some (opcode, data, pc) \<Rightarrow> if opcode > OP_16 then False else IsPushOnly pc)"
  by pat_completeness auto
termination by (relation "measure length") (auto dest: GetScriptOp_shrinks)

declare IsPushOnly.simps [simp del]

function HasValidOps :: "CScript \<Rightarrow> bool" where
  "HasValidOps pc =
     (if pc = [] then True
      else case GetScriptOp pc of None \<Rightarrow> False
           | Some (opcode, item, pc) \<Rightarrow>
               if opcode > MAX_OPCODE \<or> length item > MAX_SCRIPT_ELEMENT_SIZE then False else HasValidOps pc)"
  by pat_completeness auto
termination by (relation "measure length") (auto dest: GetScriptOp_shrinks)

declare HasValidOps.simps [simp del]

definition IsUnspendable :: "CScript \<Rightarrow> bool" where
  "IsUnspendable script \<longleftrightarrow> length script > 0 \<and> hd script = OP_RETURN \<or> length script > MAX_SCRIPT_SIZE"

definition IsOpSuccess :: "opcodetype \<Rightarrow> bool" where
  "IsOpSuccess opcode \<longleftrightarrow>
     opcode = 80 \<or> opcode = 98 \<or> (opcode \<ge> 126 \<and> opcode \<le> 129) \<or>
     (opcode \<ge> 131 \<and> opcode \<le> 134) \<or> (opcode \<ge> 137 \<and> opcode \<le> 138) \<or>
     (opcode \<ge> 141 \<and> opcode \<le> 142) \<or> (opcode \<ge> 149 \<and> opcode \<le> 153) \<or>
     (opcode \<ge> 187 \<and> opcode \<le> 254)"

definition CheckMinimalPush :: "valtype \<Rightarrow> opcodetype \<Rightarrow> fault + bool" where
  "CheckMinimalPush data opcode =
     (if \<not> opcode \<le> OP_PUSHDATA4 then Inl AssertFailed
      else if length data = 0 then Inr (opcode = OP_0)
      else if length data = 1 \<and> 1 \<le> data ! 0 \<and> data ! 0 \<le> 16 then Inr False
      else if length data = 1 \<and> data ! 0 = 0x81 then Inr False
      else if length data \<le> 75 then Inr (unat opcode = length data)
      else if length data \<le> 255 then Inr (opcode = OP_PUSHDATA1)
      else if length data \<le> 65535 then Inr (opcode = OP_PUSHDATA2)
      else Inr True)"

section \<open>The value of a script number\<close>

lemma and_7f: "unat (l AND 0x7f) = unat l mod 128" for l :: u8
proof -
  have "l AND 0x7f = take_bit 7 l" by (simp add: take_bit_eq_mask mask_eq_exp_minus_1)
  then show ?thesis by (simp add: unat_take_bit)
qed

lemma sign_bit: "l AND 0x80 \<noteq> 0 \<longleftrightarrow> bit l 7" for l :: u8
proof -
  have "(0x80 :: u8) = push_bit 7 1" by simp
  then show ?thesis by (simp only: and_exp_eq_0_iff_not_bit push_bit_eq_mult mult_1_left) simp
qed

lemma sign_bit_unat: "bit l 7 \<longleftrightarrow> 128 \<le> unat l" for l :: u8
proof -
  have "bit l 7 \<longleftrightarrow> bit (unat l) 7" by (simp add: bit_unsigned_iff bit_imp_le_length)
  also have "\<dots> \<longleftrightarrow> odd (unat l div 128)" by (simp add: bit_iff_odd)
  also have "\<dots> \<longleftrightarrow> 128 \<le> unat l"
  proof (cases "unat l < 128")
    case False
    then have "unat l div 128 = 1" using unat_u8_less [of l] by (intro div_nat_eqI) simp_all
    then show ?thesis using False by simp
  qed simp
  finally show ?thesis .
qed

definition magnitude :: "valtype \<Rightarrow> nat" where
  "magnitude vch = words_val (butlast vch @ [last vch AND 0x7f])"

lemma magnitude_snoc: "magnitude (bs @ [l]) = words_val bs + 2 ^ (8 * length bs) * (unat l mod 128)"
  by (simp add: magnitude_def words_val_append and_7f)

lemma magnitude_bound: "vch \<noteq> [] \<Longrightarrow> magnitude vch < 2 ^ (8 * length vch - 1)"
proof -
  assume "vch \<noteq> []"
  then obtain bs l where v: "vch = bs @ [l]" by (metis append_butlast_last_id)
  have "words_val bs < 2 ^ (8 * length bs)" using words_val_bound [of bs] by simp
  moreover have "unat l mod 128 \<le> 127" using mod_less_divisor [of 128 "unat l"] by linarith
  ultimately have "magnitude vch < 2 ^ (8 * length bs) + 2 ^ (8 * length bs) * 127"
    unfolding v magnitude_snoc by (intro add_less_le_mono mult_le_mono) simp_all
  also have "\<dots> = 2 ^ (8 * length bs + 7)" by (simp add: power_add)
  finally show ?thesis by (simp add: v add.commute)
qed

lemma and_not_exp:
  fixes x :: "'a :: len word"
  assumes "bit x k"
  shows "x AND NOT (2 ^ k) = x - 2 ^ k"
proof -
  have "(x AND 2 ^ k) + (x AND NOT (2 ^ k)) = (x AND 2 ^ k) OR (x AND NOT (2 ^ k))"
    by (rule disjunctive_add_eq_or, rule bit_eqI) (simp add: bit_simps)
  also have "\<dots> = x" by (rule bit_eqI) (auto simp: bit_simps)
  finally have "(x AND 2 ^ k) + (x AND NOT (2 ^ k)) = x" .
  moreover have "x AND 2 ^ k = 2 ^ k"
    using assms by (intro bit_eqI) (auto simp: bit_simps)
  ultimately show ?thesis by (simp add: algebra_simps)
qed

lemma words_val_sign:
  "bit l 7 \<Longrightarrow> words_val (bs @ [l]) = magnitude (bs @ [l]) + 2 ^ (8 * length bs + 7)"
  "\<not> bit l 7 \<Longrightarrow> words_val (bs @ [l]) = magnitude (bs @ [l])"
proof -
  have "unat l = unat l mod 128 + 128" if "bit l 7"
  proof -
    have "unat l div 128 = 1" using that unat_u8_less [of l] by (intro div_nat_eqI) (simp_all add: sign_bit_unat)
    then show ?thesis using mult_div_mod_eq [of 128 "unat l"] by simp
  qed
  moreover have "words_val (bs @ [l]) = words_val bs + 2 ^ (8 * length bs) * unat l"
    by (simp add: words_val_append)
  moreover have "(2 :: nat) ^ (8 * length bs + 7) = 2 ^ (8 * length bs) * 128" by (simp add: power_add)
  ultimately show "words_val (bs @ [l]) = magnitude (bs @ [l]) + 2 ^ (8 * length bs + 7)" if "bit l 7"
    using that unfolding magnitude_snoc by (metis add.assoc distrib_left)
  show "words_val (bs @ [l]) = magnitude (bs @ [l])" if "\<not> bit l 7"
    using that unfolding magnitude_snoc words_val_append by (simp add: sign_bit_unat)
qed

lemma clear_sign:
  assumes "length bs \<le> 7" "bit l 7"
  shows "(word_of_bytes (bs @ [l]) :: u64) AND NOT (push_bit (8 * length bs) 0x80) = of_nat (magnitude (bs @ [l]))"
proof -
  let ?k = "8 * length bs + 7" and ?m = "magnitude (bs @ [l])"
  have w: "(word_of_bytes (bs @ [l]) :: u64) = of_nat (?m + 2 ^ ?k)"
    using assms(2) by (simp only: word_of_bytes_val words_val_sign)
  have "?m < 2 ^ ?k" using magnitude_bound [of "bs @ [l]"] by (simp add: add.commute)
  then have "(?m + 2 ^ ?k) div 2 ^ ?k = 1" by (intro div_nat_eqI) simp_all
  then have "bit (?m + 2 ^ ?k) ?k" by (simp add: bit_iff_odd)
  then have "bit (word_of_bytes (bs @ [l]) :: u64) ?k"
    unfolding w using assms(1) by (simp add: bit_of_nat_iff del: of_nat_add of_nat_power)
  moreover have "push_bit (8 * length bs) 0x80 = (2 ^ ?k :: u64)"
    by (simp add: push_bit_eq_mult power_add)
  ultimately show ?thesis by (simp only: and_not_exp) (simp add: w)
qed

lemma sint_of_nat_small: "n < 2 ^ 63 \<Longrightarrow> sint (of_nat n :: u64) = int n"
  by (simp add: signed_of_nat signed_take_bit_int_eq_self)

lemma set_vch_snoc:
  assumes "length bs \<le> 7"
  shows "set_vch (bs @ [l]) = (if bit l 7 then - int (magnitude (bs @ [l])) else int (magnitude (bs @ [l])))"
proof -
  have "magnitude (bs @ [l]) < 2 ^ (8 * length bs + 7)"
    using magnitude_bound [of "bs @ [l]"] by (simp add: add.commute)
  also have "\<dots> \<le> 2 ^ 63" using assms by (intro power_increasing) simp_all
  finally have "magnitude (bs @ [l]) < 2 ^ 63" .
  then show ?thesis
    using clear_sign [OF assms, of l]
    by (simp add: set_vch_def sign_bit sint_of_nat_small Let_def)
      (simp add: word_of_bytes_val words_val_sign sint_of_nat_small)
qed

lemma abs_bytes_val: "words_val (abs_bytes x) = unat x"
proof (induction x rule: abs_bytes.induct)
  case (1 x)
  have "unat (ucast (x AND 0xff) :: u8) = unat x mod 256"
  proof -
    have "x AND 0xff = take_bit 8 x" by (simp add: take_bit_eq_mask mask_eq_exp_minus_1)
    then show ?thesis by (simp add: unat_ucast_mod unat_take_bit)
  qed
  then show ?case
    using 1 by (subst abs_bytes.simps) (simp add: unat_drop_bit)
qed

lemma abs_bytes_last: "x \<noteq> 0 \<Longrightarrow> abs_bytes x \<noteq> [] \<and> last (abs_bytes x) \<noteq> 0"
proof (induction x rule: abs_bytes.induct)
  case (1 x)
  show ?case
  proof (cases "drop_bit 8 x = 0")
    case True
    then have "abs_bytes (drop_bit 8 x) = []" by (simp add: abs_bytes.simps)
    then have "abs_bytes x = [ucast (x AND 0xff)]" using 1(2) by (simp add: abs_bytes.simps [of x])
    moreover from this have "unat (last (abs_bytes x)) = unat x" using abs_bytes_val [of x] by simp
    ultimately show ?thesis using 1(2) by (metis list.discI unat_eq_zero)
  next
    case False
    then show ?thesis using 1 by (simp add: abs_bytes.simps [of x])
  qed
qed

lemma words_val_lower: "bs \<noteq> [] \<Longrightarrow> last bs \<noteq> 0 \<Longrightarrow> 2 ^ (8 * (length bs - 1)) \<le> words_val (bs :: u8 list)"
proof -
  assume "bs \<noteq> []" "last bs \<noteq> 0"
  then obtain cs l where "bs = cs @ [l]" "l \<noteq> 0" by (metis append_butlast_last_id)
  moreover from this have "1 \<le> unat l" by (simp add: Suc_le_eq unat_gt_0)
  moreover from this have "2 ^ (8 * length cs) \<le> 2 ^ (8 * length cs) * unat l" by (metis mult.right_neutral mult_le_mono2)
  ultimately show ?thesis by (simp add: words_val_append trans_le_add2)
qed

lemma minimal_snoc:
  "minimal_num (bs @ [l]) \<longleftrightarrow> unat l mod 128 \<noteq> 0 \<or> (bs \<noteq> [] \<and> bit (last bs) 7)"
proof -
  have "l AND 0x7f = 0 \<longleftrightarrow> unat l mod 128 = 0" by (metis and_7f unat_eq_zero)
  moreover have "bs \<noteq> [] \<Longrightarrow> (bs @ [l]) ! (length bs - 1) = last bs" by (simp add: nth_append last_conv_nth)
  ultimately show ?thesis by (cases "bs = []") (auto simp: minimal_num_def sign_bit [symmetric] Suc_le_eq)
qed

lemma or_80: "unat (l OR 0x80) mod 128 = unat l mod 128" "bit (l OR 0x80) 7" for l :: u8
proof -
  have "(l OR 0x80) AND 0x7f = l AND 0x7f" by (simp add: bit.conj_disj_distrib2)
  then show "unat (l OR 0x80) mod 128 = unat l mod 128" by (metis and_7f)
  show "bit (l OR 0x80) 7" by (simp add: bit_or_iff)
qed

text \<open>Sign and magnitude of what \<open>serialize\<close> writes.\<close>

lemma num_serialize_parts:
  assumes "v \<noteq> 0" "- (2 ^ 63) < v" "v < 2 ^ 63"
  obtains bs l where "num_serialize v = bs @ [l]" "length bs \<le> 7" "magnitude (bs @ [l]) = nat \<bar>v\<bar>"
    "bit l 7 \<longleftrightarrow> v < 0" "minimal_num (bs @ [l])"
proof -
  define x :: u64 where "x = (if v < 0 then NOT (of_int v) + 1 else of_int v)"
  have "x = of_int \<bar>v\<bar>" by (simp add: x_def not_eq_complement)
  then have ux: "unat x = nat \<bar>v\<bar>"
    using assms by (simp add: unat_eq_nat_uint uint_word_of_int_eq take_bit_int_eq_self)
  then have "x \<noteq> 0" using assms(1) by auto
  note last = abs_bytes_last [OF this]
  then obtain cs k where r: "abs_bytes x = cs @ [k]" by (metis append_butlast_last_id)
  have k: "k \<noteq> 0" using last r by simp
  have val: "words_val (cs @ [k]) = nat \<bar>v\<bar>" using abs_bytes_val [of x] ux r by simp
  have "2 ^ (8 * length cs) \<le> words_val (cs @ [k])" using words_val_lower [of "cs @ [k]"] k by simp
  also have "\<dots> < 2 ^ 63" using val assms(2,3) by (simp add: nat_less_iff)
  finally have len: "length cs \<le> 7" using power_less_imp_less_exp [of "2 :: nat" "8 * length cs" 63] by simp
  have ser: "num_serialize v = (if bit k 7 then cs @ [k, if v < 0 then 0x80 else 0]
      else if v < 0 then cs @ [k OR 0x80] else cs @ [k])"
    using assms(1) r unfolding num_serialize_def Let_def x_def [symmetric] sign_bit by simp
  show thesis
  proof (cases "bit k 7")
    case True
    then have "2 ^ (8 * length cs + 7) \<le> words_val (cs @ [k])" by (simp add: words_val_sign)
    also have "\<dots> < 2 ^ 63" using val assms(2,3) by (simp add: nat_less_iff)
    finally have "length cs < 7" using power_less_imp_less_exp [of "2 :: nat" "8 * length cs + 7" 63] by simp
    moreover define s :: u8 where "s = (if v < 0 then 0x80 else 0)"
    have s: "unat s mod 128 = 0" "bit s 7 \<longleftrightarrow> v < 0" by (simp_all add: s_def sign_bit_unat)
    have "magnitude ((cs @ [k]) @ [s]) = nat \<bar>v\<bar>" "minimal_num ((cs @ [k]) @ [s])"
      using val True s unfolding magnitude_snoc minimal_snoc by simp_all
    ultimately show thesis
      using that [of "cs @ [k]" s] ser True s(2) by (simp add: s_def)
  next
    case False
    have mag: "magnitude (cs @ [k]) = nat \<bar>v\<bar>" using val words_val_sign(2) [OF False] by simp
    have kk: "unat k mod 128 \<noteq> 0" using False k by (simp add: sign_bit_unat unat_eq_zero)
    show thesis
    proof (cases "v < 0")
      case True
      then show thesis using that [of cs "k OR 0x80"] ser False mag len kk or_80 [of k]
        by (simp add: magnitude_snoc minimal_snoc)
    next
      case nonneg: False
      then show thesis using that [of cs k] ser False mag len kk by (simp add: minimal_snoc)
    qed
  qed
qed

lemma minimal_lower: "minimal_num (bs @ [l]) \<Longrightarrow> 2 ^ (8 * length bs - 1) \<le> magnitude (bs @ [l])"
proof -
  assume "minimal_num (bs @ [l])"
  then consider "unat l mod 128 \<noteq> 0" | "bs \<noteq> []" "bit (last bs) 7" by (auto simp: minimal_snoc)
  then show ?thesis
  proof cases
    case 1
    then have "2 ^ (8 * length bs) * 1 \<le> 2 ^ (8 * length bs) * (unat l mod 128)" by (intro mult_le_mono2) simp
    moreover have "(2 :: nat) ^ (8 * length bs - 1) \<le> 2 ^ (8 * length bs)" by (intro power_increasing) simp_all
    ultimately show ?thesis unfolding magnitude_snoc by linarith
  next
    case 2
    then obtain cs k where bs: "bs = cs @ [k]" by (metis append_butlast_last_id)
    have e: "8 * length bs - 1 = 8 * length cs + 7" by (simp add: bs)
    have "2 ^ (8 * length cs + 7) \<le> words_val bs" using 2 unfolding bs by (subst words_val_sign) simp_all
    then show ?thesis unfolding magnitude_snoc e by linarith
  qed
qed

lemma minimal_length:
  assumes "minimal_num (bs @ [l])" "minimal_num (cs @ [k])" "magnitude (bs @ [l]) = magnitude (cs @ [k])"
  shows "length bs \<le> length cs"
proof (rule ccontr)
  assume "\<not> length bs \<le> length cs"
  then have "8 * length cs + 7 \<le> 8 * length bs - 1" by simp
  then have "(2 :: nat) ^ (8 * length cs + 7) \<le> 2 ^ (8 * length bs - 1)" by (rule power_increasing) simp
  also have "\<dots> \<le> magnitude (cs @ [k])" using minimal_lower [OF assms(1)] assms(3) by simp
  finally show False using magnitude_bound [of "cs @ [k]"] by (simp add: add.commute)
qed

lemma minimal_unique:
  assumes "minimal_num (bs @ [l])" "minimal_num (cs @ [k])" "magnitude (bs @ [l]) = magnitude (cs @ [k])" "bit l 7 \<longleftrightarrow> bit k 7"
  shows "bs @ [l] = cs @ [k]"
proof -
  have len: "length bs = length cs"
    using minimal_length [OF assms(1-3)] minimal_length [OF assms(2,1) assms(3) [symmetric]] by simp
  then have "words_val (bs @ [l]) = words_val (cs @ [k])"
    using assms(3,4) by (cases "bit k 7") (simp_all add: words_val_sign)
  then show ?thesis using len by (intro words_val_inj) simp_all
qed

lemma minimal_set_vch:
  assumes "minimal_num vch" "length vch \<le> 8" "vch \<noteq> []"
  obtains bs l where "vch = bs @ [l]" "set_vch vch = (if bit l 7 then - int (magnitude vch) else int (magnitude vch))" "magnitude vch > 0"
proof -
  from assms(3) obtain bs l where v: "vch = bs @ [l]" by (metis append_butlast_last_id)
  have "0 < (2 :: nat) ^ (8 * length bs - 1)" by simp
  also have "\<dots> \<le> magnitude vch" using minimal_lower assms(1) v by blast
  finally show thesis using that [OF v] set_vch_snoc [of bs l] assms(2) v by simp
qed

lemma num_serialize_sound:
  assumes "- (2 ^ 63) < v" "v < 2 ^ 63"
  shows "set_vch (num_serialize v) = v \<and> minimal_num (num_serialize v) \<and> length (num_serialize v) \<le> 8"
proof (cases "v = 0")
  case True
  then show ?thesis by (simp add: num_serialize_def set_vch_def minimal_num_def)
next
  case False
  from False assms obtain bs l where s: "num_serialize v = bs @ [l]" "length bs \<le> 7" "magnitude (bs @ [l]) = nat \<bar>v\<bar>"
    "bit l 7 \<longleftrightarrow> v < 0" "minimal_num (bs @ [l])" by (rule num_serialize_parts)
  then show ?thesis using set_vch_snoc [OF s(2), of l] by simp
qed

lemma num_serialize_unique:
  assumes "minimal_num vch" "length vch \<le> 8" "set_vch vch = v" "- (2 ^ 63) < v" "v < 2 ^ 63"
  shows "vch = num_serialize v"
proof (cases "vch = []")
  case True
  then show ?thesis using assms(3) by (simp add: set_vch_def num_serialize_def)
next
  case False
  with assms(1,2) obtain cs k where c: "vch = cs @ [k]" "set_vch vch = (if bit k 7 then - int (magnitude vch) else int (magnitude vch))"
    "magnitude vch > 0" by (rule minimal_set_vch)
  then have v: "v \<noteq> 0" "magnitude vch = nat \<bar>v\<bar>" "bit k 7 \<longleftrightarrow> v < 0" using assms(3) by (auto split: if_splits)
  from v(1) assms(4,5) obtain bs l where s: "num_serialize v = bs @ [l]" "length bs \<le> 7" "magnitude (bs @ [l]) = nat \<bar>v\<bar>"
    "bit l 7 \<longleftrightarrow> v < 0" "minimal_num (bs @ [l])" by (rule num_serialize_parts)
  then show ?thesis using minimal_unique [of cs k bs l] assms(1) c(1) v by simp
qed

lemma num_serialize_short:
  assumes "- (2 ^ 63) < v" "v < 2 ^ 63" "0 < n" "n \<le> 8"
  shows "length (num_serialize v) \<le> n \<longleftrightarrow> \<bar>v\<bar> < 2 ^ (8 * n - 1)"
proof (cases "v = 0")
  case False
  from False assms(1,2) obtain bs l where s: "num_serialize v = bs @ [l]" "magnitude (bs @ [l]) = nat \<bar>v\<bar>"
    "minimal_num (bs @ [l])" by (rule num_serialize_parts)
  have mag: "\<bar>v\<bar> < 2 ^ k \<longleftrightarrow> magnitude (bs @ [l]) < 2 ^ k" for k by (simp add: s(2) nat_less_iff)
  show ?thesis
  proof
    assume "length (num_serialize v) \<le> n"
    then have "(2 :: nat) ^ (8 * length bs + 7) \<le> 2 ^ (8 * n - 1)" using s(1) by (intro power_increasing) simp_all
    moreover have "magnitude (bs @ [l]) < 2 ^ (8 * length bs + 7)"
      using magnitude_bound [of "bs @ [l]"] by (simp add: add.commute)
    ultimately show "\<bar>v\<bar> < 2 ^ (8 * n - 1)" unfolding mag by (rule less_le_trans [rotated])
  next
    assume "\<bar>v\<bar> < 2 ^ (8 * n - 1)"
    then have "(2 :: nat) ^ (8 * length bs - 1) < 2 ^ (8 * n - 1)" unfolding mag by (rule le_less_trans [OF minimal_lower [OF s(3)]])
    then show "length (num_serialize v) \<le> n" using s(1) assms(3) by simp
  qed
qed (simp add: num_serialize_def)

section \<open>Reading back a push\<close>

text \<open>One-byte data that a number opcode pushes.\<close>

definition small_push :: "valtype \<Rightarrow> bool" where
  "small_push b \<longleftrightarrow> length b = 1 \<and> (1 \<le> b ! 0 \<and> b ! 0 \<le> 16 \<or> b ! 0 = 0x81)"

lemma GetScriptOp_push:
  assumes "length b + length rest < 2 ^ 32"
  shows "\<exists>opcode. GetScriptOp (push_data [] b @ rest) = Some (opcode, b, rest) \<and> opcode \<le> OP_PUSHDATA4 \<and>
    CheckMinimalPush b opcode = Inr (\<not> small_push b)"
proof -
  have fits: "unat (of_nat (length b + length rest) :: u32) = length b + length rest"
    using assms by (simp add: unat_of_nat del: of_nat_add)
  consider "length b < 76" | "76 \<le> length b" "length b \<le> 255" | "256 \<le> length b" "length b \<le> 65535" | "65536 \<le> length b"
    by linarith
  then show ?thesis
  proof cases
    case 1
    then have "unat (of_nat (length b) :: u8) = length b" by (simp add: unat_of_nat)
    then show ?thesis using 1 fits
      by (simp add: push_data_def GetScriptOp_def push_size_def word_less_nat_alt word_le_nat_alt CheckMinimalPush_def small_push_def del: of_nat_add)
  next
    case 2
    then have "unat (of_nat (length b) :: u8) = length b" by (simp add: unat_of_nat)
    then show ?thesis using 2 fits
      by (auto simp: push_data_def GetScriptOp_def push_size_def word_less_nat_alt CheckMinimalPush_def small_push_def del: of_nat_add)
  next
    case 3
    then have "unat (of_nat (length b) :: u16) = length b" by (simp add: unat_of_nat)
    then show ?thesis using 3 fits
      by (auto simp: push_data_def GetScriptOp_def push_size_def word_less_nat_alt CheckMinimalPush_def small_push_def del: of_nat_add)
  next
    case 4
    then have "unat (of_nat (length b) :: u32) = length b" using assms by (simp add: unat_of_nat)
    then show ?thesis using 4 fits
      by (auto simp: push_data_def GetScriptOp_def push_size_def word_less_nat_alt CheckMinimalPush_def small_push_def del: of_nat_add)
  qed
qed

lemma push_data_append: "push_data script b = script @ push_data [] b"
  by (simp add: push_data_def)

lemma pushes_concat: "foldl push_data script ds = script @ concat (map (push_data []) ds)"
proof (induction ds arbitrary: script)
  case (Cons d ds)
  then show ?case using Cons [of "push_data script d"] push_data_append [of script d] by simp
qed simp

lemma length_push_data: "length b < length (push_data [] b)"
  by (simp add: push_data_def)

lemma push_data_not_Nil [simp]: "push_data [] b \<noteq> []"
  by (simp add: push_data_def)

lemma pushes_scan:
  assumes "length (concat (map (push_data []) ds)) < 2 ^ 32"
  shows "IsPushOnly (concat (map (push_data []) ds)) \<and>
    last_push d (concat (map (push_data []) ds)) = Some (last (d # ds))"
  using assms
proof (induction ds arbitrary: d)
  case Nil
  then show ?case by (simp add: IsPushOnly.simps last_push.simps)
next
  case (Cons b ds)
  let ?rest = "concat (map (push_data []) ds)"
  have "length b + length ?rest < 2 ^ 32" using Cons.prems length_push_data [of b] by simp
  then obtain opcode where op: "GetScriptOp (push_data [] b @ ?rest) = Some (opcode, b, ?rest)" "opcode \<le> OP_PUSHDATA4"
    using GetScriptOp_push by blast
  then have "\<not> opcode > OP_16" by (simp add: word_le_nat_alt word_less_nat_alt)
  moreover have "length ?rest < 2 ^ 32" using Cons.prems by simp
  ultimately show ?case
    using Cons.IH [of b] op
    by (simp add: IsPushOnly.simps [of "push_data [] b @ _"] last_push.simps [of _ "push_data [] b @ _"])
qed

section \<open>Properties\<close>

text \<open>
  C26: Script numbers have one minimal encoding. For every 64-bit value except the smallest,
  \<open>serialize\<close> writes at most eight bytes, \<open>CScriptNum\<close> reads the same value back under the
  minimality rule, no other byte string is accepted for that value under that rule, and the
  encoding fits the default size of four bytes exactly for values of at most 31 bits.
\<close>

theorem CScriptNum_roundtrip:
  assumes "- (2 ^ 63) < v" "v < 2 ^ 63"
  shows "CScriptNum (num_serialize v) True 8 = Inr v \<and>
    (\<forall>vch n. n \<le> 8 \<and> CScriptNum vch True n = Inr v \<longrightarrow> vch = num_serialize v) \<and>
    (length (num_serialize v) \<le> nDefaultMaxNumSize \<longleftrightarrow> \<bar>v\<bar> < 2 ^ 31)"
proof (intro conjI allI impI)
  show "CScriptNum (num_serialize v) True 8 = Inr v"
    using num_serialize_sound [OF assms] by (simp add: CScriptNum_def)
  show "length (num_serialize v) \<le> nDefaultMaxNumSize \<longleftrightarrow> \<bar>v\<bar> < 2 ^ 31"
    using num_serialize_short [OF assms, of 4] by (simp add: nDefaultMaxNumSize_def)
  fix vch n
  assume "n \<le> 8 \<and> CScriptNum vch True n = Inr v"
  then show "vch = num_serialize v"
    using assms by (intro num_serialize_unique) (auto simp: CScriptNum_def split: if_splits)
qed

theorem CScriptNum_roundtrip_witness:
  "num_serialize (-255) = [0xff, 0x80] \<and> CScriptNum [0xff, 0x80] True 8 = Inr (-255) \<and>
   CScriptNum [0xff, 0, 0x80] True 8 \<noteq> Inr (-255) \<and> length (num_serialize (-255)) \<le> nDefaultMaxNumSize"
proof -
  have n: "num_serialize (-255) = [0xff, 0x80]" by code_simp
  then have "[0xff, 0, 0x80] \<noteq> num_serialize (-255)" by simp
  then show ?thesis using CScriptNum_roundtrip [of "-255"] n by fastforce
qed

text \<open>
  Data pushed with \<open>CScript::operator<<\<close> is what \<open>GetScriptOp\<close> reads back, with an opcode
  that \<open>CheckMinimalPush\<close> accepts unless a number opcode would do; a script built from pushes
  only is recognised by \<open>IsPushOnly\<close>, and the scan that finds the redeem script of a
  pay-to-script-hash input returns the last element pushed.
\<close>

theorem push_data_roundtrip:
  assumes "length (foldl push_data [] (b # ds)) < 2 ^ 32"
  shows "(\<exists>opcode. GetScriptOp (foldl push_data [] (b # ds)) = Some (opcode, b, foldl push_data [] ds) \<and>
      CheckMinimalPush b opcode = Inr (\<not> small_push b)) \<and>
    IsPushOnly (foldl push_data [] (b # ds)) \<and> last_push [] (foldl push_data [] (b # ds)) = Some (last (b # ds))"
proof -
  have "length b + length (concat (map (push_data []) ds)) < 2 ^ 32"
    using assms length_push_data [of b] unfolding pushes_concat by simp
  then show ?thesis
    using GetScriptOp_push [of b "concat (map (push_data []) ds)"] pushes_scan [of "b # ds" "[]"] assms
    unfolding pushes_concat by auto
qed

theorem push_data_roundtrip_witness:
  "(\<exists>opcode. GetScriptOp (foldl push_data [] [[1, 2], [7]]) = Some (opcode, [1, 2], foldl push_data [] [[7]]) \<and>
      CheckMinimalPush [1, 2] opcode = Inr (\<not> small_push [1, 2])) \<and>
    IsPushOnly (foldl push_data [] [[1, 2], [7]]) \<and> last_push [] (foldl push_data [] [[1, 2], [7]]) = Some [7]"
  using push_data_roundtrip [of "[1, 2]" "[[7]]"] by (simp add: push_data_def)

end
