(* ===== verification/Coins.thy ===== *)
theory Coins
  imports Refinement Transaction Script "HOL-Library.AList"
begin

text \<open>
  The unspent outputs, \<open>src/src/coins.h\<close>, \<open>src/src/coins.cpp\<close> and the coin operations of
  \<open>src/src/txdb.cpp\<close>: a tower of caches, each over the view below it, down to the database. A
  \<open>CCoinsMap\<close> is an association list, whose order stands for the iteration order of the hash table.
  Views are values: an operation returns the view it leaves behind, including what it pulled into
  the caches below. The database library is a finite store that applies the batches it is given;
  the memory accounting \<open>cachedCoinsUsage\<close> is left out, since it counts heap blocks.
\<close>

section \<open>Definitions: coins and views\<close>

record Coin =
  coin_out :: CTxOut
  fCoinBase :: bool
  coin_nHeight :: u32

definition make_Coin :: "CTxOut \<Rightarrow> int \<Rightarrow> bool \<Rightarrow> Coin" where
  "make_Coin outIn nHeightIn fCoinBaseIn =
     \<lparr> coin_out = outIn, fCoinBase = fCoinBaseIn, coin_nHeight = take_bit 31 (of_int nHeightIn) \<rparr>"

definition Coin_Clear :: Coin where
  "Coin_Clear = \<lparr> coin_out = CTxOut_null, fCoinBase = False, coin_nHeight = 0 \<rparr>"

definition IsSpent :: "Coin \<Rightarrow> bool" where "IsSpent c \<longleftrightarrow> CTxOut_IsNull (coin_out c)"

definition DIRTY :: u8 where "DIRTY = 1"
definition FRESH :: u8 where "FRESH = 2"

record CCoinsCacheEntry =
  entry_coin :: Coin
  entry_flags :: u8

type_synonym CCoinsMap = "(COutPoint \<times> CCoinsCacheEntry) list"

record CCoinsViewCache =
  hashBlock :: uint256
  cacheCoins :: CCoinsMap

record CCoinsViewDB =
  db_coins :: "COutPoint \<Rightarrow> Coin option"
  db_best :: "uint256 option"
  db_heads :: "uint256 list"

datatype CCoinsView = ViewDB CCoinsViewDB | ViewCache CCoinsView CCoinsViewCache

section \<open>Definitions: reading\<close>

definition null_hash :: uint256 where "null_hash = replicate 32 0"

definition fetched :: "Coin \<Rightarrow> CCoinsCacheEntry" where
  "fetched tmp = \<lparr> entry_coin = tmp, entry_flags = (if IsSpent tmp then FRESH else 0) \<rparr>"

fun FetchCoin :: "CCoinsView \<Rightarrow> CCoinsViewCache \<Rightarrow> COutPoint \<Rightarrow> CCoinsCacheEntry option \<times> CCoinsView \<times> CCoinsViewCache"
and GetCoin :: "CCoinsView \<Rightarrow> COutPoint \<Rightarrow> Coin option \<times> CCoinsView" where
  "FetchCoin base c outpoint =
     (case map_of (cacheCoins c) outpoint of
        Some e \<Rightarrow> (Some e, base, c)
      | None \<Rightarrow> (case GetCoin base outpoint of
            (None, base) \<Rightarrow> (None, base, c)
          | (Some tmp, base) \<Rightarrow>
              (Some (fetched tmp), base, c\<lparr> cacheCoins := (outpoint, fetched tmp) # cacheCoins c \<rparr>)))"
| "GetCoin (ViewDB db) outpoint = (db_coins db outpoint, ViewDB db)"
| "GetCoin (ViewCache base c) outpoint =
     (case FetchCoin base c outpoint of
        (Some e, base, c) \<Rightarrow> (if IsSpent (entry_coin e) then None else Some (entry_coin e), ViewCache base c)
      | (None, base, c) \<Rightarrow> (None, ViewCache base c))"

declare FetchCoin.simps [simp del]

fun HaveCoin :: "CCoinsView \<Rightarrow> COutPoint \<Rightarrow> bool \<times> CCoinsView" where
  "HaveCoin (ViewDB db) outpoint = (db_coins db outpoint \<noteq> None, ViewDB db)"
| "HaveCoin (ViewCache base c) outpoint =
     (case FetchCoin base c outpoint of
        (it, base, c) \<Rightarrow> (case it of Some e \<Rightarrow> \<not> IsSpent (entry_coin e) | None \<Rightarrow> False, ViewCache base c))"

definition HaveCoinInCache :: "CCoinsViewCache \<Rightarrow> COutPoint \<Rightarrow> bool" where
  "HaveCoinInCache c outpoint =
     (case map_of (cacheCoins c) outpoint of Some e \<Rightarrow> \<not> IsSpent (entry_coin e) | None \<Rightarrow> False)"

fun view_GetBestBlock :: "CCoinsView \<Rightarrow> uint256 \<times> CCoinsView" where
  "view_GetBestBlock (ViewDB db) = (case db_best db of None \<Rightarrow> null_hash | Some h \<Rightarrow> h, ViewDB db)"
| "view_GetBestBlock (ViewCache base c) =
     (if hashBlock c = null_hash
      then (case view_GetBestBlock base of (h, base) \<Rightarrow> (h, ViewCache base (c\<lparr> hashBlock := h \<rparr>)))
      else (hashBlock c, ViewCache base c))"

text \<open>A cache with the view below it, on which the operations of \<open>CCoinsViewCache\<close> work.\<close>

type_synonym coins_cache = "CCoinsView \<times> CCoinsViewCache"

definition AccessCoin :: "coins_cache \<Rightarrow> COutPoint \<Rightarrow> Coin \<times> coins_cache" where
  "AccessCoin v outpoint =
     (case FetchCoin (fst v) (snd v) outpoint of
        (it, base, c) \<Rightarrow> (case it of None \<Rightarrow> Coin_Clear | Some e \<Rightarrow> entry_coin e, base, c))"

definition cache_HaveCoin :: "coins_cache \<Rightarrow> COutPoint \<Rightarrow> bool \<times> coins_cache" where
  "cache_HaveCoin v outpoint =
     (case FetchCoin (fst v) (snd v) outpoint of
        (it, base, c) \<Rightarrow> (case it of Some e \<Rightarrow> \<not> IsSpent (entry_coin e) | None \<Rightarrow> False, base, c))"

fun have_all :: "coins_cache \<Rightarrow> CTxIn list \<Rightarrow> bool \<times> coins_cache" where
  "have_all v [] = (True, v)"
| "have_all v (i # ins) =
     (case cache_HaveCoin v (prevout i) of (b, v) \<Rightarrow> if b then have_all v ins else (False, v))"

definition HaveInputs :: "coins_cache \<Rightarrow> CTransaction \<Rightarrow> bool \<times> coins_cache" where
  "HaveInputs v tx = (if \<not> IsCoinBase tx then have_all v (vin tx) else (True, v))"

section \<open>Definitions: writing\<close>

definition AddCoin :: "coins_cache \<Rightarrow> COutPoint \<Rightarrow> Coin \<Rightarrow> bool \<Rightarrow> fault + coins_cache" where
  "AddCoin v outpoint new possible_overwrite =
     (if IsSpent new then Inl AssertFailed
      else if IsUnspendable (scriptPubKey (coin_out new)) then Inr v
      else let it = (case map_of (cacheCoins (snd v)) outpoint of None \<Rightarrow> \<lparr> entry_coin = Coin_Clear, entry_flags = 0 \<rparr> | Some e \<Rightarrow> e)
           in if \<not> possible_overwrite \<and> \<not> IsSpent (entry_coin it) then Inl Uncaught
              else let fresh = (\<not> possible_overwrite \<and> entry_flags it AND DIRTY = 0);
                       e = \<lparr> entry_coin = new, entry_flags = entry_flags it OR (DIRTY OR (if fresh then FRESH else 0)) \<rparr>
                   in Inr (fst v, (snd v)\<lparr> cacheCoins := AList.update outpoint e (cacheCoins (snd v)) \<rparr>))"

definition EmplaceCoinInternalDANGER :: "coins_cache \<Rightarrow> COutPoint \<Rightarrow> Coin \<Rightarrow> coins_cache" where
  "EmplaceCoinInternalDANGER v outpoint new =
     (case map_of (cacheCoins (snd v)) outpoint of
        None \<Rightarrow> (fst v, (snd v)\<lparr> cacheCoins := (outpoint, \<lparr> entry_coin = new, entry_flags = DIRTY \<rparr>) # cacheCoins (snd v) \<rparr>)
      | Some _ \<Rightarrow> v)"

definition SpendCoin :: "coins_cache \<Rightarrow> COutPoint \<Rightarrow> (bool \<times> Coin) \<times> coins_cache" where
  "SpendCoin v outpoint =
     (case FetchCoin (fst v) (snd v) outpoint of
        (None, base, c) \<Rightarrow> ((False, Coin_Clear), base, c)
      | (Some e, base, c) \<Rightarrow>
          ((True, entry_coin e), base,
           if entry_flags e AND FRESH \<noteq> 0 then c\<lparr> cacheCoins := AList.delete outpoint (cacheCoins c) \<rparr>
           else c\<lparr> cacheCoins := AList.update outpoint \<lparr> entry_coin = Coin_Clear, entry_flags = entry_flags e OR DIRTY \<rparr> (cacheCoins c) \<rparr>))"

definition SetBestBlock :: "coins_cache \<Rightarrow> uint256 \<Rightarrow> coins_cache" where
  "SetBestBlock v h = (fst v, (snd v)\<lparr> hashBlock := h \<rparr>)"

definition Uncache :: "coins_cache \<Rightarrow> COutPoint \<Rightarrow> coins_cache" where
  "Uncache v k =
     (case map_of (cacheCoins (snd v)) k of
        None \<Rightarrow> v
      | Some e \<Rightarrow> if entry_flags e = 0 then (fst v, (snd v)\<lparr> cacheCoins := AList.delete k (cacheCoins (snd v)) \<rparr>) else v)"

definition GetCacheSize :: "coins_cache \<Rightarrow> nat" where "GetCacheSize v = length (cacheCoins (snd v))"

definition ReallocateCache :: "coins_cache \<Rightarrow> fault + coins_cache" where
  "ReallocateCache v = (if GetCacheSize v = 0 then Inr v else Inl AssertFailed)"

section \<open>Definitions: flushing\<close>

definition batch_entry :: "CCoinsMap \<Rightarrow> COutPoint \<Rightarrow> CCoinsCacheEntry \<Rightarrow> fault + CCoinsMap" where
  "batch_entry ours k e =
     (if entry_flags e AND DIRTY = 0 then Inr ours
      else case map_of ours k of
        None \<Rightarrow>
          if \<not> (entry_flags e AND FRESH \<noteq> 0 \<and> IsSpent (entry_coin e))
          then Inr ((k, \<lparr> entry_coin = entry_coin e, entry_flags = (if entry_flags e AND FRESH \<noteq> 0 then DIRTY OR FRESH else DIRTY) \<rparr>) # ours)
          else Inr ours
      | Some u \<Rightarrow>
          if entry_flags e AND FRESH \<noteq> 0 \<and> \<not> IsSpent (entry_coin u) then Inl Uncaught
          else if entry_flags u AND FRESH \<noteq> 0 \<and> IsSpent (entry_coin e) then Inr (AList.delete k ours)
          else Inr (AList.update k \<lparr> entry_coin = entry_coin e, entry_flags = entry_flags u OR DIRTY \<rparr> ours))"

fun batch_loop :: "CCoinsMap \<Rightarrow> CCoinsMap \<Rightarrow> fault + CCoinsMap" where
  "batch_loop ours [] = Inr ours"
| "batch_loop ours ((k, e) # mapCoins) = sum_bind (batch_entry ours k e) (\<lambda>ours. batch_loop ours mapCoins)"

fun db_loop :: "(COutPoint \<Rightarrow> Coin option) \<Rightarrow> CCoinsMap \<Rightarrow> COutPoint \<Rightarrow> Coin option" where
  "db_loop db [] = db"
| "db_loop db ((k, e) # mapCoins) =
     db_loop (if entry_flags e AND DIRTY \<noteq> 0 then (if IsSpent (entry_coin e) then db(k := None) else db(k := Some (entry_coin e))) else db) mapCoins"

fun BatchWrite :: "CCoinsView \<Rightarrow> CCoinsMap \<Rightarrow> uint256 \<Rightarrow> fault + CCoinsView" where
  "BatchWrite (ViewCache base c) mapCoins h =
     sum_bind (batch_loop (cacheCoins c) mapCoins) (\<lambda>ours. Inr (ViewCache base (c\<lparr> cacheCoins := ours, hashBlock := h \<rparr>)))"
| "BatchWrite (ViewDB db) mapCoins h =
     (if h = null_hash then Inl AssertFailed
      else if fst (view_GetBestBlock (ViewDB db)) = null_hash \<and> length (db_heads db) = 2 \<and> db_heads db ! 0 \<noteq> h
      then Inl AssertFailed
      else Inr (ViewDB \<lparr> db_coins = db_loop (db_coins db) mapCoins, db_best = Some h, db_heads = [] \<rparr>))"

definition Flush :: "coins_cache \<Rightarrow> fault + coins_cache" where
  "Flush v = sum_bind (BatchWrite (fst v) (cacheCoins (snd v)) (hashBlock (snd v))) (\<lambda>base.
     Inr (base, (snd v)\<lparr> cacheCoins := [] \<rparr>))"

section \<open>Definitions: transactions\<close>

fun add_outputs :: "coins_cache \<Rightarrow> uint256 \<Rightarrow> int \<Rightarrow> bool \<Rightarrow> bool \<Rightarrow> nat \<Rightarrow> CTxOut list \<Rightarrow> fault + coins_cache" where
  "add_outputs v txid h fCoinbase check i [] = Inr v"
| "add_outputs v txid h fCoinbase check i (out # outs) =
     (let p = \<lparr> op_hash = txid, op_n = of_nat i \<rparr>;
          (overwrite, v) = (if check then cache_HaveCoin v p else (fCoinbase, v))
      in sum_bind (AddCoin v p (make_Coin out h fCoinbase) overwrite) (\<lambda>v.
           add_outputs v txid h fCoinbase check (i + 1) outs))"

definition AddCoins :: "coins_cache \<Rightarrow> CTransaction \<Rightarrow> int \<Rightarrow> bool \<Rightarrow> fault + coins_cache" where
  "AddCoins v tx h check = add_outputs v (tx_GetHash tx) h (IsCoinBase tx) check 0 (vout tx)"

definition MAX_OUTPUTS_PER_BLOCK :: nat where
  "MAX_OUTPUTS_PER_BLOCK = MAX_BLOCK_WEIGHT div (WITNESS_SCALE_FACTOR * length (ser_CTxOut CTxOut_null))"

fun by_txid_loop :: "nat \<Rightarrow> coins_cache \<Rightarrow> uint256 \<Rightarrow> nat \<Rightarrow> Coin \<times> coins_cache" where
  "by_txid_loop 0 v txid k = (Coin_Clear, v)"
| "by_txid_loop (Suc left) v txid k =
     (case AccessCoin v \<lparr> op_hash = txid, op_n = of_nat k \<rparr> of
        (alternate, v) \<Rightarrow> if \<not> IsSpent alternate then (alternate, v) else by_txid_loop left v txid (k + 1))"

definition AccessByTxid :: "coins_cache \<Rightarrow> uint256 \<Rightarrow> Coin \<times> coins_cache" where
  "AccessByTxid v txid = by_txid_loop MAX_OUTPUTS_PER_BLOCK v txid 0"

section \<open>The set of unspent outputs a view stands for\<close>

definition unspent :: "Coin \<Rightarrow> Coin option" where
  "unspent c = (if IsSpent c then None else Some c)"

definition over :: "CCoinsMap \<Rightarrow> (COutPoint \<Rightarrow> Coin option) \<Rightarrow> COutPoint \<Rightarrow> Coin option" where
  "over m below = (\<lambda>k. case map_of m k of None \<Rightarrow> below k | Some e \<Rightarrow> unspent (entry_coin e))"

fun coins_of :: "CCoinsView \<Rightarrow> COutPoint \<Rightarrow> Coin option" where
  "coins_of (ViewDB db) = db_coins db"
| "coins_of (ViewCache base c) = over (cacheCoins c) (coins_of base)"

definition is_dirty :: "CCoinsCacheEntry \<Rightarrow> bool" where "is_dirty e \<longleftrightarrow> entry_flags e AND DIRTY \<noteq> 0"
definition is_fresh :: "CCoinsCacheEntry \<Rightarrow> bool" where "is_fresh e \<longleftrightarrow> entry_flags e AND FRESH \<noteq> 0"

text \<open>
  A fresh entry has no unspent coin below it, and an entry that is not dirty agrees with the view
  below: what makes it safe to drop the one when it is spent and the other at any time.
\<close>

definition entry_ok :: "Coin option \<Rightarrow> CCoinsCacheEntry \<Rightarrow> bool" where
  "entry_ok below e \<longleftrightarrow> (is_fresh e \<longrightarrow> below = None) \<and> (\<not> is_dirty e \<longrightarrow> below = unspent (entry_coin e))"

definition map_ok :: "(COutPoint \<Rightarrow> Coin option) \<Rightarrow> CCoinsMap \<Rightarrow> bool" where
  "map_ok below m \<longleftrightarrow> distinct (map fst m) \<and> (\<forall>(k, e) \<in> set m. entry_ok (below k) e)"

fun view_ok :: "CCoinsView \<Rightarrow> bool" where
  "view_ok (ViewDB db) \<longleftrightarrow> (\<forall>k c. db_coins db k = Some c \<longrightarrow> \<not> IsSpent c)"
| "view_ok (ViewCache base c) \<longleftrightarrow> view_ok base \<and> map_ok (coins_of base) (cacheCoins c)"

abbreviation cache_view :: "coins_cache \<Rightarrow> CCoinsView" where
  "cache_view v \<equiv> ViewCache (fst v) (snd v)"

section \<open>Flags and maps\<close>

lemma bit_DIRTY: "bit DIRTY i \<longleftrightarrow> i = 0" and bit_FRESH: "bit FRESH i \<longleftrightarrow> i = 1"
  by (auto simp: DIRTY_def FRESH_def bit_1_iff bit_2_iff)

lemma flag_bit: "is_dirty e \<longleftrightarrow> bit (entry_flags e) 0" "is_fresh e \<longleftrightarrow> bit (entry_flags e) 1"
proof -
  have "entry_flags e AND DIRTY = (if bit (entry_flags e) 0 then DIRTY else 0)"
    and "entry_flags e AND FRESH = (if bit (entry_flags e) 1 then FRESH else 0)"
    by (auto intro!: bit_eqI simp: bit_and_iff bit_DIRTY bit_FRESH)
  then show "is_dirty e \<longleftrightarrow> bit (entry_flags e) 0" "is_fresh e \<longleftrightarrow> bit (entry_flags e) 1"
    by (auto simp: is_dirty_def is_fresh_def DIRTY_def FRESH_def)
qed

lemma flag_sets [simp]:
  "is_dirty \<lparr> entry_coin = c, entry_flags = f OR DIRTY \<rparr>" "is_dirty \<lparr> entry_coin = c, entry_flags = DIRTY \<rparr>"
  "is_dirty \<lparr> entry_coin = c, entry_flags = DIRTY OR FRESH \<rparr>" "is_dirty \<lparr> entry_coin = c, entry_flags = f OR (DIRTY OR FRESH) \<rparr>"
  "is_fresh \<lparr> entry_coin = c, entry_flags = f OR DIRTY \<rparr> \<longleftrightarrow> is_fresh \<lparr> entry_coin = c, entry_flags = f \<rparr>"
  "\<not> is_fresh \<lparr> entry_coin = c, entry_flags = DIRTY \<rparr>"
  "\<not> is_dirty \<lparr> entry_coin = c, entry_flags = 0 \<rparr>" "\<not> is_fresh \<lparr> entry_coin = c, entry_flags = 0 \<rparr>"
  "\<not> is_dirty \<lparr> entry_coin = c, entry_flags = FRESH \<rparr>" "is_fresh \<lparr> entry_coin = c, entry_flags = FRESH \<rparr>"
  by (simp_all add: flag_bit bit_or_iff bit_DIRTY bit_FRESH)

lemma fresh_flags [simp]: "is_fresh \<lparr> entry_coin = c, entry_flags = entry_flags e \<rparr> \<longleftrightarrow> is_fresh e"
  "is_dirty \<lparr> entry_coin = c, entry_flags = entry_flags e \<rparr> \<longleftrightarrow> is_dirty e"
  by (simp_all add: flag_bit)

lemma unspent_simps [simp]: "unspent Coin_Clear = None" "IsSpent Coin_Clear"
  "\<not> IsSpent c \<Longrightarrow> unspent c = Some c" "IsSpent c \<Longrightarrow> unspent c = None" "unspent c = None \<longleftrightarrow> IsSpent c"
  "unspent c = Some d \<longleftrightarrow> c = d \<and> \<not> IsSpent c"
  by (auto simp: unspent_def IsSpent_def Coin_Clear_def CTxOut_null_def CTxOut_IsNull_def)

lemma coins_unspent: "view_ok v \<Longrightarrow> coins_of v k = Some c \<Longrightarrow> \<not> IsSpent c"
  by (induction v) (auto simp: over_def split: option.splits)

lemma map_ok_lookup: "map_ok below m \<Longrightarrow> map_of m k = Some e \<Longrightarrow> entry_ok (below k) e"
  unfolding map_ok_def by (auto dest: map_of_SomeD)

lemma map_okI: "distinct (map fst m) \<Longrightarrow> (\<And>k e. map_of m k = Some e \<Longrightarrow> entry_ok (below k) e) \<Longrightarrow> map_ok below m"
  unfolding map_ok_def by (metis (mono_tags, lifting) case_prodI2 map_of_eq_Some_iff)

lemma map_ok_iff: "map_ok below m \<longleftrightarrow> distinct (map fst m) \<and> (\<forall>k e. map_of m k = Some e \<longrightarrow> entry_ok (below k) e)"
  using map_okI map_ok_lookup by (auto simp: map_ok_def)

lemma map_of_update: "map_of (AList.update k e m) = (map_of m)(k \<mapsto> e)"
  by (simp add: update_conv')

lemma map_of_delete: "map_of (AList.delete k m) = (map_of m)(k := None)"
  by (simp add: delete_conv')

lemma over_update: "over (AList.update k e m) below = (over m below)(k := unspent (entry_coin e))"
  by (auto simp: over_def map_of_update fun_eq_iff)

lemma over_delete: "over (AList.delete k m) below = (over m below)(k := below k)"
  by (auto simp: over_def map_of_delete fun_eq_iff)

lemma map_ok_update: "map_ok below m \<Longrightarrow> entry_ok (below k) e \<Longrightarrow> map_ok below (AList.update k e m)"
  by (auto simp: map_ok_iff map_of_update distinct_update)

lemma map_ok_delete: "map_ok below m \<Longrightarrow> map_ok below (AList.delete k m)"
  by (auto simp: map_ok_iff map_of_delete distinct_delete)

lemma map_ok_Cons: "map_ok below m \<Longrightarrow> map_of m k = None \<Longrightarrow> entry_ok (below k) e \<Longrightarrow> map_ok below ((k, e) # m)"
  by (auto simp: map_ok_def map_of_eq_None_iff)

lemma over_Cons: "over ((k, e) # m) below = (over m below)(k := unspent (entry_coin e))"
  by (auto simp: over_def fun_eq_iff)

section \<open>Reading changes nothing\<close>

lemma fetched_ok: "\<not> IsSpent c \<Longrightarrow> entry_ok (Some c) (fetched c)"
  by (simp add: entry_ok_def fetched_def)

lemma entry_coin_fetched [simp]: "entry_coin (fetched c) = c"
  by (simp add: fetched_def)

lemma reading:
  shows "view_ok base \<Longrightarrow> map_ok (coins_of base) (cacheCoins c) \<Longrightarrow> FetchCoin base c k = (it, base', c') \<Longrightarrow>
      view_ok base' \<and> coins_of base' = coins_of base \<and> map_ok (coins_of base) (cacheCoins c') \<and>
      over (cacheCoins c') (coins_of base) = over (cacheCoins c) (coins_of base) \<and> hashBlock c' = hashBlock c \<and>
      it = map_of (cacheCoins c') k \<and>
      (case it of None \<Rightarrow> None | Some e \<Rightarrow> unspent (entry_coin e)) = over (cacheCoins c) (coins_of base) k"
    and "view_ok v \<Longrightarrow> GetCoin v k = (r, v') \<Longrightarrow> view_ok v' \<and> coins_of v' = coins_of v \<and> r = coins_of v k"
proof (induction base c k and v k arbitrary: it base' c' and r v' rule: FetchCoin_GetCoin.induct)
  case (1 base c k)
  show ?case
  proof (cases "map_of (cacheCoins c) k")
    case (Some e)
    then have "it = Some e" "base' = base" "c' = c" using "1.prems"(3) by (simp_all add: FetchCoin.simps)
    then show ?thesis using "1.prems"(1,2) Some by (simp add: over_def)
  next
    case None
    obtain r b where g: "GetCoin base k = (r, b)" by fastforce
    note ih = "1.IH" [OF None "1.prems"(1) g]
    show ?thesis
    proof (cases r)
      case N: None
      then have "it = None" "base' = b" "c' = c" using "1.prems"(3) g None N by (simp_all add: FetchCoin.simps)
      then show ?thesis using "1.prems"(1,2) ih N None by (simp add: over_def)
    next
      case (Some tmp)
      have k: "coins_of base k = Some tmp" using ih Some by simp
      have n: "\<not> IsSpent tmp" using coins_unspent [OF "1.prems"(1) k] .
      have o: "over ((k, fetched tmp) # cacheCoins c) (coins_of base) = over (cacheCoins c) (coins_of base)"
        using k None n by (simp add: over_Cons fun_upd_idem_iff) (simp add: over_def)
      have ok: "map_ok (coins_of base) ((k, fetched tmp) # cacheCoins c)"
        by (rule map_ok_Cons [OF "1.prems"(2) None]) (simp add: k fetched_ok n)
      have "it = Some (fetched tmp)" "base' = b" "c' = c\<lparr> cacheCoins := (k, fetched tmp) # cacheCoins c \<rparr>"
        using "1.prems"(3) g None Some by (simp_all add: FetchCoin.simps)
      moreover have "over (cacheCoins c) (coins_of base) k = Some tmp" using k None by (simp add: over_def)
      ultimately show ?thesis using ih n o ok by simp
    qed
  qed
next
  case (3 base c k)
  obtain it b d where f: "FetchCoin base c k = (it, b, d)" by (metis prod_cases3)
  then show ?case using "3.IH" [of it b d] "3.prems" by (auto split: option.splits simp: unspent_def)
qed (auto)

section \<open>What the operations of a cache do\<close>

abbreviation cache_ok :: "coins_cache \<Rightarrow> bool" where "cache_ok v \<equiv> view_ok (cache_view v)"
abbreviation coins :: "coins_cache \<Rightarrow> COutPoint \<Rightarrow> Coin option" where "coins v \<equiv> coins_of (cache_view v)"

lemma fetch:
  assumes "cache_ok v" "FetchCoin (fst v) (snd v) k = (it, b, c)"
  shows "cache_ok (b, c)" "coins (b, c) = coins v" "it = map_of (cacheCoins c) k"
    "coins v k = (case it of None \<Rightarrow> None | Some e \<Rightarrow> unspent (entry_coin e))"
proof -
  have "view_ok (fst v)" "map_ok (coins_of (fst v)) (cacheCoins (snd v))" using assms(1) by simp_all
  note r = reading(1) [OF this assms(2)]
  show "cache_ok (b, c)" "coins (b, c) = coins v" "it = map_of (cacheCoins c) k" using r by auto
  show "coins v k = (case it of None \<Rightarrow> None | Some e \<Rightarrow> unspent (entry_coin e))"
    unfolding coins_of.simps using r by (elim conjE) (rule sym)
qed

lemma HaveCoin_law:
  assumes "cache_ok v" "cache_HaveCoin v k = (r, v')"
  shows "cache_ok v' \<and> coins v' = coins v \<and> (r \<longleftrightarrow> coins v k \<noteq> None)"
proof -
  obtain it b c where f: "FetchCoin (fst v) (snd v) k = (it, b, c)" by (metis prod_cases3)
  then show ?thesis using fetch(1,2,4) [OF assms(1) f] assms(2) unfolding cache_HaveCoin_def
    by (cases it) (auto simp del: coins_of.simps view_ok.simps)
qed

lemma AccessCoin_law:
  assumes "cache_ok v" "AccessCoin v k = (r, v')"
  shows "cache_ok v' \<and> coins v' = coins v \<and> unspent r = coins v k"
proof -
  obtain it b c where f: "FetchCoin (fst v) (snd v) k = (it, b, c)" by (metis prod_cases3)
  then show ?thesis using fetch(1,2,4) [OF assms(1) f] assms(2) unfolding AccessCoin_def
    by (cases it) (auto simp del: coins_of.simps view_ok.simps)
qed

lemma HaveInputs_law:
  assumes "cache_ok v" "HaveInputs v tx = (r, v')"
  shows "cache_ok v' \<and> coins v' = coins v \<and> (r \<longleftrightarrow> IsCoinBase tx \<or> (\<forall>i \<in> set (vin tx). coins v (prevout i) \<noteq> None))"
proof -
  have "have_all w ins = (r, w') \<Longrightarrow> cache_ok w \<Longrightarrow>
      cache_ok w' \<and> coins w' = coins w \<and> (r \<longleftrightarrow> (\<forall>i \<in> set ins. coins w (prevout i) \<noteq> None))" for w w' ins r
  proof (induction w ins arbitrary: r w' rule: have_all.induct)
    case (2 w i ins)
    obtain b u where h: "cache_HaveCoin w (prevout i) = (b, u)" by (metis surj_pair)
    note law = HaveCoin_law [OF "2.prems"(2) h]
    show ?case using "2.IH" [OF h [symmetric]] "2.prems"(1) h law by (cases b) (auto simp del: coins_of.simps view_ok.simps)
  qed simp
  then show ?thesis using assms by (auto simp: HaveInputs_def simp del: coins_of.simps view_ok.simps split: if_splits)
qed

lemma SpendCoin_law:
  assumes "cache_ok v" "SpendCoin v k = ((b, d), v')"
  shows "cache_ok v' \<and> coins v' = (coins v)(k := None) \<and> unspent d = coins v k \<and> (coins v k \<noteq> None \<longrightarrow> b)"
proof -
  obtain it base c where f: "FetchCoin (fst v) (snd v) k = (it, base, c)" by (metis prod_cases3)
  note law = fetch [OF assms(1) f]
  show ?thesis
  proof (cases it)
    case None
    then have "v' = (base, c)" "d = Coin_Clear" using assms(2) f by (simp_all add: SpendCoin_def)
    then show ?thesis using law None by (auto simp: fun_eq_iff simp del: coins_of.simps view_ok.simps)
  next
    case (Some e)
    have m: "map_ok (coins_of base) (cacheCoins c)" and vb: "view_ok base" using law(1) by simp_all
    have e: "entry_ok (coins_of base k) e" using map_ok_lookup [OF m] law(3) Some by simp
    have co: "coins v = over (cacheCoins c) (coins_of base)" using law(2) by simp
    show ?thesis
    proof (cases "is_fresh e")
      case True
      then have "v' = (base, c\<lparr> cacheCoins := AList.delete k (cacheCoins c) \<rparr>)" "d = entry_coin e" b
        using assms(2) f Some by (simp_all add: SpendCoin_def is_fresh_def)
      then show ?thesis using e True m vb co law(4) Some by (simp add: map_ok_delete over_delete entry_ok_def)
    next
      case False
      then have "v' = (base, c\<lparr> cacheCoins := AList.update k \<lparr> entry_coin = Coin_Clear, entry_flags = entry_flags e OR DIRTY \<rparr> (cacheCoins c) \<rparr>)"
        "d = entry_coin e" b
        using assms(2) f Some by (simp_all add: SpendCoin_def is_fresh_def)
      moreover have "entry_ok (coins_of base k) \<lparr> entry_coin = Coin_Clear, entry_flags = entry_flags e OR DIRTY \<rparr>"
        using False by (simp add: entry_ok_def)
      ultimately show ?thesis using m vb co law(4) Some by (simp add: map_ok_update over_update)
    qed
  qed
qed

lemma AddCoin_law:
  assumes ok: "cache_ok v" and new: "\<not> IsSpent d" and absent: "\<not> possible_overwrite \<Longrightarrow> coins v k = None"
  shows "\<exists>v'. AddCoin v k d possible_overwrite = Inr v' \<and> cache_ok v' \<and>
    coins v' = (if IsUnspendable (scriptPubKey (coin_out d)) then coins v else (coins v)(k \<mapsto> d))"
proof (cases "IsUnspendable (scriptPubKey (coin_out d))")
  case True
  then show ?thesis using assms by (auto simp: AddCoin_def)
next
  case False
  obtain base c where v: "v = (base, c)" by (metis surj_pair)
  define e where "e = (case map_of (cacheCoins c) k of None \<Rightarrow> \<lparr> entry_coin = Coin_Clear, entry_flags = 0 \<rparr> | Some e \<Rightarrow> e)"
  define fresh where "fresh = (\<not> possible_overwrite \<and> entry_flags e AND DIRTY = 0)"
  let ?n = "\<lparr> entry_coin = d, entry_flags = entry_flags e OR (DIRTY OR (if fresh then FRESH else 0)) \<rparr>"
  have m: "map_ok (coins_of base) (cacheCoins c)" and vb: "view_ok base" using ok v by simp_all
  have spent: "IsSpent (entry_coin e)" if "\<not> possible_overwrite"
    using absent [OF that] v by (auto simp: e_def over_def split: option.splits)
  have e: "is_fresh e \<Longrightarrow> coins_of base k = None" "\<not> possible_overwrite \<Longrightarrow> \<not> is_dirty e \<Longrightarrow> coins_of base k = None"
    using map_ok_lookup [OF m, of k] absent spent v
    by (auto simp: e_def over_def entry_ok_def split: option.splits)
  have n: "entry_ok (coins_of base k) ?n"
  proof -
    have "fresh \<longleftrightarrow> \<not> possible_overwrite \<and> \<not> is_dirty e" by (simp add: fresh_def is_dirty_def)
    then show ?thesis using e by (auto simp: entry_ok_def flag_bit bit_or_iff bit_DIRTY bit_FRESH)
  qed
  have "AddCoin v k d possible_overwrite = Inr (base, c\<lparr> cacheCoins := AList.update k ?n (cacheCoins c) \<rparr>)"
    using new False spent by (auto simp: AddCoin_def v Let_def e_def [symmetric] fresh_def)
  then show ?thesis using m vb n v new False by (simp add: map_ok_update over_update)
qed

lemma Uncache_law: "cache_ok v \<Longrightarrow> cache_ok (Uncache v k) \<and> coins (Uncache v k) = coins v"
proof -
  assume ok: "cache_ok v"
  obtain base c where v: "v = (base, c)" by (metis surj_pair)
  then have m: "map_ok (coins_of base) (cacheCoins c)" using ok by simp
  have "over (AList.delete k (cacheCoins c)) (coins_of base) = over (cacheCoins c) (coins_of base)"
    if "map_of (cacheCoins c) k = Some e" "entry_flags e = 0" for e
  proof -
    have "\<not> is_dirty e" using that(2) by (simp add: is_dirty_def)
    then have "coins_of base k = unspent (entry_coin e)" using map_ok_lookup [OF m that(1)] by (simp add: entry_ok_def)
    then show ?thesis using that(1) by (simp add: over_delete fun_upd_idem_iff) (simp add: over_def)
  qed
  then show ?thesis using ok m by (auto simp: Uncache_def v map_ok_delete split: option.splits)
qed

lemma SetBestBlock_law: "cache_ok v \<Longrightarrow> cache_ok (SetBestBlock v h) \<and> coins (SetBestBlock v h) = coins v"
  by (simp add: SetBestBlock_def)

section \<open>What flushing does\<close>

lemma upd_same: "below k = x \<Longrightarrow> below = below(k := x)"
  by auto

lemma batch_entry_law:
  assumes m: "map_ok below ours" and e: "entry_ok (over ours below k) e"
  shows "\<exists>ours'. batch_entry ours k e = Inr ours' \<and> map_ok below ours' \<and>
    over ours' below = (over ours below)(k := unspent (entry_coin e))"
proof (cases "is_dirty e")
  case False
  then have "over ours below k = unspent (entry_coin e)" using e by (simp add: entry_ok_def)
  then have "over ours below = (over ours below)(k := unspent (entry_coin e))" by (rule upd_same)
  then show ?thesis using False m by (simp add: batch_entry_def is_dirty_def)
next
  case d: True
  then have d': "entry_flags e AND DIRTY \<noteq> 0" by (simp add: is_dirty_def)
  show ?thesis
  proof (cases "map_of ours k")
    case None
    then have below: "over ours below k = below k" by (simp add: over_def)
    show ?thesis
    proof (cases "is_fresh e \<and> IsSpent (entry_coin e)")
      case True
      then have "over ours below k = unspent (entry_coin e)" using e by (simp add: entry_ok_def)
      then have "over ours below = (over ours below)(k := unspent (entry_coin e))" by (rule upd_same)
      then show ?thesis using d' None m True by (simp add: batch_entry_def is_fresh_def)
    next
      case False
      let ?n = "\<lparr> entry_coin = entry_coin e, entry_flags = (if is_fresh e then DIRTY OR FRESH else DIRTY) \<rparr>"
      have "batch_entry ours k e = Inr ((k, ?n) # ours)"
        using False d' None by (auto simp: batch_entry_def is_fresh_def)
      moreover have "entry_ok (below k) ?n" using e below by (auto simp: entry_ok_def)
      ultimately show ?thesis using map_ok_Cons [OF m None] by (simp add: over_Cons)
    qed
  next
    case (Some u)
    then have u: "over ours below k = unspent (entry_coin u)" by (simp add: over_def)
    have no: "\<not> (is_fresh e \<and> \<not> IsSpent (entry_coin u))" using e u by (simp add: entry_ok_def)
    have uok: "entry_ok (below k) u" using map_ok_lookup [OF m Some] .
    show ?thesis
    proof (cases "is_fresh u \<and> IsSpent (entry_coin e)")
      case True
      then show ?thesis using no d' Some m uok
        by (auto simp: batch_entry_def is_fresh_def entry_ok_def map_ok_delete over_delete)
    next
      case False
      let ?n = "\<lparr> entry_coin = entry_coin e, entry_flags = entry_flags u OR DIRTY \<rparr>"
      have "batch_entry ours k e = Inr (AList.update k ?n ours)"
        using False no d' Some by (auto simp: batch_entry_def is_fresh_def)
      moreover have "entry_ok (below k) ?n" using uok by (simp add: entry_ok_def)
      ultimately show ?thesis using map_ok_update [OF m] by (simp add: over_update)
    qed
  qed
qed

lemma over_absent: "k \<notin> set (map fst m) \<Longrightarrow> over m (below(k := x)) = (over m below)(k := x)"
proof -
  assume "k \<notin> set (map fst m)"
  then have "map_of m k = None" by (simp add: map_of_eq_None_iff)
  then show ?thesis by (auto simp: over_def fun_eq_iff split: option.split)
qed

lemma over_step: "k \<notin> set (map fst m) \<Longrightarrow> over m (below(k := unspent (entry_coin e))) = over ((k, e) # m) below"
  by (simp add: over_absent over_Cons)

lemma map_ok_tail:
  assumes "map_ok below ((k, e) # m)"
  shows "map_ok (below(k := x)) m" "entry_ok (below k) e" "k \<notin> set (map fst m)"
  using assms by (force simp: map_ok_def)+

lemma batch_loop_law:
  "map_ok below ours \<Longrightarrow> map_ok (over ours below) m \<Longrightarrow>
   \<exists>ours'. batch_loop ours m = Inr ours' \<and> map_ok below ours' \<and> over ours' below = over m (over ours below)"
proof (induction ours m rule: batch_loop.induct)
  case (2 ours k e m)
  note t = map_ok_tail [OF "2.prems"(2)]
  from batch_entry_law [OF "2.prems"(1) t(2)] obtain o1 where o1: "batch_entry ours k e = Inr o1" "map_ok below o1"
    "over o1 below = (over ours below)(k := unspent (entry_coin e))" by blast
  have "map_ok (over o1 below) m" unfolding o1(3) by (rule t(1))
  from "2.IH" [OF o1(2) this] obtain o2 where "batch_loop o1 m = Inr o2" "map_ok below o2"
    "over o2 below = over m ((over ours below)(k := unspent (entry_coin e)))" unfolding o1(3) by blast
  then show ?case using o1(1) over_step [OF t(3)] by simp
qed (simp add: over_def)

lemma db_loop_law: "map_ok db m \<Longrightarrow> db_loop db m = over m db"
proof (induction db m rule: db_loop.induct)
  case (2 db k e m)
  note t = map_ok_tail [OF "2.prems"]
  let ?x = "unspent (entry_coin e)"
  let ?db = "if entry_flags e AND DIRTY \<noteq> 0 then if IsSpent (entry_coin e) then db(k := None) else db(k \<mapsto> entry_coin e) else db"
  have eq: "?db = db(k := ?x)"
  proof (cases "is_dirty e")
    case False
    then have "db k = ?x" using t(2) by (simp add: entry_ok_def)
    then show ?thesis using False by (simp add: is_dirty_def fun_upd_idem)
  qed (simp add: is_dirty_def unspent_def)
  have "db_loop ?db m = over m ?db" by (rule "2.IH") (unfold eq, rule t(1))
  then show ?case unfolding db_loop.simps eq over_step [OF t(3)] .
qed (simp add: over_def)

fun writable :: "CCoinsView \<Rightarrow> uint256 \<Rightarrow> bool" where
  "writable (ViewDB db) h \<longleftrightarrow> h \<noteq> null_hash \<and>
     \<not> (fst (view_GetBestBlock (ViewDB db)) = null_hash \<and> length (db_heads db) = 2 \<and> db_heads db ! 0 \<noteq> h)"
| "writable (ViewCache base c) h \<longleftrightarrow> True"

lemma over_unspent: "view_ok v \<Longrightarrow> over m (coins_of v) k = Some c \<Longrightarrow> \<not> IsSpent c"
  using coins_unspent by (auto simp: over_def split: option.splits)

lemma BatchWrite_law:
  assumes "view_ok v" "map_ok (coins_of v) m" "writable v h"
  shows "\<exists>v'. BatchWrite v m h = Inr v' \<and> view_ok v' \<and> coins_of v' = over m (coins_of v)"
proof (cases v)
  case (ViewDB db)
  have "db_loop (db_coins db) m = over m (db_coins db)" using db_loop_law assms(2) ViewDB by simp
  then show ?thesis using ViewDB assms(3) over_unspent [OF assms(1)] by (auto split: if_splits)
next
  case (ViewCache base c)
  then show ?thesis using batch_loop_law [of "coins_of base" "cacheCoins c" m] assms(1,2) by auto
qed

lemma Flush_law:
  assumes "cache_ok v" "writable (fst v) (hashBlock (snd v))"
  shows "\<exists>base. Flush v = Inr (base, (snd v)\<lparr> cacheCoins := [] \<rparr>) \<and> view_ok base \<and> coins_of base = coins v"
proof -
  have "view_ok (fst v)" "map_ok (coins_of (fst v)) (cacheCoins (snd v))" using assms(1) by simp_all
  from BatchWrite_law [OF this assms(2)] show ?thesis by (auto simp: Flush_def)
qed

lemma empty_cache: "view_ok base \<Longrightarrow> cacheCoins c = [] \<Longrightarrow> cache_ok (base, c) \<and> coins (base, c) = coins_of base"
  by (simp add: map_ok_def over_def)

section \<open>The cache refines a finite map\<close>

text \<open>The calls a client makes, and what a plain map of unspent outputs answers.\<close>

datatype coins_op = OpHave COutPoint | OpAccess COutPoint | OpAdd COutPoint Coin bool | OpSpend COutPoint
  | OpUncache COutPoint | OpBest uint256 | OpFlush

datatype coins_result = RBool bool | RCoin "Coin option" | RUnit

fun coins_step :: "coins_op \<Rightarrow> coins_cache \<Rightarrow> fault + coins_result \<times> coins_cache" where
  "coins_step (OpHave k) v = (case cache_HaveCoin v k of (b, v) \<Rightarrow> Inr (RBool b, v))"
| "coins_step (OpAccess k) v = (case AccessCoin v k of (c, v) \<Rightarrow> Inr (RCoin (unspent c), v))"
| "coins_step (OpAdd k c possible_overwrite) v = sum_bind (AddCoin v k c possible_overwrite) (\<lambda>v. Inr (RUnit, v))"
| "coins_step (OpSpend k) v = (case SpendCoin v k of ((b, c), v) \<Rightarrow> Inr (RCoin (unspent c), v))"
| "coins_step (OpUncache k) v = Inr (RUnit, Uncache v k)"
| "coins_step (OpBest h) v = Inr (RUnit, SetBestBlock v h)"
| "coins_step OpFlush v = sum_bind (Flush v) (\<lambda>v. Inr (RUnit, v))"

fun coins_spec :: "coins_op \<Rightarrow> (COutPoint \<Rightarrow> Coin option) \<Rightarrow> (coins_result \<times> (COutPoint \<Rightarrow> Coin option)) option" where
  "coins_spec (OpHave k) m = Some (RBool (m k \<noteq> None), m)"
| "coins_spec (OpAccess k) m = Some (RCoin (m k), m)"
| "coins_spec (OpAdd k c possible_overwrite) m =
     (if IsSpent c \<or> \<not> possible_overwrite \<and> m k \<noteq> None then None
      else Some (RUnit, if IsUnspendable (scriptPubKey (coin_out c)) then m else m(k \<mapsto> c)))"
| "coins_spec (OpSpend k) m = Some (RCoin (m k), m(k := None))"
| "coins_spec (OpUncache k) m = Some (RUnit, m)"
| "coins_spec (OpBest h) m = (if h = null_hash then None else Some (RUnit, m))"
| "coins_spec OpFlush m = Some (RUnit, m)"

fun settled :: "CCoinsView \<Rightarrow> bool" where
  "settled (ViewDB db) \<longleftrightarrow> db_heads db = []"
| "settled (ViewCache base c) \<longleftrightarrow> settled base"

definition tower_ok :: "coins_cache \<Rightarrow> bool" where
  "tower_ok v \<longleftrightarrow> cache_ok v \<and> settled (fst v) \<and> hashBlock (snd v) \<noteq> null_hash"

lemma settled_writable: "settled v \<Longrightarrow> h \<noteq> null_hash \<Longrightarrow> writable v h"
  by (cases v) simp_all

lemma settled_reading:
  shows "FetchCoin base c k = (it, base', c') \<Longrightarrow> settled base \<Longrightarrow> settled base' \<and> hashBlock c' = hashBlock c"
    and "GetCoin v k = (r, v') \<Longrightarrow> settled v \<Longrightarrow> settled v'"
proof (induction base c k and v k arbitrary: it base' c' and r v' rule: FetchCoin_GetCoin.induct)
  case (1 base c k)
  then show ?case by (auto simp: FetchCoin.simps split: option.splits prod.splits)
next
  case (3 base c k)
  obtain it b d where f: "FetchCoin base c k = (it, b, d)" by (metis prod_cases3)
  then show ?case using "3.IH" [OF f] "3.prems" by (cases it) auto
qed simp

lemma settled_BatchWrite: "BatchWrite v m h = Inr v' \<Longrightarrow> settled v \<Longrightarrow> settled v'"
  by (cases v) (auto simp: sum_bind_Inr_iff split: if_splits)

lemma settled_ops:
  assumes "settled (fst v)"
  shows "cache_HaveCoin v k = (b, v') \<Longrightarrow> settled (fst v') \<and> hashBlock (snd v') = hashBlock (snd v)"
    and "AccessCoin v k = (c, v') \<Longrightarrow> settled (fst v') \<and> hashBlock (snd v') = hashBlock (snd v)"
    and "SpendCoin v k = (d, v') \<Longrightarrow> settled (fst v') \<and> hashBlock (snd v') = hashBlock (snd v)"
    and "AddCoin v k new ow = Inr v' \<Longrightarrow> settled (fst v') \<and> hashBlock (snd v') = hashBlock (snd v)"
proof -
  obtain it b' c' where f: "FetchCoin (fst v) (snd v) k = (it, b', c')" by (metis prod_cases3)
  note s = settled_reading(1) [OF f assms]
  show "cache_HaveCoin v k = (b, v') \<Longrightarrow> settled (fst v') \<and> hashBlock (snd v') = hashBlock (snd v)"
    and "AccessCoin v k = (c, v') \<Longrightarrow> settled (fst v') \<and> hashBlock (snd v') = hashBlock (snd v)"
    and "SpendCoin v k = (d, v') \<Longrightarrow> settled (fst v') \<and> hashBlock (snd v') = hashBlock (snd v)"
    using s f by (cases it; auto simp: cache_HaveCoin_def AccessCoin_def SpendCoin_def)+
  show "AddCoin v k new ow = Inr v' \<Longrightarrow> settled (fst v') \<and> hashBlock (snd v') = hashBlock (snd v)"
    using assms by (auto simp: AddCoin_def Let_def split: if_splits)
qed

lemma tower_simulates:
  assumes inv: "tower_ok v" and spec: "coins_spec op (coins v) = Some (r, m)"
  shows "\<exists>v'. coins_step op v = Inr (r, v') \<and> coins v' = m \<and> tower_ok v'"
proof -
  have ok: "cache_ok v" and st: "settled (fst v)" "hashBlock (snd v) \<noteq> null_hash" using inv unfolding tower_ok_def by blast+
  note [simp del] = coins_of.simps view_ok.simps
  show ?thesis
  proof (cases op)
    case (OpHave k)
    obtain b v' where f: "cache_HaveCoin v k = (b, v')" by (metis surj_pair)
    then show ?thesis using HaveCoin_law [OF ok f] settled_ops(1) [OF st(1) f] st spec OpHave by (auto simp: tower_ok_def)
  next
    case (OpAccess k)
    obtain c v' where f: "AccessCoin v k = (c, v')" by (metis surj_pair)
    then show ?thesis using AccessCoin_law [OF ok f] settled_ops(2) [OF st(1) f] st spec OpAccess by (auto simp: tower_ok_def)
  next
    case (OpAdd k c ow)
    then have pre: "\<not> IsSpent c" "\<not> ow \<Longrightarrow> coins v k = None" and r: "r = RUnit"
      "m = (if IsUnspendable (scriptPubKey (coin_out c)) then coins v else (coins v)(k \<mapsto> c))"
      using spec by (auto split: if_splits)
    from AddCoin_law [OF ok pre] obtain v' where f: "AddCoin v k c ow = Inr v'" and "cache_ok v'"
      "coins v' = (if IsUnspendable (scriptPubKey (coin_out c)) then coins v else (coins v)(k \<mapsto> c))" by blast
    then show ?thesis using settled_ops(4) [OF st(1) f] st r OpAdd by (auto simp: tower_ok_def)
  next
    case (OpSpend k)
    obtain b c v' where f: "SpendCoin v k = ((b, c), v')" by (metis surj_pair)
    then show ?thesis using SpendCoin_law [OF ok f] settled_ops(3) [OF st(1) f] st spec OpSpend by (auto simp: tower_ok_def)
  next
    case (OpUncache k)
    have "settled (fst (Uncache v k))" "hashBlock (snd (Uncache v k)) = hashBlock (snd v)"
      using st by (auto simp: Uncache_def split: option.splits)
    then show ?thesis using Uncache_law [OF ok, of k] st spec OpUncache by (auto simp: tower_ok_def)
  next
    case (OpBest h)
    then show ?thesis using SetBestBlock_law [OF ok, of h] st spec
      by (auto simp: tower_ok_def SetBestBlock_def split: if_splits)
  next
    case OpFlush
    from Flush_law [OF ok settled_writable [OF st]] obtain base where
      f: "Flush v = Inr (base, (snd v)\<lparr> cacheCoins := [] \<rparr>)" "view_ok base" "coins_of base = coins v" by blast
    moreover have "settled base" using f(1) settled_BatchWrite st(1) by (fastforce simp: Flush_def sum_bind_Inr_iff)
    ultimately show ?thesis using empty_cache [OF f(2), of "(snd v)\<lparr> cacheCoins := [] \<rparr>"] st spec OpFlush
      by (auto simp: tower_ok_def)
  qed
qed

interpretation coins_tower: data_refinement coins tower_ok coins_step coins_spec
  using tower_simulates by unfold_locales blast

section \<open>Properties\<close>

text \<open>C31: A tower of coin caches over the database behaves like one map of unspent outputs. Whatever
  sequence of look-ups, additions, spends, cache evictions and flushes a client makes within the
  contract (a coin is added without the overwrite permission only where there is none), every result
  is the one the map gives, no assertion fails, no exception is thrown, and the tower stands for the
  resulting map at the end. Fetching, evicting and flushing are invisible.\<close>

theorem coins_cache_refines:
  assumes "tower_ok v" "spec_ops coins_spec ops (coins v) = Some (rs, m)"
  shows "\<exists>v'. run_ops coins_step ops v = Inr (rs, v') \<and> coins v' = m \<and> tower_ok v'"
  using assms by (rule coins_tower.runs)

abbreviation sample_tower :: coins_cache where
  "sample_tower \<equiv> (ViewCache (ViewDB \<lparr> db_coins = (\<lambda>_. None), db_best = Some (replicate 32 1), db_heads = [] \<rparr>)
     \<lparr> hashBlock = replicate 32 1, cacheCoins = [] \<rparr>, \<lparr> hashBlock = replicate 32 1, cacheCoins = [] \<rparr>)"

abbreviation sample_coin :: Coin where
  "sample_coin \<equiv> make_Coin \<lparr> nValue = 50 * COIN, scriptPubKey = [0x51] \<rparr> 7 False"

abbreviation sample_ops :: "coins_op list" where
  "sample_ops \<equiv> [OpHave COutPoint_null, OpAdd COutPoint_null sample_coin False, OpFlush, OpSpend COutPoint_null, OpFlush, OpHave COutPoint_null]"

lemma sample_tower_ok: "tower_ok sample_tower" "coins sample_tower = (\<lambda>_. None)"
  by (simp_all add: tower_ok_def map_ok_def over_def null_hash_def)

lemma sample_ops_spec: "spec_ops coins_spec sample_ops (\<lambda>_. None) =
  Some ([RBool False, RUnit, RUnit, RCoin (Some sample_coin), RUnit, RBool False], (\<lambda>_. None))"
proof -
  have "\<not> IsSpent sample_coin" "\<not> IsUnspendable [0x51]"
    by (simp_all add: IsSpent_def CTxOut_IsNull_def make_Coin_def COIN_def IsUnspendable_def MAX_SCRIPT_SIZE_def)
  then show ?thesis by (simp add: make_Coin_def fun_eq_iff)
qed

theorem coins_cache_refines_witness:
  "\<exists>v. run_ops coins_step sample_ops sample_tower =
     Inr ([RBool False, RUnit, RUnit, RCoin (Some sample_coin), RUnit, RBool False], v) \<and> coins v = (\<lambda>_. None) \<and> tower_ok v"
  using coins_cache_refines [OF sample_tower_ok(1), of sample_ops] sample_ops_spec unfolding sample_tower_ok(2) by blast

text \<open>\<open>Flush\<close> hands the view below exactly the unspent outputs of the cache and empties the cache,
  without an exception: a \<open>FRESH\<close> flag is never misapplied and the database never asserts, whenever the
  cache is consistent and has a best block.\<close>

theorem Flush_commits:
  assumes "tower_ok v"
  shows "\<exists>base. Flush v = Inr (base, (snd v)\<lparr> cacheCoins := [] \<rparr>) \<and> view_ok base \<and> coins_of base = coins v"
  using assms Flush_law settled_writable unfolding tower_ok_def by blast

theorem Flush_commits_witness:
  "\<exists>base. Flush sample_tower = Inr (base, snd sample_tower) \<and> coins_of base = (\<lambda>_. None)"
  using Flush_commits [OF sample_tower_ok(1)] unfolding sample_tower_ok(2) by auto

end
