(* ===== verification/Interpreter.thy ===== *)
theory Interpreter
  imports Refinement Transaction Script
begin

text \<open>
  The script interpreter, \<open>EvalScript\<close> of \<open>src/src/script/interpreter.cpp\<close> with the types of
  \<open>interpreter.h\<close> and \<open>script_error.h\<close>. A stack is the list of its elements, the top first. The
  signature checker is a record of functions; a call that can stop returns how it stopped: \<open>false\<close>
  with a script error, \<open>false\<close> leaving the error as it was, an exception, or an assertion.
\<close>

section \<open>Errors, flags and data\<close>

datatype ScriptError = SCRIPT_ERR_UNKNOWN_ERROR | SCRIPT_ERR_EVAL_FALSE | SCRIPT_ERR_OP_RETURN
  | SCRIPT_ERR_SCRIPT_SIZE | SCRIPT_ERR_PUSH_SIZE | SCRIPT_ERR_OP_COUNT | SCRIPT_ERR_STACK_SIZE
  | SCRIPT_ERR_SIG_COUNT | SCRIPT_ERR_PUBKEY_COUNT | SCRIPT_ERR_VERIFY | SCRIPT_ERR_EQUALVERIFY
  | SCRIPT_ERR_CHECKMULTISIGVERIFY | SCRIPT_ERR_CHECKSIGVERIFY | SCRIPT_ERR_NUMEQUALVERIFY
  | SCRIPT_ERR_BAD_OPCODE | SCRIPT_ERR_DISABLED_OPCODE | SCRIPT_ERR_INVALID_STACK_OPERATION
  | SCRIPT_ERR_INVALID_ALTSTACK_OPERATION | SCRIPT_ERR_UNBALANCED_CONDITIONAL | SCRIPT_ERR_NEGATIVE_LOCKTIME
  | SCRIPT_ERR_UNSATISFIED_LOCKTIME | SCRIPT_ERR_SIG_HASHTYPE | SCRIPT_ERR_SIG_DER | SCRIPT_ERR_MINIMALDATA
  | SCRIPT_ERR_SIG_PUSHONLY | SCRIPT_ERR_SIG_HIGH_S | SCRIPT_ERR_SIG_NULLDUMMY | SCRIPT_ERR_PUBKEYTYPE
  | SCRIPT_ERR_CLEANSTACK | SCRIPT_ERR_MINIMALIF | SCRIPT_ERR_SIG_NULLFAIL
  | SCRIPT_ERR_DISCOURAGE_UPGRADABLE_NOPS | SCRIPT_ERR_DISCOURAGE_UPGRADABLE_WITNESS_PROGRAM
  | SCRIPT_ERR_DISCOURAGE_UPGRADABLE_TAPROOT_VERSION | SCRIPT_ERR_DISCOURAGE_OP_SUCCESS
  | SCRIPT_ERR_DISCOURAGE_UPGRADABLE_PUBKEYTYPE | SCRIPT_ERR_WITNESS_PROGRAM_WRONG_LENGTH
  | SCRIPT_ERR_WITNESS_PROGRAM_WITNESS_EMPTY | SCRIPT_ERR_WITNESS_PROGRAM_MISMATCH | SCRIPT_ERR_WITNESS_MALLEATED
  | SCRIPT_ERR_WITNESS_MALLEATED_P2SH | SCRIPT_ERR_WITNESS_UNEXPECTED | SCRIPT_ERR_WITNESS_PUBKEYTYPE
  | SCRIPT_ERR_SCHNORR_SIG_SIZE | SCRIPT_ERR_SCHNORR_SIG_HASHTYPE | SCRIPT_ERR_SCHNORR_SIG
  | SCRIPT_ERR_TAPROOT_WRONG_CONTROL_SIZE | SCRIPT_ERR_TAPSCRIPT_VALIDATION_WEIGHT
  | SCRIPT_ERR_TAPSCRIPT_CHECKMULTISIG | SCRIPT_ERR_TAPSCRIPT_MINIMALIF | SCRIPT_ERR_OP_CODESEPARATOR
  | SCRIPT_ERR_SIG_FINDANDDELETE

datatype eval_stop = Fail ScriptError | FailSilent | Thrown | Abort fault

datatype SigVersion = BASE | WITNESS_V0 | TAPROOT | TAPSCRIPT

text \<open>The hash types of signatures and the verification flags, whose enumerators are the constants below.\<close>

type_synonym sighash_type = int
type_synonym script_verify_flags = u32

definition SIGHASH_ALL :: sighash_type where "SIGHASH_ALL = 1"
definition SIGHASH_NONE :: sighash_type where "SIGHASH_NONE = 2"
definition SIGHASH_SINGLE :: sighash_type where "SIGHASH_SINGLE = 3"
definition SIGHASH_ANYONECANPAY :: sighash_type where "SIGHASH_ANYONECANPAY = 0x80"
definition SIGHASH_DEFAULT :: sighash_type where "SIGHASH_DEFAULT = 0"
definition SIGHASH_OUTPUT_MASK :: sighash_type where "SIGHASH_OUTPUT_MASK = 3"
definition SIGHASH_INPUT_MASK :: sighash_type where "SIGHASH_INPUT_MASK = 0x80"

definition SCRIPT_VERIFY_NONE :: script_verify_flags where "SCRIPT_VERIFY_NONE = 0"
definition SCRIPT_VERIFY_P2SH :: script_verify_flags where "SCRIPT_VERIFY_P2SH = push_bit 0 1"
definition SCRIPT_VERIFY_STRICTENC :: script_verify_flags where "SCRIPT_VERIFY_STRICTENC = push_bit 1 1"
definition SCRIPT_VERIFY_DERSIG :: script_verify_flags where "SCRIPT_VERIFY_DERSIG = push_bit 2 1"
definition SCRIPT_VERIFY_LOW_S :: script_verify_flags where "SCRIPT_VERIFY_LOW_S = push_bit 3 1"
definition SCRIPT_VERIFY_NULLDUMMY :: script_verify_flags where "SCRIPT_VERIFY_NULLDUMMY = push_bit 4 1"
definition SCRIPT_VERIFY_SIGPUSHONLY :: script_verify_flags where "SCRIPT_VERIFY_SIGPUSHONLY = push_bit 5 1"
definition SCRIPT_VERIFY_MINIMALDATA :: script_verify_flags where "SCRIPT_VERIFY_MINIMALDATA = push_bit 6 1"
definition SCRIPT_VERIFY_DISCOURAGE_UPGRADABLE_NOPS :: script_verify_flags where
  "SCRIPT_VERIFY_DISCOURAGE_UPGRADABLE_NOPS = push_bit 7 1"
definition SCRIPT_VERIFY_CLEANSTACK :: script_verify_flags where "SCRIPT_VERIFY_CLEANSTACK = push_bit 8 1"
definition SCRIPT_VERIFY_CHECKLOCKTIMEVERIFY :: script_verify_flags where "SCRIPT_VERIFY_CHECKLOCKTIMEVERIFY = push_bit 9 1"
definition SCRIPT_VERIFY_CHECKSEQUENCEVERIFY :: script_verify_flags where "SCRIPT_VERIFY_CHECKSEQUENCEVERIFY = push_bit 10 1"
definition SCRIPT_VERIFY_WITNESS :: script_verify_flags where "SCRIPT_VERIFY_WITNESS = push_bit 11 1"
definition SCRIPT_VERIFY_DISCOURAGE_UPGRADABLE_WITNESS_PROGRAM :: script_verify_flags where
  "SCRIPT_VERIFY_DISCOURAGE_UPGRADABLE_WITNESS_PROGRAM = push_bit 12 1"
definition SCRIPT_VERIFY_MINIMALIF :: script_verify_flags where "SCRIPT_VERIFY_MINIMALIF = push_bit 13 1"
definition SCRIPT_VERIFY_NULLFAIL :: script_verify_flags where "SCRIPT_VERIFY_NULLFAIL = push_bit 14 1"
definition SCRIPT_VERIFY_WITNESS_PUBKEYTYPE :: script_verify_flags where "SCRIPT_VERIFY_WITNESS_PUBKEYTYPE = push_bit 15 1"
definition SCRIPT_VERIFY_CONST_SCRIPTCODE :: script_verify_flags where "SCRIPT_VERIFY_CONST_SCRIPTCODE = push_bit 16 1"
definition SCRIPT_VERIFY_TAPROOT :: script_verify_flags where "SCRIPT_VERIFY_TAPROOT = push_bit 17 1"
definition SCRIPT_VERIFY_DISCOURAGE_UPGRADABLE_TAPROOT_VERSION :: script_verify_flags where
  "SCRIPT_VERIFY_DISCOURAGE_UPGRADABLE_TAPROOT_VERSION = push_bit 18 1"
definition SCRIPT_VERIFY_DISCOURAGE_OP_SUCCESS :: script_verify_flags where
  "SCRIPT_VERIFY_DISCOURAGE_OP_SUCCESS = push_bit 19 1"
definition SCRIPT_VERIFY_DISCOURAGE_UPGRADABLE_PUBKEYTYPE :: script_verify_flags where
  "SCRIPT_VERIFY_DISCOURAGE_UPGRADABLE_PUBKEYTYPE = push_bit 20 1"

definition flag_set :: "u32 \<Rightarrow> u32 \<Rightarrow> bool" where "flag_set flags f \<longleftrightarrow> flags AND f \<noteq> 0"

record ScriptExecutionData =
  m_tapleaf_hash_init :: bool
  m_tapleaf_hash :: uint256
  m_codeseparator_pos_init :: bool
  m_codeseparator_pos :: u32
  m_annex_init :: bool
  m_annex_present :: bool
  m_annex_hash :: uint256
  m_validation_weight_left_init :: bool
  m_validation_weight_left :: int
  m_output_hash :: "uint256 option"

definition execdata_init :: ScriptExecutionData where
  "execdata_init = \<lparr> m_tapleaf_hash_init = False, m_tapleaf_hash = replicate 32 0, m_codeseparator_pos_init = False,
     m_codeseparator_pos = 0, m_annex_init = False, m_annex_present = False, m_annex_hash = replicate 32 0,
     m_validation_weight_left_init = False, m_validation_weight_left = 0, m_output_hash = None \<rparr>"

text \<open>
  A checker with its four virtual functions, and the low-S test of \<open>CPubKey\<close>, whose parsing of the
  signature is in the elliptic curve library.
\<close>

record signature_checker =
  CheckECDSASignature :: "valtype \<Rightarrow> valtype \<Rightarrow> CScript \<Rightarrow> SigVersion \<Rightarrow> eval_stop + bool"
  CheckSchnorrSignature :: "valtype \<Rightarrow> valtype \<Rightarrow> SigVersion \<Rightarrow> ScriptExecutionData \<Rightarrow> eval_stop + ScriptExecutionData"
  CheckLockTime :: "int \<Rightarrow> bool"
  CheckSequence :: "int \<Rightarrow> bool"
  CheckLowS :: "valtype \<Rightarrow> bool"

definition BaseSignatureChecker :: "(valtype \<Rightarrow> bool) \<Rightarrow> signature_checker" where
  "BaseSignatureChecker low_s =
     \<lparr> CheckECDSASignature = (\<lambda>_ _ _ _. Inr False), CheckSchnorrSignature = (\<lambda>_ _ _ _. Inl FailSilent),
       CheckLockTime = (\<lambda>_. False), CheckSequence = (\<lambda>_. False), CheckLowS = low_s \<rparr>"

section \<open>Elements, signatures and keys\<close>

fun CastToBool :: "valtype \<Rightarrow> bool" where
  "CastToBool [] = False"
| "CastToBool (b # vch) = (if b \<noteq> 0 then \<not> (vch = [] \<and> b = 0x80) else CastToBool vch)"

definition IsCompressedOrUncompressedPubKey :: "valtype \<Rightarrow> bool" where
  "IsCompressedOrUncompressedPubKey vchPubKey =
     (if length vchPubKey < 33 then False
      else if vchPubKey ! 0 = 0x04 then length vchPubKey = 65
      else if vchPubKey ! 0 = 0x02 \<or> vchPubKey ! 0 = 0x03 then length vchPubKey = 33
      else False)"

definition IsCompressedPubKey :: "valtype \<Rightarrow> bool" where
  "IsCompressedPubKey vchPubKey =
     (if length vchPubKey \<noteq> 33 then False
      else if vchPubKey ! 0 \<noteq> 0x02 \<and> vchPubKey ! 0 \<noteq> 0x03 then False
      else True)"

definition IsValidSignatureEncoding :: "valtype \<Rightarrow> bool" where
  "IsValidSignatureEncoding sig =
     (if length sig < 9 then False
      else if length sig > 73 then False
      else if sig ! 0 \<noteq> 0x30 then False
      else if unat (sig ! 1) \<noteq> length sig - 3 then False
      else let lenR = unat (sig ! 3) in
        if 5 + lenR \<ge> length sig then False
        else let lenS = unat (sig ! (5 + lenR)) in
          if lenR + lenS + 7 \<noteq> length sig then False
          else if sig ! 2 \<noteq> 0x02 then False
          else if lenR = 0 then False
          else if sig ! 4 AND 0x80 \<noteq> 0 then False
          else if lenR > 1 \<and> sig ! 4 = 0x00 \<and> sig ! 5 AND 0x80 = 0 then False
          else if sig ! (lenR + 4) \<noteq> 0x02 then False
          else if lenS = 0 then False
          else if sig ! (lenR + 6) AND 0x80 \<noteq> 0 then False
          else if lenS > 1 \<and> sig ! (lenR + 6) = 0x00 \<and> sig ! (lenR + 7) AND 0x80 = 0 then False
          else True)"

definition IsLowDERSignature :: "signature_checker \<Rightarrow> valtype \<Rightarrow> eval_stop + unit" where
  "IsLowDERSignature checker vchSig =
     (if \<not> IsValidSignatureEncoding vchSig then Inl (Fail SCRIPT_ERR_SIG_DER)
      else if \<not> CheckLowS checker (butlast vchSig) then Inl (Fail SCRIPT_ERR_SIG_HIGH_S)
      else Inr ())"

definition IsDefinedHashtypeSignature :: "valtype \<Rightarrow> bool" where
  "IsDefinedHashtypeSignature vchSig =
     (if vchSig = [] then False
      else let nHashType = last vchSig AND NOT 0x80 in \<not> (nHashType < 1 \<or> nHashType > 3))"

definition CheckSignatureEncoding :: "signature_checker \<Rightarrow> u32 \<Rightarrow> valtype \<Rightarrow> eval_stop + unit" where
  "CheckSignatureEncoding checker flags vchSig =
     (if vchSig = [] then Inr ()
      else if flag_set flags (SCRIPT_VERIFY_DERSIG OR SCRIPT_VERIFY_LOW_S OR SCRIPT_VERIFY_STRICTENC)
              \<and> \<not> IsValidSignatureEncoding vchSig
      then Inl (Fail SCRIPT_ERR_SIG_DER)
      else sum_bind (if flag_set flags SCRIPT_VERIFY_LOW_S then IsLowDERSignature checker vchSig else Inr ()) (\<lambda>_.
        if flag_set flags SCRIPT_VERIFY_STRICTENC \<and> \<not> IsDefinedHashtypeSignature vchSig
        then Inl (Fail SCRIPT_ERR_SIG_HASHTYPE) else Inr ()))"

definition CheckPubKeyEncoding :: "u32 \<Rightarrow> SigVersion \<Rightarrow> valtype \<Rightarrow> eval_stop + unit" where
  "CheckPubKeyEncoding flags sigversion vchPubKey =
     (if flag_set flags SCRIPT_VERIFY_STRICTENC \<and> \<not> IsCompressedOrUncompressedPubKey vchPubKey
      then Inl (Fail SCRIPT_ERR_PUBKEYTYPE)
      else if flag_set flags SCRIPT_VERIFY_WITNESS_PUBKEYTYPE \<and> sigversion = WITNESS_V0 \<and> \<not> IsCompressedPubKey vchPubKey
      then Inl (Fail SCRIPT_ERR_WITNESS_PUBKEYTYPE)
      else Inr ())"

section \<open>Deleting a signature from a script\<close>

text \<open>
  \<open>skip_matches b pc\<close> passes the copies of \<open>b\<close> at \<open>pc\<close> and counts them; \<open>find_loop\<close> is the outer
  loop, with the script it builds from the position it starts at.
\<close>

function skip_matches :: "CScript \<Rightarrow> CScript \<Rightarrow> CScript \<times> nat" where
  "skip_matches b pc =
     (if b \<noteq> [] \<and> take (length b) pc = b
      then (case skip_matches b (drop (length b) pc) of (pc, k) \<Rightarrow> (pc, k + 1)) else (pc, 0))"
  by pat_completeness auto
termination
proof (relation "measure (\<lambda>(b, pc). length pc)", simp)
  fix b pc :: CScript
  assume b: "b \<noteq> [] \<and> take (length b) pc = b"
  then have "length (take (length b) pc) = length b" by simp
  then have le: "length b \<le> length pc" by simp
  have "0 < length b" using b by simp
  then have "length pc - length b < length pc" using le by (simp del: length_greater_0_conv)
  then show "((b, drop (length b) pc), b, pc) \<in> measure (\<lambda>(b, pc). length pc)" by simp
qed

declare skip_matches.simps [simp del]

lemma skip_matches_length: "length (fst (skip_matches b pc)) \<le> length pc"
proof (induction b pc rule: skip_matches.induct)
  case (1 b pc)
  show ?case
  proof (cases "b \<noteq> [] \<and> take (length b) pc = b")
    case True
    then show ?thesis using 1 [OF True] by (auto simp: skip_matches.simps [of b pc] split: prod.split)
  next
    case False
    then show ?thesis by (subst skip_matches.simps) auto
  qed
qed

lemma find_step:
  "(pc, k) = skip_matches b pc2 \<Longrightarrow> GetScriptOp pc = Some (opcode, data, pc') \<Longrightarrow> length pc' < length pc2"
  using skip_matches_length [of b pc2] GetScriptOp_shrinks [of pc opcode data pc'] by (metis fst_conv less_le_trans)

function find_loop :: "CScript \<Rightarrow> CScript \<Rightarrow> CScript \<times> nat" where
  "find_loop b pc2 =
     (case skip_matches b pc2 of (pc, k) \<Rightarrow>
        case GetScriptOp pc of
          None \<Rightarrow> (pc, k)
        | Some (opcode, data, pc') \<Rightarrow>
            (case find_loop b pc' of (result, k') \<Rightarrow> (take (length pc - length pc') pc @ result, k + k')))"
  by pat_completeness auto
termination by (relation "measure (\<lambda>(b, pc). length pc)") (auto intro: find_step)

declare find_loop.simps [simp del]

definition FindAndDelete :: "CScript \<Rightarrow> CScript \<Rightarrow> CScript \<times> nat" where
  "FindAndDelete script b =
     (if b = [] then (script, 0)
      else case find_loop b script of (result, nFound) \<Rightarrow> (if nFound > 0 then result else script, nFound))"

section \<open>The stack of conditions\<close>

record ConditionStack =
  m_stack_size :: u32
  m_first_false_pos :: u32

definition NO_FALSE :: u32 where "NO_FALSE = 0xffffffff"

definition cs_init :: ConditionStack where
  "cs_init = \<lparr> m_stack_size = 0, m_first_false_pos = NO_FALSE \<rparr>"

definition cs_empty :: "ConditionStack \<Rightarrow> bool" where "cs_empty c \<longleftrightarrow> m_stack_size c = 0"

definition all_true :: "ConditionStack \<Rightarrow> bool" where "all_true c \<longleftrightarrow> m_first_false_pos c = NO_FALSE"

definition cs_push_back :: "ConditionStack \<Rightarrow> bool \<Rightarrow> ConditionStack" where
  "cs_push_back c f =
     (let c = (if m_first_false_pos c = NO_FALSE \<and> \<not> f then c\<lparr> m_first_false_pos := m_stack_size c \<rparr> else c)
      in c\<lparr> m_stack_size := m_stack_size c + 1 \<rparr>)"

definition cs_pop_back :: "ConditionStack \<Rightarrow> fault + ConditionStack" where
  "cs_pop_back c =
     (if \<not> m_stack_size c > 0 then Inl AssertFailed
      else let c = c\<lparr> m_stack_size := m_stack_size c - 1 \<rparr>
           in Inr (if m_first_false_pos c = m_stack_size c then c\<lparr> m_first_false_pos := NO_FALSE \<rparr> else c))"

definition toggle_top :: "ConditionStack \<Rightarrow> fault + ConditionStack" where
  "toggle_top c =
     (if \<not> m_stack_size c > 0 then Inl AssertFailed
      else if m_first_false_pos c = NO_FALSE then Inr (c\<lparr> m_first_false_pos := m_stack_size c - 1 \<rparr>)
      else if m_first_false_pos c = m_stack_size c - 1 then Inr (c\<lparr> m_first_false_pos := NO_FALSE \<rparr>)
      else Inr c)"

section \<open>Signature checks\<close>

definition EvalChecksigPreTapscript ::
    "valtype \<Rightarrow> valtype \<Rightarrow> CScript \<Rightarrow> u32 \<Rightarrow> signature_checker \<Rightarrow> SigVersion \<Rightarrow> eval_stop + bool" where
  "EvalChecksigPreTapscript vchSig vchPubKey code flags checker sigversion =
     (if \<not> (sigversion = BASE \<or> sigversion = WITNESS_V0) then Inl (Abort AssertFailed)
      else
        let (scriptCode, found) = (if sigversion = BASE then FindAndDelete code (push_data [] vchSig) else (code, 0))
        in if found > 0 \<and> flag_set flags SCRIPT_VERIFY_CONST_SCRIPTCODE then Inl (Fail SCRIPT_ERR_SIG_FINDANDDELETE)
        else sum_bind (CheckSignatureEncoding checker flags vchSig) (\<lambda>_.
             sum_bind (CheckPubKeyEncoding flags sigversion vchPubKey) (\<lambda>_.
             sum_bind (CheckECDSASignature checker vchSig vchPubKey scriptCode sigversion) (\<lambda>fSuccess.
               if \<not> fSuccess \<and> flag_set flags SCRIPT_VERIFY_NULLFAIL \<and> length vchSig > 0
               then Inl (Fail SCRIPT_ERR_SIG_NULLFAIL) else Inr fSuccess))))"

definition spend_weight :: "ScriptExecutionData \<Rightarrow> eval_stop + ScriptExecutionData" where
  "spend_weight execdata =
     (if \<not> m_validation_weight_left_init execdata then Inl (Abort AssertFailed)
      else let execdata = execdata\<lparr> m_validation_weight_left :=
                 m_validation_weight_left execdata - VALIDATION_WEIGHT_PER_SIGOP_PASSED \<rparr>
           in if m_validation_weight_left execdata < 0 then Inl (Fail SCRIPT_ERR_TAPSCRIPT_VALIDATION_WEIGHT)
              else Inr execdata)"

definition EvalChecksigTapscript ::
    "valtype \<Rightarrow> valtype \<Rightarrow> ScriptExecutionData \<Rightarrow> u32 \<Rightarrow> signature_checker \<Rightarrow> SigVersion
       \<Rightarrow> eval_stop + bool \<times> ScriptExecutionData" where
  "EvalChecksigTapscript sig pubkey execdata flags checker sigversion =
     (if sigversion \<noteq> TAPSCRIPT then Inl (Abort AssertFailed)
      else let success = sig \<noteq> [] in
        sum_bind (if success then spend_weight execdata else Inr execdata) (\<lambda>execdata.
          if length pubkey = 0 then Inl (Fail SCRIPT_ERR_PUBKEYTYPE)
          else if length pubkey = 32 then
            sum_bind (if success then CheckSchnorrSignature checker sig pubkey sigversion execdata else Inr execdata)
              (\<lambda>execdata. Inr (success, execdata))
          else if flag_set flags SCRIPT_VERIFY_DISCOURAGE_UPGRADABLE_PUBKEYTYPE
          then Inl (Fail SCRIPT_ERR_DISCOURAGE_UPGRADABLE_PUBKEYTYPE)
          else Inr (success, execdata)))"

fun EvalChecksig ::
    "valtype \<Rightarrow> valtype \<Rightarrow> CScript \<Rightarrow> ScriptExecutionData \<Rightarrow> u32 \<Rightarrow> signature_checker \<Rightarrow> SigVersion
       \<Rightarrow> eval_stop + bool \<times> ScriptExecutionData" where
  "EvalChecksig sig pubkey code execdata flags checker BASE =
     sum_bind (EvalChecksigPreTapscript sig pubkey code flags checker BASE) (\<lambda>success. Inr (success, execdata))"
| "EvalChecksig sig pubkey code execdata flags checker WITNESS_V0 =
     sum_bind (EvalChecksigPreTapscript sig pubkey code flags checker WITNESS_V0) (\<lambda>success. Inr (success, execdata))"
| "EvalChecksig sig pubkey code execdata flags checker TAPSCRIPT =
     EvalChecksigTapscript sig pubkey execdata flags checker TAPSCRIPT"
| "EvalChecksig sig pubkey code execdata flags checker TAPROOT = Inl (Abort AssertFailed)"

section \<open>The state of an evaluation\<close>

record eval_env =
  env_flags :: u32
  env_checker :: signature_checker
  env_sigversion :: SigVersion

record eval_state =
  st_stack :: "valtype list"
  st_altstack :: "valtype list"
  vfExec :: ConditionStack
  nOpCount :: int
  pbegincodehash :: CScript
  st_execdata :: ScriptExecutionData
  opcode_pos :: u32

type_synonym handler = "eval_env \<Rightarrow> opcodetype \<Rightarrow> CScript \<Rightarrow> eval_state \<Rightarrow> eval_stop + eval_state"

abbreviation (input) has_flag :: "eval_env \<Rightarrow> u32 \<Rightarrow> bool" where "has_flag env f \<equiv> flag_set (env_flags env) f"

abbreviation (input) pre_tapscript :: "eval_env \<Rightarrow> bool" where
  "pre_tapscript env \<equiv> env_sigversion env = BASE \<or> env_sigversion env = WITNESS_V0"

definition fRequireMinimal :: "eval_env \<Rightarrow> bool" where "fRequireMinimal env = has_flag env SCRIPT_VERIFY_MINIMALDATA"

definition vchFalse :: valtype where "vchFalse = []"
definition vchTrue :: valtype where "vchTrue = [1]"
definition vch_bool :: "bool \<Rightarrow> valtype" where "vch_bool b = (if b then vchTrue else vchFalse)"

definition stack_at :: "valtype list \<Rightarrow> int \<Rightarrow> eval_stop + valtype" where
  "stack_at s i = (if 1 \<le> i \<and> i \<le> int (length s) then Inr (s ! nat (i - 1)) else Inl Thrown)"

definition popstack :: "valtype list \<Rightarrow> eval_stop + valtype list" where
  "popstack s = (case s of [] \<Rightarrow> Inl Thrown | _ # s \<Rightarrow> Inr s)"

definition num_sized :: "eval_env \<Rightarrow> nat \<Rightarrow> valtype \<Rightarrow> eval_stop + int" where
  "num_sized env nMaxNumSize vch = (case CScriptNum vch (fRequireMinimal env) nMaxNumSize of Inl _ \<Rightarrow> Inl Thrown | Inr n \<Rightarrow> Inr n)"

definition num_of :: "eval_env \<Rightarrow> valtype \<Rightarrow> eval_stop + int" where "num_of env = num_sized env nDefaultMaxNumSize"

definition lift_fault :: "fault + 'a \<Rightarrow> eval_stop + 'a" where
  "lift_fault r = (case r of Inl f \<Rightarrow> Inl (Abort f) | Inr x \<Rightarrow> Inr x)"

definition num_inc :: "int \<Rightarrow> int \<Rightarrow> fault + int" where
  "num_inc a rhs =
     (if rhs = 0 \<or> (rhs > 0 \<and> a \<le> 2 ^ 63 - 1 - rhs) \<or> (rhs < 0 \<and> a \<ge> - (2 ^ 63) - rhs) then Inr (a + rhs)
      else Inl AssertFailed)"

definition num_dec :: "int \<Rightarrow> int \<Rightarrow> fault + int" where
  "num_dec a rhs =
     (if rhs = 0 \<or> (rhs > 0 \<and> a \<ge> - (2 ^ 63) + rhs) \<or> (rhs < 0 \<and> a \<le> 2 ^ 63 - 1 + rhs) then Inr (a - rhs)
      else Inl AssertFailed)"

definition num_neg :: "int \<Rightarrow> fault + int" where
  "num_neg a = (if a = - (2 ^ 63) then Inl AssertFailed else Inr (- a))"

abbreviation (input) need :: "ScriptError \<Rightarrow> eval_stop + 'a" where "need e \<equiv> Inl (Fail e)"

section \<open>Opcodes: constants, lock times and conditionals\<close>

definition op_number :: handler where
  "op_number env opcode pc st = Inr (st\<lparr> st_stack := num_serialize (uint opcode - (uint OP_1 - 1)) # st_stack st \<rparr>)"

definition op_nop :: handler where "op_nop env opcode pc st = Inr st"

definition op_checklocktimeverify :: handler where
  "op_checklocktimeverify env opcode pc st =
     (if \<not> has_flag env SCRIPT_VERIFY_CHECKLOCKTIMEVERIFY then Inr st
      else case st_stack st of [] \<Rightarrow> need SCRIPT_ERR_INVALID_STACK_OPERATION
      | vch # _ \<Rightarrow> sum_bind (num_sized env 5 vch) (\<lambda>nLockTime.
          if nLockTime < 0 then need SCRIPT_ERR_NEGATIVE_LOCKTIME
          else if \<not> CheckLockTime (env_checker env) nLockTime then need SCRIPT_ERR_UNSATISFIED_LOCKTIME
          else Inr st))"

definition op_checksequenceverify :: handler where
  "op_checksequenceverify env opcode pc st =
     (if \<not> has_flag env SCRIPT_VERIFY_CHECKSEQUENCEVERIFY then Inr st
      else case st_stack st of [] \<Rightarrow> need SCRIPT_ERR_INVALID_STACK_OPERATION
      | vch # _ \<Rightarrow> sum_bind (num_sized env 5 vch) (\<lambda>nSequence.
          if nSequence < 0 then need SCRIPT_ERR_NEGATIVE_LOCKTIME
          else if nSequence AND uint SEQUENCE_LOCKTIME_DISABLE_FLAG \<noteq> 0 then Inr st
          else if \<not> CheckSequence (env_checker env) nSequence then need SCRIPT_ERR_UNSATISFIED_LOCKTIME
          else Inr st))"

definition op_upgradable_nop :: handler where
  "op_upgradable_nop env opcode pc st =
     (if has_flag env SCRIPT_VERIFY_DISCOURAGE_UPGRADABLE_NOPS then need SCRIPT_ERR_DISCOURAGE_UPGRADABLE_NOPS
      else Inr st)"

definition check_minimal_if :: "eval_env \<Rightarrow> valtype \<Rightarrow> eval_stop + unit" where
  "check_minimal_if env vch =
     (if env_sigversion env = TAPSCRIPT \<and> (length vch > 1 \<or> (length vch = 1 \<and> vch ! 0 \<noteq> 1))
      then need SCRIPT_ERR_TAPSCRIPT_MINIMALIF
      else if env_sigversion env = WITNESS_V0 \<and> has_flag env SCRIPT_VERIFY_MINIMALIF then
        (if length vch > 1 then need SCRIPT_ERR_MINIMALIF
         else if length vch = 1 \<and> vch ! 0 \<noteq> 1 then need SCRIPT_ERR_MINIMALIF
         else Inr ())
      else Inr ())"

definition op_if :: handler where
  "op_if env opcode pc st =
     (if all_true (vfExec st) then
        (case st_stack st of [] \<Rightarrow> need SCRIPT_ERR_UNBALANCED_CONDITIONAL
         | vch # s \<Rightarrow> sum_bind (check_minimal_if env vch) (\<lambda>_.
             let fValue = CastToBool vch; fValue = (if opcode = OP_NOTIF then \<not> fValue else fValue)
             in Inr (st\<lparr> st_stack := s, vfExec := cs_push_back (vfExec st) fValue \<rparr>)))
      else Inr (st\<lparr> vfExec := cs_push_back (vfExec st) False \<rparr>))"

definition op_else :: handler where
  "op_else env opcode pc st =
     (if cs_empty (vfExec st) then need SCRIPT_ERR_UNBALANCED_CONDITIONAL
      else sum_bind (lift_fault (toggle_top (vfExec st))) (\<lambda>c. Inr (st\<lparr> vfExec := c \<rparr>)))"

definition op_endif :: handler where
  "op_endif env opcode pc st =
     (if cs_empty (vfExec st) then need SCRIPT_ERR_UNBALANCED_CONDITIONAL
      else sum_bind (lift_fault (cs_pop_back (vfExec st))) (\<lambda>c. Inr (st\<lparr> vfExec := c \<rparr>)))"

definition op_verify :: handler where
  "op_verify env opcode pc st =
     (case st_stack st of [] \<Rightarrow> need SCRIPT_ERR_INVALID_STACK_OPERATION
      | vch # s \<Rightarrow> if CastToBool vch then Inr (st\<lparr> st_stack := s \<rparr>) else need SCRIPT_ERR_VERIFY)"

definition op_return :: handler where "op_return env opcode pc st = need SCRIPT_ERR_OP_RETURN"

section \<open>Opcodes: the stacks\<close>

definition op_toaltstack :: handler where
  "op_toaltstack env opcode pc st =
     (case st_stack st of [] \<Rightarrow> need SCRIPT_ERR_INVALID_STACK_OPERATION
      | vch # s \<Rightarrow> Inr (st\<lparr> st_stack := s, st_altstack := vch # st_altstack st \<rparr>))"

definition op_fromaltstack :: handler where
  "op_fromaltstack env opcode pc st =
     (case st_altstack st of [] \<Rightarrow> need SCRIPT_ERR_INVALID_ALTSTACK_OPERATION
      | vch # s \<Rightarrow> Inr (st\<lparr> st_stack := vch # st_stack st, st_altstack := s \<rparr>))"

text \<open>The opcodes that only move elements of the stack, the top first.\<close>

fun stack_op :: "(valtype list \<Rightarrow> valtype list option) \<Rightarrow> handler" where
  "stack_op f env opcode pc st =
     (case f (st_stack st) of None \<Rightarrow> need SCRIPT_ERR_INVALID_STACK_OPERATION
      | Some s \<Rightarrow> Inr (st\<lparr> st_stack := s \<rparr>))"

fun op_2drop :: "valtype list \<Rightarrow> valtype list option" where
  "op_2drop (a # b # s) = Some s" | "op_2drop s = None"

fun op_2dup :: "valtype list \<Rightarrow> valtype list option" where
  "op_2dup (vch2 # vch1 # s) = Some (vch2 # vch1 # vch2 # vch1 # s)" | "op_2dup s = None"

fun op_3dup :: "valtype list \<Rightarrow> valtype list option" where
  "op_3dup (vch3 # vch2 # vch1 # s) = Some (vch3 # vch2 # vch1 # vch3 # vch2 # vch1 # s)" | "op_3dup s = None"

fun op_2over :: "valtype list \<Rightarrow> valtype list option" where
  "op_2over (a # b # vch2 # vch1 # s) = Some (vch2 # vch1 # a # b # vch2 # vch1 # s)" | "op_2over s = None"

fun op_2rot :: "valtype list \<Rightarrow> valtype list option" where
  "op_2rot (a # b # c # d # vch2 # vch1 # s) = Some (vch2 # vch1 # a # b # c # d # s)" | "op_2rot s = None"

fun op_2swap :: "valtype list \<Rightarrow> valtype list option" where
  "op_2swap (x1 # x2 # x3 # x4 # s) = Some (x3 # x4 # x1 # x2 # s)" | "op_2swap s = None"

fun op_ifdup :: "valtype list \<Rightarrow> valtype list option" where
  "op_ifdup (vch # s) = Some (if CastToBool vch then vch # vch # s else vch # s)" | "op_ifdup s = None"

fun op_depth :: "valtype list \<Rightarrow> valtype list option" where
  "op_depth s = Some (num_serialize (int (length s)) # s)"

fun op_drop :: "valtype list \<Rightarrow> valtype list option" where
  "op_drop (vch # s) = Some s" | "op_drop s = None"

fun op_dup :: "valtype list \<Rightarrow> valtype list option" where
  "op_dup (vch # s) = Some (vch # vch # s)" | "op_dup s = None"

fun op_nip :: "valtype list \<Rightarrow> valtype list option" where
  "op_nip (x1 # x2 # s) = Some (x1 # s)" | "op_nip s = None"

fun op_over :: "valtype list \<Rightarrow> valtype list option" where
  "op_over (x1 # vch # s) = Some (vch # x1 # vch # s)" | "op_over s = None"

fun op_rot :: "valtype list \<Rightarrow> valtype list option" where
  "op_rot (x1 # x2 # x3 # s) = Some (x3 # x1 # x2 # s)" | "op_rot s = None"

fun op_swap :: "valtype list \<Rightarrow> valtype list option" where
  "op_swap (x1 # x2 # s) = Some (x2 # x1 # s)" | "op_swap s = None"

fun op_tuck :: "valtype list \<Rightarrow> valtype list option" where
  "op_tuck (vch # x2 # s) = Some (vch # x2 # vch # s)" | "op_tuck s = None"

fun op_size :: "valtype list \<Rightarrow> valtype list option" where
  "op_size (vch # s) = Some (num_serialize (int (length vch)) # vch # s)" | "op_size s = None"

definition op_pick_roll :: handler where
  "op_pick_roll env opcode pc st =
     (if length (st_stack st) < 2 then need SCRIPT_ERR_INVALID_STACK_OPERATION
      else sum_bind (stack_at (st_stack st) 1) (\<lambda>top.
           sum_bind (num_of env top) (\<lambda>bn.
           sum_bind (popstack (st_stack st)) (\<lambda>s.
             let n = getint bn in
             if n < 0 \<or> n \<ge> int (length s) then need SCRIPT_ERR_INVALID_STACK_OPERATION
             else sum_bind (stack_at s (n + 1)) (\<lambda>vch.
               let s = (if opcode = OP_ROLL then take (nat n) s @ drop (nat n + 1) s else s)
               in Inr (st\<lparr> st_stack := vch # s \<rparr>))))))"

section \<open>Opcodes: comparison and arithmetic\<close>

definition op_equal :: handler where
  "op_equal env opcode pc st =
     (case st_stack st of
        vch2 # vch1 # s \<Rightarrow>
          let fEqual = (vch1 = vch2)
          in if opcode = OP_EQUALVERIFY then
               (if fEqual then Inr (st\<lparr> st_stack := s \<rparr>) else need SCRIPT_ERR_EQUALVERIFY)
             else Inr (st\<lparr> st_stack := vch_bool fEqual # s \<rparr>)
      | _ \<Rightarrow> need SCRIPT_ERR_INVALID_STACK_OPERATION)"

definition unary_num :: "opcodetype \<Rightarrow> int \<Rightarrow> fault + int" where
  "unary_num opcode bn =
     (if opcode = OP_1ADD then num_inc bn 1
      else if opcode = OP_1SUB then num_dec bn 1
      else if opcode = OP_NEGATE then num_neg bn
      else if opcode = OP_ABS then (if bn < 0 then num_neg bn else Inr bn)
      else if opcode = OP_NOT then Inr (of_bool (bn = 0))
      else if opcode = OP_0NOTEQUAL then Inr (of_bool (bn \<noteq> 0))
      else Inl AssertFailed)"

definition op_unary :: handler where
  "op_unary env opcode pc st =
     (case st_stack st of [] \<Rightarrow> need SCRIPT_ERR_INVALID_STACK_OPERATION
      | vch # s \<Rightarrow> sum_bind (num_of env vch) (\<lambda>bn.
          sum_bind (lift_fault (unary_num opcode bn)) (\<lambda>bn.
            Inr (st\<lparr> st_stack := num_serialize bn # s \<rparr>))))"

definition binary_num :: "opcodetype \<Rightarrow> int \<Rightarrow> int \<Rightarrow> fault + int" where
  "binary_num opcode bn1 bn2 =
     (if opcode = OP_ADD then Inr (bn1 + bn2)
      else if opcode = OP_SUB then Inr (bn1 - bn2)
      else if opcode = OP_BOOLAND then Inr (of_bool (bn1 \<noteq> 0 \<and> bn2 \<noteq> 0))
      else if opcode = OP_BOOLOR then Inr (of_bool (bn1 \<noteq> 0 \<or> bn2 \<noteq> 0))
      else if opcode = OP_NUMEQUAL then Inr (of_bool (bn1 = bn2))
      else if opcode = OP_NUMEQUALVERIFY then Inr (of_bool (bn1 = bn2))
      else if opcode = OP_NUMNOTEQUAL then Inr (of_bool (bn1 \<noteq> bn2))
      else if opcode = OP_LESSTHAN then Inr (of_bool (bn1 < bn2))
      else if opcode = OP_GREATERTHAN then Inr (of_bool (bn1 > bn2))
      else if opcode = OP_LESSTHANOREQUAL then Inr (of_bool (bn1 \<le> bn2))
      else if opcode = OP_GREATERTHANOREQUAL then Inr (of_bool (bn1 \<ge> bn2))
      else if opcode = OP_MIN then Inr (if bn1 < bn2 then bn1 else bn2)
      else if opcode = OP_MAX then Inr (if bn1 > bn2 then bn1 else bn2)
      else Inl AssertFailed)"

definition op_binary :: handler where
  "op_binary env opcode pc st =
     (case st_stack st of
        vch2 # vch1 # s \<Rightarrow>
          sum_bind (num_of env vch1) (\<lambda>bn1. sum_bind (num_of env vch2) (\<lambda>bn2.
          sum_bind (lift_fault (binary_num opcode bn1 bn2)) (\<lambda>bn.
            if opcode = OP_NUMEQUALVERIFY then
              (if CastToBool (num_serialize bn) then Inr (st\<lparr> st_stack := s \<rparr>) else need SCRIPT_ERR_NUMEQUALVERIFY)
            else Inr (st\<lparr> st_stack := num_serialize bn # s \<rparr>))))
      | _ \<Rightarrow> need SCRIPT_ERR_INVALID_STACK_OPERATION)"

definition op_within :: handler where
  "op_within env opcode pc st =
     (case st_stack st of
        vch3 # vch2 # vch1 # s \<Rightarrow>
          sum_bind (num_of env vch1) (\<lambda>bn1. sum_bind (num_of env vch2) (\<lambda>bn2. sum_bind (num_of env vch3) (\<lambda>bn3.
            Inr (st\<lparr> st_stack := vch_bool (bn2 \<le> bn1 \<and> bn1 < bn3) # s \<rparr>))))
      | _ \<Rightarrow> need SCRIPT_ERR_INVALID_STACK_OPERATION)"

section \<open>Opcodes: hashes and signatures\<close>

definition op_hash_value :: "opcodetype \<Rightarrow> valtype \<Rightarrow> fault + valtype" where
  "op_hash_value opcode vch =
     (let vchHash_size = (if opcode = OP_RIPEMD160 \<or> opcode = OP_SHA1 \<or> opcode = OP_HASH160 then 20 else 32) in
      if opcode = OP_RIPEMD160 then Inr (CRIPEMD160_Finalize (CRIPEMD160_Write CRIPEMD160 vch))
      else if opcode = OP_SHA1 then Inr (CSHA1_Finalize (CSHA1_Write CSHA1 vch))
      else if opcode = OP_SHA256 then Inr (CSHA256_Finalize (CSHA256_Write CSHA256 vch))
      else if opcode = OP_HASH160 then CHash160_Finalize (CHash160_Write CSHA256 vch) vchHash_size
      else if opcode = OP_HASH256 then CHash256_Finalize (CHash256_Write CSHA256 vch) vchHash_size
      else Inr (replicate vchHash_size 0))"

definition op_hash_top :: handler where
  "op_hash_top env opcode pc st =
     (case st_stack st of [] \<Rightarrow> need SCRIPT_ERR_INVALID_STACK_OPERATION
      | vch # s \<Rightarrow> sum_bind (lift_fault (op_hash_value opcode vch)) (\<lambda>vchHash. Inr (st\<lparr> st_stack := vchHash # s \<rparr>)))"

definition op_codeseparator :: handler where
  "op_codeseparator env opcode pc st =
     Inr (st\<lparr> pbegincodehash := pc, st_execdata := (st_execdata st)\<lparr> m_codeseparator_pos := opcode_pos st \<rparr> \<rparr>)"

definition op_checksig :: handler where
  "op_checksig env opcode pc st =
     (case st_stack st of
        vchPubKey # vchSig # s \<Rightarrow>
          sum_bind (EvalChecksig vchSig vchPubKey (pbegincodehash st) (st_execdata st)
                      (env_flags env) (env_checker env) (env_sigversion env)) (\<lambda>(fSuccess, execdata).
            if opcode = OP_CHECKSIGVERIFY then
              (if fSuccess then Inr (st\<lparr> st_stack := s, st_execdata := execdata \<rparr>) else need SCRIPT_ERR_CHECKSIGVERIFY)
            else Inr (st\<lparr> st_stack := vch_bool fSuccess # s, st_execdata := execdata \<rparr>))
      | _ \<Rightarrow> need SCRIPT_ERR_INVALID_STACK_OPERATION)"

definition op_checksigadd :: handler where
  "op_checksigadd env opcode pc st =
     (if pre_tapscript env then need SCRIPT_ERR_BAD_OPCODE
      else case st_stack st of
        pubkey # n # sig # s \<Rightarrow>
          sum_bind (num_of env n) (\<lambda>num.
          sum_bind (EvalChecksig sig pubkey (pbegincodehash st) (st_execdata st)
                      (env_flags env) (env_checker env) (env_sigversion env)) (\<lambda>(success, execdata).
            Inr (st\<lparr> st_stack := num_serialize (num + (if success then 1 else 0)) # s, st_execdata := execdata \<rparr>)))
      | _ \<Rightarrow> need SCRIPT_ERR_INVALID_STACK_OPERATION)"

section \<open>Opcodes: several signatures\<close>

fun delete_sigs :: "eval_env \<Rightarrow> valtype list \<Rightarrow> CScript \<Rightarrow> eval_stop + CScript" where
  "delete_sigs env [] scriptCode = Inr scriptCode"
| "delete_sigs env (vchSig # sigs) scriptCode =
     (if env_sigversion env = BASE then
        (case FindAndDelete scriptCode (push_data [] vchSig) of (scriptCode, found) \<Rightarrow>
           if found > 0 \<and> has_flag env SCRIPT_VERIFY_CONST_SCRIPTCODE then need SCRIPT_ERR_SIG_FINDANDDELETE
           else delete_sigs env sigs scriptCode)
      else delete_sigs env sigs scriptCode)"

function multisig_loop :: "eval_env \<Rightarrow> CScript \<Rightarrow> valtype list \<Rightarrow> int \<Rightarrow> int \<Rightarrow> int \<Rightarrow> int \<Rightarrow> eval_stop + bool" where
  "multisig_loop env scriptCode s isig ikey nSigsCount nKeysCount =
     (if \<not> nSigsCount > 0 then Inr True
      else sum_bind (stack_at s isig) (\<lambda>vchSig. sum_bind (stack_at s ikey) (\<lambda>vchPubKey.
           sum_bind (CheckSignatureEncoding (env_checker env) (env_flags env) vchSig) (\<lambda>_.
           sum_bind (CheckPubKeyEncoding (env_flags env) (env_sigversion env) vchPubKey) (\<lambda>_.
           sum_bind (CheckECDSASignature (env_checker env) vchSig vchPubKey scriptCode (env_sigversion env)) (\<lambda>fOk.
             if fOk then
               (if nSigsCount - 1 > nKeysCount - 1 then Inr False
                else multisig_loop env scriptCode s (isig + 1) (ikey + 1) (nSigsCount - 1) (nKeysCount - 1))
             else
               (if nSigsCount > nKeysCount - 1 then Inr False
                else multisig_loop env scriptCode s isig (ikey + 1) nSigsCount (nKeysCount - 1))))))))"
  by pat_completeness auto
termination by (relation "measure (\<lambda>(env, c, s, isig, ikey, ns, nk). nat nk)") auto

declare multisig_loop.simps [simp del]

fun multisig_pops :: "eval_env \<Rightarrow> bool \<Rightarrow> nat \<Rightarrow> int \<Rightarrow> valtype list \<Rightarrow> eval_stop + valtype list" where
  "multisig_pops env fSuccess 0 ikey2 s = Inr s"
| "multisig_pops env fSuccess (Suc i) ikey2 s =
     sum_bind (if \<not> fSuccess \<and> has_flag env SCRIPT_VERIFY_NULLFAIL \<and> ikey2 = 0
               then sum_bind (stack_at s 1) (\<lambda>top. if length top > 0 then need SCRIPT_ERR_SIG_NULLFAIL else Inr ())
               else Inr ()) (\<lambda>_.
     sum_bind (popstack s) (\<lambda>s. multisig_pops env fSuccess i (if ikey2 > 0 then ikey2 - 1 else ikey2) s))"

definition multisig_finish :: "eval_env \<Rightarrow> opcodetype \<Rightarrow> bool \<Rightarrow> valtype list \<Rightarrow> eval_stop + valtype list" where
  "multisig_finish env opcode fSuccess s =
     (case s of [] \<Rightarrow> need SCRIPT_ERR_INVALID_STACK_OPERATION
      | dummy # s \<Rightarrow>
          if has_flag env SCRIPT_VERIFY_NULLDUMMY \<and> length dummy > 0 then need SCRIPT_ERR_SIG_NULLDUMMY
          else if opcode = OP_CHECKMULTISIGVERIFY then
            (if fSuccess then Inr s else need SCRIPT_ERR_CHECKMULTISIGVERIFY)
          else Inr (vch_bool fSuccess # s))"

definition multisig_check :: "eval_env \<Rightarrow> opcodetype \<Rightarrow> CScript \<Rightarrow> valtype list \<Rightarrow> int \<Rightarrow> int \<Rightarrow> eval_stop + valtype list" where
  "multisig_check env opcode code s nKeysCount nSigsCount =
     (let ikey = 2; isig = nKeysCount + 3; i = nKeysCount + 3 + nSigsCount in
      if int (length s) < i then need SCRIPT_ERR_INVALID_STACK_OPERATION
      else sum_bind (delete_sigs env (take (nat nSigsCount) (drop (nat isig - 1) s)) code) (\<lambda>scriptCode.
           sum_bind (multisig_loop env scriptCode s isig ikey nSigsCount nKeysCount) (\<lambda>fSuccess.
           sum_bind (multisig_pops env fSuccess (nat (i - 1)) (nKeysCount + 2) s) (\<lambda>s.
             multisig_finish env opcode fSuccess s))))"

definition op_checkmultisig :: handler where
  "op_checkmultisig env opcode pc st =
     (if env_sigversion env = TAPSCRIPT then need SCRIPT_ERR_TAPSCRIPT_CHECKMULTISIG
      else if int (length (st_stack st)) < 1 then need SCRIPT_ERR_INVALID_STACK_OPERATION
      else sum_bind (stack_at (st_stack st) 1) (\<lambda>top. sum_bind (num_of env top) (\<lambda>n.
        let nKeysCount = getint n; count = nOpCount st + nKeysCount in
        if nKeysCount < 0 \<or> nKeysCount > MAX_PUBKEYS_PER_MULTISIG then need SCRIPT_ERR_PUBKEY_COUNT
        else if count > MAX_OPS_PER_SCRIPT then need SCRIPT_ERR_OP_COUNT
        else if int (length (st_stack st)) < nKeysCount + 2 then need SCRIPT_ERR_INVALID_STACK_OPERATION
        else sum_bind (stack_at (st_stack st) (nKeysCount + 2)) (\<lambda>m. sum_bind (num_of env m) (\<lambda>m.
          let nSigsCount = getint m in
          if nSigsCount < 0 \<or> nSigsCount > nKeysCount then need SCRIPT_ERR_SIG_COUNT
          else sum_bind (multisig_check env opcode (pbegincodehash st) (st_stack st) nKeysCount nSigsCount) (\<lambda>s.
            Inr (st\<lparr> st_stack := s, nOpCount := count \<rparr>)))))))"

section \<open>One opcode and a whole script\<close>

definition op_table :: "(opcodetype list \<times> handler) list" where
  "op_table =
    [([OP_1NEGATE, OP_1, OP_2, OP_3, OP_4, OP_5, OP_6, OP_7, OP_8, OP_9, OP_10, OP_11, OP_12, OP_13, OP_14,
       OP_15, OP_16], op_number),
     ([OP_NOP], op_nop),
     ([OP_CHECKLOCKTIMEVERIFY], op_checklocktimeverify),
     ([OP_CHECKSEQUENCEVERIFY], op_checksequenceverify),
     ([OP_NOP1, OP_NOP4, OP_NOP5, OP_NOP6, OP_NOP7, OP_NOP8, OP_NOP9, OP_NOP10], op_upgradable_nop),
     ([OP_IF, OP_NOTIF], op_if), ([OP_ELSE], op_else), ([OP_ENDIF], op_endif),
     ([OP_VERIFY], op_verify), ([OP_RETURN], op_return),
     ([OP_TOALTSTACK], op_toaltstack), ([OP_FROMALTSTACK], op_fromaltstack),
     ([OP_2DROP], stack_op op_2drop), ([OP_2DUP], stack_op op_2dup), ([OP_3DUP], stack_op op_3dup),
     ([OP_2OVER], stack_op op_2over), ([OP_2ROT], stack_op op_2rot), ([OP_2SWAP], stack_op op_2swap),
     ([OP_IFDUP], stack_op op_ifdup), ([OP_DEPTH], stack_op op_depth), ([OP_DROP], stack_op op_drop),
     ([OP_DUP], stack_op op_dup), ([OP_NIP], stack_op op_nip), ([OP_OVER], stack_op op_over),
     ([OP_PICK, OP_ROLL], op_pick_roll),
     ([OP_ROT], stack_op op_rot), ([OP_SWAP], stack_op op_swap), ([OP_TUCK], stack_op op_tuck),
     ([OP_SIZE], stack_op op_size),
     ([OP_EQUAL, OP_EQUALVERIFY], op_equal),
     ([OP_1ADD, OP_1SUB, OP_NEGATE, OP_ABS, OP_NOT, OP_0NOTEQUAL], op_unary),
     ([OP_ADD, OP_SUB, OP_BOOLAND, OP_BOOLOR, OP_NUMEQUAL, OP_NUMEQUALVERIFY, OP_NUMNOTEQUAL, OP_LESSTHAN,
       OP_GREATERTHAN, OP_LESSTHANOREQUAL, OP_GREATERTHANOREQUAL, OP_MIN, OP_MAX], op_binary),
     ([OP_WITHIN], op_within),
     ([OP_RIPEMD160, OP_SHA1, OP_SHA256, OP_HASH160, OP_HASH256], op_hash_top),
     ([OP_CODESEPARATOR], op_codeseparator),
     ([OP_CHECKSIG, OP_CHECKSIGVERIFY], op_checksig),
     ([OP_CHECKSIGADD], op_checksigadd),
     ([OP_CHECKMULTISIG, OP_CHECKMULTISIGVERIFY], op_checkmultisig)]"

fun switch_op :: "(opcodetype list \<times> handler) list \<Rightarrow> handler" where
  "switch_op [] env opcode pc st = need SCRIPT_ERR_BAD_OPCODE"
| "switch_op ((ops, h) # table) env opcode pc st =
     (if opcode \<in> set ops then h env opcode pc st else switch_op table env opcode pc st)"

definition is_disabled :: "opcodetype \<Rightarrow> bool" where
  "is_disabled opcode \<longleftrightarrow>
     opcode = OP_CAT \<or> opcode = OP_SUBSTR \<or> opcode = OP_LEFT \<or> opcode = OP_RIGHT \<or> opcode = OP_INVERT \<or>
     opcode = OP_AND \<or> opcode = OP_OR \<or> opcode = OP_XOR \<or> opcode = OP_2MUL \<or> opcode = OP_2DIV \<or>
     opcode = OP_MUL \<or> opcode = OP_DIV \<or> opcode = OP_MOD \<or> opcode = OP_LSHIFT \<or> opcode = OP_RSHIFT"

definition eval_op :: "eval_env \<Rightarrow> opcodetype \<Rightarrow> valtype \<Rightarrow> CScript \<Rightarrow> eval_state \<Rightarrow> eval_stop + eval_state" where
  "eval_op env opcode vchPushValue pc st =
     (let fExec = all_true (vfExec st) in
      if fExec \<and> opcode \<le> OP_PUSHDATA4 then
        sum_bind (if fRequireMinimal env then lift_fault (CheckMinimalPush vchPushValue opcode) else Inr True) (\<lambda>ok.
          if \<not> ok then need SCRIPT_ERR_MINIMALDATA else Inr (st\<lparr> st_stack := vchPushValue # st_stack st \<rparr>))
      else if fExec \<or> (OP_IF \<le> opcode \<and> opcode \<le> OP_ENDIF) then switch_op op_table env opcode pc st
      else Inr st)"

definition eval_step :: "eval_env \<Rightarrow> opcodetype \<Rightarrow> valtype \<Rightarrow> CScript \<Rightarrow> eval_state \<Rightarrow> eval_stop + eval_state" where
  "eval_step env opcode vchPushValue pc st =
     (if length vchPushValue > MAX_SCRIPT_ELEMENT_SIZE then need SCRIPT_ERR_PUSH_SIZE
      else let st = (if pre_tapscript env \<and> opcode > OP_16 then st\<lparr> nOpCount := nOpCount st + 1 \<rparr> else st) in
        if pre_tapscript env \<and> opcode > OP_16 \<and> nOpCount st > MAX_OPS_PER_SCRIPT then need SCRIPT_ERR_OP_COUNT
        else if is_disabled opcode then need SCRIPT_ERR_DISABLED_OPCODE
        else if opcode = OP_CODESEPARATOR \<and> env_sigversion env = BASE \<and> has_flag env SCRIPT_VERIFY_CONST_SCRIPTCODE
        then need SCRIPT_ERR_OP_CODESEPARATOR
        else sum_bind (eval_op env opcode vchPushValue pc st) (\<lambda>st.
          if length (st_stack st) + length (st_altstack st) > MAX_STACK_SIZE then need SCRIPT_ERR_STACK_SIZE
          else Inr st))"

function eval_loop :: "eval_env \<Rightarrow> CScript \<Rightarrow> eval_state \<Rightarrow> eval_stop + eval_state" where
  "eval_loop env pc st =
     (if pc = [] then Inr st
      else case GetScriptOp pc of
        None \<Rightarrow> need SCRIPT_ERR_BAD_OPCODE
      | Some (opcode, vchPushValue, pc) \<Rightarrow>
          sum_bind (eval_step env opcode vchPushValue pc st) (\<lambda>st.
            eval_loop env pc (st\<lparr> opcode_pos := opcode_pos st + 1 \<rparr>)))"
  by pat_completeness auto
termination by (relation "measure (\<lambda>(env, pc, st). length pc)") (auto dest: GetScriptOp_shrinks)

declare eval_loop.simps [simp del]

definition eval_start :: "valtype list \<Rightarrow> CScript \<Rightarrow> ScriptExecutionData \<Rightarrow> eval_state" where
  "eval_start s script execdata =
     \<lparr> st_stack = s, st_altstack = [], vfExec = cs_init, nOpCount = 0, pbegincodehash = script,
       st_execdata = execdata\<lparr> m_codeseparator_pos := 0xffffffff, m_codeseparator_pos_init := True \<rparr>, opcode_pos = 0 \<rparr>"

text \<open>
  The error starts as \<^const>\<open>SCRIPT_ERR_UNKNOWN_ERROR\<close>, which is what a failure that sets no error
  and an exception leave.
\<close>

definition EvalScript :: "valtype list \<Rightarrow> CScript \<Rightarrow> u32 \<Rightarrow> signature_checker \<Rightarrow> SigVersion \<Rightarrow> ScriptExecutionData
    \<Rightarrow> eval_stop + valtype list \<times> ScriptExecutionData" where
  "EvalScript s script flags checker sigversion execdata =
     (if sigversion = TAPROOT then Inl (Abort AssertFailed)
      else if (sigversion = BASE \<or> sigversion = WITNESS_V0) \<and> length script > MAX_SCRIPT_SIZE
      then need SCRIPT_ERR_SCRIPT_SIZE
      else case eval_loop \<lparr> env_flags = flags, env_checker = checker, env_sigversion = sigversion \<rparr> script
                  (eval_start s script execdata) of
        Inl Thrown \<Rightarrow> need SCRIPT_ERR_UNKNOWN_ERROR
      | Inl FailSilent \<Rightarrow> need SCRIPT_ERR_UNKNOWN_ERROR
      | Inl e \<Rightarrow> Inl e
      | Inr st \<Rightarrow> if \<not> cs_empty (vfExec st) then need SCRIPT_ERR_UNBALANCED_CONDITIONAL
                  else Inr (st_stack st, st_execdata st))"

end
