(* ===== verification/Sighash.thy ===== *)
theory Sighash
  imports Interpreter
begin

text \<open>
  Signature hashes and the transaction signature checker of \<open>src/src/script/interpreter.cpp\<close>: the
  legacy serializer, the hash of witness version 0, the Schnorr signature hash, the precomputed
  data they share, and the checks of lock times and sequences. The elliptic curve operations
  behind \<open>CPubKey\<close> and \<open>XOnlyPubKey\<close> are a parameter.
\<close>

section \<open>Keys\<close>

record curve_ops =
  pubkey_Verify :: "valtype \<Rightarrow> uint256 \<Rightarrow> valtype \<Rightarrow> bool"
  xonly_VerifySchnorr :: "valtype \<Rightarrow> uint256 \<Rightarrow> valtype \<Rightarrow> bool"
  xonly_CheckTapTweak :: "valtype \<Rightarrow> valtype \<Rightarrow> uint256 \<Rightarrow> bool \<Rightarrow> bool"
  pubkey_CheckLowS :: "valtype \<Rightarrow> bool"

definition pubkey_GetLen :: "u8 \<Rightarrow> nat" where
  "pubkey_GetLen chHeader =
     (if chHeader = 2 \<or> chHeader = 3 then 33 else if chHeader = 4 \<or> chHeader = 6 \<or> chHeader = 7 then 65 else 0)"

definition pubkey_ValidSize :: "valtype \<Rightarrow> bool" where
  "pubkey_ValidSize vch \<longleftrightarrow> length vch > 0 \<and> pubkey_GetLen (vch ! 0) = length vch"

text \<open>The bytes a \<open>CPubKey\<close> holds, \<^term>\<open>[0xff]\<close> when it is invalid.\<close>

definition pubkey_Set :: "valtype \<Rightarrow> valtype" where
  "pubkey_Set vch =
     (let len = (if vch = [] then 0 else pubkey_GetLen (vch ! 0))
      in if len \<noteq> 0 \<and> len = length vch then vch else [0xff])"

definition pubkey_IsValid :: "valtype \<Rightarrow> bool" where
  "pubkey_IsValid pubkey \<longleftrightarrow> pubkey_GetLen (pubkey ! 0) > 0"

section \<open>The legacy serializer\<close>

text \<open>Where a failing \<open>GetOp\<close> leaves its iterator: past the opcode and the size it read.\<close>

definition op_stop :: "CScript \<Rightarrow> CScript" where
  "op_stop pc =
     (case pc of [] \<Rightarrow> []
      | opcode # pc \<Rightarrow> if opcode \<le> OP_PUSHDATA4 then (case push_size opcode pc of None \<Rightarrow> pc | Some (n, pc) \<Rightarrow> pc) else pc)"

function count_separators :: "CScript \<Rightarrow> nat" where
  "count_separators pc =
     (case GetScriptOp pc of None \<Rightarrow> 0
      | Some (opcode, data, pc) \<Rightarrow> (if opcode = OP_CODESEPARATOR then 1 else 0) + count_separators pc)"
  by pat_completeness auto
termination by (relation "measure length") (auto dest: GetScriptOp_shrinks)

declare count_separators.simps [simp del]

text \<open>
  The second loop: \<open>itBegin\<close> and \<open>it\<close> are the bytes left at the two iterators. The last write runs
  from \<open>itBegin\<close> to where the loop stopped.
\<close>

function code_loop :: "CScript \<Rightarrow> CScript \<Rightarrow> u8 list" where
  "code_loop itBegin it =
     (case GetScriptOp it of
        None \<Rightarrow> (if itBegin \<noteq> [] then take (length itBegin - length (op_stop it)) itBegin else [])
      | Some (opcode, data, it) \<Rightarrow>
          if opcode = OP_CODESEPARATOR
          then take (length itBegin - length it - 1) itBegin @ code_loop it it
          else code_loop itBegin it)"
  by pat_completeness auto
termination by (relation "measure (\<lambda>(b, it). length it)") (auto dest: GetScriptOp_shrinks)

declare code_loop.simps [simp del]

record CTransactionSignatureSerializer =
  ser_txTo :: CTransaction
  ser_scriptCode :: CScript
  ser_nIn :: nat
  fAnyoneCanPay :: bool
  fHashSingle :: bool
  fHashNone :: bool

definition make_serializer :: "CTransaction \<Rightarrow> CScript \<Rightarrow> nat \<Rightarrow> int \<Rightarrow> CTransactionSignatureSerializer" where
  "make_serializer tx code n nHashType =
     \<lparr> ser_txTo = tx, ser_scriptCode = code, ser_nIn = n, fAnyoneCanPay = (nHashType AND SIGHASH_ANYONECANPAY \<noteq> 0),
       fHashSingle = (nHashType AND 0x1f = SIGHASH_SINGLE), fHashNone = (nHashType AND 0x1f = SIGHASH_NONE) \<rparr>"

definition SerializeScriptCode :: "CTransactionSignatureSerializer \<Rightarrow> u8 list" where
  "SerializeScriptCode z =
     WriteCompactSize (of_nat (length (ser_scriptCode z) - count_separators (ser_scriptCode z)))
       @ code_loop (ser_scriptCode z) (ser_scriptCode z)"

definition SerializeInput :: "CTransactionSignatureSerializer \<Rightarrow> nat \<Rightarrow> u8 list" where
  "SerializeInput z nInput =
     (let nInput = (if fAnyoneCanPay z then ser_nIn z else nInput); txin = vin (ser_txTo z) ! nInput
      in ser_COutPoint (prevout txin)
         @ (if nInput \<noteq> ser_nIn z then ser_bytes [] else SerializeScriptCode z)
         @ (if nInput \<noteq> ser_nIn z \<and> (fHashSingle z \<or> fHashNone z) then ser_writedata32 0
            else ser_writedata32 (nSequence txin)))"

definition SerializeOutput :: "CTransactionSignatureSerializer \<Rightarrow> nat \<Rightarrow> u8 list" where
  "SerializeOutput z nOutput =
     (if fHashSingle z \<and> nOutput \<noteq> ser_nIn z then ser_CTxOut CTxOut_null else ser_CTxOut (vout (ser_txTo z) ! nOutput))"

definition serializer_Serialize :: "CTransactionSignatureSerializer \<Rightarrow> u8 list" where
  "serializer_Serialize z =
     (let nInputs = (if fAnyoneCanPay z then 1 else length (vin (ser_txTo z)));
          nOutputs = (if fHashNone z then 0 else if fHashSingle z then ser_nIn z + 1 else length (vout (ser_txTo z)))
      in ser_writedata32 (tx_nVersion (ser_txTo z))
         @ WriteCompactSize (of_nat nInputs) @ concat (map (SerializeInput z) [0..<nInputs])
         @ WriteCompactSize (of_nat nOutputs) @ concat (map (SerializeOutput z) [0..<nOutputs])
         @ ser_writedata32 (nLockTime (ser_txTo z)))"

section \<open>Shared hashes\<close>

definition hash_writes :: "hash_ctx \<Rightarrow> u8 list list \<Rightarrow> hash_ctx" where
  "hash_writes ss chunks = foldl HashWriter_write ss chunks"

definition GetPrevoutsSHA256 :: "CTransaction \<Rightarrow> uint256" where
  "GetPrevoutsSHA256 tx = HashWriter_GetSHA256 (hash_writes CSHA256 (map (\<lambda>txin. ser_COutPoint (prevout txin)) (vin tx)))"

definition GetSequencesSHA256 :: "CTransaction \<Rightarrow> uint256" where
  "GetSequencesSHA256 tx = HashWriter_GetSHA256 (hash_writes CSHA256 (map (\<lambda>txin. ser_writedata32 (nSequence txin)) (vin tx)))"

definition GetOutputsSHA256 :: "CTransaction \<Rightarrow> uint256" where
  "GetOutputsSHA256 tx = HashWriter_GetSHA256 (hash_writes CSHA256 (map ser_CTxOut (vout tx)))"

definition GetSpentAmountsSHA256 :: "CTxOut list \<Rightarrow> uint256" where
  "GetSpentAmountsSHA256 outputs_spent =
     HashWriter_GetSHA256 (hash_writes CSHA256 (map (\<lambda>txout. ser_int64 (nValue txout)) outputs_spent))"

definition GetSpentScriptsSHA256 :: "CTxOut list \<Rightarrow> uint256" where
  "GetSpentScriptsSHA256 outputs_spent =
     HashWriter_GetSHA256 (hash_writes CSHA256 (map (\<lambda>txout. ser_bytes (scriptPubKey txout)) outputs_spent))"

record PrecomputedTransactionData =
  m_prevouts_single_hash :: uint256
  m_sequences_single_hash :: uint256
  m_outputs_single_hash :: uint256
  m_spent_amounts_single_hash :: uint256
  m_spent_scripts_single_hash :: uint256
  m_bip341_taproot_ready :: bool
  hashPrevouts :: uint256
  hashSequence :: uint256
  hashOutputs :: uint256
  m_bip143_segwit_ready :: bool
  m_spent_outputs :: "CTxOut list"
  m_spent_outputs_ready :: bool

definition txdata_init :: PrecomputedTransactionData where
  "txdata_init = \<lparr> m_prevouts_single_hash = replicate 32 0, m_sequences_single_hash = replicate 32 0,
     m_outputs_single_hash = replicate 32 0, m_spent_amounts_single_hash = replicate 32 0,
     m_spent_scripts_single_hash = replicate 32 0, m_bip341_taproot_ready = False, hashPrevouts = replicate 32 0,
     hashSequence = replicate 32 0, hashOutputs = replicate 32 0, m_bip143_segwit_ready = False,
     m_spent_outputs = [], m_spent_outputs_ready = False \<rparr>"

definition WITNESS_V0_SCRIPTHASH_SIZE :: nat where "WITNESS_V0_SCRIPTHASH_SIZE = 32"
definition WITNESS_V0_KEYHASH_SIZE :: nat where "WITNESS_V0_KEYHASH_SIZE = 20"
definition WITNESS_V1_TAPROOT_SIZE :: nat where "WITNESS_V1_TAPROOT_SIZE = 32"
definition TAPROOT_LEAF_MASK :: u8 where "TAPROOT_LEAF_MASK = 0xfe"
definition TAPROOT_LEAF_TAPSCRIPT :: u8 where "TAPROOT_LEAF_TAPSCRIPT = 0xc0"
definition TAPROOT_CONTROL_BASE_SIZE :: nat where "TAPROOT_CONTROL_BASE_SIZE = 33"
definition TAPROOT_CONTROL_NODE_SIZE :: nat where "TAPROOT_CONTROL_NODE_SIZE = 32"
definition TAPROOT_CONTROL_MAX_NODE_COUNT :: nat where "TAPROOT_CONTROL_MAX_NODE_COUNT = 128"
definition TAPROOT_CONTROL_MAX_SIZE :: nat where
  "TAPROOT_CONTROL_MAX_SIZE = TAPROOT_CONTROL_BASE_SIZE + TAPROOT_CONTROL_NODE_SIZE * TAPROOT_CONTROL_MAX_NODE_COUNT"

text \<open>The loop of \<open>Init\<close> from an input position on, with the two flags it sets: segwit and taproot.\<close>

fun uses_loop :: "CTxIn list \<Rightarrow> bool \<Rightarrow> CTxOut list \<Rightarrow> nat \<Rightarrow> bool \<Rightarrow> bool \<Rightarrow> bool \<times> bool" where
  "uses_loop [] ready outputs inpos segwit taproot = (segwit, taproot)"
| "uses_loop (txin # txins) ready outputs inpos segwit taproot =
     (if segwit \<and> taproot then (segwit, taproot)
      else let (segwit, taproot) =
             (if scriptWitness txin \<noteq> [] then
                (if ready \<and> length (scriptPubKey (outputs ! inpos)) = 2 + WITNESS_V1_TAPROOT_SIZE
                    \<and> scriptPubKey (outputs ! inpos) ! 0 = OP_1 then (segwit, True) else (True, taproot))
              else (segwit, taproot))
           in if taproot \<and> segwit then (segwit, taproot)
              else uses_loop txins ready outputs (inpos + 1) segwit taproot)"

definition txdata_Init :: "PrecomputedTransactionData \<Rightarrow> CTransaction \<Rightarrow> CTxOut list \<Rightarrow> bool \<Rightarrow> fault + PrecomputedTransactionData" where
  "txdata_Init d tx spent_outputs force =
     (if m_spent_outputs_ready d then Inl AssertFailed
      else if spent_outputs \<noteq> [] \<and> length spent_outputs \<noteq> length (vin tx) then Inl AssertFailed
      else
        let ready = (spent_outputs \<noteq> []);
            d = d\<lparr> m_spent_outputs := spent_outputs, m_spent_outputs_ready := ready \<rparr>;
            (segwit, taproot) = uses_loop (vin tx) ready spent_outputs 0 force force;
            d = (if segwit \<or> taproot then
                   d\<lparr> m_prevouts_single_hash := GetPrevoutsSHA256 tx, m_sequences_single_hash := GetSequencesSHA256 tx,
                      m_outputs_single_hash := GetOutputsSHA256 tx \<rparr> else d);
            d = (if segwit then
                   d\<lparr> hashPrevouts := SHA256Uint256 (m_prevouts_single_hash d),
                      hashSequence := SHA256Uint256 (m_sequences_single_hash d),
                      hashOutputs := SHA256Uint256 (m_outputs_single_hash d), m_bip143_segwit_ready := True \<rparr> else d);
            d = (if taproot then
                   d\<lparr> m_spent_amounts_single_hash := GetSpentAmountsSHA256 spent_outputs,
                      m_spent_scripts_single_hash := GetSpentScriptsSHA256 spent_outputs, m_bip341_taproot_ready := True \<rparr> else d)
        in Inr d)"

section \<open>Signature hashes\<close>

definition tag_bytes :: "string \<Rightarrow> u8 list" where "tag_bytes s = map of_char s"

definition HASHER_TAPSIGHASH :: hash_ctx where "HASHER_TAPSIGHASH = TaggedHash (tag_bytes ''TapSighash'')"
definition HASHER_TAPLEAF :: hash_ctx where "HASHER_TAPLEAF = TaggedHash (tag_bytes ''TapLeaf'')"
definition HASHER_TAPBRANCH :: hash_ctx where "HASHER_TAPBRANCH = TaggedHash (tag_bytes ''TapBranch'')"

datatype MissingDataBehavior = ASSERT_FAIL | FAIL_MISSING

fun HandleMissingData :: "MissingDataBehavior \<Rightarrow> fault + bool" where
  "HandleMissingData ASSERT_FAIL = Inl AssertFailed"
| "HandleMissingData FAIL_MISSING = Inr False"

text \<open>
  The chunks of the Schnorr signature hash in the order they are written, for the parts that do not
  depend on the execution data.
\<close>

definition schnorr_common :: "CTransaction \<Rightarrow> u8 \<Rightarrow> PrecomputedTransactionData \<Rightarrow> u8 \<Rightarrow> u8 \<Rightarrow> u8 list list" where
  "schnorr_common tx_to hash_type cache output_type input_type =
     [ser_writedata8 0, ser_writedata8 hash_type, ser_writedata32 (tx_nVersion tx_to), ser_writedata32 (nLockTime tx_to)]
     @ (if input_type \<noteq> of_int SIGHASH_ANYONECANPAY then
          [ser_uint256 (m_prevouts_single_hash cache), ser_uint256 (m_spent_amounts_single_hash cache),
           ser_uint256 (m_spent_scripts_single_hash cache), ser_uint256 (m_sequences_single_hash cache)] else [])
     @ (if output_type = of_int SIGHASH_ALL then [ser_uint256 (m_outputs_single_hash cache)] else [])"

definition schnorr_input :: "CTransaction \<Rightarrow> nat \<Rightarrow> PrecomputedTransactionData \<Rightarrow> u8 \<Rightarrow> u8 list list" where
  "schnorr_input tx_to in_pos cache input_type =
     (if input_type = of_int SIGHASH_ANYONECANPAY then
        [ser_COutPoint (prevout (vin tx_to ! in_pos)), ser_CTxOut (m_spent_outputs cache ! in_pos),
         ser_writedata32 (nSequence (vin tx_to ! in_pos))]
      else [ser_writedata32 (of_nat in_pos)])"

definition single_output :: "CTransaction \<Rightarrow> nat \<Rightarrow> ScriptExecutionData \<Rightarrow> ScriptExecutionData" where
  "single_output tx_to in_pos execdata =
     (case m_output_hash execdata of
        None \<Rightarrow> execdata\<lparr> m_output_hash := Some (HashWriter_GetSHA256 (hash_writes CSHA256 [ser_CTxOut (vout tx_to ! in_pos)])) \<rparr>
      | Some h \<Rightarrow> execdata)"

definition schnorr_tail :: "SigVersion \<Rightarrow> ScriptExecutionData \<Rightarrow> fault + u8 list list" where
  "schnorr_tail sigversion execdata =
     (if sigversion = TAPSCRIPT then
        (if \<not> m_tapleaf_hash_init execdata then Inl AssertFailed
         else if \<not> m_codeseparator_pos_init execdata then Inl AssertFailed
         else Inr [ser_uint256 (m_tapleaf_hash execdata), ser_writedata8 0, ser_writedata32 (m_codeseparator_pos execdata)])
      else Inr [])"

definition SignatureHashSchnorr ::
    "ScriptExecutionData \<Rightarrow> CTransaction \<Rightarrow> nat \<Rightarrow> u8 \<Rightarrow> SigVersion \<Rightarrow> PrecomputedTransactionData \<Rightarrow> MissingDataBehavior
       \<Rightarrow> fault + (uint256 \<times> ScriptExecutionData) option" where
  "SignatureHashSchnorr execdata tx_to in_pos hash_type sigversion cache mdb =
     (if \<not> (sigversion = TAPROOT \<or> sigversion = TAPSCRIPT) then Inl AssertFailed
      else if \<not> in_pos < length (vin tx_to) then Inl AssertFailed
      else if \<not> (m_bip341_taproot_ready cache \<and> m_spent_outputs_ready cache)
      then sum_bind (HandleMissingData mdb) (\<lambda>_. Inr None)
      else
        let ext_flag = (if sigversion = TAPSCRIPT then 1 else 0) :: u8;
            output_type = (if hash_type = of_int SIGHASH_DEFAULT then of_int SIGHASH_ALL else hash_type AND of_int SIGHASH_OUTPUT_MASK);
            input_type = hash_type AND of_int SIGHASH_INPUT_MASK
        in if \<not> (hash_type \<le> 0x03 \<or> (hash_type \<ge> 0x81 \<and> hash_type \<le> 0x83)) then Inr None
        else if \<not> m_annex_init execdata then Inl AssertFailed
        else
          let have_annex = m_annex_present execdata;
              spend_type = push_bit 1 ext_flag + (if have_annex then 1 else 0);
              chunks = schnorr_common tx_to hash_type cache output_type input_type @ [ser_writedata8 spend_type]
                @ schnorr_input tx_to in_pos cache input_type
                @ (if have_annex then [ser_uint256 (m_annex_hash execdata)] else [])
          in if output_type = of_int SIGHASH_SINGLE \<and> in_pos \<ge> length (vout tx_to) then Inr None
          else
            let execdata = (if output_type = of_int SIGHASH_SINGLE then single_output tx_to in_pos execdata else execdata);
                single = (if output_type = of_int SIGHASH_SINGLE then [ser_uint256 (the (m_output_hash execdata))] else [])
            in sum_bind (schnorr_tail sigversion execdata) (\<lambda>last_chunks.
                 Inr (Some (HashWriter_GetSHA256 (hash_writes HASHER_TAPSIGHASH (chunks @ single @ last_chunks)), execdata))))"

definition uint256_ONE :: uint256 where "uint256_ONE = 1 # replicate 31 0"

text \<open>The three shared hashes of the witness version 0 signature hash, from the cache where it is ready.\<close>

definition segwit_hashPrevouts :: "CTransaction \<Rightarrow> int \<Rightarrow> PrecomputedTransactionData option \<Rightarrow> uint256" where
  "segwit_hashPrevouts tx nHashType cache =
     (if nHashType AND SIGHASH_ANYONECANPAY = 0 then
        (case cache of Some c \<Rightarrow> if m_bip143_segwit_ready c then hashPrevouts c else SHA256Uint256 (GetPrevoutsSHA256 tx)
         | None \<Rightarrow> SHA256Uint256 (GetPrevoutsSHA256 tx))
      else replicate 32 0)"

definition segwit_hashSequence :: "CTransaction \<Rightarrow> int \<Rightarrow> PrecomputedTransactionData option \<Rightarrow> uint256" where
  "segwit_hashSequence tx nHashType cache =
     (if nHashType AND SIGHASH_ANYONECANPAY = 0 \<and> nHashType AND 0x1f \<noteq> SIGHASH_SINGLE \<and> nHashType AND 0x1f \<noteq> SIGHASH_NONE then
        (case cache of Some c \<Rightarrow> if m_bip143_segwit_ready c then hashSequence c else SHA256Uint256 (GetSequencesSHA256 tx)
         | None \<Rightarrow> SHA256Uint256 (GetSequencesSHA256 tx))
      else replicate 32 0)"

definition segwit_hashOutputs :: "CTransaction \<Rightarrow> nat \<Rightarrow> int \<Rightarrow> PrecomputedTransactionData option \<Rightarrow> uint256" where
  "segwit_hashOutputs tx n nHashType cache =
     (if nHashType AND 0x1f \<noteq> SIGHASH_SINGLE \<and> nHashType AND 0x1f \<noteq> SIGHASH_NONE then
        (case cache of Some c \<Rightarrow> if m_bip143_segwit_ready c then hashOutputs c else SHA256Uint256 (GetOutputsSHA256 tx)
         | None \<Rightarrow> SHA256Uint256 (GetOutputsSHA256 tx))
      else if nHashType AND 0x1f = SIGHASH_SINGLE \<and> n < length (vout tx) then
        HashWriter_GetHash (hash_writes CSHA256 [ser_CTxOut (vout tx ! n)])
      else replicate 32 0)"

definition segwit_chunks :: "CScript \<Rightarrow> CTransaction \<Rightarrow> nat \<Rightarrow> int \<Rightarrow> int \<Rightarrow> PrecomputedTransactionData option \<Rightarrow> u8 list list" where
  "segwit_chunks code tx n nHashType amount cache =
     [ser_writedata32 (tx_nVersion tx), ser_uint256 (segwit_hashPrevouts tx nHashType cache),
      ser_uint256 (segwit_hashSequence tx nHashType cache), ser_COutPoint (prevout (vin tx ! n)), ser_bytes code,
      ser_int64 amount, ser_writedata32 (nSequence (vin tx ! n)), ser_uint256 (segwit_hashOutputs tx n nHashType cache),
      ser_writedata32 (nLockTime tx), ser_writedata32 (of_int nHashType)]"

definition SignatureHash :: "CScript \<Rightarrow> CTransaction \<Rightarrow> nat \<Rightarrow> int \<Rightarrow> int \<Rightarrow> SigVersion
    \<Rightarrow> PrecomputedTransactionData option \<Rightarrow> fault + uint256" where
  "SignatureHash code tx n nHashType amount sigversion cache =
     (if \<not> n < length (vin tx) then Inl AssertFailed
      else if sigversion = WITNESS_V0 then
        Inr (HashWriter_GetHash (hash_writes CSHA256 (segwit_chunks code tx n nHashType amount cache)))
      else if nHashType AND 0x1f = SIGHASH_SINGLE \<and> n \<ge> length (vout tx) then Inr uint256_ONE
      else Inr (HashWriter_GetHash (hash_writes CSHA256
             [serializer_Serialize (make_serializer tx code n nHashType), ser_writedata32 (of_int nHashType)])))"

section \<open>The checker of a transaction\<close>

record GenericTransactionSignatureChecker =
  checker_txTo :: CTransaction
  m_mdb :: MissingDataBehavior
  checker_nIn :: nat
  checker_amount :: int
  checker_txdata :: "PrecomputedTransactionData option"

definition tx_CheckECDSASignature :: "curve_ops \<Rightarrow> GenericTransactionSignatureChecker
    \<Rightarrow> valtype \<Rightarrow> valtype \<Rightarrow> CScript \<Rightarrow> SigVersion \<Rightarrow> eval_stop + bool" where
  "tx_CheckECDSASignature ec c vchSigIn vchPubKey code sigversion =
     (let pubkey = pubkey_Set vchPubKey in
      if \<not> pubkey_IsValid pubkey then Inr False
      else if vchSigIn = [] then Inr False
      else let nHashType = uint (last vchSigIn); vchSig = butlast vchSigIn in
        if sigversion = WITNESS_V0 \<and> checker_amount c < 0 then lift_fault (HandleMissingData (m_mdb c))
        else sum_bind (lift_fault (SignatureHash code (checker_txTo c) (checker_nIn c) nHashType (checker_amount c)
                 sigversion (checker_txdata c))) (\<lambda>sighash.
          Inr (pubkey_Verify ec pubkey sighash vchSig)))"

definition tx_CheckSchnorrSignature :: "curve_ops \<Rightarrow> GenericTransactionSignatureChecker
    \<Rightarrow> valtype \<Rightarrow> valtype \<Rightarrow> SigVersion \<Rightarrow> ScriptExecutionData \<Rightarrow> eval_stop + ScriptExecutionData" where
  "tx_CheckSchnorrSignature ec c sig pubkey_in sigversion execdata =
     (if \<not> (sigversion = TAPROOT \<or> sigversion = TAPSCRIPT) then Inl (Abort AssertFailed)
      else if length pubkey_in \<noteq> 32 then Inl (Abort AssertFailed)
      else if length sig \<noteq> 64 \<and> length sig \<noteq> 65 then Inl (Fail SCRIPT_ERR_SCHNORR_SIG_SIZE)
      else if length sig = 65 \<and> last sig = of_int SIGHASH_DEFAULT then Inl (Fail SCRIPT_ERR_SCHNORR_SIG_HASHTYPE)
      else
        let (sig, hashtype) = (if length sig = 65 then (butlast sig, last sig) else (sig, of_int SIGHASH_DEFAULT)) in
        case checker_txdata c of
          None \<Rightarrow> sum_bind (lift_fault (HandleMissingData (m_mdb c))) (\<lambda>_. Inl FailSilent)
        | Some txdata \<Rightarrow>
            sum_bind (lift_fault (SignatureHashSchnorr execdata (checker_txTo c) (checker_nIn c) hashtype sigversion txdata (m_mdb c)))
              (\<lambda>r. case r of None \<Rightarrow> Inl (Fail SCRIPT_ERR_SCHNORR_SIG_HASHTYPE)
                   | Some (sighash, execdata) \<Rightarrow>
                       if \<not> xonly_VerifySchnorr ec pubkey_in sighash sig then Inl (Fail SCRIPT_ERR_SCHNORR_SIG)
                       else Inr execdata))"

definition tx_CheckLockTime :: "GenericTransactionSignatureChecker \<Rightarrow> int \<Rightarrow> bool" where
  "tx_CheckLockTime c nLock =
     (let tx_lock = uint (nLockTime (checker_txTo c)) in
      if \<not> ((tx_lock < LOCKTIME_THRESHOLD \<and> nLock < LOCKTIME_THRESHOLD) \<or> (tx_lock \<ge> LOCKTIME_THRESHOLD \<and> nLock \<ge> LOCKTIME_THRESHOLD))
      then False
      else if nLock > tx_lock then False
      else if SEQUENCE_FINAL = nSequence (vin (checker_txTo c) ! checker_nIn c) then False
      else True)"

definition tx_CheckSequence :: "GenericTransactionSignatureChecker \<Rightarrow> int \<Rightarrow> bool" where
  "tx_CheckSequence c nSeq =
     (let txToSequence = uint (nSequence (vin (checker_txTo c) ! checker_nIn c)) in
      if tx_nVersion (checker_txTo c) < 2 then False
      else if txToSequence AND uint SEQUENCE_LOCKTIME_DISABLE_FLAG \<noteq> 0 then False
      else let nLockTimeMask = uint (SEQUENCE_LOCKTIME_TYPE_FLAG OR SEQUENCE_LOCKTIME_MASK);
               txToSequenceMasked = txToSequence AND nLockTimeMask;
               nSequenceMasked = nSeq AND nLockTimeMask;
               type_flag = uint SEQUENCE_LOCKTIME_TYPE_FLAG
        in if \<not> ((txToSequenceMasked < type_flag \<and> nSequenceMasked < type_flag) \<or>
                  (txToSequenceMasked \<ge> type_flag \<and> nSequenceMasked \<ge> type_flag)) then False
           else if nSequenceMasked > txToSequenceMasked then False
           else True)"

definition TransactionSignatureChecker :: "curve_ops \<Rightarrow> GenericTransactionSignatureChecker \<Rightarrow> signature_checker" where
  "TransactionSignatureChecker ec c =
     \<lparr> CheckECDSASignature = tx_CheckECDSASignature ec c, CheckSchnorrSignature = tx_CheckSchnorrSignature ec c,
       CheckLockTime = tx_CheckLockTime c, CheckSequence = tx_CheckSequence c, CheckLowS = pubkey_CheckLowS ec \<rparr>"

section \<open>The values of the hashes\<close>

lemma hash_writes_sha256: "HashWriter_GetSHA256 (hash_writes CSHA256 chunks) = sha256 (concat chunks)"
  using sha256_stream.chunked_digest by (simp add: hash_writes_def HashWriter_GetSHA256_def HashWriter_write_eq)

lemma hash_writes_sha256d: "HashWriter_GetHash (hash_writes CSHA256 chunks) = sha256d (concat chunks)"
  using hash256_stream.chunked_digest
  by (simp add: hash_writes_def HashWriter_GetHash_eq HashWriter_write_eq CHash256_Write_def [abs_def])

lemma sha256_twice: "sha256 (sha256 m) = sha256d m"
  by (simp add: sha256d_def)

definition prevouts_string :: "CTransaction \<Rightarrow> u8 list" where
  "prevouts_string tx = concat (map (\<lambda>i. ser_COutPoint (prevout i)) (vin tx))"

definition sequences_string :: "CTransaction \<Rightarrow> u8 list" where
  "sequences_string tx = concat (map (\<lambda>i. ser_writedata32 (nSequence i)) (vin tx))"

definition outputs_string :: "CTransaction \<Rightarrow> u8 list" where
  "outputs_string tx = concat (map ser_CTxOut (vout tx))"

lemma shared_hashes:
  "SHA256Uint256 (GetPrevoutsSHA256 tx) = sha256d (prevouts_string tx)"
  "SHA256Uint256 (GetSequencesSHA256 tx) = sha256d (sequences_string tx)"
  "SHA256Uint256 (GetOutputsSHA256 tx) = sha256d (outputs_string tx)"
  by (simp_all add: GetPrevoutsSHA256_def GetSequencesSHA256_def GetOutputsSHA256_def hash_writes_sha256 sha256_twice
      prevouts_string_def sequences_string_def outputs_string_def)

section \<open>The cache changes nothing\<close>

lemma txdata_Init_segwit:
  assumes "txdata_Init txdata_init tx outs force = Inr d" "m_bip143_segwit_ready d"
  shows "hashPrevouts d = SHA256Uint256 (GetPrevoutsSHA256 tx) \<and> hashSequence d = SHA256Uint256 (GetSequencesSHA256 tx) \<and>
    hashOutputs d = SHA256Uint256 (GetOutputsSHA256 tx)"
  using assms
  by (auto simp: txdata_Init_def txdata_init_def Let_def simp del: SHA256Uint256_value split: prod.splits if_splits)

text \<open>
  C35: The precomputed data of a transaction is transparent: for every input, script code, hash type,
  amount and signature version, the signature hash computed with the data that \<open>Init\<close> filled for
  the transaction is the one computed without it, whether \<open>Init\<close> was forced or decided itself
  what to prepare.
\<close>

theorem SignatureHash_cache_transparent:
  assumes "txdata_Init txdata_init tx outs force = Inr d"
  shows "SignatureHash code tx n nHashType amount sigversion (Some d) = SignatureHash code tx n nHashType amount sigversion None"
  using txdata_Init_segwit [OF assms]
  by (simp add: SignatureHash_def segwit_chunks_def segwit_hashPrevouts_def segwit_hashSequence_def segwit_hashOutputs_def
      del: SHA256Uint256_value)

abbreviation sample_spend :: CTransaction where
  "sample_spend \<equiv> \<lparr> vin = [\<lparr> prevout = \<lparr> op_hash = replicate 32 7, op_n = 1 \<rparr>, scriptSig = [], nSequence = 5, scriptWitness = [[1]] \<rparr>],
     vout = [\<lparr> nValue = 1000, scriptPubKey = [0x51] \<rparr>], tx_nVersion = 2, nLockTime = 0 \<rparr>"

lemma sample_Init: "\<exists>d. txdata_Init txdata_init sample_spend [] False = Inr d \<and> m_bip143_segwit_ready d"
  by (simp add: txdata_Init_def txdata_init_def Let_def)

theorem SignatureHash_cache_transparent_witness:
  "\<exists>d. txdata_Init txdata_init sample_spend [] False = Inr d \<and> m_bip143_segwit_ready d \<and>
     SignatureHash [OP_CHECKSIG] sample_spend 0 1 5000 WITNESS_V0 (Some d) = SignatureHash [OP_CHECKSIG] sample_spend 0 1 5000 WITNESS_V0 None"
  using sample_Init SignatureHash_cache_transparent [of sample_spend "[]" False] by blast

section \<open>What a witness version 0 signature commits to\<close>

definition segwit_string :: "CScript \<Rightarrow> CTransaction \<Rightarrow> nat \<Rightarrow> int \<Rightarrow> int \<Rightarrow> u8 list" where
  "segwit_string code tx n nHashType amount = concat (segwit_chunks code tx n nHashType amount None)"

text \<open>The strings hashed for a signature that covers all inputs and outputs.\<close>

definition segwit_inputs :: "CScript \<Rightarrow> CTransaction \<Rightarrow> nat \<Rightarrow> int \<Rightarrow> int \<Rightarrow> u8 list list" where
  "segwit_inputs code tx n nHashType amount =
     [segwit_string code tx n nHashType amount, prevouts_string tx, sequences_string tx, outputs_string tx]"

definition covers_all :: "int \<Rightarrow> bool" where
  "covers_all nHashType \<longleftrightarrow> 0 \<le> nHashType \<and> nHashType < 2 ^ 32 \<and> nHashType AND SIGHASH_ANYONECANPAY = 0 \<and>
     nHashType AND 0x1f \<noteq> SIGHASH_SINGLE \<and> nHashType AND 0x1f \<noteq> SIGHASH_NONE"

lemma covers_chunks:
  assumes "covers_all h"
  shows "segwit_string code tx n h amount =
     ser_writedata32 (tx_nVersion tx) @ ser_uint256 (sha256d (prevouts_string tx)) @ ser_uint256 (sha256d (sequences_string tx)) @
     ser_COutPoint (prevout (vin tx ! n)) @ ser_bytes code @ ser_int64 amount @ ser_writedata32 (nSequence (vin tx ! n)) @
     ser_uint256 (sha256d (outputs_string tx)) @ ser_writedata32 (nLockTime tx) @ ser_writedata32 (of_int h)"
  using assms
  by (simp add: segwit_string_def segwit_chunks_def covers_all_def segwit_hashPrevouts_def segwit_hashSequence_def
      segwit_hashOutputs_def shared_hashes del: SHA256Uint256_value)

lemma of_int_u32_inj:
  assumes "0 \<le> a" "a < 2 ^ 32" "0 \<le> b" "b < 2 ^ 32" "(of_int a :: u32) = of_int b"
  shows "a = b"
proof -
  have "uint (of_int c :: u32) = c" if "0 \<le> c" "c < 2 ^ 32" for c
    using that by (simp add: unsigned_of_int take_bit_int_eq_self)
  then show ?thesis using assms by metis
qed

lemma segwit_string_inj:
  assumes "covers_all h" "covers_all h'" "length code \<le> MAX_SIZE" "length code' \<le> MAX_SIZE" "int64 a" "int64 a'"
    and "outpoint_ok (prevout (vin tx ! n))" "outpoint_ok (prevout (vin tx' ! n'))"
    and "segwit_string code tx n h a = segwit_string code' tx' n' h' a'"
  shows "tx_nVersion tx = tx_nVersion tx' \<and> sha256d (prevouts_string tx) = sha256d (prevouts_string tx') \<and>
    sha256d (sequences_string tx) = sha256d (sequences_string tx') \<and> prevout (vin tx ! n) = prevout (vin tx' ! n') \<and>
    code = code' \<and> a = a' \<and> nSequence (vin tx ! n) = nSequence (vin tx' ! n') \<and>
    sha256d (outputs_string tx) = sha256d (outputs_string tx') \<and> nLockTime tx = nLockTime tx' \<and> h = h'"
proof -
  let ?z = "(of_int h :: u32)" and ?z' = "(of_int h' :: u32)"
  note e = assms(9) [unfolded covers_chunks [OF assms(1)] covers_chunks [OF assms(2)]]
  note e1 = ser32.prefix_free [OF TrueI TrueI e]
  note e2 = uint256.prefix_free [OF length_sha256d length_sha256d conjunct2 [OF e1]]
  note e3 = uint256.prefix_free [OF length_sha256d length_sha256d conjunct2 [OF e2]]
  note e4 = outpoint.prefix_free [OF assms(7,8) conjunct2 [OF e3]]
  note e5 = bytes.prefix_free [OF assms(3,4) conjunct2 [OF e4]]
  note e6 = int64.prefix_free [OF assms(5,6) conjunct2 [OF e5]]
  note e7 = ser32.prefix_free [OF TrueI TrueI conjunct2 [OF e6]]
  note e8 = uint256.prefix_free [OF length_sha256d length_sha256d conjunct2 [OF e7]]
  note e9 = ser32.prefix_free [OF TrueI TrueI conjunct2 [OF e8]]
  have "?z = ?z'" using ser32.ser_inj [OF TrueI TrueI conjunct2 [OF e9]] .
  then have "h = h'" using of_int_u32_inj assms(1,2) by (simp add: covers_all_def)
  then show ?thesis using e1 e2 e3 e4 e5 e6 e7 e8 e9 by simp
qed

lemma strings_inj:
  assumes "tx_ok w tx" "tx_ok w' tx'"
  shows "prevouts_string tx = prevouts_string tx' \<Longrightarrow> map prevout (vin tx) = map prevout (vin tx')"
    and "sequences_string tx = sequences_string tx' \<Longrightarrow> map nSequence (vin tx) = map nSequence (vin tx')"
    and "outputs_string tx = outputs_string tx' \<Longrightarrow> vout tx = vout tx'"
proof -
  have ins: "list_all outpoint_ok (map prevout (vin tx))" "list_all outpoint_ok (map prevout (vin tx'))"
    using assms by (auto simp: tx_ok_def txin_ok_def list_all_iff)
  have outs: "list_all txout_ok (vout tx)" "list_all txout_ok (vout tx')" using assms by (auto simp: tx_ok_def)
  have ne: "ser_COutPoint p \<noteq> []" "ser_writedata32 k \<noteq> []" "ser_CTxOut x \<noteq> []" for p k x
    by (auto simp: ser_COutPoint_def ser_writedata32_def ser_CTxOut_def ser_int64_def ser_writedata64_def simp flip: length_0_conv)
  show "map prevout (vin tx) = map prevout (vin tx')" if "prevouts_string tx = prevouts_string tx'"
    using outpoint.concat_inj [OF ins] ne that by (simp add: prevouts_string_def comp_def)
  show "map nSequence (vin tx) = map nSequence (vin tx')" if "sequences_string tx = sequences_string tx'"
    using ser32.concat_inj [of "map nSequence (vin tx)" "map nSequence (vin tx')"] ne that
    by (simp add: sequences_string_def comp_def list_all_iff)
  show "vout tx = vout tx'" if "outputs_string tx = outputs_string tx'"
    using txout.concat_inj [OF outs] ne that by (simp add: outputs_string_def)
qed

text \<open>
  C36: A witness version 0 signature hash that covers all inputs and outputs commits to everything a
  signer sees: two such hashes that are equal come from the same version, lock time, outpoints,
  sequences and outputs, the same spent outpoint with its sequence, the same script code, amount and
  hash type, unless two different strings hashed for the two clash under double SHA-256.
\<close>

theorem segwit_sighash_commits:
  assumes "tx_ok w tx" "tx_ok w' tx'" "n < length (vin tx)" "n' < length (vin tx')"
    and "covers_all h" "covers_all h'" "length code \<le> MAX_SIZE" "length code' \<le> MAX_SIZE" "int64 a" "int64 a'"
    and "SignatureHash code tx n h a WITNESS_V0 None = SignatureHash code' tx' n' h' a' WITNESS_V0 None"
  shows "(tx_nVersion tx = tx_nVersion tx' \<and> nLockTime tx = nLockTime tx' \<and>
      map prevout (vin tx) = map prevout (vin tx') \<and> map nSequence (vin tx) = map nSequence (vin tx') \<and> vout tx = vout tx' \<and>
      prevout (vin tx ! n) = prevout (vin tx' ! n') \<and> nSequence (vin tx ! n) = nSequence (vin tx' ! n') \<and>
      code = code' \<and> a = a' \<and> h = h')
    \<or> clash (segwit_inputs code tx n h a) (segwit_inputs code' tx' n' h' a')"
proof (rule disjCI)
  assume "\<not> clash (segwit_inputs code tx n h a) (segwit_inputs code' tx' n' h' a')"
  then have nc: "sha256d x = sha256d y \<Longrightarrow> x = y" if "x \<in> set (segwit_inputs code tx n h a)" "y \<in> set (segwit_inputs code' tx' n' h' a')" for x y
    using that by (auto simp: clash_def)
  have "sha256d (segwit_string code tx n h a) = sha256d (segwit_string code' tx' n' h' a')"
    using assms(3,4,11) by (simp add: SignatureHash_def hash_writes_sha256d segwit_string_def)
  then have str: "segwit_string code tx n h a = segwit_string code' tx' n' h' a'" by (rule nc [rotated 2]) (simp_all add: segwit_inputs_def)
  have ops: "outpoint_ok (prevout (vin tx ! n))" "outpoint_ok (prevout (vin tx' ! n'))"
    using assms(1-4) by (auto simp: tx_ok_def txin_ok_def list_all_length)
  note inj = segwit_string_inj [OF assms(5-10) ops str]
  have "prevouts_string tx = prevouts_string tx'" "sequences_string tx = sequences_string tx'" "outputs_string tx = outputs_string tx'"
    by (rule nc; use inj in \<open>simp add: segwit_inputs_def\<close>)+
  then show "tx_nVersion tx = tx_nVersion tx' \<and> nLockTime tx = nLockTime tx' \<and>
      map prevout (vin tx) = map prevout (vin tx') \<and> map nSequence (vin tx) = map nSequence (vin tx') \<and> vout tx = vout tx' \<and>
      prevout (vin tx ! n) = prevout (vin tx' ! n') \<and> nSequence (vin tx ! n) = nSequence (vin tx' ! n') \<and>
      code = code' \<and> a = a' \<and> h = h'"
    using strings_inj [OF assms(1,2)] inj by simp
qed

abbreviation sample_respend :: CTransaction where
  "sample_respend \<equiv> sample_spend\<lparr> vin := map (\<lambda>i. i\<lparr> scriptWitness := [[2]] \<rparr>) (vin sample_spend) \<rparr>"

lemma sample_respend_hash:
  "SignatureHash [OP_CHECKSIG] sample_spend 0 1 5000 WITNESS_V0 None = SignatureHash [OP_CHECKSIG] sample_respend 0 1 5000 WITNESS_V0 None"
  by (simp add: SignatureHash_def segwit_chunks_def segwit_hashPrevouts_def segwit_hashSequence_def segwit_hashOutputs_def
      GetPrevoutsSHA256_def GetSequencesSHA256_def GetOutputsSHA256_def)

lemma sample_spend_ok: "tx_ok True sample_spend" "tx_ok True sample_respend"
  by (simp_all add: tx_ok_def txin_ok_def outpoint_ok_def txout_ok_def int64_def stack_ok_def MAX_SIZE_def)

theorem segwit_sighash_commits_witness:
  "sample_spend \<noteq> sample_respend \<and>
   (vout sample_spend = vout sample_respend
    \<or> clash (segwit_inputs [OP_CHECKSIG] sample_spend 0 1 5000) (segwit_inputs [OP_CHECKSIG] sample_respend 0 1 5000))"
proof -
  have "covers_all 1" by (simp add: covers_all_def SIGHASH_ANYONECANPAY_def SIGHASH_SINGLE_def SIGHASH_NONE_def)
  then show ?thesis
    using segwit_sighash_commits [OF sample_spend_ok _ _ _ _ _ _ _ _ sample_respend_hash] by (simp add: MAX_SIZE_def int64_def)
qed

end
