(* ===== verification/InterpreterSafety.thy ===== *)
theory InterpreterSafety
  imports Interpreter "HOL-Library.Sublist"
begin

text \<open>
  Correctness of the interpreter: the two-counter condition stack stands for a list of booleans,
  evaluation keeps the limits on the stacks and never fails an assertion, and the signature loop of
  \<open>OP_CHECKMULTISIG\<close> decides whether the signatures match keys in order.
\<close>

section \<open>The condition stack\<close>

definition cond_rep :: "ConditionStack \<Rightarrow> bool list \<Rightarrow> bool" where
  "cond_rep c bs \<longleftrightarrow> length bs < 2 ^ 32 - 1 \<and> m_stack_size c = of_nat (length bs) \<and>
     m_first_false_pos c = (if list_all id bs then NO_FALSE else of_nat (length (takeWhile id bs)))"

lemma NO_FALSE_value: "NO_FALSE = of_nat (2 ^ 32 - 1)"
  by (simp add: NO_FALSE_def)

lemma of_nat_u32_eq: "a < 2 ^ 32 \<Longrightarrow> b < 2 ^ 32 \<Longrightarrow> (of_nat a :: u32) = of_nat b \<longleftrightarrow> a = b"
proof -
  assume "a < 2 ^ 32" "b < 2 ^ 32"
  then have "unat (of_nat a :: u32) = a" "unat (of_nat b :: u32) = b" by (simp_all add: unat_of_nat)
  then show ?thesis by metis
qed

lemma first_false_less: "\<not> list_all id bs \<Longrightarrow> length (takeWhile id bs) < length bs"
  by (induction bs) auto

lemma cond_first_false:
  assumes "cond_rep c bs"
  shows "m_first_false_pos c = NO_FALSE \<longleftrightarrow> list_all id bs"
proof (cases "list_all id bs")
  case False
  then have "length (takeWhile id bs) < 2 ^ 32 - 1" using assms first_false_less [OF False] by (simp add: cond_rep_def)
  then have "(of_nat (length (takeWhile id bs)) :: u32) \<noteq> NO_FALSE"
    unfolding NO_FALSE_value by (subst of_nat_u32_eq) auto
  then show ?thesis using assms False by (simp add: cond_rep_def)
qed (use assms in \<open>simp add: cond_rep_def\<close>)


lemma cond_empty: "cond_rep c bs \<Longrightarrow> cs_empty c \<longleftrightarrow> bs = []"
  using of_nat_u32_eq [of "length bs" 0] by (auto simp: cond_rep_def cs_empty_def)

lemma cond_all_true: "cond_rep c bs \<Longrightarrow> all_true c \<longleftrightarrow> list_all id bs"
  by (simp add: all_true_def cond_first_false)

lemma take_first_false:
  "list_all id bs \<Longrightarrow> takeWhile id (bs @ [f]) = bs @ (if f then [f] else [])"
  "\<not> list_all id bs \<Longrightarrow> takeWhile id (bs @ [f]) = takeWhile id bs"
  by (induction bs) auto

lemma cond_push:
  assumes "cond_rep c bs" "length bs + 1 < 2 ^ 32 - 1"
  shows "cond_rep (cs_push_back c f) (bs @ [f])"
  using assms cond_first_false [OF assms(1)]
  by (auto simp: cond_rep_def cs_push_back_def Let_def take_first_false)

lemma cond_first_last:
  assumes "cond_rep c (bs @ [f])"
  shows "m_first_false_pos c = of_nat (length bs) \<longleftrightarrow> list_all id bs \<and> \<not> f"
proof (cases "list_all id bs")
  case True
  have "length bs + 1 < 2 ^ 32 - 1" using assms by (simp add: cond_rep_def)
  then have "(of_nat (length bs) :: u32) \<noteq> NO_FALSE" unfolding NO_FALSE_value by (subst of_nat_u32_eq) auto
  then show ?thesis using assms True by (auto simp: cond_rep_def take_first_false)
next
  case False
  have "length bs + 1 < 2 ^ 32 - 1" using assms by (simp add: cond_rep_def)
  then have "(of_nat (length (takeWhile id bs)) :: u32) \<noteq> of_nat (length bs)"
    using first_false_less [OF False] by (subst of_nat_u32_eq) auto
  then show ?thesis using assms False by (auto simp: cond_rep_def take_first_false)
qed

lemma cond_pop:
  assumes "cond_rep c (bs @ [f])"
  shows "\<exists>c'. cs_pop_back c = Inr c' \<and> cond_rep c' bs"
proof -
  have s: "m_stack_size c = of_nat (length bs + 1)" "length bs + 1 < 2 ^ 32 - 1" using assms by (simp_all add: cond_rep_def)
  have pos: "m_stack_size c \<noteq> 0" using cond_empty [OF assms] by (simp add: cs_empty_def)
  have size: "m_stack_size c - 1 = of_nat (length bs)" using s by simp
  note first = cond_first_last [OF assms]
  have "cond_rep (if m_first_false_pos c = of_nat (length bs)
      then c\<lparr> m_stack_size := of_nat (length bs), m_first_false_pos := NO_FALSE \<rparr> else c\<lparr> m_stack_size := of_nat (length bs) \<rparr>) bs"
    using assms first s by (auto simp: cond_rep_def take_first_false)
  then show ?thesis using pos size by (auto simp: cs_pop_back_def Let_def word_greater_zero_iff)
qed

lemma cond_toggle:
  assumes "cond_rep c (bs @ [f])"
  shows "\<exists>c'. toggle_top c = Inr c' \<and> cond_rep c' (bs @ [\<not> f])"
proof -
  have s: "m_stack_size c = of_nat (length bs + 1)" "length bs + 1 < 2 ^ 32 - 1" using assms by (simp_all add: cond_rep_def)
  have pos: "m_stack_size c \<noteq> 0" using cond_empty [OF assms] by (simp add: cs_empty_def)
  have size: "m_stack_size c - 1 = of_nat (length bs)" using s by simp
  have none: "m_first_false_pos c = NO_FALSE \<longleftrightarrow> list_all id bs \<and> f" using cond_first_false [OF assms] by simp
  note first = cond_first_last [OF assms]
  show ?thesis
    using pos size none first assms s
    by (auto simp: toggle_top_def word_greater_zero_iff cond_rep_def take_first_false)
qed

lemma cond_pop_empty: "cond_rep c [] \<Longrightarrow> cs_pop_back c = Inl AssertFailed" "cond_rep c [] \<Longrightarrow> toggle_top c = Inl AssertFailed"
  by (simp_all add: cond_rep_def cs_pop_back_def toggle_top_def)

datatype cond_op = CPush bool | CPop | CToggle

fun cond_step :: "cond_op \<Rightarrow> ConditionStack \<Rightarrow> fault + ConditionStack" where
  "cond_step (CPush f) c = Inr (cs_push_back c f)"
| "cond_step CPop c = cs_pop_back c"
| "cond_step CToggle c = toggle_top c"

fun cond_run :: "cond_op list \<Rightarrow> ConditionStack \<Rightarrow> fault + ConditionStack" where
  "cond_run [] c = Inr c"
| "cond_run (oper # ops) c = sum_bind (cond_step oper c) (cond_run ops)"

text \<open>The same operations on the list of the values, the bottom first.\<close>

fun cond_spec :: "cond_op \<Rightarrow> bool list \<Rightarrow> bool list option" where
  "cond_spec (CPush f) bs = Some (bs @ [f])"
| "cond_spec CPop bs = (if bs = [] then None else Some (butlast bs))"
| "cond_spec CToggle bs = (if bs = [] then None else Some (butlast bs @ [\<not> last bs]))"

fun cond_spec_run :: "cond_op list \<Rightarrow> bool list \<Rightarrow> bool list option" where
  "cond_spec_run [] bs = Some bs"
| "cond_spec_run (oper # ops) bs = Option.bind (cond_spec oper bs) (cond_spec_run ops)"

lemma cond_step_rep:
  assumes "cond_rep c bs" "length bs + 1 < 2 ^ 32 - 1"
  shows "case cond_spec oper bs of None \<Rightarrow> cond_step oper c = Inl AssertFailed
         | Some bs' \<Rightarrow> length bs' \<le> length bs + 1 \<and> (\<exists>c'. cond_step oper c = Inr c' \<and> cond_rep c' bs')"
  using assms cond_push [OF assms] cond_pop [of c "butlast bs" "last bs"] cond_toggle [of c "butlast bs" "last bs"]
  by (cases oper) (auto simp: cond_pop_empty)

lemma cond_run_rep:
  assumes "cond_rep c bs" "length bs + length ops < 2 ^ 32 - 1"
  shows "case cond_spec_run ops bs of None \<Rightarrow> cond_run ops c = Inl AssertFailed
         | Some bs' \<Rightarrow> (\<exists>c'. cond_run ops c = Inr c' \<and> cond_rep c' bs')"
  using assms
proof (induction ops arbitrary: c bs)
  case (Cons oper ops)
  have "length bs + 1 < 2 ^ 32 - 1" using Cons.prems by simp
  note step = cond_step_rep [OF Cons.prems(1) this, of oper]
  show ?case
  proof (cases "cond_spec oper bs")
    case (Some bs')
    then obtain c' where c': "cond_step oper c = Inr c'" "cond_rep c' bs'" "length bs' \<le> length bs + 1" using step by auto
    then have "length bs' + length ops < 2 ^ 32 - 1" using Cons.prems by simp
    then show ?thesis using Cons.IH [OF c'(2)] Some c' by (simp split: option.splits)
  qed (use step in simp)
qed simp

text \<open>
  C32: The condition stack of the interpreter keeps only its depth and the position of the first
  false value, yet any sequence of fewer than \<open>2^32 - 1\<close> pushes, pops and toggles leaves it empty
  and all true exactly when the list of values they produce is, and its assertions fail exactly
  when a pop or toggle finds that list empty.
\<close>

theorem ConditionStack_refines:
  assumes "length ops < 2 ^ 32 - 1"
  shows "case cond_spec_run ops [] of
           None \<Rightarrow> cond_run ops cs_init = Inl AssertFailed
         | Some bs \<Rightarrow> \<exists>c. cond_run ops cs_init = Inr c \<and> (cs_empty c \<longleftrightarrow> bs = []) \<and> (all_true c \<longleftrightarrow> list_all id bs)"
proof -
  have init: "cond_rep cs_init []" by (simp add: cond_rep_def cs_init_def)
  show ?thesis using cond_run_rep [OF init, of ops] assms by (auto split: option.splits simp: cond_empty cond_all_true)
qed

theorem ConditionStack_refines_witness:
  "length [CPush True, CPush False, CPush True, CToggle, CPop, CToggle] < 2 ^ 32 - 1 \<and>
   (\<exists>c. cond_run [CPush True, CPush False, CPush True, CToggle, CPop, CToggle] cs_init = Inr c \<and> \<not> cs_empty c \<and> all_true c)"
  using ConditionStack_refines [of "[CPush True, CPush False, CPush True, CToggle, CPop, CToggle]"] by simp

section \<open>What evaluation keeps\<close>

text \<open>
  The data a signature check of the new scripts needs, what a checker may be relied on for, and
  the invariant of the evaluation: elements of at most 520 bytes and an operation count in bounds.
\<close>

definition exec_ok :: "SigVersion \<Rightarrow> ScriptExecutionData \<Rightarrow> bool" where
  "exec_ok sigversion ed \<longleftrightarrow> (sigversion = TAPROOT \<or> sigversion = TAPSCRIPT \<longrightarrow> m_annex_init ed) \<and>
     (sigversion = TAPSCRIPT \<longrightarrow> m_tapleaf_hash_init ed \<and> m_codeseparator_pos_init ed \<and> m_validation_weight_left_init ed)"

definition no_abort :: "eval_stop + 'a \<Rightarrow> bool" where
  "no_abort r \<longleftrightarrow> (case r of Inl (Abort f) \<Rightarrow> False | _ \<Rightarrow> True)"

definition checker_ok :: "signature_checker \<Rightarrow> SigVersion \<Rightarrow> bool" where
  "checker_ok checker sigversion \<longleftrightarrow>
     (sigversion = BASE \<or> sigversion = WITNESS_V0 \<longrightarrow>
       (\<forall>sig pubkey code. no_abort (CheckECDSASignature checker sig pubkey code sigversion))) \<and>
     (sigversion = TAPROOT \<or> sigversion = TAPSCRIPT \<longrightarrow>
       (\<forall>sig pubkey ed. length pubkey = 32 \<and> exec_ok sigversion ed \<longrightarrow>
        no_abort (CheckSchnorrSignature checker sig pubkey sigversion ed) \<and>
        (\<forall>ed'. CheckSchnorrSignature checker sig pubkey sigversion ed = Inr ed' \<longrightarrow> exec_ok sigversion ed')))"

definition elems_ok :: "valtype list \<Rightarrow> bool" where
  "elems_ok s \<longleftrightarrow> (\<forall>v \<in> set s. length v \<le> MAX_SCRIPT_ELEMENT_SIZE)"

definition state_ok :: "eval_env \<Rightarrow> eval_state \<Rightarrow> bool" where
  "state_ok env st \<longleftrightarrow> elems_ok (st_stack st) \<and> elems_ok (st_altstack st) \<and> exec_ok (env_sigversion env) (st_execdata st) \<and>
     0 \<le> nOpCount st \<and> nOpCount st \<le> MAX_OPS_PER_SCRIPT"

definition safe :: "eval_env \<Rightarrow> eval_stop + eval_state \<Rightarrow> bool" where
  "safe env r \<longleftrightarrow> no_abort r \<and> (\<forall>st. r = Inr st \<longrightarrow> state_ok env st)"

named_theorems safe_rules \<open>evaluation does not abort and keeps the invariant\<close>

lemma no_abort_simps [simp]:
  "no_abort (Inr x)" "no_abort (Inl (Fail e))" "no_abort (Inl FailSilent)" "no_abort (Inl Thrown)" "\<not> no_abort (Inl (Abort f))"
  by (simp_all add: no_abort_def)

lemma no_abort_bind [safe_rules]:
  "no_abort m \<Longrightarrow> (\<And>x. m = Inr x \<Longrightarrow> no_abort (f x)) \<Longrightarrow> no_abort (sum_bind m f)"
  by (cases m) (auto simp: no_abort_def split: eval_stop.splits)

lemma safe_simps [simp]: "safe env (Inr st) \<longleftrightarrow> state_ok env st" "safe env (Inl (Fail e))" "safe env (Inl Thrown)"
  by (simp_all add: safe_def)

lemma safe_bind [safe_rules]:
  "no_abort m \<Longrightarrow> (\<And>x. m = Inr x \<Longrightarrow> safe env (f x)) \<Longrightarrow> safe env (sum_bind m f)"
  by (cases m) (auto simp: safe_def no_abort_def split: eval_stop.splits)

lemma elems_simps [simp]:
  "elems_ok []" "elems_ok (v # s) \<longleftrightarrow> length v \<le> MAX_SCRIPT_ELEMENT_SIZE \<and> elems_ok s"
  "elems_ok (s @ t) \<longleftrightarrow> elems_ok s \<and> elems_ok t"
  by (auto simp: elems_ok_def)

lemma elems_take_drop: "elems_ok s \<Longrightarrow> elems_ok (take n s)" "elems_ok s \<Longrightarrow> elems_ok (drop n s)"
  by (auto simp: elems_ok_def dest: in_set_takeD in_set_dropD)

lemma elems_nth: "elems_ok s \<Longrightarrow> i < length s \<Longrightarrow> length (s ! i) \<le> MAX_SCRIPT_ELEMENT_SIZE"
  by (simp add: elems_ok_def)

lemma num_serialize_length: "length (num_serialize n) \<le> MAX_SCRIPT_ELEMENT_SIZE"
proof -
  have b: "length (abs_bytes x) \<le> 8" for x
  proof (rule ccontr)
    assume l: "\<not> length (abs_bytes x) \<le> 8"
    then have x: "x \<noteq> 0" by (auto simp: abs_bytes.simps)
    have "2 ^ 64 \<le> (2 :: nat) ^ (8 * (length (abs_bytes x) - 1))" using l by (intro power_increasing) auto
    also have "\<dots> \<le> unat x" using words_val_lower [of "abs_bytes x"] abs_bytes_last [OF x] by (simp add: abs_bytes_val)
    finally show False using unat_u64_less [of x] by simp
  qed
  have "length (abs_bytes x) \<le> 519" "length (abs_bytes x) \<le> 520" "length (abs_bytes x) - Suc 0 \<le> 519" for x
    using b [of x] by simp_all
  then show ?thesis by (simp add: num_serialize_def MAX_SCRIPT_ELEMENT_SIZE_def Let_def)
qed

lemma vch_bool_length: "length (vch_bool b) \<le> MAX_SCRIPT_ELEMENT_SIZE"
  by (simp add: vch_bool_def vchTrue_def vchFalse_def MAX_SCRIPT_ELEMENT_SIZE_def)

lemma num_no_abort [simp]: "no_abort (num_sized env k vch)" "no_abort (num_of env vch)"
  by (simp_all add: num_of_def num_sized_def split: sum.split)

lemma stack_at_no_abort [simp]: "no_abort (stack_at s i)" "no_abort (popstack s)"
  by (simp_all add: stack_at_def popstack_def split: list.split)

lemma lift_fault_no_abort: "no_abort (lift_fault r) \<longleftrightarrow> (\<exists>x. r = Inr x)"
  by (simp add: lift_fault_def split: sum.split)

lemma lift_fault_Inr [simp]: "lift_fault r = Inr x \<longleftrightarrow> r = Inr x"
  by (simp add: lift_fault_def split: sum.split)


section \<open>Every opcode keeps the invariant\<close>

lemma length_md_digest:
  assumes "\<And>s c. length (f s c) = k" "length iv = k" "\<And>w. length (put32 w) = 4"
  shows "length (md_digest f put64 put32 iv m) = 4 * k"
proof -
  have "length (fold_blocks f n s p) = k" if "length s = k" for n s p
    using that by (induction n arbitrary: s p) (simp_all add: assms(1))
  moreover have "length (concat (map put32 ws)) = 4 * length ws" for ws by (induction ws) (simp_all add: assms(3))
  ultimately show ?thesis using assms(2) by (simp add: md_digest_def Let_def)
qed

lemma length_ripemd160 [simp]: "length (ripemd160 m) = 20"
  by (simp add: ripemd160_def length_md_digest [where k = 5] ripemd_Transform_def ripemd_Initialize_def Let_def split: prod.split)

lemma length_sha1 [simp]: "length (sha1 m) = 20"
  by (simp add: sha1_def length_md_digest [where k = 5] sha1_Transform_def sha1_Initialize_def Let_def split: prod.split)

lemma op_hash_values:
  "op_hash_value OP_RIPEMD160 vch = Inr (ripemd160 vch)" "op_hash_value OP_SHA1 vch = Inr (sha1 vch)"
  "op_hash_value OP_SHA256 vch = Inr (sha256 vch)" "op_hash_value OP_HASH160 vch = Inr (ripemd160 (sha256 vch))"
  "op_hash_value OP_HASH256 vch = Inr (sha256d vch)"
  using Hash160_value [of vch, unfolded Hash160_def] Hash1_value [of vch, unfolded Hash1_def]
  by (simp_all add: op_hash_value_def ripemd_stream.one_write sha1_stream.one_write sha256_stream.one_write)

lemma op_hash_length:
  assumes "opcode \<in> {OP_RIPEMD160, OP_SHA1, OP_SHA256, OP_HASH160, OP_HASH256}"
  shows "\<exists>h. op_hash_value opcode vch = Inr h \<and> length h \<le> MAX_SCRIPT_ELEMENT_SIZE"
  using assms by (auto simp: op_hash_values MAX_SCRIPT_ELEMENT_SIZE_def)

lemma hash_safe:
  assumes "state_ok env st" "opcode \<in> {OP_RIPEMD160, OP_SHA1, OP_SHA256, OP_HASH160, OP_HASH256}"
  shows "safe env (op_hash_top env opcode pc st)"
proof (cases "st_stack st")
  case (Cons vch s)
  obtain h where "op_hash_value opcode vch = Inr h" "length h \<le> MAX_SCRIPT_ELEMENT_SIZE"
    using op_hash_length [OF assms(2)] by blast
  then show ?thesis using assms(1) Cons by (simp add: op_hash_top_def state_ok_def lift_fault_def)
qed (simp add: op_hash_top_def)

declare stack_op.simps [simp del]

lemma stack_op_safe:
  assumes "state_ok env st" "\<And>s t. f s = Some t \<Longrightarrow> elems_ok s \<Longrightarrow> elems_ok t"
  shows "safe env (stack_op f env opcode pc st)"
  using assms by (auto simp: stack_op.simps state_ok_def split: option.split)

lemmas elem_lengths = num_serialize_length vch_bool_length

lemma stack_ops_keep:
  "op_2drop s = Some t \<Longrightarrow> elems_ok s \<Longrightarrow> elems_ok t"
  "op_2dup s = Some t \<Longrightarrow> elems_ok s \<Longrightarrow> elems_ok t"
  "op_3dup s = Some t \<Longrightarrow> elems_ok s \<Longrightarrow> elems_ok t"
  "op_2over s = Some t \<Longrightarrow> elems_ok s \<Longrightarrow> elems_ok t"
  "op_2rot s = Some t \<Longrightarrow> elems_ok s \<Longrightarrow> elems_ok t"
  "op_2swap s = Some t \<Longrightarrow> elems_ok s \<Longrightarrow> elems_ok t"
  "op_ifdup s = Some t \<Longrightarrow> elems_ok s \<Longrightarrow> elems_ok t"
  "op_depth s = Some t \<Longrightarrow> elems_ok s \<Longrightarrow> elems_ok t"
  "op_drop s = Some t \<Longrightarrow> elems_ok s \<Longrightarrow> elems_ok t"
  "op_dup s = Some t \<Longrightarrow> elems_ok s \<Longrightarrow> elems_ok t"
  "op_nip s = Some t \<Longrightarrow> elems_ok s \<Longrightarrow> elems_ok t"
  "op_over s = Some t \<Longrightarrow> elems_ok s \<Longrightarrow> elems_ok t"
  "op_rot s = Some t \<Longrightarrow> elems_ok s \<Longrightarrow> elems_ok t"
  "op_swap s = Some t \<Longrightarrow> elems_ok s \<Longrightarrow> elems_ok t"
  "op_tuck s = Some t \<Longrightarrow> elems_ok s \<Longrightarrow> elems_ok t"
  "op_size s = Some t \<Longrightarrow> elems_ok s \<Longrightarrow> elems_ok t"
  subgoal by (cases s rule: op_2drop.cases) auto
  subgoal by (cases s rule: op_2dup.cases) auto
  subgoal by (cases s rule: op_3dup.cases) auto
  subgoal by (cases s rule: op_2over.cases) auto
  subgoal by (cases s rule: op_2rot.cases) auto
  subgoal by (cases s rule: op_2swap.cases) auto
  subgoal by (cases s rule: op_ifdup.cases) (auto split: if_splits)
  subgoal by (auto simp: elem_lengths)
  subgoal by (cases s rule: op_drop.cases) auto
  subgoal by (cases s rule: op_dup.cases) auto
  subgoal by (cases s rule: op_nip.cases) auto
  subgoal by (cases s rule: op_over.cases) auto
  subgoal by (cases s rule: op_rot.cases) auto
  subgoal by (cases s rule: op_swap.cases) auto
  subgoal by (cases s rule: op_tuck.cases) auto
  subgoal by (cases s rule: op_size.cases) (auto simp: elem_lengths)
  done

lemma lock_safe:
  assumes "state_ok env st"
  shows "safe env (op_checklocktimeverify env opcode pc st)" "safe env (op_checksequenceverify env opcode pc st)"
    "safe env (op_upgradable_nop env opcode pc st)" "safe env (op_nop env opcode pc st)" "safe env (op_return env opcode pc st)"
  using assms
  by (auto simp: op_checklocktimeverify_def op_checksequenceverify_def op_upgradable_nop_def op_nop_def op_return_def
      split: list.split intro!: safe_bind)

lemma number_safe: "state_ok env st \<Longrightarrow> safe env (op_number env opcode pc st)"
  by (simp add: op_number_def state_ok_def elem_lengths)

lemma minimal_if_no_abort [simp]: "no_abort (check_minimal_if env vch)"
  by (simp add: check_minimal_if_def)

lemma cond_ops_total: "\<not> cs_empty c \<Longrightarrow> \<exists>c'. toggle_top c = Inr c'" "\<not> cs_empty c \<Longrightarrow> \<exists>c'. cs_pop_back c = Inr c'"
  by (auto simp: cs_empty_def toggle_top_def cs_pop_back_def Let_def word_greater_zero_iff)

lemma conditional_safe:
  assumes "state_ok env st"
  shows "safe env (op_if env opcode pc st)" "safe env (op_else env opcode pc st)" "safe env (op_endif env opcode pc st)"
    "safe env (op_verify env opcode pc st)"
  using assms cond_ops_total [of "vfExec st"]
  by (auto simp: op_if_def op_else_def op_endif_def op_verify_def state_ok_def lift_fault_no_abort Let_def
      split: list.split intro!: safe_bind)

lemma alt_safe:
  assumes "state_ok env st"
  shows "safe env (op_toaltstack env opcode pc st)" "safe env (op_fromaltstack env opcode pc st)"
    "safe env (op_equal env opcode pc st)" "safe env (op_codeseparator env opcode pc st)"
  using assms
  by (auto simp: op_toaltstack_def op_fromaltstack_def op_equal_def op_codeseparator_def state_ok_def exec_ok_def
      elem_lengths Let_def split: list.split)

lemma pick_roll_safe: "state_ok env st \<Longrightarrow> safe env (op_pick_roll env opcode pc st)"
  by (auto simp: op_pick_roll_def state_ok_def Let_def stack_at_def popstack_def elems_nth elems_take_drop
      split: list.splits if_splits intro!: safe_bind)

lemma num_of_bound:
  assumes "num_of env vch = Inr n"
  shows "\<bar>n\<bar> < 2 ^ 31"
proof (cases "vch = []")
  case True
  then show ?thesis using assms by (simp add: num_of_def num_sized_def CScriptNum_def set_vch_def split: if_splits)
next
  case False
  have len: "length vch \<le> 4" and n: "n = set_vch vch"
    using assms by (auto simp: num_of_def num_sized_def CScriptNum_def nDefaultMaxNumSize_def split: if_splits)
  from False obtain bs l where v: "vch = bs @ [l]" by (metis append_butlast_last_id)
  have "magnitude vch < 2 ^ (8 * length vch - 1)" using False by (rule magnitude_bound)
  also have "\<dots> \<le> 2 ^ 31" using len by (intro power_increasing) simp_all
  finally show ?thesis using set_vch_snoc [of bs l] len n v by simp
qed

lemma unary_total:
  assumes "\<bar>n\<bar> < 2 ^ 31" "opcode \<in> {OP_1ADD, OP_1SUB, OP_NEGATE, OP_ABS, OP_NOT, OP_0NOTEQUAL}"
  shows "\<exists>m. unary_num opcode n = Inr m"
  using assms by (auto simp: unary_num_def num_inc_def num_dec_def num_neg_def)

lemma binary_total:
  assumes "opcode \<in> {OP_ADD, OP_SUB, OP_BOOLAND, OP_BOOLOR, OP_NUMEQUAL, OP_NUMEQUALVERIFY, OP_NUMNOTEQUAL, OP_LESSTHAN,
    OP_GREATERTHAN, OP_LESSTHANOREQUAL, OP_GREATERTHANOREQUAL, OP_MIN, OP_MAX}"
  shows "\<exists>m. binary_num opcode a b = Inr m"
  using assms by (auto simp: binary_num_def)

lemma arith_safe:
  assumes "state_ok env st"
  shows "opcode \<in> {OP_1ADD, OP_1SUB, OP_NEGATE, OP_ABS, OP_NOT, OP_0NOTEQUAL} \<Longrightarrow> safe env (op_unary env opcode pc st)"
    and "opcode \<in> {OP_ADD, OP_SUB, OP_BOOLAND, OP_BOOLOR, OP_NUMEQUAL, OP_NUMEQUALVERIFY, OP_NUMNOTEQUAL, OP_LESSTHAN,
      OP_GREATERTHAN, OP_LESSTHANOREQUAL, OP_GREATERTHANOREQUAL, OP_MIN, OP_MAX} \<Longrightarrow> safe env (op_binary env opcode pc st)"
    and "safe env (op_within env opcode pc st)"
proof -
  show "safe env (op_unary env opcode pc st)" if "opcode \<in> {OP_1ADD, OP_1SUB, OP_NEGATE, OP_ABS, OP_NOT, OP_0NOTEQUAL}"
    using assms unary_total [OF num_of_bound that] unfolding op_unary_def
    by (auto simp: state_ok_def lift_fault_no_abort elem_lengths split: list.split intro!: safe_bind)
  show "safe env (op_binary env opcode pc st)" if "opcode \<in> {OP_ADD, OP_SUB, OP_BOOLAND, OP_BOOLOR, OP_NUMEQUAL,
      OP_NUMEQUALVERIFY, OP_NUMNOTEQUAL, OP_LESSTHAN, OP_GREATERTHAN, OP_LESSTHANOREQUAL, OP_GREATERTHANOREQUAL, OP_MIN, OP_MAX}"
    using assms binary_total [OF that] unfolding op_binary_def
    by (auto simp: state_ok_def lift_fault_no_abort elem_lengths split: list.split intro!: safe_bind)
  show "safe env (op_within env opcode pc st)" using assms unfolding op_within_def
    by (auto simp: state_ok_def elem_lengths split: list.split intro!: safe_bind)
qed

lemma encoding_no_abort [simp]:
  "no_abort (CheckSignatureEncoding checker flags sig)" "no_abort (CheckPubKeyEncoding flags sigversion pubkey)"
  by (auto simp: CheckSignatureEncoding_def CheckPubKeyEncoding_def IsLowDERSignature_def intro!: no_abort_bind)

definition exec_safe :: "SigVersion \<Rightarrow> ('a \<Rightarrow> ScriptExecutionData) \<Rightarrow> eval_stop + 'a \<Rightarrow> bool" where
  "exec_safe sigversion proj r \<longleftrightarrow> no_abort r \<and> (\<forall>x. r = Inr x \<longrightarrow> exec_ok sigversion (proj x))"

lemma exec_safe_simps [simp]:
  "exec_safe sigversion proj (Inr x) \<longleftrightarrow> exec_ok sigversion (proj x)" "exec_safe sigversion proj (Inl (Fail e))"
  by (simp_all add: exec_safe_def)

lemma exec_safe_bind:
  "exec_safe sigversion id m \<Longrightarrow> (\<And>x. exec_ok sigversion x \<Longrightarrow> exec_safe sigversion proj (f x)) \<Longrightarrow> exec_safe sigversion proj (sum_bind m f)"
  by (cases m) (auto simp: exec_safe_def no_abort_def split: eval_stop.splits)

lemma checksig_pre:
  assumes "checker_ok checker sigversion" "sigversion = BASE \<or> sigversion = WITNESS_V0"
  shows "no_abort (EvalChecksigPreTapscript sig pubkey code flags checker sigversion)"
  using assms by (auto simp: EvalChecksigPreTapscript_def checker_ok_def Let_def split: prod.split intro!: no_abort_bind)

lemma checksig_tapscript:
  assumes "checker_ok checker TAPSCRIPT" "exec_ok TAPSCRIPT ed"
  shows "exec_safe TAPSCRIPT snd (EvalChecksigTapscript sig pubkey ed flags checker TAPSCRIPT)"
proof -
  have weight: "exec_safe TAPSCRIPT id (if sig \<noteq> [] then spend_weight ed else Inr ed)"
    using assms(2) by (auto simp: spend_weight_def exec_ok_def Let_def)
  have schnorr: "exec_safe TAPSCRIPT id (if sig \<noteq> [] then CheckSchnorrSignature checker sig pubkey TAPSCRIPT e else Inr e)"
    if "length pubkey = 32" "exec_ok TAPSCRIPT e" for e
    using assms(1) that by (simp add: checker_ok_def exec_safe_def)
  show ?thesis unfolding EvalChecksigTapscript_def Let_def
    using schnorr weight assms(2) by (auto intro!: exec_safe_bind)
qed

lemma checksig_ok:
  assumes "checker_ok checker sigversion" "exec_ok sigversion ed" "sigversion \<noteq> TAPROOT"
  shows "exec_safe sigversion snd (EvalChecksig sig pubkey code ed flags checker sigversion)"
proof (cases sigversion)
  case BASE
  then show ?thesis using assms checksig_pre [of checker sigversion sig pubkey code flags]
    by (auto simp: exec_safe_def sum_bind_Inr_iff intro!: no_abort_bind)
next
  case WITNESS_V0
  then show ?thesis using assms checksig_pre [of checker sigversion sig pubkey code flags]
    by (auto simp: exec_safe_def sum_bind_Inr_iff intro!: no_abort_bind)
qed (use assms checksig_tapscript in simp_all)

lemma checksig_safe:
  assumes "state_ok env st" "checker_ok (env_checker env) (env_sigversion env)" "env_sigversion env \<noteq> TAPROOT"
  shows "safe env (op_checksig env opcode pc st)" "safe env (op_checksigadd env opcode pc st)"
proof -
  have ed: "exec_ok (env_sigversion env) (st_execdata st)" using assms(1) by (simp add: state_ok_def)
  note ok = checksig_ok [OF assms(2) ed assms(3), unfolded exec_safe_def]
  show "safe env (op_checksig env opcode pc st)" using assms(1) ok unfolding op_checksig_def
    by (auto simp: state_ok_def elem_lengths split: list.split intro!: safe_bind)
  show "safe env (op_checksigadd env opcode pc st)" using assms(1) ok unfolding op_checksigadd_def
    by (auto simp: state_ok_def elem_lengths split: list.split intro!: safe_bind)
qed

lemma delete_sigs_no_abort: "no_abort (delete_sigs env sigs code)"
  by (induction env sigs code rule: delete_sigs.induct) (simp_all split: prod.split)

lemma multisig_loop_no_abort:
  assumes "checker_ok (env_checker env) (env_sigversion env)" "env_sigversion env \<noteq> TAPSCRIPT" "env_sigversion env \<noteq> TAPROOT"
  shows "no_abort (multisig_loop env code s isig ikey nSigs nKeys)"
  using assms
proof (induction env code s isig ikey nSigs nKeys rule: multisig_loop.induct)
  case (1 env code s isig ikey nSigs nKeys)
  have ecdsa: "no_abort (CheckECDSASignature (env_checker env) sig pubkey code (env_sigversion env))" for sig pubkey
    using "1.prems" by (cases "env_sigversion env") (simp_all add: checker_ok_def)
  show ?case
    by (subst multisig_loop.simps) (use 1 ecdsa in \<open>auto intro!: no_abort_bind\<close>)
qed

lemma multisig_pops_keep:
  "no_abort (multisig_pops env b k ikey2 s)"
  "multisig_pops env b k ikey2 s = Inr t \<Longrightarrow> elems_ok s \<Longrightarrow> elems_ok t"
  by (induction env b k ikey2 s arbitrary: t rule: multisig_pops.induct)
    (auto intro!: no_abort_bind simp: sum_bind_Inr_iff popstack_def split: list.splits)

lemma multisig_finish_keep: "multisig_finish env opcode b s = Inr t \<Longrightarrow> elems_ok s \<Longrightarrow> elems_ok t"
  by (auto simp: multisig_finish_def elem_lengths split: list.splits if_splits)

lemma multisig_check_keep:
  assumes "checker_ok (env_checker env) (env_sigversion env)" "env_sigversion env \<noteq> TAPSCRIPT" "env_sigversion env \<noteq> TAPROOT"
  shows "no_abort (multisig_check env opcode code s nk ns)"
    and "multisig_check env opcode code s nk ns = Inr t \<Longrightarrow> elems_ok s \<Longrightarrow> elems_ok t"
proof -
  show "no_abort (multisig_check env opcode code s nk ns)"
    unfolding multisig_check_def multisig_finish_def Let_def
    by (auto intro!: no_abort_bind delete_sigs_no_abort multisig_loop_no_abort [OF assms] multisig_pops_keep(1) split: list.split)
  assume "multisig_check env opcode code s nk ns = Inr t" and s: "elems_ok s"
  then obtain b s' where "multisig_pops env b (nat (nk + 3 + ns - 1)) (nk + 2) s = Inr s'" "multisig_finish env opcode b s' = Inr t"
    unfolding multisig_check_def Let_def by (auto simp only: sum_bind_Inr_iff if_split_eq1 sum.distinct)
  then show "elems_ok t" using multisig_pops_keep(2) multisig_finish_keep s by blast
qed

lemma multisig_safe:
  assumes "state_ok env st" "checker_ok (env_checker env) (env_sigversion env)" "env_sigversion env \<noteq> TAPROOT"
  shows "safe env (op_checkmultisig env opcode pc st)"
proof (cases "env_sigversion env = TAPSCRIPT")
  case False
  note keep = multisig_check_keep [OF assms(2) False assms(3)]
  show ?thesis using assms(1) unfolding op_checkmultisig_def Let_def
    by (auto simp: state_ok_def intro!: safe_bind keep(1)) (erule (1) keep(2))
qed (simp add: op_checkmultisig_def)

section \<open>A whole script\<close>

lemma table_safe:
  assumes "state_ok env st" "checker_ok (env_checker env) (env_sigversion env)" "env_sigversion env \<noteq> TAPROOT"
  shows "list_all (\<lambda>(ops, h). list_all (\<lambda>opcode. safe env (h env opcode pc st)) ops) op_table"
  unfolding op_table_def list.pred_inject prod.case
  by (intro conjI TrueI number_safe lock_safe conditional_safe alt_safe pick_roll_safe stack_op_safe checksig_safe multisig_safe
      arith_safe hash_safe assms; (rule stack_ops_keep; assumption | simp))

lemma switch_safe:
  assumes "list_all (\<lambda>(ops, h). list_all (\<lambda>opcode. safe env (h env opcode pc st)) ops) table"
  shows "safe env (switch_op table env opcode pc st)"
  using assms by (induction table env opcode pc st rule: switch_op.induct) (auto simp: list_all_iff)

lemma eval_op_safe:
  assumes "state_ok env st" "checker_ok (env_checker env) (env_sigversion env)" "env_sigversion env \<noteq> TAPROOT"
    "length vch \<le> MAX_SCRIPT_ELEMENT_SIZE"
  shows "safe env (eval_op env opcode vch pc st)"
proof -
  have push: "no_abort (if fRequireMinimal env then lift_fault (CheckMinimalPush vch opcode) else Inr True)" if "opcode \<le> OP_PUSHDATA4"
    using that by (auto simp: lift_fault_no_abort CheckMinimalPush_def)
  show ?thesis unfolding eval_op_def Let_def
    using assms(1,4) push switch_safe [OF table_safe [OF assms(1-3)]]
    by (auto simp: state_ok_def intro!: safe_bind)
qed

definition sizes_ok :: "eval_state \<Rightarrow> bool" where
  "sizes_ok st \<longleftrightarrow> length (st_stack st) + length (st_altstack st) \<le> MAX_STACK_SIZE"

lemma limit_safe: "safe env m \<Longrightarrow> safe env (sum_bind m (\<lambda>st. if P st then Inl (Fail e) else Inr st))"
  by (cases m) (auto simp: safe_def)

lemma eval_step_safe:
  assumes "state_ok env st" "checker_ok (env_checker env) (env_sigversion env)" "env_sigversion env \<noteq> TAPROOT"
  shows "safe env (eval_step env opcode vch pc st)"
    and "eval_step env opcode vch pc st = Inr st' \<Longrightarrow> sizes_ok st'"
proof -
  have count: "state_ok env (if pre_tapscript env \<and> opcode > OP_16 then st\<lparr> nOpCount := nOpCount st + 1 \<rparr> else st)"
    if "\<not> (pre_tapscript env \<and> opcode > OP_16 \<and> nOpCount st + 1 > MAX_OPS_PER_SCRIPT)"
    using assms(1) that by (auto simp: state_ok_def)
  show "safe env (eval_step env opcode vch pc st)"
    unfolding eval_step_def Let_def
    using eval_op_safe [OF count assms(2,3), of vch opcode pc]
    by (auto intro!: limit_safe)
  show "sizes_ok st'" if "eval_step env opcode vch pc st = Inr st'"
    using that by (auto simp: eval_step_def Let_def sum_bind_Inr_iff sizes_ok_def split: if_splits)
qed

lemma eval_loop_safe:
  assumes "state_ok env st" "checker_ok (env_checker env) (env_sigversion env)" "env_sigversion env \<noteq> TAPROOT"
  shows "safe env (eval_loop env pc st) \<and> (\<forall>st'. eval_loop env pc st = Inr st' \<longrightarrow> pc = [] \<or> sizes_ok st')"
  using assms
proof (induction env pc st rule: eval_loop.induct)
  case (1 env pc st)
  show ?case
  proof (cases "GetScriptOp pc")
    case None
    then show ?thesis using "1.prems" by (simp add: eval_loop.simps [of env pc st])
  next
    case (Some r)
    obtain opcode vch pc' where r: "r = (opcode, vch, pc')" by (cases r)
    have pc: "pc \<noteq> []" using Some by (auto simp: GetScriptOp_def)
    have eq: "eval_loop env pc st = sum_bind (eval_step env opcode vch pc' st)
        (\<lambda>st. eval_loop env pc' (st\<lparr> opcode_pos := opcode_pos st + 1 \<rparr>))"
      using Some pc r by (subst eval_loop.simps) simp
    show ?thesis
    proof (cases "eval_step env opcode vch pc' st")
      case (Inl e)
      then show ?thesis using eval_step_safe(1) [OF "1.prems", of opcode vch pc'] eq by (simp add: safe_def)
    next
      case (Inr st1)
      then have "state_ok env (st1\<lparr> opcode_pos := opcode_pos st1 + 1 \<rparr>)" "sizes_ok (st1\<lparr> opcode_pos := opcode_pos st1 + 1 \<rparr>)"
        using eval_step_safe [OF "1.prems", of opcode vch pc'] by (simp_all add: safe_def state_ok_def sizes_ok_def)
      then show ?thesis
        using "1.IH" [OF pc Some r [symmetric] refl, of st1] Inr eq "1.prems" by (auto simp: eval_loop.simps [of env "[]"])
    qed
  qed
qed

lemma EvalScript_safe:
  assumes "checker_ok checker sigversion" "sigversion \<noteq> TAPROOT"
    and "exec_ok sigversion (execdata\<lparr> m_codeseparator_pos_init := True \<rparr>)"
    and "elems_ok s"
  shows "case EvalScript s script flags checker sigversion execdata of
           Inr (s', execdata') \<Rightarrow> elems_ok s' \<and> exec_ok sigversion execdata' \<and> (length s \<le> MAX_STACK_SIZE \<longrightarrow> length s' \<le> MAX_STACK_SIZE)
         | Inl e \<Rightarrow> \<exists>err. e = Fail err"
proof -
  let ?env = "\<lparr> env_flags = flags, env_checker = checker, env_sigversion = sigversion \<rparr>"
  let ?st = "eval_start s script execdata"
  have ok: "state_ok ?env ?st" using assms(3,4) by (simp add: state_ok_def eval_start_def exec_ok_def MAX_OPS_PER_SCRIPT_def)
  have safe: "safe ?env (eval_loop ?env script ?st)"
    and size: "\<And>st'. eval_loop ?env script ?st = Inr st' \<Longrightarrow> script = [] \<or> sizes_ok st'"
    using eval_loop_safe [OF ok, of script] assms(1,2) by simp_all
  show ?thesis
  proof (cases "eval_loop ?env script ?st")
    case (Inl e)
    then show ?thesis using safe assms(2) by (cases e) (simp_all add: EvalScript_def safe_def)
  next
    case (Inr st)
    then have "length s \<le> MAX_STACK_SIZE \<longrightarrow> length (st_stack st) \<le> MAX_STACK_SIZE"
      using size [OF Inr] by (auto simp: sizes_ok_def eval_loop.simps [of ?env "[]"] eval_start_def)
    then show ?thesis using safe Inr assms(2) by (auto simp: EvalScript_def safe_def state_ok_def)
  qed
qed

text \<open>
  C33: Evaluation is type safe. From a stack of at most 1000 elements of at most 520 bytes, for every
  script, flags and signature version of a script, \<open>EvalScript\<close> either fails with a script error
  or succeeds with a stack again within these limits and execution data still initialised; no
  assertion of the interpreter or of the script numbers fails and no exception leaves it. The
  checker is any that does not fail an assertion itself and keeps the execution data initialised.
\<close>

theorem EvalScript_type_safe:
  assumes "checker_ok checker sigversion" "sigversion \<noteq> TAPROOT"
    and "exec_ok sigversion (execdata\<lparr> m_codeseparator_pos_init := True \<rparr>)"
    and "elems_ok s" "length s \<le> MAX_STACK_SIZE"
  shows "case EvalScript s script flags checker sigversion execdata of
           Inr (s', execdata') \<Rightarrow> elems_ok s' \<and> length s' \<le> MAX_STACK_SIZE \<and> exec_ok sigversion execdata'
         | Inl e \<Rightarrow> \<exists>err. e = Fail err"
  using EvalScript_safe [OF assms(1-4), of script flags] assms(5) by (auto split: sum.splits)

text \<open>A checker that refuses everything is one of those, and it is the one the code calls with no transaction.\<close>

lemma BaseSignatureChecker_ok: "checker_ok (BaseSignatureChecker low_s) sigversion"
  by (simp add: checker_ok_def BaseSignatureChecker_def)

theorem EvalScript_type_safe_witness:
  "checker_ok (BaseSignatureChecker (\<lambda>_. True)) BASE \<and> elems_ok [[5], [3]] \<and>
   (case EvalScript [[5], [3]] [OP_ADD, OP_DUP] 0 (BaseSignatureChecker (\<lambda>_. True)) BASE execdata_init of
      Inr (s', execdata') \<Rightarrow> elems_ok s' \<and> length s' \<le> MAX_STACK_SIZE \<and> exec_ok BASE execdata'
    | Inl e \<Rightarrow> \<exists>err. e = Fail err)"
proof -
  have "elems_ok [[5], [3]]" by (simp add: MAX_SCRIPT_ELEMENT_SIZE_def)
  then show ?thesis
    using EvalScript_type_safe [OF BaseSignatureChecker_ok, of BASE execdata_init "[[5], [3]]"]
    by (simp add: exec_ok_def MAX_STACK_SIZE_def BaseSignatureChecker_ok)
qed

end
