(* ===== verification/Multisig.thy ===== *)
theory Multisig
  imports InterpreterSafety
begin

text \<open>
  What \<open>OP_CHECKMULTISIG\<close> of \<open>src/src/script/interpreter.cpp\<close> decides: the loop of the code tries
  each key once, and succeeds exactly when the signatures can be matched with keys in order.
\<close>

section \<open>Matching in order\<close>

definition matches :: "('s \<Rightarrow> 'k \<Rightarrow> bool) \<Rightarrow> 's list \<Rightarrow> 'k list \<Rightarrow> bool" where
  "matches P sigs keys \<longleftrightarrow> (\<exists>ks. subseq ks keys \<and> list_all2 P sigs ks)"

lemma matches_Nil [simp]: "matches P [] keys"
  by (auto simp: matches_def)

lemma matches_short: "length keys < length sigs \<Longrightarrow> \<not> matches P sigs keys"
  by (auto simp: matches_def dest: list_all2_lengthD list_emb_length)

lemma matches_tl: "matches P (s # ss) keys \<Longrightarrow> matches P ss (tl keys)"
proof -
  assume "matches P (s # ss) keys"
  then obtain k ks where "subseq (k # ks) keys" "list_all2 P ss ks" by (auto simp: matches_def list_all2_Cons1)
  then show ?thesis by (cases keys) (auto simp: matches_def dest: subseq_Cons' split: if_splits)
qed

lemma matches_Cons: "matches P (s # ss) (k # keys) \<longleftrightarrow> (if P s k then matches P ss keys else matches P (s # ss) keys)"
proof (cases "P s k")
  case True
  have "matches P (s # ss) (k # keys)" if m: "matches P ss keys"
  proof -
    obtain ks where "subseq ks keys" "list_all2 P ss ks" using m by (auto simp: matches_def)
    then show ?thesis using True unfolding matches_def by (intro exI [of _ "k # ks"]) simp
  qed
  then show ?thesis using True matches_tl [of P s ss "k # keys"] by auto
next
  case False
  then show ?thesis by (auto simp: matches_def list_all2_Cons1 split: if_splits)
qed

section \<open>The loop over signatures and keys\<close>

abbreviation (input) verifies :: "eval_env \<Rightarrow> CScript \<Rightarrow> valtype \<Rightarrow> valtype \<Rightarrow> bool" where
  "verifies env code sig key \<equiv> CheckECDSASignature (env_checker env) sig key code (env_sigversion env) = Inr True"

text \<open>The signatures and keys are encoded as the flags ask and the checker decides each pair.\<close>

definition decided :: "eval_env \<Rightarrow> CScript \<Rightarrow> valtype list \<Rightarrow> valtype list \<Rightarrow> bool" where
  "decided env code sigs keys \<longleftrightarrow>
     (\<forall>sig \<in> set sigs. CheckSignatureEncoding (env_checker env) (env_flags env) sig = Inr ()) \<and>
     (\<forall>key \<in> set keys. CheckPubKeyEncoding (env_flags env) (env_sigversion env) key = Inr ()) \<and>
     (\<forall>sig \<in> set sigs. \<forall>key \<in> set keys. \<exists>b. CheckECDSASignature (env_checker env) sig key code (env_sigversion env) = Inr b)"

lemma stack_at_drop: "drop (nat (i - 1)) s = x # xs \<Longrightarrow> 1 \<le> i \<Longrightarrow> stack_at s i = Inr x \<and> drop (nat i) s = xs"
proof -
  assume d: "drop (nat (i - 1)) s = x # xs" "1 \<le> i"
  then have "nat (i - 1) < length s" by (metis drop_all leI list.distinct(1))
  moreover have "nat i = Suc (nat (i - 1))" using d(2) by simp
  ultimately show ?thesis using d by (auto simp: stack_at_def nth_via_drop) (metis drop_Suc list.sel(3) tl_drop)
qed

lemma multisig_loop_matches:
  assumes "decided env code sigs keys" "1 \<le> isig" "1 \<le> ikey" "length sigs \<le> length keys"
    "drop (nat (isig - 1)) s = sigs @ after_sigs" "drop (nat (ikey - 1)) s = keys @ after_keys"
  shows "multisig_loop env code s isig ikey (int (length sigs)) (int (length keys)) = Inr (matches (verifies env code) sigs keys)"
  using assms
proof (induction keys arbitrary: sigs isig ikey)
  case Nil
  then show ?case by (simp add: multisig_loop.simps)
next
  case (Cons key keys)
  show ?case
  proof (cases sigs)
    case Nil
    then show ?thesis by (simp add: multisig_loop.simps)
  next
    case (Cons sig ss)
    have sig: "stack_at s isig = Inr sig" "drop (nat (isig + 1 - 1)) s = ss @ after_sigs"
      using stack_at_drop [of isig s sig "ss @ after_sigs"] Cons.prems(2,5) Cons by simp_all
    have key: "stack_at s ikey = Inr key" "drop (nat (ikey + 1 - 1)) s = keys @ after_keys"
      using stack_at_drop [of ikey s key "keys @ after_keys"] Cons.prems(3,6) by simp_all
    obtain b where b: "CheckECDSASignature (env_checker env) sig key code (env_sigversion env) = Inr b"
      and enc: "CheckSignatureEncoding (env_checker env) (env_flags env) sig = Inr ()"
        "CheckPubKeyEncoding (env_flags env) (env_sigversion env) key = Inr ()"
      and rest: "decided env code ss keys" "decided env code sigs keys"
      using Cons.prems(1) Cons by (auto simp: decided_def)
    show ?thesis
    proof (cases b)
      case True
      then show ?thesis
        using Cons.IH [OF rest(1) _ _ _ sig(2) key(2)] Cons.prems Cons sig(1) key(1) b enc
        by (simp add: multisig_loop.simps [of env code s isig] matches_Cons)
    next
      case False
      then show ?thesis
        using Cons.IH [OF rest(2) _ _ _ Cons.prems(5) key(2)] Cons.prems Cons sig(1) key(1) b enc
          matches_short [of keys sigs "verifies env code"]
        by (auto simp: multisig_loop.simps [of env code s isig] matches_Cons)
    qed
  qed
qed

section \<open>The opcode\<close>

lemma num_of_serialize: "\<bar>v\<bar> < 2 ^ 31 \<Longrightarrow> num_of env (num_serialize v) = Inr v"
proof -
  assume v: "\<bar>v\<bar> < 2 ^ 31"
  then have "- (2 ^ 63) < v" "v < 2 ^ 63" by auto
  then show ?thesis
    using num_serialize_sound [of v] num_serialize_short [of v 4] v
    by (simp add: num_of_def num_sized_def CScriptNum_def nDefaultMaxNumSize_def)
qed

lemma pops_keys: "multisig_pops env b (length xs + j) (int (length xs)) (xs @ ys) = multisig_pops env b j 0 ys"
  by (induction xs) (simp_all add: popstack_def)

lemma pops_sigs:
  "multisig_pops env b (length sigs) 0 (sigs @ ys) =
     (if \<not> b \<and> flag_set (env_flags env) SCRIPT_VERIFY_NULLFAIL \<and> (\<exists>sig \<in> set sigs. sig \<noteq> [])
      then Inl (Fail SCRIPT_ERR_SIG_NULLFAIL) else Inr ys)"
  by (induction sigs) (auto simp: popstack_def stack_at_def)

lemma multisig_check_value:
  assumes "length sigs \<le> length keys" "s = n # keys @ m # sigs @ dummy # rest"
    and "delete_sigs env sigs codehash = Inr code" "decided env code sigs keys"
  shows "multisig_check env opcode codehash s (int (length keys)) (int (length sigs)) =
    (if \<not> matches (verifies env code) sigs keys \<and> flag_set (env_flags env) SCRIPT_VERIFY_NULLFAIL \<and> (\<exists>sig \<in> set sigs. sig \<noteq> [])
     then Inl (Fail SCRIPT_ERR_SIG_NULLFAIL)
     else multisig_finish env opcode (matches (verifies env code) sigs keys) (dummy # rest))"
proof -
  let ?b = "matches (verifies env code) sigs keys"
  have sigs: "drop (nat (int (length keys) + 3) - 1) s = sigs @ dummy # rest"
  proof -
    have "nat (int (length keys) + 3) - 1 = Suc (Suc (length keys))" by simp
    then show ?thesis by (simp add: assms(2))
  qed
  have loop: "multisig_loop env code s (int (length keys) + 3) 2 (int (length sigs)) (int (length keys)) = Inr ?b"
  proof (rule multisig_loop_matches [OF assms(4)])
    have "nat (int (length keys) + 3 - 1) = nat (int (length keys) + 3) - 1" by simp
    then show "drop (nat (int (length keys) + 3 - 1)) s = sigs @ dummy # rest" using sigs by (simp only:)
    show "drop (nat (2 - 1)) s = keys @ m # sigs @ dummy # rest" by (simp add: assms(2))
  qed (use assms(1) in simp_all)
  have k: "nat (int (length keys) + 3 + int (length sigs) - 1) = length (n # keys @ [m]) + length sigs" by simp
  have i: "int (length keys) + 2 = int (length (n # keys @ [m]))" by simp
  have pops: "multisig_pops env ?b (nat (int (length keys) + 3 + int (length sigs) - 1)) (int (length keys) + 2) s =
      multisig_pops env ?b (length sigs) 0 (sigs @ dummy # rest)"
    using pops_keys [of env ?b "n # keys @ [m]" "length sigs" "sigs @ dummy # rest"] unfolding k i by (simp add: assms(2))
  have "\<not> int (length s) < int (length keys) + 3 + int (length sigs)" by (simp add: assms(2))
  then show ?thesis using sigs loop pops assms(3) by (auto simp: multisig_check_def pops_sigs)
qed

text \<open>
  C34: \<open>OP_CHECKMULTISIG\<close> with m signatures and n keys, m at most n at most 20, pushes true exactly
  when the signatures verify for a subsequence of the keys, taken in order. Its loop tries each key
  once, so this says that the greedy choice loses nothing. The rule on failing non-empty
  signatures, the rule on the dummy element and the verify form follow that outcome. The
  signatures and keys are encoded as the flags ask and the checker decides every pair.
\<close>

theorem CHECKMULTISIG_correct:
  assumes "env_sigversion env \<noteq> TAPSCRIPT"
    and "st_stack st = num_serialize (int (length keys)) # keys @ num_serialize (int (length sigs)) # sigs @ dummy # rest"
    and "length sigs \<le> length keys" "int (length keys) \<le> MAX_PUBKEYS_PER_MULTISIG"
    and "nOpCount st + int (length keys) \<le> MAX_OPS_PER_SCRIPT"
    and "delete_sigs env sigs (pbegincodehash st) = Inr code" "decided env code sigs keys"
  shows "op_checkmultisig env opcode pc st =
    (let fSuccess = (\<exists>ks. subseq ks keys \<and> list_all2 (verifies env code) sigs ks);
         st' = st\<lparr> nOpCount := nOpCount st + int (length keys) \<rparr>
     in if \<not> fSuccess \<and> flag_set (env_flags env) SCRIPT_VERIFY_NULLFAIL \<and> concat sigs \<noteq> []
        then Inl (Fail SCRIPT_ERR_SIG_NULLFAIL)
        else if flag_set (env_flags env) SCRIPT_VERIFY_NULLDUMMY \<and> dummy \<noteq> [] then Inl (Fail SCRIPT_ERR_SIG_NULLDUMMY)
        else if opcode = OP_CHECKMULTISIGVERIFY
        then (if fSuccess then Inr (st'\<lparr> st_stack := rest \<rparr>) else Inl (Fail SCRIPT_ERR_CHECKMULTISIGVERIFY))
        else Inr (st'\<lparr> st_stack := vch_bool fSuccess # rest \<rparr>))"
proof -
  have small: "\<bar>int (length keys)\<bar> < 2 ^ 31" "\<bar>int (length sigs)\<bar> < 2 ^ 31"
    using assms(3,4) by (simp_all add: MAX_PUBKEYS_PER_MULTISIG_def)
  then have nums: "num_of env (num_serialize (int (length keys))) = Inr (int (length keys))"
      "num_of env (num_serialize (int (length sigs))) = Inr (int (length sigs))"
    by (simp_all add: num_of_serialize)
  have get: "getint (int (length keys)) = int (length keys)" "getint (int (length sigs)) = int (length sigs)"
    using small by (simp_all add: getint_def)
  have at: "stack_at (st_stack st) 1 = Inr (num_serialize (int (length keys)))"
      "stack_at (st_stack st) (int (length keys) + 2) = Inr (num_serialize (int (length sigs)))"
    by (simp_all add: assms(2) stack_at_def nat_add_distrib nth_append)
  have "op_checkmultisig env opcode pc st =
      sum_bind (multisig_check env opcode (pbegincodehash st) (st_stack st) (int (length keys)) (int (length sigs)))
        (\<lambda>s. Inr (st\<lparr> st_stack := s, nOpCount := nOpCount st + int (length keys) \<rparr>))"
    using assms(1,3-5) nums get at unfolding op_checkmultisig_def by (simp add: assms(2) Let_def)
  then show ?thesis
    unfolding multisig_check_value [OF assms(3,2,6,7)] matches_def [symmetric]
    by (auto simp: multisig_finish_def Let_def)
qed

abbreviation sample_env :: eval_env where
  "sample_env \<equiv> \<lparr> env_flags = 0, env_checker = (BaseSignatureChecker (\<lambda>_. True))\<lparr> CheckECDSASignature := \<lambda>sig key code v. Inr (sig = key) \<rparr>,
     env_sigversion = WITNESS_V0 \<rparr>"

abbreviation sample_multisig :: eval_state where
  "sample_multisig \<equiv> eval_start [[3], [30], [20], [10], [2], [30], [10], [], [7]] [OP_CHECKMULTISIG] execdata_init"

theorem CHECKMULTISIG_correct_witness:
  "decided sample_env [OP_CHECKMULTISIG] [[30], [10]] [[30], [20], [10]] \<and>
   op_checkmultisig sample_env OP_CHECKMULTISIG [] sample_multisig = Inr (sample_multisig\<lparr> nOpCount := 3, st_stack := [[1], [7]] \<rparr>)"
proof -
  have nums: "num_serialize 3 = [3]" "num_serialize 2 = [2]" by code_simp+
  have dec: "decided sample_env [OP_CHECKMULTISIG] [[30], [10]] [[30], [20], [10]]"
    by (simp add: decided_def CheckSignatureEncoding_def CheckPubKeyEncoding_def flag_set_def)
  have "\<exists>ks. subseq ks [[30], [20], [10]] \<and> list_all2 (verifies sample_env [OP_CHECKMULTISIG]) [[30], [10]] ks"
    by (rule exI [of _ "[[30], [10]]"]) simp
  then show ?thesis
    using CHECKMULTISIG_correct [of sample_env sample_multisig "[[30], [20], [10]]" "[[30], [10]]" "[]" "[[7]]" "[OP_CHECKMULTISIG]"
        OP_CHECKMULTISIG "[]"] dec nums
    by (simp add: eval_start_def MAX_PUBKEYS_PER_MULTISIG_def MAX_OPS_PER_SCRIPT_def Let_def vch_bool_def vchTrue_def del: subseq_Cons2_iff)
qed

end
