(* ===== verification/VerifyScript.thy ===== *)
theory VerifyScript
  imports Sighash Multisig
begin

text \<open>
  Verification of an input, \<open>VerifyScript\<close> of \<open>src/src/script/interpreter.cpp\<close>: witness programs of
  version 0, the Merkle path of version 1 and its scripts, pay-to-script-hash, and the count of
  signature operations of a witness. A witness stack is listed from the bottom, as it is
  serialized; the interpreter's stacks are listed from the top.
\<close>

section \<open>Definitions: witness scripts\<close>

text \<open>The scan for opcodes that make a version 1 script succeed: \<^term>\<open>True\<close> if one is found.\<close>

function op_success_loop :: "CScript \<Rightarrow> eval_stop + bool" where
  "op_success_loop pc =
     (if pc = [] then Inr False
      else case GetScriptOp pc of
        None \<Rightarrow> Inl (Fail SCRIPT_ERR_BAD_OPCODE)
      | Some (opcode, data, pc) \<Rightarrow> if IsOpSuccess opcode then Inr True else op_success_loop pc)"
  by pat_completeness auto
termination by (relation "measure length") (auto dest: GetScriptOp_shrinks)

declare op_success_loop.simps [simp del]

definition run_witness_script :: "valtype list \<Rightarrow> CScript \<Rightarrow> u32 \<Rightarrow> SigVersion \<Rightarrow> signature_checker \<Rightarrow> ScriptExecutionData \<Rightarrow> eval_stop + unit" where
  "run_witness_script s exec_script flags sigversion checker execdata =
     (if (\<exists>elem \<in> set s. length elem > MAX_SCRIPT_ELEMENT_SIZE) then Inl (Fail SCRIPT_ERR_PUSH_SIZE)
      else sum_bind (EvalScript s exec_script flags checker sigversion execdata) (\<lambda>(s, execdata).
        case s of
          [vch] \<Rightarrow> if \<not> CastToBool vch then Inl (Fail SCRIPT_ERR_EVAL_FALSE) else Inr ()
        | _ \<Rightarrow> Inl (Fail SCRIPT_ERR_CLEANSTACK)))"

definition ExecuteWitnessScript :: "valtype list \<Rightarrow> CScript \<Rightarrow> u32 \<Rightarrow> SigVersion \<Rightarrow> signature_checker \<Rightarrow> ScriptExecutionData \<Rightarrow> eval_stop + unit" where
  "ExecuteWitnessScript stack_span exec_script flags sigversion checker execdata =
     (let s = rev stack_span in
      if sigversion = TAPSCRIPT then
        sum_bind (op_success_loop exec_script) (\<lambda>success.
          if success then
            (if flag_set flags SCRIPT_VERIFY_DISCOURAGE_OP_SUCCESS then Inl (Fail SCRIPT_ERR_DISCOURAGE_OP_SUCCESS) else Inr ())
          else if length s > MAX_STACK_SIZE then Inl (Fail SCRIPT_ERR_STACK_SIZE)
          else run_witness_script s exec_script flags sigversion checker execdata)
      else run_witness_script s exec_script flags sigversion checker execdata)"

definition ComputeTapleafHash :: "u8 \<Rightarrow> CScript \<Rightarrow> uint256" where
  "ComputeTapleafHash leaf_version script =
     HashWriter_GetSHA256 (hash_writes HASHER_TAPLEAF [ser_writedata8 leaf_version, ser_bytes script])"

fun lexicographical_compare :: "u8 list \<Rightarrow> u8 list \<Rightarrow> bool" where
  "lexicographical_compare [] b = (b \<noteq> [])"
| "lexicographical_compare a [] = False"
| "lexicographical_compare (x # a) (y # b) = (if x < y then True else if y < x then False else lexicographical_compare a b)"

definition tap_branch :: "uint256 \<Rightarrow> u8 list \<Rightarrow> uint256" where
  "tap_branch k node =
     HashWriter_GetSHA256 (hash_writes HASHER_TAPBRANCH (if lexicographical_compare k node then [k, node] else [node, k]))"

fun taproot_path :: "nat \<Rightarrow> u8 list \<Rightarrow> uint256 \<Rightarrow> uint256" where
  "taproot_path 0 nodes k = k"
| "taproot_path (Suc path_len) nodes k =
     taproot_path path_len (drop TAPROOT_CONTROL_NODE_SIZE nodes) (tap_branch k (take TAPROOT_CONTROL_NODE_SIZE nodes))"

definition ComputeTaprootMerkleRoot :: "u8 list \<Rightarrow> uint256 \<Rightarrow> fault + uint256" where
  "ComputeTaprootMerkleRoot control tapleaf_hash =
     (if \<not> length control \<ge> TAPROOT_CONTROL_BASE_SIZE then Inl AssertFailed
      else if \<not> length control \<le> TAPROOT_CONTROL_MAX_SIZE then Inl AssertFailed
      else if (length control - TAPROOT_CONTROL_BASE_SIZE) mod TAPROOT_CONTROL_NODE_SIZE \<noteq> 0 then Inl AssertFailed
      else Inr (taproot_path ((length control - TAPROOT_CONTROL_BASE_SIZE) div TAPROOT_CONTROL_NODE_SIZE)
                  (drop TAPROOT_CONTROL_BASE_SIZE control) tapleaf_hash))"

definition VerifyTaprootCommitment :: "curve_ops \<Rightarrow> valtype \<Rightarrow> valtype \<Rightarrow> uint256 \<Rightarrow> fault + bool" where
  "VerifyTaprootCommitment ec control program tapleaf_hash =
     (if \<not> length control \<ge> TAPROOT_CONTROL_BASE_SIZE then Inl AssertFailed
      else if \<not> length program \<ge> 32 then Inl AssertFailed
      else let p = take (TAPROOT_CONTROL_BASE_SIZE - 1) (drop 1 control); q = program in
        sum_bind (ComputeTaprootMerkleRoot control tapleaf_hash) (\<lambda>merkle_root.
          Inr (xonly_CheckTapTweak ec q p merkle_root (control ! 0 AND 1 \<noteq> 0))))"

section \<open>Definitions: witness programs\<close>

definition witness_v0 :: "valtype list \<Rightarrow> valtype \<Rightarrow> u32 \<Rightarrow> signature_checker \<Rightarrow> eval_stop + unit" where
  "witness_v0 stack program flags checker =
     (if length program = WITNESS_V0_SCRIPTHASH_SIZE then
        (if length stack = 0 then Inl (Fail SCRIPT_ERR_WITNESS_PROGRAM_WITNESS_EMPTY)
         else let exec_script = last stack; stack = butlast stack in
           if CSHA256_Finalize (CSHA256_Write CSHA256 exec_script) \<noteq> program
           then Inl (Fail SCRIPT_ERR_WITNESS_PROGRAM_MISMATCH)
           else ExecuteWitnessScript stack exec_script flags WITNESS_V0 checker execdata_init)
      else if length program = WITNESS_V0_KEYHASH_SIZE then
        (if length stack \<noteq> 2 then Inl (Fail SCRIPT_ERR_WITNESS_PROGRAM_MISMATCH)
         else ExecuteWitnessScript stack
           (push_opcode (push_opcode (push_data (push_opcode (push_opcode [] OP_DUP) OP_HASH160) program) OP_EQUALVERIFY) OP_CHECKSIG)
           flags WITNESS_V0 checker execdata_init)
      else Inl (Fail SCRIPT_ERR_WITNESS_PROGRAM_WRONG_LENGTH))"

definition pop_annex :: "valtype list \<Rightarrow> valtype list \<times> ScriptExecutionData" where
  "pop_annex stack =
     (if length stack \<ge> 2 \<and> last stack \<noteq> [] \<and> last stack ! 0 = ANNEX_TAG
      then (butlast stack, execdata_init\<lparr> m_annex_hash := HashWriter_GetSHA256 (hash_writes CSHA256 [ser_bytes (last stack)]),
              m_annex_present := True, m_annex_init := True \<rparr>)
      else (stack, execdata_init\<lparr> m_annex_present := False, m_annex_init := True \<rparr>))"

definition script_path :: "curve_ops \<Rightarrow> valtype list \<Rightarrow> valtype list \<Rightarrow> ScriptExecutionData \<Rightarrow> valtype \<Rightarrow> u32 \<Rightarrow> signature_checker
    \<Rightarrow> eval_stop + unit" where
  "script_path ec witness stack execdata program flags checker =
     (let control = last stack; stack = butlast stack; exec_script = last stack; stack = butlast stack in
      if length control < TAPROOT_CONTROL_BASE_SIZE \<or> length control > TAPROOT_CONTROL_MAX_SIZE
         \<or> (length control - TAPROOT_CONTROL_BASE_SIZE) mod TAPROOT_CONTROL_NODE_SIZE \<noteq> 0
      then Inl (Fail SCRIPT_ERR_TAPROOT_WRONG_CONTROL_SIZE)
      else let leaf_version = control ! 0 AND TAPROOT_LEAF_MASK;
               execdata = execdata\<lparr> m_tapleaf_hash := ComputeTapleafHash leaf_version exec_script \<rparr> in
        sum_bind (lift_fault (VerifyTaprootCommitment ec control program (m_tapleaf_hash execdata))) (\<lambda>ok.
          if \<not> ok then Inl (Fail SCRIPT_ERR_WITNESS_PROGRAM_MISMATCH)
          else let execdata = execdata\<lparr> m_tapleaf_hash_init := True \<rparr> in
            if leaf_version = TAPROOT_LEAF_TAPSCRIPT then
              ExecuteWitnessScript stack exec_script flags TAPSCRIPT checker
                (execdata\<lparr> m_validation_weight_left := int (length (ser_stack witness)) + VALIDATION_WEIGHT_OFFSET,
                           m_validation_weight_left_init := True \<rparr>)
            else if flag_set flags SCRIPT_VERIFY_DISCOURAGE_UPGRADABLE_TAPROOT_VERSION
            then Inl (Fail SCRIPT_ERR_DISCOURAGE_UPGRADABLE_TAPROOT_VERSION)
            else Inr ()))"

definition witness_v1 :: "curve_ops \<Rightarrow> valtype list \<Rightarrow> valtype \<Rightarrow> u32 \<Rightarrow> signature_checker \<Rightarrow> eval_stop + unit" where
  "witness_v1 ec witness program flags checker =
     (if \<not> flag_set flags SCRIPT_VERIFY_TAPROOT then Inr ()
      else if length witness = 0 then Inl (Fail SCRIPT_ERR_WITNESS_PROGRAM_WITNESS_EMPTY)
      else let (stack, execdata) = pop_annex witness in
        if length stack = 1 then
          sum_bind (CheckSchnorrSignature checker (hd stack) program TAPROOT execdata) (\<lambda>_. Inr ())
        else script_path ec witness stack execdata program flags checker)"

definition VerifyWitnessProgram :: "curve_ops \<Rightarrow> valtype list \<Rightarrow> int \<Rightarrow> valtype \<Rightarrow> u32 \<Rightarrow> signature_checker \<Rightarrow> bool \<Rightarrow> eval_stop + unit" where
  "VerifyWitnessProgram ec witness witversion program flags checker is_p2sh =
     (if witversion = 0 then witness_v0 witness program flags checker
      else if witversion = 1 \<and> length program = WITNESS_V1_TAPROOT_SIZE \<and> \<not> is_p2sh
      then witness_v1 ec witness program flags checker
      else if flag_set flags SCRIPT_VERIFY_DISCOURAGE_UPGRADABLE_WITNESS_PROGRAM
      then Inl (Fail SCRIPT_ERR_DISCOURAGE_UPGRADABLE_WITNESS_PROGRAM)
      else Inr ())"

section \<open>Definitions: an input\<close>

definition eval_true :: "valtype list \<Rightarrow> CScript \<Rightarrow> u32 \<Rightarrow> signature_checker \<Rightarrow> eval_stop + valtype list" where
  "eval_true s script flags checker =
     sum_bind (EvalScript s script flags checker BASE execdata_init) (\<lambda>(s, execdata).
       case s of [] \<Rightarrow> Inl (Fail SCRIPT_ERR_EVAL_FALSE)
       | vch # _ \<Rightarrow> if \<not> CastToBool vch then Inl (Fail SCRIPT_ERR_EVAL_FALSE) else Inr s)"

definition resize_1 :: "valtype list \<Rightarrow> valtype list" where
  "resize_1 s = (if s = [] then [[]] else [last s])"

text \<open>
  The witness of a program, native or behind pay-to-script-hash: whether there was one and the
  stack it leaves. The script signature has to be the one the kind of program asks for.
\<close>

definition verify_program :: "curve_ops \<Rightarrow> CScript \<Rightarrow> CScript \<Rightarrow> CScript \<Rightarrow> ScriptError \<Rightarrow> bool \<Rightarrow> valtype list \<Rightarrow> u32 \<Rightarrow> signature_checker
    \<Rightarrow> valtype list \<Rightarrow> eval_stop + bool \<times> valtype list" where
  "verify_program ec script sig expected malleated is_p2sh witness flags checker s =
     (if flag_set flags SCRIPT_VERIFY_WITNESS then
        sum_bind (lift_fault (IsWitnessProgram script)) (\<lambda>r.
          case r of None \<Rightarrow> Inr (False, s)
          | Some (witnessversion, witnessprogram) \<Rightarrow>
              if sig \<noteq> expected then Inl (Fail malleated)
              else sum_bind (VerifyWitnessProgram ec witness witnessversion witnessprogram flags checker is_p2sh) (\<lambda>_.
                Inr (True, resize_1 s)))
      else Inr (False, s))"

definition verify_p2sh :: "curve_ops \<Rightarrow> CScript \<Rightarrow> valtype list \<Rightarrow> u32 \<Rightarrow> signature_checker \<Rightarrow> valtype list \<Rightarrow> eval_stop + bool \<times> valtype list" where
  "verify_p2sh ec sig witness flags checker stackCopy =
     (if \<not> IsPushOnly sig then Inl (Fail SCRIPT_ERR_SIG_PUSHONLY)
      else case stackCopy of
        [] \<Rightarrow> Inl (Abort AssertFailed)
      | pubKey2 # s \<Rightarrow>
          sum_bind (eval_true s pubKey2 flags checker) (\<lambda>s.
            verify_program ec pubKey2 sig (push_data [] pubKey2) SCRIPT_ERR_WITNESS_MALLEATED_P2SH True witness flags checker s))"

definition verify_finish :: "valtype list \<Rightarrow> u32 \<Rightarrow> bool \<Rightarrow> valtype list \<Rightarrow> eval_stop + unit" where
  "verify_finish witness flags hadWitness s =
     sum_bind (if flag_set flags SCRIPT_VERIFY_CLEANSTACK then
                 (if \<not> flag_set flags SCRIPT_VERIFY_P2SH then Inl (Abort AssertFailed)
                  else if \<not> flag_set flags SCRIPT_VERIFY_WITNESS then Inl (Abort AssertFailed)
                  else if length s \<noteq> 1 then Inl (Fail SCRIPT_ERR_CLEANSTACK)
                  else Inr ()) else Inr ()) (\<lambda>_.
       if flag_set flags SCRIPT_VERIFY_WITNESS then
         (if \<not> flag_set flags SCRIPT_VERIFY_P2SH then Inl (Abort AssertFailed)
          else if \<not> hadWitness \<and> witness \<noteq> [] then Inl (Fail SCRIPT_ERR_WITNESS_UNEXPECTED)
          else Inr ())
       else Inr ())"

definition VerifyScript :: "curve_ops \<Rightarrow> CScript \<Rightarrow> CScript \<Rightarrow> valtype list option \<Rightarrow> u32 \<Rightarrow> signature_checker \<Rightarrow> eval_stop + unit" where
  "VerifyScript ec sig pubkey_script witness_ptr flags checker =
     (let witness = (case witness_ptr of None \<Rightarrow> [] | Some w \<Rightarrow> w) in
      if flag_set flags SCRIPT_VERIFY_SIGPUSHONLY \<and> \<not> IsPushOnly sig then Inl (Fail SCRIPT_ERR_SIG_PUSHONLY)
      else sum_bind (EvalScript [] sig flags checker BASE execdata_init) (\<lambda>(s, _).
        let stackCopy = (if flag_set flags SCRIPT_VERIFY_P2SH then s else []) in
        sum_bind (eval_true s pubkey_script flags checker) (\<lambda>s.
        sum_bind (verify_program ec pubkey_script sig [] SCRIPT_ERR_WITNESS_MALLEATED False witness flags checker s) (\<lambda>(hadWitness, s).
        sum_bind (if flag_set flags SCRIPT_VERIFY_P2SH \<and> IsPayToScriptHash pubkey_script
                  then sum_bind (verify_p2sh ec sig witness flags checker stackCopy) (\<lambda>(had, s). Inr (hadWitness \<or> had, s))
                  else Inr (hadWitness, s)) (\<lambda>(hadWitness, s).
          verify_finish witness flags hadWitness s)))))"

section \<open>Definitions: signature operations of a witness\<close>

definition WitnessSigOps :: "int \<Rightarrow> valtype \<Rightarrow> valtype list \<Rightarrow> fault + nat" where
  "WitnessSigOps witversion witprogram witness =
     (if witversion = 0 \<and> length witprogram = WITNESS_V0_KEYHASH_SIZE then Inr 1
      else if witversion = 0 \<and> length witprogram = WITNESS_V0_SCRIPTHASH_SIZE \<and> length witness > 0
      then sum_bind (GetSigOpCount (last witness) True) (\<lambda>n. Inr (unat n))
      else Inr 0)"

lemma op_stop_shrinks: "pc \<noteq> [] \<Longrightarrow> length (op_stop pc) < length pc"
  by (auto simp: op_stop_def split: list.splits option.splits dest!: push_size_shrinks)

function last_data :: "valtype \<Rightarrow> CScript \<Rightarrow> valtype" where
  "last_data data pc =
     (if pc = [] then data
      else case GetScriptOp pc of None \<Rightarrow> last_data [] (op_stop pc) | Some (opcode, data, pc) \<Rightarrow> last_data data pc)"
  by pat_completeness auto
termination by (relation "measure (\<lambda>(d, pc). length pc)") (auto dest: GetScriptOp_shrinks simp: op_stop_shrinks)

declare last_data.simps [simp del]

definition CountWitnessSigOps :: "CScript \<Rightarrow> CScript \<Rightarrow> valtype list option \<Rightarrow> u32 \<Rightarrow> fault + nat" where
  "CountWitnessSigOps sig pubkey_script witness_ptr flags =
     (let witness = (case witness_ptr of None \<Rightarrow> [] | Some w \<Rightarrow> w) in
      if \<not> flag_set flags SCRIPT_VERIFY_WITNESS then Inr 0
      else if \<not> flag_set flags SCRIPT_VERIFY_P2SH then Inl AssertFailed
      else sum_bind (IsWitnessProgram pubkey_script) (\<lambda>r.
        case r of Some (witnessversion, witnessprogram) \<Rightarrow> WitnessSigOps witnessversion witnessprogram witness
        | None \<Rightarrow>
            if IsPayToScriptHash pubkey_script \<and> IsPushOnly sig then
              sum_bind (IsWitnessProgram (last_data [] sig)) (\<lambda>r.
                case r of Some (witnessversion, witnessprogram) \<Rightarrow> WitnessSigOps witnessversion witnessprogram witness
                | None \<Rightarrow> Inr 0)
            else Inr 0))"

section \<open>The checker of a transaction never aborts\<close>

text \<open>Data that lets a checker decide every signature: for witness version 1 the precomputed hashes have to be there.\<close>

definition checker_ready :: "GenericTransactionSignatureChecker \<Rightarrow> SigVersion \<Rightarrow> bool" where
  "checker_ready c sigversion \<longleftrightarrow> checker_nIn c < length (vin (checker_txTo c)) \<and> 0 \<le> checker_amount c \<and>
     (sigversion = TAPROOT \<or> sigversion = TAPSCRIPT \<longrightarrow>
       (\<exists>d. checker_txdata c = Some d \<and> m_bip341_taproot_ready d \<and> m_spent_outputs_ready d))"

lemma ECDSA_decides:
  assumes "checker_ready c sigversion"
  shows "\<exists>b. tx_CheckECDSASignature ec c sig pubkey code sigversion = Inr b"
  using assms by (auto simp: tx_CheckECDSASignature_def checker_ready_def SignatureHash_def lift_fault_def Let_def)

lemma schnorr_hash_ok:
  assumes "checker_ready c sigversion" "sigversion = TAPROOT \<or> sigversion = TAPSCRIPT" "exec_ok sigversion ed" "checker_txdata c = Some d"
  shows "\<exists>r. SignatureHashSchnorr ed (checker_txTo c) (checker_nIn c) hashtype sigversion d mdb = Inr r \<and>
    (\<forall>h ed'. r = Some (h, ed') \<longrightarrow> exec_ok sigversion ed')"
proof -
  have single: "exec_ok sigversion (single_output tx n ed) \<and> m_tapleaf_hash_init (single_output tx n ed) = m_tapleaf_hash_init ed \<and>
      m_codeseparator_pos_init (single_output tx n ed) = m_codeseparator_pos_init ed" for tx n
    using assms(3) by (auto simp: single_output_def exec_ok_def split: option.split)
  show ?thesis
    using assms single by (auto simp: SignatureHashSchnorr_def checker_ready_def schnorr_tail_def exec_ok_def Let_def)
qed

lemma schnorr_decides:
  assumes "checker_ready c sigversion" "sigversion = TAPROOT \<or> sigversion = TAPSCRIPT" "exec_ok sigversion ed" "length pubkey = 32"
  shows "case tx_CheckSchnorrSignature ec c sig pubkey sigversion ed of Inl e \<Rightarrow> \<exists>err. e = Fail err | Inr ed' \<Rightarrow> exec_ok sigversion ed'"
proof -
  obtain d where d: "checker_txdata c = Some d" using assms(1,2) by (auto simp: checker_ready_def)
  obtain r where r: "SignatureHashSchnorr ed (checker_txTo c) (checker_nIn c) (if length sig = 65 then last sig else of_int SIGHASH_DEFAULT)
      sigversion d (m_mdb c) = Inr r" "\<And>h ed'. r = Some (h, ed') \<Longrightarrow> exec_ok sigversion ed'"
    using schnorr_hash_ok [OF assms(1-3) d] by blast
  show ?thesis
    using assms(2,4) d r by (auto simp: tx_CheckSchnorrSignature_def lift_fault_def split: option.split sum.split prod.splits if_splits)
qed

lemma tx_checker_ok:
  assumes "checker_ready c sigversion"
  shows "checker_ok (TransactionSignatureChecker ec c) sigversion"
proof -
  have "no_abort (tx_CheckECDSASignature ec c sig pubkey code sigversion)" for sig pubkey code
    using ECDSA_decides [OF assms, of ec sig pubkey code] by auto
  moreover have "no_abort (tx_CheckSchnorrSignature ec c sig pubkey sigversion ed) \<and>
      (\<forall>ed'. tx_CheckSchnorrSignature ec c sig pubkey sigversion ed = Inr ed' \<longrightarrow> exec_ok sigversion ed')"
    if "sigversion = TAPROOT \<or> sigversion = TAPSCRIPT" "exec_ok sigversion ed" "length pubkey = 32" for sig pubkey ed
    using schnorr_decides [OF assms that, of ec sig] by (auto split: sum.splits)
  ultimately show ?thesis unfolding checker_ok_def TransactionSignatureChecker_def by simp blast
qed

section \<open>An input is accepted or refused\<close>

definition decides :: "eval_stop + 'a \<Rightarrow> bool" where
  "decides r \<longleftrightarrow> (case r of Inl e \<Rightarrow> \<exists>err. e = Fail err | Inr x \<Rightarrow> True)"

lemma decides_simps [simp]: "decides (Inr x)" "decides (Inl (Fail e))"
  by (simp_all add: decides_def)

lemma decides_bind: "decides m \<Longrightarrow> (\<And>x. m = Inr x \<Longrightarrow> decides (f x)) \<Longrightarrow> decides (sum_bind m f)"
  by (cases m) (auto simp: decides_def)

lemma EvalScript_decides:
  assumes "checker_ok checker sigversion" "sigversion \<noteq> TAPROOT" "exec_ok sigversion (ed\<lparr> m_codeseparator_pos_init := True \<rparr>)" "elems_ok s"
  shows "decides (EvalScript s script flags checker sigversion ed)"
    and "EvalScript s script flags checker sigversion ed = Inr (s', ed') \<Longrightarrow> elems_ok s'"
  using EvalScript_safe [OF assms, of script flags] by (auto simp: decides_def split: sum.splits)

lemma run_witness_decides:
  assumes "checker_ok checker sigversion" "sigversion \<noteq> TAPROOT" "exec_ok sigversion (ed\<lparr> m_codeseparator_pos_init := True \<rparr>)"
  shows "decides (run_witness_script s script flags sigversion checker ed)"
proof (cases "elems_ok s")
  case True
  then show ?thesis unfolding run_witness_script_def
    using EvalScript_decides(1) [OF assms True] by (auto intro!: decides_bind split: list.split)
qed (auto simp: run_witness_script_def elems_ok_def not_le)

lemma op_success_decides: "decides (op_success_loop pc)"
proof (induction pc rule: op_success_loop.induct)
  case (1 pc)
  then show ?case by (subst op_success_loop.simps) (auto split: option.split)
qed

lemma ExecuteWitnessScript_decides:
  assumes "checker_ok checker sigversion" "sigversion \<noteq> TAPROOT" "exec_ok sigversion (ed\<lparr> m_codeseparator_pos_init := True \<rparr>)"
  shows "decides (ExecuteWitnessScript stack script flags sigversion checker ed)"
  unfolding ExecuteWitnessScript_def Let_def
  using run_witness_decides [OF assms] by (auto intro!: decides_bind op_success_decides)

lemma witness_v0_decides:
  assumes "checker_ok checker WITNESS_V0"
  shows "decides (witness_v0 stack program flags checker)"
proof -
  have "exec_ok WITNESS_V0 (execdata_init\<lparr> m_codeseparator_pos_init := True \<rparr>)" by (simp add: exec_ok_def)
  then have "decides (ExecuteWitnessScript stack script flags WITNESS_V0 checker execdata_init)" for stack script
    using assms by (intro ExecuteWitnessScript_decides) simp_all
  then show ?thesis by (simp add: witness_v0_def Let_def)
qed

lemma commitment_total:
  "\<not> (length control < TAPROOT_CONTROL_BASE_SIZE \<or> length control > TAPROOT_CONTROL_MAX_SIZE
      \<or> (length control - TAPROOT_CONTROL_BASE_SIZE) mod TAPROOT_CONTROL_NODE_SIZE \<noteq> 0) \<Longrightarrow> length program = 32
   \<Longrightarrow> \<exists>b. VerifyTaprootCommitment ec control program h = Inr b"
  by (auto simp: VerifyTaprootCommitment_def ComputeTaprootMerkleRoot_def Let_def)

lemma script_path_decides:
  assumes "checker_ok checker TAPSCRIPT" "length program = 32" "m_annex_init ed"
  shows "decides (script_path ec witness stack ed program flags checker)"
proof -
  have lift: "decides (lift_fault r)" if "\<exists>x. r = Inr x" for r :: "fault + bool" using that by (auto simp: lift_fault_def)
  have ex: "decides (ExecuteWitnessScript stack script flags TAPSCRIPT checker
      (ed\<lparr> m_tapleaf_hash := h, m_tapleaf_hash_init := True, m_validation_weight_left := k, m_validation_weight_left_init := True \<rparr>))"
    for stack script h k
    using assms by (intro ExecuteWitnessScript_decides) (simp_all add: exec_ok_def)
  show ?thesis unfolding script_path_def Let_def
    using commitment_total [OF _ assms(2)] ex by (auto intro!: decides_bind lift)
qed

lemma pop_annex_init: "m_annex_init (snd (pop_annex witness))"
  by (simp add: pop_annex_def)

lemma witness_v1_decides:
  assumes "\<And>sig ed. m_annex_init ed \<Longrightarrow> decides (CheckSchnorrSignature checker sig program TAPROOT ed)"
    and "checker_ok checker TAPSCRIPT" "length program = 32"
  shows "decides (witness_v1 ec witness program flags checker)"
proof -
  obtain stack ed where p: "pop_annex witness = (stack, ed)" by (metis surj_pair)
  then have ed: "m_annex_init ed" using pop_annex_init [of witness] by simp
  show ?thesis
    using assms(1) [OF ed] script_path_decides [OF assms(2,3) ed]
    by (auto simp: witness_v1_def p intro!: decides_bind)
qed

text \<open>The checker of an input, with the data of the whole transaction, as the block validation makes it.\<close>

definition input_checker :: "CTransaction \<Rightarrow> nat \<Rightarrow> CTxOut list \<Rightarrow> PrecomputedTransactionData \<Rightarrow> GenericTransactionSignatureChecker" where
  "input_checker tx n outs d =
     \<lparr> checker_txTo = tx, m_mdb = ASSERT_FAIL, checker_nIn = n, checker_amount = nValue (outs ! n), checker_txdata = Some d \<rparr>"

definition taproot_output :: "bool \<Rightarrow> CTxOut list \<Rightarrow> nat \<Rightarrow> bool" where
  "taproot_output ready outs i \<longleftrightarrow>
     ready \<and> length (scriptPubKey (outs ! i)) = 2 + WITNESS_V1_TAPROOT_SIZE \<and> scriptPubKey (outs ! i) ! 0 = OP_1"

lemma uses_loop_value:
  "uses_loop ins ready outs k a b =
     (a \<or> (\<exists>i < length ins. scriptWitness (ins ! i) \<noteq> [] \<and> \<not> taproot_output ready outs (k + i)),
      b \<or> (\<exists>i < length ins. scriptWitness (ins ! i) \<noteq> [] \<and> taproot_output ready outs (k + i)))"
proof (induction ins arbitrary: k a b)
  case (Cons txin ins)
  have step: "uses_loop (txin # ins) ready outs k a b =
      (if a \<and> b then (True, True)
       else uses_loop ins ready outs (k + 1) (a \<or> scriptWitness txin \<noteq> [] \<and> \<not> taproot_output ready outs k)
              (b \<or> scriptWitness txin \<noteq> [] \<and> taproot_output ready outs k))"
    by (cases ins) (auto simp: taproot_output_def Let_def)
  show ?case unfolding step Cons.IH by (auto simp: Ex_less_Suc2)
qed simp

lemma input_ready:
  assumes "txdata_Init txdata_init tx outs force = Inr d" "outs \<noteq> []" "n < length (vin tx)" "0 \<le> nValue (outs ! n)"
  shows "checker_ready (input_checker tx n outs d) BASE" "checker_ready (input_checker tx n outs d) WITNESS_V0"
    and "scriptWitness (vin tx ! n) \<noteq> [] \<Longrightarrow> taproot_output True outs n \<Longrightarrow> checker_ready (input_checker tx n outs d) v"
proof -
  show "checker_ready (input_checker tx n outs d) BASE" "checker_ready (input_checker tx n outs d) WITNESS_V0"
    using assms(3,4) by (simp_all add: checker_ready_def input_checker_def)
  assume w: "scriptWitness (vin tx ! n) \<noteq> []" "taproot_output True outs n"
  then have "snd (uses_loop (vin tx) True outs 0 force force)" using assms(3) by (auto simp: uses_loop_value)
  then have "m_bip341_taproot_ready d \<and> m_spent_outputs_ready d"
    using assms(1,2) by (auto simp: txdata_Init_def txdata_init_def Let_def split: prod.splits if_splits)
  then show "checker_ready (input_checker tx n outs d) v" using assms(3,4) by (simp add: checker_ready_def input_checker_def)
qed

lemma witness_program_shape:
  "IsWitnessProgram script = Inr (Some (1, program)) \<Longrightarrow> length program = 32 \<Longrightarrow> length script = 34 \<and> script ! 0 = OP_1"
proof -
  assume p: "IsWitnessProgram script = Inr (Some (1, program))" "length program = 32"
  then have v: "DecodeOP_N (script ! 0) = Inr 1" "program = drop 2 script" "4 \<le> length script"
    by (auto simp: IsWitnessProgram_def sum_bind_Inr_iff split: if_splits)
  then have "uint (script ! 0) = 81" by (auto simp: DecodeOP_N_def split: if_splits)
  then have "script ! 0 = OP_1" by (metis word_of_int_uint of_int_numeral)
  then show ?thesis using v p(2) by simp
qed

text \<open>
  What verification relies on: the checker decides pre-tapscript signatures, and Schnorr signatures
  where the output is of witness version 1 and has a witness.
\<close>

definition verify_ok :: "signature_checker \<Rightarrow> CScript \<Rightarrow> valtype list \<Rightarrow> bool" where
  "verify_ok checker script witness \<longleftrightarrow> checker_ok checker BASE \<and> checker_ok checker WITNESS_V0 \<and>
     (length script = 34 \<and> script ! 0 = OP_1 \<and> witness \<noteq> [] \<longrightarrow> checker_ok checker TAPSCRIPT \<and>
       (\<forall>sig program ed. length program = 32 \<and> m_annex_init ed \<longrightarrow> decides (CheckSchnorrSignature checker sig program TAPROOT ed)))"

lemma VerifyWitnessProgram_decides:
  assumes "checker_ok checker WITNESS_V0"
    and "witversion = 1 \<Longrightarrow> length program = 32 \<Longrightarrow> \<not> is_p2sh \<Longrightarrow> verify_ok checker script witness \<and> length script = 34 \<and> script ! 0 = OP_1"
  shows "decides (VerifyWitnessProgram ec witness witversion program flags checker is_p2sh)"
proof (cases "witversion = 1 \<and> length program = 32 \<and> \<not> is_p2sh")
  case True
  show ?thesis
  proof (cases "witness = []")
    case True
    with \<open>witversion = 1 \<and> length program = 32 \<and> \<not> is_p2sh\<close> show ?thesis
      by (simp add: VerifyWitnessProgram_def WITNESS_V1_TAPROOT_SIZE_def witness_v1_def)
  next
    case False
    then have "decides (witness_v1 ec witness program flags checker)"
      using assms(2) True by (intro witness_v1_decides) (auto simp: verify_ok_def)
    then show ?thesis using True by (simp add: VerifyWitnessProgram_def WITNESS_V1_TAPROOT_SIZE_def)
  qed
next
  case False
  then show ?thesis using witness_v0_decides [OF assms(1), of witness program flags]
    by (auto simp: VerifyWitnessProgram_def WITNESS_V1_TAPROOT_SIZE_def)
qed

lemma IsWitnessProgram_total: "\<exists>r. IsWitnessProgram script = Inr r"
  by (auto simp: IsWitnessProgram_def DecodeOP_N_def not_less)

lemma verify_program_decides:
  assumes "verify_ok checker script witness \<or> is_p2sh \<and> checker_ok checker WITNESS_V0"
  shows "decides (verify_program ec script sig expected e is_p2sh witness flags checker s)"
proof -
  obtain r where r: "IsWitnessProgram script = Inr r" using IsWitnessProgram_total by blast
  have "decides (VerifyWitnessProgram ec witness v program flags checker is_p2sh)" if "r = Some (v, program)" for v program
    using assms that r witness_program_shape [of script program]
    by (intro VerifyWitnessProgram_decides [where script = script]) (auto simp: verify_ok_def)
  then show ?thesis using r
    by (auto simp: verify_program_def lift_fault_def intro!: decides_bind split: option.split)
qed

lemma eval_true_decides:
  assumes "checker_ok checker BASE" "elems_ok s"
  shows "decides (eval_true s script flags checker)" "eval_true s script flags checker = Inr s' \<Longrightarrow> elems_ok s'"
proof -
  have e: "exec_ok BASE (execdata_init\<lparr> m_codeseparator_pos_init := True \<rparr>)" by (simp add: exec_ok_def)
  note ev = EvalScript_decides [OF assms(1) _ e assms(2)]
  show "decides (eval_true s script flags checker)" unfolding eval_true_def
    using ev(1) by (auto intro!: decides_bind split: list.split)
  assume r: "eval_true s script flags checker = Inr s'"
  obtain t ed where t: "EvalScript s script flags checker BASE execdata_init = Inr (t, ed)"
    using r by (cases "EvalScript s script flags checker BASE execdata_init") (auto simp: eval_true_def)
  then have "t = s'" using r by (cases t) (auto simp: eval_true_def split: if_splits)
  then show "elems_ok s'" using ev(2) t by simp
qed

text \<open>A script of the pay-to-script-hash form fails on an empty stack, so the assertion on the copy of the stack holds.\<close>

lemma p2sh_needs_element:
  assumes "IsPayToScriptHash script"
  shows "EvalScript [] script flags checker BASE ed = Inl (Fail SCRIPT_ERR_INVALID_STACK_OPERATION)"
proof -
  from assms obtain pc where s: "script = OP_HASH160 # pc" "length script = 23"
    by (cases script) (auto simp: IsPayToScriptHash_def)
  have g: "GetScriptOp script = Some (OP_HASH160, [], pc)" using s by (simp add: GetScriptOp_def)
  let ?env = "\<lparr> env_flags = flags, env_checker = checker, env_sigversion = BASE \<rparr>"
  have "switch_op op_table ?env OP_HASH160 pc st = op_hash_top ?env OP_HASH160 pc st" for st
    by (simp add: op_table_def)
  then have "eval_step ?env OP_HASH160 [] pc (eval_start [] script ed) = Inl (Fail SCRIPT_ERR_INVALID_STACK_OPERATION)"
    by (simp add: eval_step_def eval_op_def eval_start_def is_disabled_def Let_def all_true_def cs_init_def MAX_OPS_PER_SCRIPT_def
        op_hash_top_def)
  then have "eval_loop ?env script (eval_start [] script ed) = Inl (Fail SCRIPT_ERR_INVALID_STACK_OPERATION)"
    using s g by (subst eval_loop.simps) simp
  then show ?thesis using s by (simp add: EvalScript_def MAX_SCRIPT_SIZE_def)
qed

lemma verify_p2sh_decides:
  assumes "checker_ok checker BASE" "checker_ok checker WITNESS_V0" "elems_ok stackCopy" "stackCopy \<noteq> []"
  shows "decides (verify_p2sh ec sig witness flags checker stackCopy)"
proof -
  obtain pubKey2 s where s: "stackCopy = pubKey2 # s" "elems_ok s" using assms(3,4) by (cases stackCopy) auto
  show ?thesis
    using eval_true_decides(1) [OF assms(1) s(2)] verify_program_decides [where is_p2sh = True] assms(2)
    by (auto simp: verify_p2sh_def s(1) intro!: decides_bind)
qed

definition flags_ok :: "u32 \<Rightarrow> bool" where
  "flags_ok flags \<longleftrightarrow> (flag_set flags SCRIPT_VERIFY_WITNESS \<longrightarrow> flag_set flags SCRIPT_VERIFY_P2SH) \<and>
     (flag_set flags SCRIPT_VERIFY_CLEANSTACK \<longrightarrow> flag_set flags SCRIPT_VERIFY_P2SH \<and> flag_set flags SCRIPT_VERIFY_WITNESS)"

lemma verify_finish_decides: "flags_ok flags \<Longrightarrow> decides (verify_finish witness flags had s)"
  by (auto simp: verify_finish_def flags_ok_def)

lemma VerifyScript_decides:
  assumes "flags_ok flags" "verify_ok checker script witness"
  shows "decides (VerifyScript ec sig script (Some witness) flags checker)"
proof -
  have ok: "checker_ok checker BASE" "checker_ok checker WITNESS_V0" using assms(2) by (simp_all add: verify_ok_def)
  have e: "exec_ok BASE (execdata_init\<lparr> m_codeseparator_pos_init := True \<rparr>)" by (simp add: exec_ok_def)
  note ev = EvalScript_decides [OF ok(1) _ e, of "[]"]
  have copy: "s \<noteq> []" if "eval_true s script flags checker = Inr t" "IsPayToScriptHash script" for s t
    using that p2sh_needs_element [of script flags checker execdata_init] by (auto simp: eval_true_def)
  show ?thesis unfolding VerifyScript_def Let_def
    using ev eval_true_decides [OF ok(1)] verify_program_decides assms ok verify_p2sh_decides [OF ok] verify_finish_decides [OF assms(1)] copy
    by (auto intro!: decides_bind)
qed

lemma VerifyScript_input:
  assumes "flags_ok flags" "txdata_Init txdata_init tx outs force = Inr d" "outs \<noteq> []" "n < length (vin tx)" "0 \<le> nValue (outs ! n)"
  shows "VerifyScript ec (scriptSig (vin tx ! n)) (scriptPubKey (outs ! n)) (Some (scriptWitness (vin tx ! n))) flags
      (TransactionSignatureChecker ec (input_checker tx n outs d)) \<in> {Inr ()} \<union> range (Inl \<circ> Fail)"
proof -
  let ?c = "input_checker tx n outs d" and ?w = "scriptWitness (vin tx ! n)" and ?s = "scriptPubKey (outs ! n)"
  note ready = input_ready [OF assms(2-5)]
  have taproot: "checker_ready ?c v" if "length ?s = 34" "?s ! 0 = OP_1" "?w \<noteq> []" for v
    using ready(3) that by (simp add: taproot_output_def WITNESS_V1_TAPROOT_SIZE_def)
  have schnorr: "decides (tx_CheckSchnorrSignature ec ?c sig program TAPROOT ed)"
    if "checker_ready ?c TAPROOT" "length program = 32" "m_annex_init ed" for sig program ed
    using schnorr_decides [OF that(1), of ed program ec sig] that(2,3) by (auto simp: exec_ok_def decides_def split: sum.splits)
  have "verify_ok (TransactionSignatureChecker ec ?c) ?s ?w"
    unfolding verify_ok_def using ready(1,2) taproot tx_checker_ok [of ?c _ ec] schnorr
    by (auto simp: TransactionSignatureChecker_def)
  from VerifyScript_decides [OF assms(1) this, of ec "scriptSig (vin tx ! n)"]
  show ?thesis by (auto simp: decides_def split: sum.splits)
qed

text \<open>
  C37: Verifying an input of a transaction always ends in acceptance or in a script error. For every
  curve implementation, script, witness and consistent flags, with the transaction's precomputed
  data made from the outputs it spends and missing data treated as a programming error, no
  assertion fails, no exception escapes and no failure is left without an error.
\<close>

theorem VerifyScript_total:
  assumes "flags_ok flags" "txdata_Init txdata_init tx outs force = Inr d" "outs \<noteq> []" "n < length (vin tx)" "0 \<le> nValue (outs ! n)"
  shows "VerifyScript ec (scriptSig (vin tx ! n)) (scriptPubKey (outs ! n)) (Some (scriptWitness (vin tx ! n))) flags
      (TransactionSignatureChecker ec (input_checker tx n outs d)) \<in> {Inr ()} \<union> range (Inl \<circ> Fail)"
  using assms by (rule VerifyScript_input)

section \<open>Paying to a key hash\<close>

definition p2pkh_code :: "valtype \<Rightarrow> CScript" where
  "p2pkh_code h = [OP_DUP, OP_HASH160, 0x14] @ h @ [OP_EQUALVERIFY, OP_CHECKSIG]"

lemma eval_loop_op:
  "op > OP_PUSHDATA4 \<Longrightarrow> eval_loop env (op # pc) st =
     sum_bind (eval_step env op [] pc st) (\<lambda>st. eval_loop env pc (st\<lparr> opcode_pos := opcode_pos st + 1 \<rparr>))"
  by (subst eval_loop.simps) (simp add: GetScriptOp_def not_le [symmetric])

lemma eval_loop_push20:
  assumes "length h = 20" "length pc < 2 ^ 32 - 20"
  shows "eval_loop env (0x14 # h @ pc) st =
     sum_bind (eval_step env 0x14 h pc st) (\<lambda>st. eval_loop env pc (st\<lparr> opcode_pos := opcode_pos st + 1 \<rparr>))"
proof -
  have "unat (of_nat (20 + length pc) :: u32) = 20 + length pc" using assms(2) by (simp only: unat_of_nat) simp
  then have "\<not> (of_nat (20 + length pc) :: u32) < ucast (0x14 :: u8)" by (simp add: word_less_nat_alt)
  then have "GetScriptOp (0x14 # h @ pc) = Some (0x14, h, pc)"
    using assms(1) by (simp add: GetScriptOp_def push_size_def)
  then show ?thesis by (subst eval_loop.simps) simp
qed

lemma switch_p2pkh:
  "switch_op op_table env OP_DUP pc st = stack_op op_dup env OP_DUP pc st"
  "switch_op op_table env OP_HASH160 pc st = op_hash_top env OP_HASH160 pc st"
  "switch_op op_table env OP_EQUALVERIFY pc st = op_equal env OP_EQUALVERIFY pc st"
  "switch_op op_table env OP_CHECKSIG pc st = op_checksig env OP_CHECKSIG pc st"
  by (simp_all add: op_table_def)

lemma push20_minimal: "length h = 20 \<Longrightarrow> CheckMinimalPush h 0x14 = Inr True"
  by (simp add: CheckMinimalPush_def)

lemma eval_loop_Nil [simp]: "eval_loop env [] st = Inr st"
  by (simp add: eval_loop.simps)

lemma eval_p2pkh:
  fixes flags checker
  defines "env \<equiv> \<lparr> env_flags = flags, env_checker = checker, env_sigversion = WITNESS_V0 \<rparr>"
  assumes "length h = 20"
  shows "eval_loop env (p2pkh_code h) (eval_start [pk, s] (p2pkh_code h) ed) =
    (if ripemd160 (sha256 pk) \<noteq> h then Inl (Fail SCRIPT_ERR_EQUALVERIFY)
     else sum_bind (EvalChecksigPreTapscript s pk (p2pkh_code h) flags checker WITNESS_V0) (\<lambda>b.
       Inr ((eval_start [pk, s] (p2pkh_code h) ed)\<lparr> st_stack := [vch_bool b], nOpCount := 4, opcode_pos := 5 \<rparr>)))"
  using assms(2)
  by (cases "EvalChecksigPreTapscript s pk (p2pkh_code h) flags checker WITNESS_V0")
    (simp_all add: p2pkh_code_def eval_loop_op eval_loop_push20 eval_step_def eval_op_def eval_start_def is_disabled_def Let_def env_def
      all_true_def cs_init_def MAX_OPS_PER_SCRIPT_def MAX_STACK_SIZE_def MAX_SCRIPT_ELEMENT_SIZE_def switch_p2pkh stack_op.simps
      op_hash_top_def op_hash_values lift_fault_def op_equal_def op_checksig_def push20_minimal)

lemma CastToBool_vch [simp]: "CastToBool (vch_bool b) = b"
  by (simp add: vch_bool_def vchTrue_def vchFalse_def)

lemma run_p2pkh:
  assumes "length h = 20"
  shows "run_witness_script [pk, s] (p2pkh_code h) flags WITNESS_V0 checker execdata_init = Inr () \<longleftrightarrow>
    length s \<le> MAX_SCRIPT_ELEMENT_SIZE \<and> length pk \<le> MAX_SCRIPT_ELEMENT_SIZE \<and> ripemd160 (sha256 pk) = h \<and>
    EvalChecksigPreTapscript s pk (p2pkh_code h) flags checker WITNESS_V0 = Inr True"
proof -
  have len: "length (p2pkh_code h) = 25" using assms by (simp add: p2pkh_code_def)
  have start: "cs_empty (vfExec (eval_start a b ed))" for a b ed by (simp add: eval_start_def cs_init_def cs_empty_def)
  show ?thesis
  proof (cases "EvalChecksigPreTapscript s pk (p2pkh_code h) flags checker WITNESS_V0")
    case (Inl e)
    then show ?thesis
      by (cases e) (auto simp: run_witness_script_def EvalScript_def eval_p2pkh [OF assms] len MAX_SCRIPT_SIZE_def)
  next
    case (Inr b)
    then show ?thesis
      by (auto simp: run_witness_script_def EvalScript_def eval_p2pkh [OF assms] len MAX_SCRIPT_SIZE_def start not_less split: if_splits)
  qed
qed

lemma witness_v0_keyhash:
  assumes "length h = 20"
  shows "witness_v0 w h flags checker = Inr () \<longleftrightarrow>
    (\<exists>s pk. w = [s, pk] \<and> length s \<le> MAX_SCRIPT_ELEMENT_SIZE \<and> length pk \<le> MAX_SCRIPT_ELEMENT_SIZE \<and> ripemd160 (sha256 pk) = h \<and>
       EvalChecksigPreTapscript s pk (p2pkh_code h) flags checker WITNESS_V0 = Inr True)"
proof -
  have code: "push_opcode (push_opcode (push_data (push_opcode (push_opcode [] OP_DUP) OP_HASH160) h) OP_EQUALVERIFY) OP_CHECKSIG
      = p2pkh_code h"
    using assms by (simp add: push_opcode_def push_data_def p2pkh_code_def)
  have "witness_v0 w h flags checker = (if length w \<noteq> 2 then Inl (Fail SCRIPT_ERR_WITNESS_PROGRAM_MISMATCH)
      else run_witness_script (rev w) (p2pkh_code h) flags WITNESS_V0 checker execdata_init)"
    using assms code by (simp add: witness_v0_def ExecuteWitnessScript_def WITNESS_V0_SCRIPTHASH_SIZE_def WITNESS_V0_KEYHASH_SIZE_def)
  then show ?thesis using assms by (auto simp: run_p2pkh length_Suc_conv numeral_2_eq_2)
qed

lemma eval_keyhash_program:
  assumes "length h = 20"
  shows "eval_true [] (0 # 0x14 # h) flags checker = (if CastToBool h then Inr [h, []] else Inl (Fail SCRIPT_ERR_EVAL_FALSE))"
proof -
  let ?env = "\<lparr> env_flags = flags, env_checker = checker, env_sigversion = BASE \<rparr>"
  have zero: "eval_loop ?env (0 # pc) st = sum_bind (eval_step ?env 0 [] pc st) (\<lambda>st. eval_loop ?env pc (st\<lparr> opcode_pos := opcode_pos st + 1 \<rparr>))" for pc st
    by (subst eval_loop.simps) (simp add: GetScriptOp_def push_size_def)
  show ?thesis
    using assms eval_loop_push20 [of h "[]"]
    by (simp add: eval_true_def EvalScript_def zero eval_step_def eval_op_def eval_start_def is_disabled_def Let_def all_true_def
        cs_init_def cs_empty_def MAX_STACK_SIZE_def MAX_SCRIPT_ELEMENT_SIZE_def MAX_SCRIPT_SIZE_def lift_fault_def push20_minimal CheckMinimalPush_def)
qed

lemma keyhash_program: "length h = 20 \<Longrightarrow> IsWitnessProgram (0 # 0x14 # h) = Inr (Some (0, h))"
  by (simp add: IsWitnessProgram_def DecodeOP_N_def)

lemma verify_keyhash:
  assumes "length h = 20" "CastToBool h" "flag_set flags SCRIPT_VERIFY_WITNESS" "flag_set flags SCRIPT_VERIFY_P2SH"
  shows "VerifyScript ec sig (0 # 0x14 # h) (Some w) flags checker = Inr () \<longleftrightarrow> sig = [] \<and> witness_v0 w h flags checker = Inr ()"
proof -
  have program: "verify_program ec (0 # 0x14 # h) sig [] SCRIPT_ERR_WITNESS_MALLEATED False w flags checker s =
      (if sig \<noteq> [] then Inl (Fail SCRIPT_ERR_WITNESS_MALLEATED)
       else sum_bind (witness_v0 w h flags checker) (\<lambda>_. Inr (True, resize_1 s)))" for s
    using assms by (simp add: verify_program_def keyhash_program lift_fault_def VerifyWitnessProgram_def)
  have start: "IsPushOnly []" "EvalScript [] [] flags checker BASE ed = Inr ([], ed\<lparr> m_codeseparator_pos := 0xffffffff, m_codeseparator_pos_init := True \<rparr>)" for ed
    by (simp_all add: IsPushOnly.simps EvalScript_def eval_start_def cs_empty_def cs_init_def)
  have finish: "verify_finish w flags True (resize_1 s) = Inr ()" for s
    using assms(3,4) by (simp add: verify_finish_def resize_1_def)
  show ?thesis
  proof (cases "sig = []")
    case True
    then show ?thesis using assms start finish eval_keyhash_program [OF assms(1)]
      by (cases "witness_v0 w h flags checker") (auto simp: VerifyScript_def program [unfolded True] IsPayToScriptHash_def)
  next
    case False
    then show ?thesis by (auto simp: VerifyScript_def program sum_bind_Inr_iff Let_def split: if_splits)
  qed
qed

lemma checksig_v0:
  "EvalChecksigPreTapscript s pk code flags checker WITNESS_V0 = Inr True \<longleftrightarrow>
    CheckSignatureEncoding checker flags s = Inr () \<and> CheckPubKeyEncoding flags WITNESS_V0 pk = Inr () \<and>
    CheckECDSASignature checker s pk code WITNESS_V0 = Inr True"
  by (auto simp: EvalChecksigPreTapscript_def sum_bind_Inr_iff split: if_splits)

lemma pubkey_valid: "pubkey_IsValid (pubkey_Set pk) \<longleftrightarrow> pubkey_ValidSize pk" "pubkey_ValidSize pk \<Longrightarrow> pubkey_Set pk = pk"
  by (auto simp: pubkey_IsValid_def pubkey_Set_def pubkey_ValidSize_def pubkey_GetLen_def Let_def)

lemma ECDSA_true:
  assumes "0 \<le> checker_amount c"
  shows "tx_CheckECDSASignature ec c s pk code WITNESS_V0 = Inr True \<longleftrightarrow>
    pubkey_ValidSize pk \<and> s \<noteq> [] \<and> (\<exists>m. SignatureHash code (checker_txTo c) (checker_nIn c) (uint (last s)) (checker_amount c)
      WITNESS_V0 (checker_txdata c) = Inr m \<and> pubkey_Verify ec pk m (butlast s))"
  using assms by (auto simp: tx_CheckECDSASignature_def pubkey_valid sum_bind_Inr_iff Let_def)

text \<open>
  C38: An output that pays to a witness key hash is spent exactly by a signature of the key. With
  the witness rules on, for a program of 20 bytes that is true as a stack element (not zero, of either sign) and an
  amount that is not negative, verification of an input accepts if and only if the script signature is
  empty and the witness is a signature and a key of valid size that hashes to the program, both
  encoded as the flags ask, and the signature verifies for the key over the signature hash of the
  implied script with the hash type in its last byte.
\<close>

theorem P2WPKH_spend:
  assumes "length h = 20" "CastToBool h" "flag_set flags SCRIPT_VERIFY_WITNESS" "flag_set flags SCRIPT_VERIFY_P2SH"
    and "0 \<le> checker_amount c"
  shows "VerifyScript ec sig (0 # 0x14 # h) (Some w) flags (TransactionSignatureChecker ec c) = Inr () \<longleftrightarrow>
    sig = [] \<and> (\<exists>s pk m. w = [s, pk] \<and> s \<noteq> [] \<and> length s \<le> MAX_SCRIPT_ELEMENT_SIZE \<and> pubkey_ValidSize pk \<and> Hash160 pk = Inr h \<and>
      CheckSignatureEncoding (TransactionSignatureChecker ec c) flags s = Inr () \<and> CheckPubKeyEncoding flags WITNESS_V0 pk = Inr () \<and>
      SignatureHash (p2pkh_code h) (checker_txTo c) (checker_nIn c) (uint (last s)) (checker_amount c) WITNESS_V0 (checker_txdata c) = Inr m \<and>
      pubkey_Verify ec pk m (butlast s))"
proof -
  have "length pk \<le> MAX_SCRIPT_ELEMENT_SIZE" if "pubkey_ValidSize pk" for pk
    using that by (auto simp: pubkey_ValidSize_def pubkey_GetLen_def MAX_SCRIPT_ELEMENT_SIZE_def split: if_splits)
  moreover have "CheckECDSASignature (TransactionSignatureChecker ec c) = tx_CheckECDSASignature ec c" by (simp add: TransactionSignatureChecker_def)
  ultimately show ?thesis
    unfolding verify_keyhash [OF assms(1-4)] witness_v0_keyhash [OF assms(1)] checksig_v0
    by (auto simp: ECDSA_true [OF assms(5)])
qed

text \<open>A curve on which every signature verifies shows both statements at work.\<close>

abbreviation sample_curve :: curve_ops where
  "sample_curve \<equiv> \<lparr> pubkey_Verify = \<lambda>pk m s. True, xonly_VerifySchnorr = \<lambda>pk m s. True,
     xonly_CheckTapTweak = \<lambda>q p r b. True, pubkey_CheckLowS = \<lambda>s. True \<rparr>"

abbreviation sample_outs :: "CTxOut list" where "sample_outs \<equiv> [\<lparr> nValue = 5000, scriptPubKey = [OP_1] \<rparr>]"

abbreviation sample_flags :: u32 where "sample_flags \<equiv> SCRIPT_VERIFY_P2SH OR SCRIPT_VERIFY_WITNESS"

lemma sample_flags: "flags_ok sample_flags" "flag_set sample_flags SCRIPT_VERIFY_WITNESS" "flag_set sample_flags SCRIPT_VERIFY_P2SH"
  by code_simp+

theorem VerifyScript_total_witness:
  "\<exists>d. txdata_Init txdata_init sample_spend sample_outs False = Inr d \<and>
     VerifyScript sample_curve [] [OP_1] (Some [[1]]) sample_flags (TransactionSignatureChecker sample_curve (input_checker sample_spend 0 sample_outs d))
       \<in> {Inr ()} \<union> range (Inl \<circ> Fail)"
proof -
  obtain d where "txdata_Init txdata_init sample_spend sample_outs False = Inr d"
    by (auto simp: txdata_Init_def txdata_init_def Let_def)
  then show ?thesis using VerifyScript_total [OF sample_flags(1), of sample_spend sample_outs False d 0 sample_curve] by auto
qed

text \<open>A spend whose witness has a third element is refused, and so is one with a script signature.\<close>

theorem P2WPKH_spend_witness:
  "VerifyScript sample_curve [] (0 # 0x14 # replicate 20 1) (Some [[1], [2], [3]]) sample_flags
     (TransactionSignatureChecker sample_curve (input_checker sample_spend 0 sample_outs txdata_init)) \<noteq> Inr () \<and>
   VerifyScript sample_curve [OP_1] (0 # 0x14 # replicate 20 1) (Some [[1], [2]]) sample_flags
     (TransactionSignatureChecker sample_curve (input_checker sample_spend 0 sample_outs txdata_init)) \<noteq> Inr ()"
proof -
  have h: "length (replicate 20 (1 :: u8)) = 20" "CastToBool (replicate 20 1)" by (simp_all add: numeral_eq_Suc)
  show ?thesis
    using P2WPKH_spend [OF h sample_flags(2,3), of "input_checker sample_spend 0 sample_outs txdata_init" sample_curve]
    by (simp add: input_checker_def)
qed

end
