(* ===== verification/TxVerify.thy ===== *)
theory TxVerify
  imports Coins VerifyScript BlockChain
begin

text \<open>
  The checks of one transaction: \<open>src/src/consensus/tx_check.cpp\<close>, \<open>consensus/tx_verify.cpp\<close> and the
  weights and result codes of \<open>consensus/validation.h\<close>. A \<open>ValidationState\<close> is written at most once,
  where a check returns false; here that is the \<open>Inl\<close> side of the result, with the code and the reject
  reason (the debug message, text for the log, is left out). Reading a coin through a cache fills the
  cache, so the checks that read coins return the view they leave.
\<close>

section \<open>Definitions: results\<close>

datatype TxValidationResult = TX_RESULT_UNSET | TX_CONSENSUS | TX_RECENT_CONSENSUS_CHANGE
  | TX_INPUTS_NOT_STANDARD | TX_NOT_STANDARD | TX_MISSING_INPUTS | TX_PREMATURE_SPEND | TX_WITNESS_MUTATED
  | TX_WITNESS_STRIPPED | TX_CONFLICT | TX_MEMPOOL_POLICY | TX_NO_MEMPOOL

datatype BlockValidationResult = BLOCK_RESULT_UNSET | BLOCK_CONSENSUS | BLOCK_RECENT_CONSENSUS_CHANGE
  | BLOCK_CACHED_INVALID | BLOCK_INVALID_HEADER | BLOCK_MUTATED | BLOCK_MISSING_PREV | BLOCK_INVALID_PREV
  | BLOCK_TIME_FUTURE | BLOCK_CHECKPOINT | BLOCK_HEADER_LOW_WORK

text \<open>A check stops because the object is invalid, because the node failed (\<open>ValidationState::Error\<close>), or by a fault.\<close>

datatype 'r stop = Invalid 'r string | NodeError string | Halt fault

type_synonym tx_stop = "TxValidationResult stop"
type_synonym block_stop = "BlockValidationResult stop"

fun or_halt :: "fault + 'a \<Rightarrow> 'r stop + 'a" where
  "or_halt (Inl f) = Inl (Halt f)"
| "or_halt (Inr x) = Inr x"

section \<open>Definitions: weights and the witness commitment\<close>

definition GetTransactionWeight :: "CTransaction \<Rightarrow> nat" where
  "GetTransactionWeight tx =
     length (SerializeTransaction False tx) * (WITNESS_SCALE_FACTOR - 1) + length (SerializeTransaction True tx)"

definition GetBlockWeight :: "CBlock \<Rightarrow> nat" where
  "GetBlockWeight block =
     length (ser_CBlock False block) * (WITNESS_SCALE_FACTOR - 1) + length (ser_CBlock True block)"

definition GetTransactionInputWeight :: "CTxIn \<Rightarrow> nat" where
  "GetTransactionInputWeight txin =
     length (ser_CTxIn txin) * (WITNESS_SCALE_FACTOR - 1) + length (ser_CTxIn txin) + length (ser_stack (scriptWitness txin))"

definition NO_WITNESS_COMMITMENT :: int where "NO_WITNESS_COMMITMENT = - 1"
definition MINIMUM_WITNESS_COMMITMENT :: nat where "MINIMUM_WITNESS_COMMITMENT = 38"

definition is_commitment :: "CScript \<Rightarrow> bool" where
  "is_commitment script \<longleftrightarrow> length script \<ge> MINIMUM_WITNESS_COMMITMENT \<and> script ! 0 = OP_RETURN \<and> script ! 1 = 0x24 \<and>
     script ! 2 = 0xaa \<and> script ! 3 = 0x21 \<and> script ! 4 = 0xa9 \<and> script ! 5 = 0xed"

fun commitment_loop :: "int \<Rightarrow> int \<Rightarrow> CTxOut list \<Rightarrow> int" where
  "commitment_loop commitpos k [] = commitpos"
| "commitment_loop commitpos k (out # outs) =
     commitment_loop (if is_commitment (scriptPubKey out) then k else commitpos) (k + 1) outs"

definition GetWitnessCommitmentIndex :: "CBlock \<Rightarrow> int" where
  "GetWitnessCommitmentIndex block =
     (case vtx block of [] \<Rightarrow> NO_WITNESS_COMMITMENT | tx # _ \<Rightarrow> commitment_loop NO_WITNESS_COMMITMENT 0 (vout tx))"

section \<open>Definitions: checks without a context\<close>

fun check_outputs :: "int \<Rightarrow> CTxOut list \<Rightarrow> tx_stop + unit" where
  "check_outputs nValueOut [] = Inr ()"
| "check_outputs nValueOut (txout # outs) =
     (if nValue txout < 0 then Inl (Invalid TX_CONSENSUS ''bad-txns-vout-negative'')
      else if nValue txout > MAX_MONEY then Inl (Invalid TX_CONSENSUS ''bad-txns-vout-toolarge'')
      else let nValueOut = nValueOut + nValue txout in
        if \<not> MoneyRange nValueOut then Inl (Invalid TX_CONSENSUS ''bad-txns-txouttotal-toolarge'')
        else check_outputs nValueOut outs)"

fun check_duplicates :: "COutPoint list \<Rightarrow> CTxIn list \<Rightarrow> tx_stop + unit" where
  "check_duplicates vInOutPoints [] = Inr ()"
| "check_duplicates vInOutPoints (txin # ins) =
     (if prevout txin \<in> set vInOutPoints then Inl (Invalid TX_CONSENSUS ''bad-txns-inputs-duplicate'')
      else check_duplicates (prevout txin # vInOutPoints) ins)"

definition CheckTransaction :: "CTransaction \<Rightarrow> tx_stop + unit" where
  "CheckTransaction tx =
     (if vin tx = [] then Inl (Invalid TX_CONSENSUS ''bad-txns-vin-empty'')
      else if vout tx = [] then Inl (Invalid TX_CONSENSUS ''bad-txns-vout-empty'')
      else if length (SerializeTransaction False tx) * WITNESS_SCALE_FACTOR > MAX_BLOCK_WEIGHT
      then Inl (Invalid TX_CONSENSUS ''bad-txns-oversize'')
      else sum_bind (check_outputs 0 (vout tx)) (\<lambda>_. sum_bind (check_duplicates [] (vin tx)) (\<lambda>_.
        if IsCoinBase tx then
          if length (scriptSig (vin tx ! 0)) < 2 \<or> length (scriptSig (vin tx ! 0)) > 100
          then Inl (Invalid TX_CONSENSUS ''bad-cb-length'') else Inr ()
        else if \<exists>txin \<in> set (vin tx). COutPoint_IsNull (prevout txin)
        then Inl (Invalid TX_CONSENSUS ''bad-txns-prevout-null'') else Inr ())))"

section \<open>Definitions: lock times\<close>

definition IsFinalTx :: "CTransaction \<Rightarrow> int \<Rightarrow> int \<Rightarrow> bool" where
  "IsFinalTx tx nBlockHeight nBlockTime \<longleftrightarrow>
     (if nLockTime tx = 0 then True
      else if uint (nLockTime tx) < (if uint (nLockTime tx) < LOCKTIME_THRESHOLD then nBlockHeight else nBlockTime) then True
      else \<forall>txin \<in> set (vin tx). nSequence txin = SEQUENCE_FINAL)"

fun locks_loop :: "block_store \<Rightarrow> bid \<Rightarrow> (CTxIn \<times> int) list \<Rightarrow> int \<Rightarrow> int \<Rightarrow> fault + (int \<times> int) \<times> int list" where
  "locks_loop st block [] nMinHeight nMinTime = Inr ((nMinHeight, nMinTime), [])"
| "locks_loop st block ((txin, nCoinHeight) # ins) nMinHeight nMinTime =
     (if nSequence txin AND SEQUENCE_LOCKTIME_DISABLE_FLAG \<noteq> 0 then
        sum_bind (locks_loop st block ins nMinHeight nMinTime) (\<lambda>(lp, hs). Inr (lp, 0 # hs))
      else if nSequence txin AND SEQUENCE_LOCKTIME_TYPE_FLAG \<noteq> 0 then
        sum_bind (GetAncestor st block (max (nCoinHeight - 1) 0)) (\<lambda>a.
        case a of None \<Rightarrow> Inl AssertFailed
        | Some a \<Rightarrow> sum_bind (GetMedianTimePast st a) (\<lambda>nCoinTime.
          let lock = uint (push_bit SEQUENCE_LOCKTIME_GRANULARITY (nSequence txin AND SEQUENCE_LOCKTIME_MASK)) in
          sum_bind (locks_loop st block ins nMinHeight (max nMinTime (nCoinTime + lock - 1))) (\<lambda>(lp, hs).
            Inr (lp, nCoinHeight # hs))))
      else
        let lock = uint (nSequence txin AND SEQUENCE_LOCKTIME_MASK) in
        sum_bind (locks_loop st block ins (max nMinHeight (nCoinHeight + lock - 1)) nMinTime) (\<lambda>(lp, hs).
          Inr (lp, nCoinHeight # hs)))"

definition enforces_bip68 :: "CTransaction \<Rightarrow> u32 \<Rightarrow> bool" where
  "enforces_bip68 tx flags \<longleftrightarrow> tx_nVersion tx \<ge> 2 \<and> flags AND LOCKTIME_VERIFY_SEQUENCE \<noteq> 0"

definition CalculateSequenceLocks :: "block_store \<Rightarrow> CTransaction \<Rightarrow> u32 \<Rightarrow> int list \<Rightarrow> bid \<Rightarrow> fault + (int \<times> int) \<times> int list" where
  "CalculateSequenceLocks st tx flags prevHeights block =
     (if length prevHeights \<noteq> length (vin tx) then Inl AssertFailed
      else if \<not> enforces_bip68 tx flags then Inr ((- 1, - 1), prevHeights)
      else locks_loop st block (zip (vin tx) prevHeights) (- 1) (- 1))"

definition EvaluateSequenceLocks :: "block_store \<Rightarrow> bid \<Rightarrow> int \<times> int \<Rightarrow> fault + bool" where
  "EvaluateSequenceLocks st block lockPair =
     sum_bind (deref st block) (\<lambda>b. case pprev b of
        None \<Rightarrow> Inl AssertFailed
      | Some prev \<Rightarrow> sum_bind (GetMedianTimePast st prev) (\<lambda>nBlockTime.
          Inr (\<not> (fst lockPair \<ge> nHeight b \<or> snd lockPair \<ge> nBlockTime))))"

definition SequenceLocks :: "block_store \<Rightarrow> CTransaction \<Rightarrow> u32 \<Rightarrow> int list \<Rightarrow> bid \<Rightarrow> fault + bool \<times> int list" where
  "SequenceLocks st tx flags prevHeights block =
     sum_bind (CalculateSequenceLocks st tx flags prevHeights block) (\<lambda>(lockPair, prevHeights).
     sum_bind (EvaluateSequenceLocks st block lockPair) (\<lambda>r. Inr (r, prevHeights)))"

section \<open>Definitions: signature operations\<close>

fun sigop_sum :: "u32 \<Rightarrow> CScript list \<Rightarrow> fault + u32" where
  "sigop_sum nSigOps [] = Inr nSigOps"
| "sigop_sum nSigOps (script # scripts) = sum_bind (GetSigOpCount script False) (\<lambda>k. sigop_sum (nSigOps + k) scripts)"

definition GetLegacySigOpCount :: "CTransaction \<Rightarrow> fault + u32" where
  "GetLegacySigOpCount tx =
     sum_bind (sigop_sum 0 (map scriptSig (vin tx))) (\<lambda>nSigOps. sigop_sum nSigOps (map scriptPubKey (vout tx)))"

fun p2sh_sigop_sum :: "coins_cache \<Rightarrow> u32 \<Rightarrow> CTxIn list \<Rightarrow> fault + u32 \<times> coins_cache" where
  "p2sh_sigop_sum inputs nSigOps [] = Inr (nSigOps, inputs)"
| "p2sh_sigop_sum inputs nSigOps (txin # ins) =
     (let (coin, inputs) = AccessCoin inputs (prevout txin) in
      if IsSpent coin then Inl AssertFailed
      else if IsPayToScriptHash (scriptPubKey (coin_out coin)) then
        sum_bind (GetSigOpCountP2SH (scriptPubKey (coin_out coin)) (scriptSig txin)) (\<lambda>k.
          p2sh_sigop_sum inputs (nSigOps + k) ins)
      else p2sh_sigop_sum inputs nSigOps ins)"

definition GetP2SHSigOpCount :: "CTransaction \<Rightarrow> coins_cache \<Rightarrow> fault + u32 \<times> coins_cache" where
  "GetP2SHSigOpCount tx inputs = (if IsCoinBase tx then Inr (0, inputs) else p2sh_sigop_sum inputs 0 (vin tx))"

fun witness_sigop_sum :: "coins_cache \<Rightarrow> u32 \<Rightarrow> int \<Rightarrow> CTxIn list \<Rightarrow> fault + int \<times> coins_cache" where
  "witness_sigop_sum inputs flags nSigOps [] = Inr (nSigOps, inputs)"
| "witness_sigop_sum inputs flags nSigOps (txin # ins) =
     (let (coin, inputs) = AccessCoin inputs (prevout txin) in
      if IsSpent coin then Inl AssertFailed
      else sum_bind (CountWitnessSigOps (scriptSig txin) (scriptPubKey (coin_out coin)) (Some (scriptWitness txin)) flags) (\<lambda>k.
        witness_sigop_sum inputs flags (nSigOps + int k) ins))"

definition GetTransactionSigOpCost :: "CTransaction \<Rightarrow> coins_cache \<Rightarrow> u32 \<Rightarrow> fault + int \<times> coins_cache" where
  "GetTransactionSigOpCost tx inputs flags =
     sum_bind (GetLegacySigOpCount tx) (\<lambda>legacy.
       let nSigOps = uint (legacy * of_nat WITNESS_SCALE_FACTOR) in
       if IsCoinBase tx then Inr (nSigOps, inputs)
       else sum_bind (if flag_set flags SCRIPT_VERIFY_P2SH
                      then sum_bind (GetP2SHSigOpCount tx inputs) (\<lambda>(k, inputs).
                             Inr (nSigOps + uint (k * of_nat WITNESS_SCALE_FACTOR), inputs))
                      else Inr (nSigOps, inputs)) (\<lambda>(nSigOps, inputs).
         witness_sigop_sum inputs flags nSigOps (vin tx)))"

section \<open>Definitions: the amounts\<close>

fun input_values :: "coins_cache \<Rightarrow> int \<Rightarrow> int \<Rightarrow> CTxIn list \<Rightarrow> tx_stop + int \<times> coins_cache" where
  "input_values inputs nSpendHeight nValueIn [] = Inr (nValueIn, inputs)"
| "input_values inputs nSpendHeight nValueIn (txin # ins) =
     (let (coin, inputs) = AccessCoin inputs (prevout txin) in
      if IsSpent coin then Inl (Halt AssertFailed)
      else if fCoinBase coin \<and> nSpendHeight - uint (coin_nHeight coin) < COINBASE_MATURITY
      then Inl (Invalid TX_PREMATURE_SPEND ''bad-txns-premature-spend-of-coinbase'')
      else let nValueIn = nValueIn + nValue (coin_out coin) in
        if \<not> MoneyRange (nValue (coin_out coin)) \<or> \<not> MoneyRange nValueIn
        then Inl (Invalid TX_CONSENSUS ''bad-txns-inputvalues-outofrange'')
        else input_values inputs nSpendHeight nValueIn ins)"

definition CheckTxInputs :: "CTransaction \<Rightarrow> coins_cache \<Rightarrow> int \<Rightarrow> tx_stop + int \<times> coins_cache" where
  "CheckTxInputs tx inputs nSpendHeight =
     (let (have_inputs, inputs) = HaveInputs inputs tx in
      if \<not> have_inputs then Inl (Invalid TX_MISSING_INPUTS ''bad-txns-inputs-missingorspent'')
      else sum_bind (input_values inputs nSpendHeight 0 (vin tx)) (\<lambda>(nValueIn, inputs).
        sum_bind (or_halt (GetValueOut tx)) (\<lambda>value_out.
          if nValueIn < value_out then Inl (Invalid TX_CONSENSUS ''bad-txns-in-belowout'')
          else let txfee_aux = nValueIn - value_out in
            if \<not> MoneyRange txfee_aux then Inl (Invalid TX_CONSENSUS ''bad-txns-fee-outofrange'')
            else Inr (txfee_aux, inputs))))"

section \<open>What the context-free checks establish\<close>

lemma check_outputs_iff:
  "MoneyRange a \<Longrightarrow> check_outputs a outs = Inr () \<longleftrightarrow>
     list_all (\<lambda>x. MoneyRange (nValue x)) outs \<and> a + sum_list (map nValue outs) \<le> MAX_MONEY"
proof (induction a outs rule: check_outputs.induct)
  case (2 a x outs)
  have nonneg: "list_all (\<lambda>x. MoneyRange (nValue x)) outs \<Longrightarrow> 0 \<le> sum_list (map nValue outs)" for outs
    by (induction outs) (auto simp: MoneyRange_def)
  show ?case
  proof (cases "MoneyRange (nValue x) \<and> MoneyRange (a + nValue x)")
    case True
    then show ?thesis using "2.IH" by (simp add: MoneyRange_def add.assoc)
  next
    case False
    then show ?thesis using "2.prems" nonneg [of outs] by (auto simp: MoneyRange_def Let_def)
  qed
qed (simp add: MoneyRange_def)

lemma check_duplicates_iff:
  "check_duplicates seen ins = Inr () \<longleftrightarrow> distinct (map prevout ins) \<and> prevout ` set ins \<inter> set seen = {}"
  by (induction seen ins rule: check_duplicates.induct) auto

lemma CheckTransaction_iff:
  "CheckTransaction tx = Inr () \<longleftrightarrow>
     vin tx \<noteq> [] \<and> vout tx \<noteq> [] \<and> length (SerializeTransaction False tx) * WITNESS_SCALE_FACTOR \<le> MAX_BLOCK_WEIGHT \<and>
     list_all (\<lambda>x. MoneyRange (nValue x)) (vout tx) \<and> sum_list (map nValue (vout tx)) \<le> MAX_MONEY \<and>
     distinct (map prevout (vin tx)) \<and>
     (if IsCoinBase tx then length (scriptSig (vin tx ! 0)) \<in> {2..100} else \<forall>i \<in> set (vin tx). \<not> COutPoint_IsNull (prevout i))"
proof -
  have "MoneyRange 0" by (simp add: MoneyRange_def MAX_MONEY_def COIN_def)
  then show ?thesis
    by (auto simp: CheckTransaction_def sum_bind_Inr_iff check_outputs_iff check_duplicates_iff not_less)
qed

lemma check_outputs_stop: "check_outputs a outs = Inl e \<Longrightarrow> \<exists>s. e = Invalid TX_CONSENSUS s"
  by (induction a outs rule: check_outputs.induct) (auto simp: Let_def split: if_splits)

lemma check_duplicates_stop: "check_duplicates seen ins = Inl e \<Longrightarrow> \<exists>s. e = Invalid TX_CONSENSUS s"
  by (induction seen ins rule: check_duplicates.induct) (auto split: if_splits)

lemma CheckTransaction_stop: "CheckTransaction tx = Inl e \<Longrightarrow> \<exists>s. e = Invalid TX_CONSENSUS s"
  by (auto simp: CheckTransaction_def sum_bind_def dest: check_outputs_stop check_duplicates_stop split: if_splits sum.splits)

section \<open>What the amounts establish\<close>

definition input_value :: "(COutPoint \<Rightarrow> Coin option) \<Rightarrow> CTxIn \<Rightarrow> int" where
  "input_value m i = (case m (prevout i) of None \<Rightarrow> 0 | Some c \<Rightarrow> nValue (coin_out c))"

definition spendable :: "(COutPoint \<Rightarrow> Coin option) \<Rightarrow> int \<Rightarrow> CTxIn \<Rightarrow> bool" where
  "spendable m h i \<longleftrightarrow> (case m (prevout i) of None \<Rightarrow> False
     | Some c \<Rightarrow> (fCoinBase c \<longrightarrow> COINBASE_MATURITY \<le> h - uint (coin_nHeight c)) \<and> MoneyRange (nValue (coin_out c)))"

abbreviation value_in :: "(COutPoint \<Rightarrow> Coin option) \<Rightarrow> CTransaction \<Rightarrow> int" where
  "value_in m tx \<equiv> sum_list (map (input_value m) (vin tx))"
abbreviation value_out :: "CTransaction \<Rightarrow> int" where
  "value_out tx \<equiv> sum_list (map nValue (vout tx))"

definition spends_ok :: "(COutPoint \<Rightarrow> Coin option) \<Rightarrow> int \<Rightarrow> CTransaction \<Rightarrow> bool" where
  "spends_ok m h tx \<longleftrightarrow> list_all (spendable m h) (vin tx) \<and> value_in m tx \<le> MAX_MONEY \<and> value_out tx \<le> value_in m tx"

lemma spendable_range: "spendable m h i \<Longrightarrow> MoneyRange (input_value m i)"
  by (simp add: spendable_def input_value_def split: option.splits)

lemma spendable_some: "spendable m h i \<Longrightarrow> m (prevout i) \<noteq> None"
  by (auto simp: spendable_def split: option.splits)

lemma value_in_nonneg: "list_all (spendable m h) ins \<Longrightarrow> 0 \<le> sum_list (map (input_value m) ins)"
  by (induction ins) (auto dest!: spendable_range simp: MoneyRange_def)

lemma input_values_law:
  assumes "cache_ok v" "MoneyRange a" "\<forall>i \<in> set ins. coins v (prevout i) \<noteq> None"
  shows "case input_values v h a ins of
      Inl e \<Rightarrow> \<not> (list_all (spendable (coins v) h) ins \<and> a + sum_list (map (input_value (coins v)) ins) \<le> MAX_MONEY) \<and>
        (\<exists>r s. e = Invalid r s)
    | Inr (t, v') \<Rightarrow> list_all (spendable (coins v) h) ins \<and> a + sum_list (map (input_value (coins v)) ins) \<le> MAX_MONEY \<and>
        t = a + sum_list (map (input_value (coins v)) ins) \<and> cache_ok v' \<and> coins v' = coins v"
  using assms
proof (induction v h a ins rule: input_values.induct)
  case (1 v h a)
  then show ?case by (simp add: MoneyRange_def)
next
  case (2 v h a i ins)
  note [simp del] = coins_of.simps view_ok.simps
  obtain c w where f: "AccessCoin v (prevout i) = (c, w)" by (metis surj_pair)
  note law = AccessCoin_law [OF "2.prems"(1) f]
  have c: "coins v (prevout i) = Some c" "\<not> IsSpent c" using law "2.prems"(3) by (cases "IsSpent c"; simp)+
  have iv: "input_value (coins v) i = nValue (coin_out c)" using c by (simp add: input_value_def)
  let ?ok = "(fCoinBase c \<longrightarrow> COINBASE_MATURITY \<le> h - uint (coin_nHeight c)) \<and> MoneyRange (nValue (coin_out c))"
  have sp: "spendable (coins v) h i \<longleftrightarrow> ?ok" using c by (simp add: spendable_def)
  show ?case
  proof (cases "?ok \<and> MoneyRange (a + nValue (coin_out c))")
    case True
    then have nv: "input_values v h a (i # ins) = input_values w h (a + nValue (coin_out c)) ins"
      using f c by (auto simp: Let_def)
    have ih: "case input_values w h (a + nValue (coin_out c)) ins of
        Inl e \<Rightarrow> \<not> (list_all (spendable (coins w) h) ins \<and> a + nValue (coin_out c) + sum_list (map (input_value (coins w)) ins) \<le> MAX_MONEY) \<and>
          (\<exists>r s. e = Invalid r s)
      | Inr (t, v') \<Rightarrow> list_all (spendable (coins w) h) ins \<and> a + nValue (coin_out c) + sum_list (map (input_value (coins w)) ins) \<le> MAX_MONEY \<and>
          t = a + nValue (coin_out c) + sum_list (map (input_value (coins w)) ins) \<and> cache_ok v' \<and> coins v' = coins w"
      using "2.IH" [OF f [symmetric] refl c(2) _ refl] True law "2.prems"(3) by (auto split: sum.splits)
    show ?thesis using ih law sp True unfolding nv by (auto simp: iv add.assoc split: sum.splits)
  next
    case False
    then have "\<exists>r s. input_values v h a (i # ins) = Inl (Invalid r s)" using f c by (auto simp: Let_def)
    moreover have "\<not> (list_all (spendable (coins v) h) (i # ins) \<and> a + sum_list (map (input_value (coins v)) (i # ins)) \<le> MAX_MONEY)"
      using False sp "2.prems"(2) value_in_nonneg [of "coins v" h ins] by (auto simp: iv MoneyRange_def)
    ultimately show ?thesis by auto
  qed
qed

lemma CheckTxInputs_law:
  assumes "cache_ok v" "CheckTransaction tx = Inr ()" "\<not> IsCoinBase tx"
  shows "case CheckTxInputs tx v h of
      Inl e \<Rightarrow> \<not> spends_ok (coins v) h tx \<and> (\<exists>r s. e = Invalid r s)
    | Inr (fee, v') \<Rightarrow> spends_ok (coins v) h tx \<and> fee = value_in (coins v) tx - value_out tx \<and>
        cache_ok v' \<and> coins v' = coins v"
proof -
  note [simp del] = coins_of.simps view_ok.simps
  obtain b w where f: "HaveInputs v tx = (b, w)" by (metis surj_pair)
  note law = HaveInputs_law [OF assms(1) f]
  have out: "GetValueOut tx = Inr (value_out tx)" "0 \<le> value_out tx"
  proof -
    have l: "list_all (\<lambda>x. MoneyRange (nValue x)) (vout tx)" and "sum_list (map nValue (vout tx)) \<le> MAX_MONEY"
      using assms(2) by (simp_all add: CheckTransaction_iff)
    then show "GetValueOut tx = Inr (value_out tx)" by (simp add: GetValueOut_exact)
    show "0 \<le> value_out tx" using l by (intro sum_list_nonneg) (auto simp: list_all_iff MoneyRange_def)
  qed
  show ?thesis
  proof (cases b)
    case False
    then have "\<not> spends_ok (coins v) h tx" using law assms(3) by (auto simp: spends_ok_def list_all_iff dest!: spendable_some)
    then show ?thesis using f False by (simp add: CheckTxInputs_def)
  next
    case True
    then have have_all: "\<forall>i \<in> set (vin tx). coins w (prevout i) \<noteq> None" using law assms(3) by simp
    have "MoneyRange 0" by (simp add: MoneyRange_def MAX_MONEY_def COIN_def)
    from input_values_law [OF _ this have_all, of h] law
    have iv: "case input_values w h 0 (vin tx) of
        Inl e \<Rightarrow> \<not> (list_all (spendable (coins v) h) (vin tx) \<and> value_in (coins v) tx \<le> MAX_MONEY) \<and> (\<exists>r s. e = Invalid r s)
      | Inr (t, v') \<Rightarrow> list_all (spendable (coins v) h) (vin tx) \<and> value_in (coins v) tx \<le> MAX_MONEY \<and> t = value_in (coins v) tx \<and>
          cache_ok v' \<and> coins v' = coins v" by (auto split: sum.splits)
    then show ?thesis using f True out
      by (cases "input_values w h 0 (vin tx)") (auto simp: CheckTxInputs_def spends_ok_def Let_def MoneyRange_def)
  qed
qed

section \<open>What the sequence locks establish\<close>

lemma sequence_flags:
  "x AND SEQUENCE_LOCKTIME_DISABLE_FLAG \<noteq> 0 \<longleftrightarrow> bit x 31" "x AND SEQUENCE_LOCKTIME_TYPE_FLAG \<noteq> 0 \<longleftrightarrow> bit x 22"
  "x AND SEQUENCE_LOCKTIME_MASK = take_bit 16 x"
proof -
  have m: "SEQUENCE_LOCKTIME_MASK = mask 16" by code_simp
  show "x AND SEQUENCE_LOCKTIME_DISABLE_FLAG \<noteq> 0 \<longleftrightarrow> bit x 31" "x AND SEQUENCE_LOCKTIME_TYPE_FLAG \<noteq> 0 \<longleftrightarrow> bit x 22"
    unfolding SEQUENCE_LOCKTIME_DISABLE_FLAG_def SEQUENCE_LOCKTIME_TYPE_FLAG_def push_bit_of_1 and_exp_eq_0_iff_not_bit by simp_all
  show "x AND SEQUENCE_LOCKTIME_MASK = take_bit 16 x" by (simp add: m take_bit_eq_mask)
qed

lemma uint_granularity: "uint (push_bit SEQUENCE_LOCKTIME_GRANULARITY (take_bit 16 (x :: u32))) = 512 * uint (take_bit 16 x)"
proof -
  have "uint (take_bit 16 x) < 2 ^ 16" using take_bit_int_less_exp [of 16 "uint x"] by (simp add: unsigned_take_bit_eq)
  then have "uint (take_bit 16 x) * uint (512 :: u32) < 2 ^ LENGTH(32)" by simp
  then have "uint (take_bit 16 x * 512) = uint (take_bit 16 x) * uint (512 :: u32)" by (rule uint_mult_lem [THEN iffD1])
  then show ?thesis by (simp add: SEQUENCE_LOCKTIME_GRANULARITY_def push_bit_eq_mult)
qed

lemma median_times_nonneg: "median_times st n p = Inr ts \<Longrightarrow> \<forall>t \<in> set ts. 0 \<le> t"
  by (induction st n p arbitrary: ts rule: median_times.induct) (auto simp: sum_bind_Inr_iff GetBlockTime_def)

lemma GetMedianTimePast_nonneg:
  assumes "GetMedianTimePast st p = Inr m"
  shows "0 \<le> m"
proof -
  obtain ts where ts: "median_times st nMedianTimeSpan (Some p) = Inr ts" "m = sort ts ! (length ts div 2)"
    using assms by (auto simp: GetMedianTimePast_def sum_bind_Inr_iff)
  have "ts \<noteq> []" using ts(1) by (auto simp: nMedianTimeSpan_def numeral_eq_Suc sum_bind_Inr_iff)
  then have "m \<in> set (sort ts)" unfolding ts(2) by (intro nth_mem) simp
  then show ?thesis using median_times_nonneg [OF ts(1)] by simp
qed

definition mtp :: "block_store \<Rightarrow> bid \<Rightarrow> int" where
  "mtp st p = (case GetMedianTimePast st p of Inl _ \<Rightarrow> 0 | Inr m \<Rightarrow> m)"

definition coin_time :: "block_store \<Rightarrow> bid \<Rightarrow> int \<Rightarrow> int" where
  "coin_time st block h = (case prev_at st block (max (h - 1) 0) of None \<Rightarrow> 0 | Some a \<Rightarrow> mtp st a)"

text \<open>
  The relative lock of one input: disabled by bit 31, otherwise the low 16 bits count blocks, or
  units of 512 seconds when bit 22 is set.
\<close>

definition old_enough :: "block_store \<Rightarrow> bid \<Rightarrow> int \<Rightarrow> int \<Rightarrow> CTxIn \<times> int \<Rightarrow> bool" where
  "old_enough st block height time = (\<lambda>(i, h).
     bit (nSequence i) 31 \<or>
     (if bit (nSequence i) 22 then 512 * uint (take_bit 16 (nSequence i)) \<le> time - coin_time st block h
      else uint (take_bit 16 (nSequence i)) \<le> height - h))"

lemma old_enough_pair: "old_enough st block height time (i, h) \<longleftrightarrow>
    bit (nSequence i) 31 \<or>
    (if bit (nSequence i) 22 then 512 * uint (take_bit 16 (nSequence i)) \<le> time - coin_time st block h
     else uint (take_bit 16 (nSequence i)) \<le> height - h)"
  by (simp add: old_enough_def)

lemma coin_time_value:
  assumes "index_wf st" "st block = Some b" "0 \<le> h" "h \<le> nHeight b"
  shows "\<exists>a. GetAncestor st block (max (h - 1) 0) = Inr (Some a) \<and> GetMedianTimePast st a = Inr (coin_time st block h)"
proof -
  have "0 \<le> max (h - 1) 0" "max (h - 1) 0 \<le> nHeight b" using assms(3,4) by auto
  with nth_prev_height [OF assms(1,2), of "nat (nHeight b - max (h - 1) 0)"]
  obtain a c where a: "prev_at st block (max (h - 1) 0) = Some a" "st a = Some c"
    using assms(2) by (auto simp: prev_at_def)
  obtain m where "GetMedianTimePast st a = Inr m" using GetMedianTimePast_total [OF assms(1) a(2)] .
  then show ?thesis using a GetAncestor_prev_at [OF assms(1,2)] by (auto simp: coin_time_def mtp_def)
qed

lemma locks_loop_law:
  assumes "index_wf st" "st block = Some b"
  shows "\<forall>(i, h) \<in> set ins. 0 \<le> h \<and> h \<le> nHeight b \<Longrightarrow>
    \<exists>H T hs. locks_loop st block ins nMinHeight nMinTime = Inr ((H, T), hs) \<and>
      (H < height \<and> T < time \<longleftrightarrow> nMinHeight < height \<and> nMinTime < time \<and> list_all (old_enough st block height time) ins)"
proof (induction ins arbitrary: nMinHeight nMinTime)
  case (Cons x ins)
  obtain i h where x: "x = (i, h)" by fastforce
  have h: "0 \<le> h" "h \<le> nHeight b" using Cons.prems x by auto
  have ih: "\<exists>H T hs. locks_loop st block ins n t = Inr ((H, T), hs) \<and>
      (H < height \<and> T < time \<longleftrightarrow> n < height \<and> t < time \<and> list_all (old_enough st block height time) ins)" for n t
    using Cons.IH Cons.prems by simp
  obtain a where a: "GetAncestor st block (max (h - 1) 0) = Inr (Some a)" "GetMedianTimePast st a = Inr (coin_time st block h)"
    using coin_time_value [OF assms h] by blast
  let ?s = "nSequence i"
  let ?t = "max nMinTime (coin_time st block h + 512 * uint (take_bit 16 ?s) - 1)"
  let ?n = "max nMinHeight (h + uint (take_bit 16 ?s) - 1)"
  consider (off) "bit ?s 31" | (time) "\<not> bit ?s 31" "bit ?s 22" | (height) "\<not> bit ?s 31" "\<not> bit ?s 22" by blast
  then show ?case
  proof cases
    case off
    then show ?thesis using ih [of nMinHeight nMinTime] by (auto simp: x sequence_flags old_enough_pair)
  next
    case time
    obtain H T hs where l: "locks_loop st block ins nMinHeight ?t = Inr ((H, T), hs)"
      "H < height \<and> T < time \<longleftrightarrow> nMinHeight < height \<and> ?t < time \<and> list_all (old_enough st block height time) ins"
      using ih [of nMinHeight ?t] by blast
    have "locks_loop st block (x # ins) nMinHeight nMinTime = Inr ((H, T), h # hs)"
      using time a l(1) by (simp add: x sequence_flags uint_granularity Let_def)
    then show ?thesis using l(2) time by (auto simp: x old_enough_pair)
  next
    case height
    obtain H T hs where l: "locks_loop st block ins ?n nMinTime = Inr ((H, T), hs)"
      "H < height \<and> T < time \<longleftrightarrow> ?n < height \<and> nMinTime < time \<and> list_all (old_enough st block height time) ins"
      using ih [of ?n nMinTime] by blast
    have "locks_loop st block (x # ins) nMinHeight nMinTime = Inr ((H, T), h # hs)"
      using height l(1) by (simp add: x sequence_flags Let_def)
    then show ?thesis using l(2) height by (auto simp: x old_enough_pair)
  qed
qed simp

section \<open>Properties\<close>

text \<open>
  C39: relative lock times. For a transaction that has them enforced, in a block of a well-formed index
  and with the heights of the coins it spends, \<open>SequenceLocks\<close> fails no assertion, and it accepts exactly
  when every input that does not disable its lock spends a coin at least as old as the lock says: in
  blocks, or in units of 512 seconds between the median time past of the block before the coin's and
  that of the block before this one.
\<close>

theorem SequenceLocks_bip68:
  assumes "index_wf st" "st block = Some b" "pprev b = Some prev" "enforces_bip68 tx flags"
    and "length hs = length (vin tx)" "\<forall>h \<in> set hs. 0 \<le> h \<and> h \<le> nHeight b"
  shows "\<exists>hs'. SequenceLocks st tx flags hs block =
    Inr (list_all (old_enough st block (nHeight b) (mtp st prev)) (zip (vin tx) hs), hs')"
proof -
  have "\<forall>(i, h) \<in> set (zip (vin tx) hs). 0 \<le> h \<and> h \<le> nHeight b" using assms(6) by (auto dest: set_zip_rightD)
  from locks_loop_law [OF assms(1,2) this, of "- 1" "- 1" "nHeight b" "mtp st prev"]
  obtain H T hs' where l: "locks_loop st block (zip (vin tx) hs) (- 1) (- 1) = Inr ((H, T), hs')"
    "H < nHeight b \<and> T < mtp st prev \<longleftrightarrow> - 1 < nHeight b \<and> - 1 < mtp st prev \<and>
       list_all (old_enough st block (nHeight b) (mtp st prev)) (zip (vin tx) hs)" by blast
  obtain c where "st prev = Some c" using index_wfD(3) [OF assms(1,2,3)] by blast
  from GetMedianTimePast_total [OF assms(1) this] obtain m where m: "GetMedianTimePast st prev = Inr m" .
  then have "mtp st prev = m" "0 \<le> m" using GetMedianTimePast_nonneg by (simp_all add: mtp_def)
  moreover have "0 \<le> nHeight b" using index_wfD(1) [OF assms(1,2)] .
  ultimately have "\<not> (H \<ge> nHeight b \<or> T \<ge> m) \<longleftrightarrow> list_all (old_enough st block (nHeight b) (mtp st prev)) (zip (vin tx) hs)"
    using l(2) by auto
  then show ?thesis using l(1) m assms(2-5)
    by (simp add: SequenceLocks_def CalculateSequenceLocks_def EvaluateSequenceLocks_def deref_def)
qed

abbreviation lock_tx :: "u32 \<Rightarrow> CTransaction" where
  "lock_tx q \<equiv> \<lparr> vin = [\<lparr> prevout = \<lparr> op_hash = replicate 32 1, op_n = 0 \<rparr>, scriptSig = [], nSequence = q, scriptWitness = [] \<rparr>],
     vout = [\<lparr> nValue = 49 * COIN, scriptPubKey = [0x51] \<rparr>], tx_nVersion = 2, nLockTime = 0 \<rparr>"

theorem SequenceLocks_bip68_witness:
  "(\<exists>hs. SequenceLocks sample_index (lock_tx 1) LOCKTIME_VERIFY_SEQUENCE [1] 2 = Inr (True, hs)) \<and>
   (\<exists>hs. SequenceLocks sample_index (lock_tx 2) LOCKTIME_VERIFY_SEQUENCE [1] 2 = Inr (False, hs)) \<and>
   (\<exists>hs. SequenceLocks sample_index (lock_tx 0x400001) LOCKTIME_VERIFY_SEQUENCE [1] 2 = Inr (True, hs)) \<and>
   (\<exists>hs. SequenceLocks sample_index (lock_tx 0x400002) LOCKTIME_VERIFY_SEQUENCE [1] 2 = Inr (False, hs))"
proof -
  have p: "pprev (sample_node (Some 1) (Some 0) 2 2200) = Some 1" by simp
  have v: "enforces_bip68 (lock_tx q) LOCKTIME_VERIFY_SEQUENCE" for q by (simp add: enforces_bip68_def LOCKTIME_VERIFY_SEQUENCE_def)
  have l: "\<exists>hs. SequenceLocks sample_index (lock_tx q) LOCKTIME_VERIFY_SEQUENCE [1] 2 =
      Inr (list_all (old_enough sample_index 2 2 (mtp sample_index 1)) (zip (vin (lock_tx q)) [1]), hs)" for q
    using SequenceLocks_bip68 [OF sample_index_wf sample_index_2 p v [of q], of "[1]"] by simp
  have "list_all (old_enough sample_index 2 2 (mtp sample_index 1)) (zip (vin (lock_tx 1)) [1])"
    "\<not> list_all (old_enough sample_index 2 2 (mtp sample_index 1)) (zip (vin (lock_tx 2)) [1])"
    "list_all (old_enough sample_index 2 2 (mtp sample_index 1)) (zip (vin (lock_tx 0x400001)) [1])"
    "\<not> list_all (old_enough sample_index 2 2 (mtp sample_index 1)) (zip (vin (lock_tx 0x400002)) [1])" by code_simp+
  then show ?thesis using l [of 1] l [of 2] l [of "0x400001"] l [of "0x400002"] by simp
qed

text \<open>
  C40: a transaction that passed \<open>CheckTransaction\<close> is accepted by \<open>CheckTxInputs\<close> exactly when every
  input spends an existing coin of a valid amount, a coinbase only after 100 blocks, the coins add up to at
  most \<open>MAX_MONEY\<close>, and they cover the outputs. The fee returned is exactly the difference, the set of coins is
  unchanged, a refusal is always a verdict on the transaction, and no assertion fails and nothing is thrown.
\<close>

theorem CheckTxInputs_exact:
  assumes "cache_ok v" "CheckTransaction tx = Inr ()" "\<not> IsCoinBase tx"
  shows "case CheckTxInputs tx v h of
      Inl e \<Rightarrow> \<not> spends_ok (coins v) h tx \<and> (\<exists>r s. e = Invalid r s)
    | Inr (fee, v') \<Rightarrow> spends_ok (coins v) h tx \<and> fee = value_in (coins v) tx - value_out tx \<and>
        cache_ok v' \<and> coins v' = coins v"
  using assms by (rule CheckTxInputs_law)

abbreviation funded_view :: coins_cache where
  "funded_view \<equiv> (ViewDB \<lparr> db_coins = [\<lparr> op_hash = replicate 32 1, op_n = 0 \<rparr> \<mapsto> make_Coin \<lparr> nValue = 50 * COIN, scriptPubKey = [0x51] \<rparr> 1 True],
     db_best = Some (replicate 32 1), db_heads = [] \<rparr>, \<lparr> hashBlock = replicate 32 1, cacheCoins = [] \<rparr>)"

lemma funded_view_ok: "cache_ok funded_view"
  "coins funded_view = [\<lparr> op_hash = replicate 32 1, op_n = 0 \<rparr> \<mapsto> make_Coin \<lparr> nValue = 50 * COIN, scriptPubKey = [0x51] \<rparr> 1 True]"
  by (auto simp: map_ok_def over_def IsSpent_def CTxOut_IsNull_def make_Coin_def COIN_def split: if_splits)

lemma lock_tx_checks: "CheckTransaction (lock_tx 1) = Inr ()" "\<not> IsCoinBase (lock_tx 1)"
proof -
  have len: "length (SerializeTransaction False (lock_tx 1)) = 61" by code_simp
  show cb: "\<not> IsCoinBase (lock_tx 1)" by code_simp
  show "CheckTransaction (lock_tx 1) = Inr ()"
    using len cb unfolding CheckTransaction_iff
    by (simp add: WITNESS_SCALE_FACTOR_def MAX_BLOCK_WEIGHT_def MoneyRange_def MAX_MONEY_def COIN_def COutPoint_IsNull_def)
qed

theorem CheckTxInputs_exact_witness:
  "(\<exists>v. CheckTxInputs (lock_tx 1) funded_view 101 = Inr (1 * COIN, v)) \<and>
   (\<exists>r s. CheckTxInputs (lock_tx 1) funded_view 100 = Inl (Invalid r s))"
proof -
  note law = CheckTxInputs_exact [OF funded_view_ok(1) lock_tx_checks]
  have "spends_ok (coins funded_view) 101 (lock_tx 1)" "\<not> spends_ok (coins funded_view) 100 (lock_tx 1)"
    "value_in (coins funded_view) (lock_tx 1) - value_out (lock_tx 1) = 1 * COIN"
    unfolding funded_view_ok(2) by code_simp+
  then show ?thesis using law [of 101] law [of 100] by (auto split: sum.splits prod.splits)
qed

end
