(* ===== verification/Signet.thy ===== *)
theory Signet
  imports TxVerify
begin

text \<open>
  The block solutions of a signet, \<open>src/src/signet.cpp\<close>: the coinbase's witness commitment carries the
  script signature and witness that spend a virtual output paying to the challenge, and the virtual
  transaction commits to the block with the solution taken out.
\<close>

section \<open>Definitions\<close>

definition SIGNET_HEADER :: "u8 list" where "SIGNET_HEADER = [0xec, 0xc7, 0xda, 0xa2]"

definition BLOCK_SCRIPT_VERIFY_FLAGS :: u32 where
  "BLOCK_SCRIPT_VERIFY_FLAGS =
     SCRIPT_VERIFY_P2SH OR SCRIPT_VERIFY_WITNESS OR SCRIPT_VERIFY_DERSIG OR SCRIPT_VERIFY_NULLDUMMY"

definition fetch_step :: "u8 list \<Rightarrow> opcodetype \<Rightarrow> valtype \<Rightarrow> bool \<times> u8 list \<times> CScript \<Rightarrow> bool \<times> u8 list \<times> CScript" where
  "fetch_step header opcode pushdata = (\<lambda>(found_header, result, replacement).
     if length pushdata > 0 then
       if \<not> found_header \<and> length pushdata > length header \<and> take (length header) pushdata = header
       then (True, result @ drop (length header) pushdata, push_data replacement (take (length header) pushdata))
       else (found_header, result, push_data replacement pushdata)
     else (found_header, result, push_opcode replacement opcode))"

function fetch_loop :: "u8 list \<Rightarrow> bool \<times> u8 list \<times> CScript \<Rightarrow> CScript \<Rightarrow> bool \<times> u8 list \<times> CScript" where
  "fetch_loop header acc pc =
     (case GetScriptOp pc of
        None \<Rightarrow> acc
      | Some (opcode, pushdata, pc) \<Rightarrow> fetch_loop header (fetch_step header opcode pushdata acc) pc)"
  by pat_completeness auto
termination
  by (relation "measure (\<lambda>(h, acc, pc). length pc)") (auto dest: GetScriptOp_shrinks)

declare fetch_loop.simps [simp del]

definition FetchAndClearCommitmentSection :: "u8 list \<Rightarrow> CScript \<Rightarrow> bool \<times> u8 list \<times> CScript" where
  "FetchAndClearCommitmentSection header witness_commitment =
     (case fetch_loop header (False, [], []) witness_commitment of
        (found_header, result, replacement) \<Rightarrow>
          (found_header, result, if found_header then replacement else witness_commitment))"

definition ComputeModifiedMerkleRoot :: "d64_impl \<Rightarrow> CTransaction \<Rightarrow> CBlock \<Rightarrow> uint256" where
  "ComputeModifiedMerkleRoot impl cb block =
     fst (ComputeMerkleRoot impl (tx_GetHash cb # map tx_GetHash (tl (vtx block))) False)"

definition signet_solution_of :: "bool \<Rightarrow> u8 list \<Rightarrow> (u8 list \<times> u8 list list) option" where
  "signet_solution_of found_header signet_solution =
     (if \<not> found_header then Some ([], [])
      else case sum_bind (unser_bytes signet_solution) (\<lambda>(sig, s). sum_bind (unser_stack s) (\<lambda>(w, s). Inr (sig, w, s))) of
        Inl _ \<Rightarrow> None
      | Inr (sig, w, s) \<Rightarrow> if s \<noteq> [] then None else Some (sig, w))"

definition signet_block_data :: "CBlockHeader \<Rightarrow> uint256 \<Rightarrow> u8 list" where
  "signet_block_data h signet_merkle =
     ser_writedata32 (hdr_nVersion h) @ ser_uint256 (hdr_hashPrevBlock h) @ ser_uint256 signet_merkle @ ser_writedata32 (hdr_nTime h)"

text \<open>\<open>SignetTxs::Create\<close>: the virtual transaction to spend and the one that spends it.\<close>

definition SignetTxs_Create :: "d64_impl \<Rightarrow> CBlock \<Rightarrow> CScript \<Rightarrow> (CTransaction \<times> CTransaction) option" where
  "SignetTxs_Create impl block challenge =
     (case vtx block of [] \<Rightarrow> None
      | cb # _ \<Rightarrow>
          let cidx = GetWitnessCommitmentIndex block in
          if cidx = NO_WITNESS_COMMITMENT then None
          else
            let (found, signet_solution, commitment) =
                  FetchAndClearCommitmentSection SIGNET_HEADER (scriptPubKey (vout cb ! nat cidx));
                modified_cb = cb\<lparr> vout := (vout cb)[nat cidx := (vout cb ! nat cidx)\<lparr> scriptPubKey := commitment \<rparr>] \<rparr>
            in case signet_solution_of found signet_solution of None \<Rightarrow> None
               | Some (sig, w) \<Rightarrow>
                   let signet_merkle = ComputeModifiedMerkleRoot impl modified_cb block;
                       tx_to_spend = \<lparr> vin = [\<lparr> prevout = COutPoint_null,
                           scriptSig = push_data [OP_0] (signet_block_data (block_header block) signet_merkle),
                           nSequence = 0, scriptWitness = [] \<rparr>],
                         vout = [\<lparr> nValue = 0, scriptPubKey = challenge \<rparr>], tx_nVersion = 0, nLockTime = 0 \<rparr>;
                       tx_spending = \<lparr> vin = [\<lparr> prevout = \<lparr> op_hash = tx_GetHash tx_to_spend, op_n = 0 \<rparr>,
                           scriptSig = sig, nSequence = 0, scriptWitness = w \<rparr>],
                         vout = [\<lparr> nValue = 0, scriptPubKey = [OP_RETURN] \<rparr>], tx_nVersion = 0, nLockTime = 0 \<rparr>
                   in Some (tx_to_spend, tx_spending))"

text \<open>The boolean a caller of \<open>VerifyScript\<close> sees.\<close>

fun script_verdict :: "eval_stop + unit \<Rightarrow> fault + bool" where
  "script_verdict (Inr _) = Inr True"
| "script_verdict (Inl (Fail e)) = Inr False"
| "script_verdict (Inl FailSilent) = Inr False"
| "script_verdict (Inl Thrown) = Inl Uncaught"
| "script_verdict (Inl (Abort f)) = Inl f"

definition CheckSignetBlockSolution :: "d64_impl \<Rightarrow> curve_ops \<Rightarrow> CBlock \<Rightarrow> Params \<Rightarrow> fault + bool" where
  "CheckSignetBlockSolution impl ec block params =
     (if CBlockHeader_GetHash (block_header block) = hashGenesisBlock params then Inr True
      else case SignetTxs_Create impl block (signet_challenge params) of
        None \<Rightarrow> Inr False
      | Some (to_spend, to_sign) \<Rightarrow>
          sum_bind (txdata_Init txdata_init to_sign [vout to_spend ! 0] False) (\<lambda>txdata.
            script_verdict (VerifyScript ec (scriptSig (vin to_sign ! 0)) (scriptPubKey (vout to_spend ! 0))
              (Some (scriptWitness (vin to_sign ! 0))) BLOCK_SCRIPT_VERIFY_FLAGS
              (TransactionSignatureChecker ec (input_checker to_sign 0 [vout to_spend ! 0] txdata)))))"

section \<open>The solution check decides\<close>

lemma block_script_flags_ok: "flags_ok BLOCK_SCRIPT_VERIFY_FLAGS"
  by code_simp

lemma script_verdict_total: "r \<in> {Inr ()} \<union> range (Inl \<circ> Fail) \<Longrightarrow> \<exists>b. script_verdict r = Inr b"
  by auto

lemma txdata_Init_total: "length outs = length (vin tx) \<Longrightarrow> \<exists>d. txdata_Init txdata_init tx outs force = Inr d"
  by (auto simp: txdata_Init_def txdata_init_def Let_def split: prod.split)

lemma CheckSignetBlockSolution_total: "\<exists>b. CheckSignetBlockSolution impl ec block params = Inr b"
proof (cases "SignetTxs_Create impl block (signet_challenge params)")
  case (Some p)
  obtain a b where p: "p = (a, b)" by fastforce
  have n: "length (vout a) = 1" "length (vin b) = 1" "nValue (vout a ! 0) = 0"
    using Some p by (auto simp: SignetTxs_Create_def Let_def split: list.splits if_splits prod.splits option.splits)
  obtain d where d: "txdata_Init txdata_init b [vout a ! 0] False = Inr d" using txdata_Init_total [of "[vout a ! 0]" b] n by auto
  show ?thesis
    using script_verdict_total [OF VerifyScript_input [OF block_script_flags_ok d, of 0 ec]] n d Some p
    by (auto simp: CheckSignetBlockSolution_def)
qed (auto simp: CheckSignetBlockSolution_def)

end
