(* ===== verification/Validation.thy ===== *)
theory Validation
  imports Pow VersionBits Signet
begin

text \<open>
  Block validation, \<open>src/src/validation.cpp\<close>: the subsidy, the checks of a block without and with its
  parent, the script checks of a transaction, connecting a block to the set of coins and
  disconnecting it. A block's flag \<open>fChecked\<close> is an argument and the new value a result. What a
  function reads of the chain state besides the coins is in a record. The two disk operations are
  functions of the record: writing undo data gives a position or fails, reading it gives the data
  or fails. The script execution cache is the list of the keys it holds; its eviction only makes it
  shorter. The signature verification a checker calls is the curve argument, with or without the
  signature cache in front of it.
\<close>

section \<open>Definitions: the subsidy\<close>

definition GetBlockSubsidy :: "int \<Rightarrow> Params \<Rightarrow> fault + int" where
  "GetBlockSubsidy h params =
     sum_bind (cdiv h (nSubsidyHalvingInterval params)) (\<lambda>halvings.
       if halvings \<ge> 64 then Inr 0
       else let nSubsidy = (if h > 0 \<and> h \<le> 1 then 1000000 * COIN else 50 * COIN)
            in Inr (drop_bit (nat halvings) nSubsidy))"

section \<open>Definitions: checks of a block by itself\<close>

definition CheckBlockHeader :: "CBlockHeader \<Rightarrow> Params \<Rightarrow> bool \<Rightarrow> block_stop + unit" where
  "CheckBlockHeader h params fCheckPOW =
     (if fCheckPOW \<and> \<not> CheckProofOfWork (CBlockHeader_GetHash h) (hdr_nBits h) params
      then Inl (Invalid BLOCK_INVALID_HEADER ''high-hash'') else Inr ())"

definition check_signet :: "d64_impl \<Rightarrow> curve_ops \<Rightarrow> CBlock \<Rightarrow> Params \<Rightarrow> bool \<Rightarrow> block_stop + unit" where
  "check_signet impl ec block params fCheckPOW =
     (if signet_blocks params \<and> fCheckPOW
      then sum_bind (or_halt (CheckSignetBlockSolution impl ec block params)) (\<lambda>ok.
             if ok then Inr () else Inl (Invalid BLOCK_CONSENSUS ''bad-signet-blksig''))
      else Inr ())"

definition check_merkle :: "d64_impl \<Rightarrow> CBlock \<Rightarrow> bool \<Rightarrow> block_stop + unit" where
  "check_merkle impl block fCheckMerkleRoot =
     (if fCheckMerkleRoot then
        let (hashMerkleRoot2, mutated) = BlockMerkleRoot impl block True in
        if hdr_hashMerkleRoot (block_header block) \<noteq> hashMerkleRoot2 then Inl (Invalid BLOCK_MUTATED ''bad-txnmrklroot'')
        else if mutated then Inl (Invalid BLOCK_MUTATED ''bad-txns-duplicate'')
        else Inr ()
      else Inr ())"

fun check_transactions :: "CTransaction list \<Rightarrow> block_stop + unit" where
  "check_transactions [] = Inr ()"
| "check_transactions (tx # txs) =
     (case CheckTransaction tx of
        Inr _ \<Rightarrow> check_transactions txs
      | Inl (Invalid r reason) \<Rightarrow> if r = TX_CONSENSUS then Inl (Invalid BLOCK_CONSENSUS reason) else Inl (Halt AssertFailed)
      | Inl (NodeError s) \<Rightarrow> Inl (Halt AssertFailed)
      | Inl (Halt f) \<Rightarrow> Inl (Halt f))"

fun block_sigops :: "u32 \<Rightarrow> CTransaction list \<Rightarrow> fault + u32" where
  "block_sigops nSigOps [] = Inr nSigOps"
| "block_sigops nSigOps (tx # txs) = sum_bind (GetLegacySigOpCount tx) (\<lambda>k. block_sigops (nSigOps + k) txs)"

definition CheckBlock :: "d64_impl \<Rightarrow> curve_ops \<Rightarrow> CBlock \<Rightarrow> bool \<Rightarrow> Params \<Rightarrow> bool \<Rightarrow> bool \<Rightarrow> block_stop + bool" where
  "CheckBlock impl ec block fChecked params fCheckPOW fCheckMerkleRoot =
     (if fChecked then Inr True
      else sum_bind (CheckBlockHeader (block_header block) params fCheckPOW) (\<lambda>_.
        sum_bind (check_signet impl ec block params fCheckPOW) (\<lambda>_.
        sum_bind (check_merkle impl block fCheckMerkleRoot) (\<lambda>_.
        if vtx block = [] \<or> length (vtx block) * WITNESS_SCALE_FACTOR > MAX_BLOCK_WEIGHT \<or>
           length (ser_CBlock False block) * WITNESS_SCALE_FACTOR > MAX_BLOCK_WEIGHT
        then Inl (Invalid BLOCK_CONSENSUS ''bad-blk-length'')
        else if vtx block = [] \<or> \<not> IsCoinBase (hd (vtx block)) then Inl (Invalid BLOCK_CONSENSUS ''bad-cb-missing'')
        else if \<exists>tx \<in> set (tl (vtx block)). IsCoinBase tx then Inl (Invalid BLOCK_CONSENSUS ''bad-cb-multiple'')
        else sum_bind (check_transactions (vtx block)) (\<lambda>_.
          sum_bind (or_halt (block_sigops 0 (vtx block))) (\<lambda>nSigOps.
            if uint (nSigOps * of_nat WITNESS_SCALE_FACTOR) > MAX_BLOCK_SIGOPS_COST
            then Inl (Invalid BLOCK_CONSENSUS ''bad-blk-sigops'')
            else Inr (fCheckPOW \<and> fCheckMerkleRoot)))))))"

section \<open>Definitions: checks with the parent\<close>

definition MAX_FUTURE_BLOCK_TIME :: int where "MAX_FUTURE_BLOCK_TIME = 2 * 60 * 60"

text \<open>The checkpoints are in the order of their heights; the last one whose block is known counts.\<close>

definition GetLastCheckpoint :: "(uint256 \<Rightarrow> bid option) \<Rightarrow> (int \<times> uint256) list \<Rightarrow> bid option" where
  "GetLastCheckpoint m_block_index checkpoints =
     fold (\<lambda>(_, h) r. case m_block_index h of None \<Rightarrow> r | Some p \<Rightarrow> Some p) checkpoints None"

definition below_checkpoint :: "block_store \<Rightarrow> bool \<Rightarrow> bid option \<Rightarrow> int \<Rightarrow> fault + bool" where
  "below_checkpoint st fCheckpointsEnabled pcheckpoint h =
     (case pcheckpoint of
        Some p \<Rightarrow> if fCheckpointsEnabled then sum_bind (deref st p) (\<lambda>c. Inr (h < nHeight c)) else Inr False
      | None \<Rightarrow> Inr False)"

text \<open>The times are in seconds, the clock \<open>now\<close> in nanoseconds.\<close>

definition ContextualCheckBlockHeader ::
    "block_store \<Rightarrow> Params \<Rightarrow> bool \<Rightarrow> bid option \<Rightarrow> CBlockHeader \<Rightarrow> bid \<Rightarrow> int \<Rightarrow> block_stop + unit" where
  "ContextualCheckBlockHeader st params fCheckpointsEnabled pcheckpoint block pindexPrev now =
     sum_bind (or_halt (deref st pindexPrev)) (\<lambda>prev.
     sum_bind (or_halt (below_checkpoint st fCheckpointsEnabled pcheckpoint (nHeight prev + 1))) (\<lambda>below.
     if below then Inl (Invalid BLOCK_CHECKPOINT ''bad-fork-prior-to-checkpoint'')
     else sum_bind (or_halt (GetMedianTimePast st pindexPrev)) (\<lambda>past.
       if uint (hdr_nTime block) \<le> past then Inl (Invalid BLOCK_INVALID_HEADER ''time-too-old'')
       else if uint (hdr_nTime block) * 10 ^ 9 > now + MAX_FUTURE_BLOCK_TIME * 10 ^ 9
       then Inl (Invalid BLOCK_TIME_FUTURE ''time-too-new'')
       else sum_bind (or_halt (BuriedActiveAfter st (Some pindexPrev) params DEPLOYMENT_HEIGHTINCB)) (\<lambda>heightincb.
         sum_bind (or_halt (BuriedActiveAfter st (Some pindexPrev) params DEPLOYMENT_DERSIG)) (\<lambda>dersig.
         sum_bind (or_halt (BuriedActiveAfter st (Some pindexPrev) params DEPLOYMENT_CLTV)) (\<lambda>cltv.
         let ver = sint (hdr_nVersion block) in
         if ver < 2 \<and> heightincb \<or> ver < 3 \<and> dersig \<or> ver < 4 \<and> cltv
         then Inl (Invalid BLOCK_INVALID_HEADER ''bad-version'') else Inr ()))))))"

text \<open>The first input of the first transaction.\<close>

definition coinbase_input :: "CBlock \<Rightarrow> fault + CTxIn" where
  "coinbase_input block =
     (case vtx block of [] \<Rightarrow> Inl OutOfRange | tx # _ \<Rightarrow> (case vin tx of [] \<Rightarrow> Inl OutOfRange | i # _ \<Rightarrow> Inr i))"

definition check_coinbase_height :: "CBlock \<Rightarrow> int \<Rightarrow> block_stop + unit" where
  "check_coinbase_height block h =
     sum_bind (or_halt (coinbase_input block)) (\<lambda>i.
       let expect = push_int64 [] h in
       if length (scriptSig i) < length expect \<or> take (length expect) (scriptSig i) \<noteq> expect
       then Inl (Invalid BLOCK_CONSENSUS ''bad-cb-height'') else Inr ())"

definition check_witness_commitment :: "d64_impl \<Rightarrow> CBlock \<Rightarrow> block_stop + bool" where
  "check_witness_commitment impl block =
     (let commitpos = GetWitnessCommitmentIndex block in
      if commitpos = NO_WITNESS_COMMITMENT then Inr False
      else sum_bind (or_halt (BlockWitnessMerkleRoot impl block True)) (\<lambda>(hashWitness, malleated).
        sum_bind (or_halt (coinbase_input block)) (\<lambda>i.
          if length (scriptWitness i) \<noteq> 1 \<or> length (scriptWitness i ! 0) \<noteq> 32
          then Inl (Invalid BLOCK_MUTATED ''bad-witness-nonce-size'')
          else sum_bind (or_halt (CHash256_Finalize (CHash256_Write (CHash256_Write CSHA256 hashWitness) (scriptWitness i ! 0)) 32)) (\<lambda>h.
            if h \<noteq> take 32 (drop 6 (scriptPubKey (vout (hd (vtx block)) ! nat commitpos)))
            then Inl (Invalid BLOCK_MUTATED ''bad-witness-merkle-match'') else Inr True))))"

definition ContextualCheckBlock :: "d64_impl \<Rightarrow> block_store \<Rightarrow> Params \<Rightarrow> CBlock \<Rightarrow> bid option \<Rightarrow> block_stop + unit" where
  "ContextualCheckBlock impl st params block pindexPrev =
     (case pindexPrev of None \<Rightarrow> Inr ()
      | Some prev \<Rightarrow>
          sum_bind (or_halt (deref st prev)) (\<lambda>p.
          let h = nHeight p + 1 in
          if h = 0 then Inr () else
          sum_bind (or_halt (BuriedActiveAfter st pindexPrev params DEPLOYMENT_CSV)) (\<lambda>csv.
          sum_bind (if csv then or_halt (GetMedianTimePast st prev) else Inr (uint (hdr_nTime (block_header block)))) (\<lambda>nLockTimeCutoff.
          if \<exists>tx \<in> set (vtx block). \<not> IsFinalTx tx h nLockTimeCutoff then Inl (Invalid BLOCK_CONSENSUS ''bad-txns-nonfinal'')
          else sum_bind (or_halt (BuriedActiveAfter st pindexPrev params DEPLOYMENT_HEIGHTINCB)) (\<lambda>heightincb.
            sum_bind (if heightincb then check_coinbase_height block h else Inr ()) (\<lambda>_.
            sum_bind (or_halt (BuriedActiveAfter st pindexPrev params DEPLOYMENT_SEGWIT)) (\<lambda>segwit.
            sum_bind (if segwit then check_witness_commitment impl block else Inr False) (\<lambda>fHaveWitness.
            if \<not> fHaveWitness \<and> (\<exists>tx \<in> set (vtx block). HasWitness tx) then Inl (Invalid BLOCK_MUTATED ''unexpected-witness'')
            else if GetBlockWeight block > MAX_BLOCK_WEIGHT then Inl (Invalid BLOCK_CONSENSUS ''bad-blk-weight'')
            else Inr ()))))))))"

section \<open>Definitions: the chain state\<close>

record chain_state =
  cs_params :: Params
  cs_index :: block_store
  m_block_index :: "uint256 \<Rightarrow> bid option"
  m_best_header :: bid
  hashAssumeValid :: uint256
  cs_nMinimumChainWork :: base_uint
  g_parallel_script_checks :: bool
  g_scriptExecutionCacheHasher :: hash_ctx
  g_scriptExecutionCache :: "uint256 list"
  cs_impl :: d64_impl
  cs_curve :: curve_ops
  UndoWriteToDisk :: "Coin list list \<Rightarrow> u32 option"
  UndoReadFromDisk :: "bid \<Rightarrow> Coin list list option"

section \<open>Definitions: script checks\<close>

definition MANDATORY_SCRIPT_VERIFY_FLAGS :: u32 where "MANDATORY_SCRIPT_VERIFY_FLAGS = SCRIPT_VERIFY_P2SH"

definition STANDARD_SCRIPT_VERIFY_FLAGS :: u32 where
  "STANDARD_SCRIPT_VERIFY_FLAGS = MANDATORY_SCRIPT_VERIFY_FLAGS OR SCRIPT_VERIFY_DERSIG OR SCRIPT_VERIFY_STRICTENC OR
     SCRIPT_VERIFY_MINIMALDATA OR SCRIPT_VERIFY_NULLDUMMY OR SCRIPT_VERIFY_DISCOURAGE_UPGRADABLE_NOPS OR
     SCRIPT_VERIFY_CLEANSTACK OR SCRIPT_VERIFY_MINIMALIF OR SCRIPT_VERIFY_NULLFAIL OR SCRIPT_VERIFY_CHECKLOCKTIMEVERIFY OR
     SCRIPT_VERIFY_CHECKSEQUENCEVERIFY OR SCRIPT_VERIFY_LOW_S OR SCRIPT_VERIFY_WITNESS OR
     SCRIPT_VERIFY_DISCOURAGE_UPGRADABLE_WITNESS_PROGRAM OR SCRIPT_VERIFY_WITNESS_PUBKEYTYPE OR SCRIPT_VERIFY_CONST_SCRIPTCODE OR
     SCRIPT_VERIFY_TAPROOT OR SCRIPT_VERIFY_DISCOURAGE_UPGRADABLE_TAPROOT_VERSION OR SCRIPT_VERIFY_DISCOURAGE_OP_SUCCESS OR
     SCRIPT_VERIFY_DISCOURAGE_UPGRADABLE_PUBKEYTYPE"

definition STANDARD_NOT_MANDATORY_VERIFY_FLAGS :: u32 where
  "STANDARD_NOT_MANDATORY_VERIFY_FLAGS = STANDARD_SCRIPT_VERIFY_FLAGS AND NOT MANDATORY_SCRIPT_VERIFY_FLAGS"

definition GetBlockScriptFlags :: "Params \<Rightarrow> CBlockIndex \<Rightarrow> fault + u32" where
  "GetBlockScriptFlags params b =
     (case phashBlock b of None \<Rightarrow> Inl AssertFailed
      | Some h \<Rightarrow>
          let flags = (case map_of (script_flag_exceptions params) h of
                         None \<Rightarrow> SCRIPT_VERIFY_P2SH OR SCRIPT_VERIFY_WITNESS OR SCRIPT_VERIFY_TAPROOT | Some f \<Rightarrow> f);
              flags = (if BuriedActiveAt b params DEPLOYMENT_DERSIG then flags OR SCRIPT_VERIFY_DERSIG else flags);
              flags = (if BuriedActiveAt b params DEPLOYMENT_CLTV then flags OR SCRIPT_VERIFY_CHECKLOCKTIMEVERIFY else flags);
              flags = (if BuriedActiveAt b params DEPLOYMENT_CSV then flags OR SCRIPT_VERIFY_CHECKSEQUENCEVERIFY else flags);
              flags = (if BuriedActiveAt b params DEPLOYMENT_SEGWIT then flags OR SCRIPT_VERIFY_NULLDUMMY else flags)
          in Inr flags)"

record CScriptCheck =
  m_tx_out :: CTxOut
  ptxTo :: CTransaction
  check_nIn :: nat
  check_nFlags :: u32
  check_txdata :: PrecomputedTransactionData

definition run_script_check :: "curve_ops \<Rightarrow> CScriptCheck \<Rightarrow> fault + bool" where
  "run_script_check ec c =
     (let i = vin (ptxTo c) ! check_nIn c in
      script_verdict (VerifyScript ec (scriptSig i) (scriptPubKey (m_tx_out c)) (Some (scriptWitness i)) (check_nFlags c)
        (TransactionSignatureChecker ec \<lparr> checker_txTo = ptxTo c, m_mdb = ASSERT_FAIL, checker_nIn = check_nIn c,
           checker_amount = nValue (m_tx_out c), checker_txdata = Some (check_txdata c) \<rparr>)))"

fun collect_spent :: "coins_cache \<Rightarrow> CTxIn list \<Rightarrow> fault + CTxOut list \<times> coins_cache" where
  "collect_spent inputs [] = Inr ([], inputs)"
| "collect_spent inputs (txin # ins) =
     (let (coin, inputs) = AccessCoin inputs (prevout txin) in
      if IsSpent coin then Inl AssertFailed
      else sum_bind (collect_spent inputs ins) (\<lambda>(outs, inputs). Inr (coin_out coin # outs, inputs)))"

definition make_checks :: "CTransaction \<Rightarrow> u32 \<Rightarrow> PrecomputedTransactionData \<Rightarrow> CScriptCheck list" where
  "make_checks tx flags txdata =
     map (\<lambda>i. \<lparr> m_tx_out = m_spent_outputs txdata ! i, ptxTo = tx, check_nIn = i, check_nFlags = flags, check_txdata = txdata \<rparr>)
       [0..<length (vin tx)]"

fun run_checks :: "curve_ops \<Rightarrow> CScriptCheck list \<Rightarrow> tx_stop + unit" where
  "run_checks ec [] = Inr ()"
| "run_checks ec (c # checks) =
     sum_bind (or_halt (run_script_check ec c)) (\<lambda>ok.
       if ok then run_checks ec checks
       else if check_nFlags c AND STANDARD_NOT_MANDATORY_VERIFY_FLAGS \<noteq> 0 then
         sum_bind (or_halt (run_script_check ec (c\<lparr> check_nFlags := check_nFlags c AND NOT STANDARD_NOT_MANDATORY_VERIFY_FLAGS \<rparr>))) (\<lambda>ok2.
           if ok2 then Inl (Invalid TX_NOT_STANDARD ''non-mandatory-script-verify-flag'')
           else Inl (Invalid TX_CONSENSUS ''mandatory-script-verify-flag-failed''))
       else Inl (Invalid TX_CONSENSUS ''mandatory-script-verify-flag-failed''))"

definition script_cache_entry :: "hash_ctx \<Rightarrow> CTransaction \<Rightarrow> u32 \<Rightarrow> uint256" where
  "script_cache_entry hasher tx flags =
     CSHA256_Finalize (CSHA256_Write (CSHA256_Write hasher (tx_GetWitnessHash tx)) (WriteLE32 flags))"

text \<open>
  The result is the view, the checks left to the caller (all of them when \<open>in_parallel\<close> says the caller has a
  vector for them) and the cache. The data computed for the transaction is only used here.
\<close>

definition CheckInputScripts :: "curve_ops \<Rightarrow> hash_ctx \<Rightarrow> CTransaction \<Rightarrow> coins_cache \<Rightarrow> u32 \<Rightarrow> bool \<Rightarrow> PrecomputedTransactionData \<Rightarrow> bool \<Rightarrow>
    uint256 list \<Rightarrow> tx_stop + (coins_cache \<times> CScriptCheck list \<times> uint256 list)" where
  "CheckInputScripts ec hasher tx inputs flags cacheFullScriptStore txdata in_parallel cache =
     (if IsCoinBase tx then Inr (inputs, [], cache)
      else let hashCacheEntry = script_cache_entry hasher tx flags in
        if hashCacheEntry \<in> set cache then Inr (inputs, [], cache)
        else sum_bind (or_halt (if \<not> m_spent_outputs_ready txdata then
                                  sum_bind (collect_spent inputs (vin tx)) (\<lambda>(spent_outputs, inputs).
                                  sum_bind (txdata_Init txdata tx spent_outputs False) (\<lambda>txdata. Inr (txdata, inputs)))
                                else Inr (txdata, inputs))) (\<lambda>(txdata, inputs).
          if length (m_spent_outputs txdata) \<noteq> length (vin tx) then Inl (Halt AssertFailed)
          else if in_parallel then Inr (inputs, make_checks tx flags txdata, cache)
          else sum_bind (run_checks ec (make_checks tx flags txdata)) (\<lambda>_.
            Inr (inputs, [], if cacheFullScriptStore then hashCacheEntry # cache else cache))))"

section \<open>Definitions: coins\<close>

fun spend_inputs :: "coins_cache \<Rightarrow> CTxIn list \<Rightarrow> fault + Coin list \<times> coins_cache" where
  "spend_inputs inputs [] = Inr ([], inputs)"
| "spend_inputs inputs (txin # ins) =
     (let ((is_spent, coin), inputs) = SpendCoin inputs (prevout txin) in
      if \<not> is_spent then Inl AssertFailed
      else sum_bind (spend_inputs inputs ins) (\<lambda>(undo, inputs). Inr (coin # undo, inputs)))"

definition UpdateCoins :: "CTransaction \<Rightarrow> coins_cache \<Rightarrow> int \<Rightarrow> fault + Coin list \<times> coins_cache" where
  "UpdateCoins tx inputs h =
     sum_bind (if \<not> IsCoinBase tx then spend_inputs inputs (vin tx) else Inr ([], inputs)) (\<lambda>(txundo, inputs).
     sum_bind (AddCoins inputs tx h False) (\<lambda>inputs. Inr (txundo, inputs)))"

datatype DisconnectResult = DISCONNECT_OK | DISCONNECT_UNCLEAN | DISCONNECT_FAILED

definition ApplyTxInUndo :: "Coin \<Rightarrow> coins_cache \<Rightarrow> COutPoint \<Rightarrow> fault + DisconnectResult \<times> coins_cache" where
  "ApplyTxInUndo undo view out =
     (let (have_coin, view) = cache_HaveCoin view out;
          fClean = (\<not> have_coin);
          (undo, view) = (if coin_nHeight undo = 0 then
                            let (alternate, view) = AccessByTxid view (op_hash out)
                            in (if \<not> IsSpent alternate
                                then Some (undo\<lparr> coin_nHeight := coin_nHeight alternate, fCoinBase := fCoinBase alternate \<rparr>)
                                else None, view)
                          else (Some undo, view))
      in case undo of None \<Rightarrow> Inr (DISCONNECT_FAILED, view)
         | Some undo \<Rightarrow> sum_bind (AddCoin view out undo (\<not> fClean)) (\<lambda>view.
             Inr (if fClean then DISCONNECT_OK else DISCONNECT_UNCLEAN, view)))"

fun remove_outputs :: "coins_cache \<Rightarrow> bool \<Rightarrow> uint256 \<Rightarrow> int \<Rightarrow> bool \<Rightarrow> nat \<Rightarrow> CTxOut list \<Rightarrow> bool \<times> coins_cache" where
  "remove_outputs view fClean txid h is_coinbase k [] = (fClean, view)"
| "remove_outputs view fClean txid h is_coinbase k (out # outs) =
     (if \<not> IsUnspendable (scriptPubKey out) then
        let ((is_spent, coin), view) = SpendCoin view \<lparr> op_hash = txid, op_n = of_nat k \<rparr>;
            differs = (\<not> is_spent \<or> out \<noteq> coin_out coin \<or> h \<noteq> uint (coin_nHeight coin) \<or> is_coinbase \<noteq> fCoinBase coin)
        in remove_outputs view (fClean \<and> \<not> differs) txid h is_coinbase (k + 1) outs
      else remove_outputs view fClean txid h is_coinbase (k + 1) outs)"

text \<open>The inputs and their undo coins, from the last to the first; \<^term>\<open>None\<close> where the code returns \<open>DISCONNECT_FAILED\<close>.\<close>

fun restore_inputs :: "coins_cache \<Rightarrow> bool \<Rightarrow> (CTxIn \<times> Coin) list \<Rightarrow> fault + (bool \<times> coins_cache) option" where
  "restore_inputs view fClean [] = Inr (Some (fClean, view))"
| "restore_inputs view fClean ((txin, undo) # ins) =
     sum_bind (ApplyTxInUndo undo view (prevout txin)) (\<lambda>(res, view).
       if res = DISCONNECT_FAILED then Inr None
       else restore_inputs view (fClean \<and> res \<noteq> DISCONNECT_UNCLEAN) ins)"

text \<open>The transactions from the last to the first, each with its undo data, \<^term>\<open>None\<close> for the first transaction of the block.\<close>

fun disconnect_loop :: "coins_cache \<Rightarrow> bool \<Rightarrow> int \<Rightarrow> (CTransaction \<times> Coin list option) list \<Rightarrow> fault + (bool \<times> coins_cache) option" where
  "disconnect_loop view fClean h [] = Inr (Some (fClean, view))"
| "disconnect_loop view fClean h ((tx, txundo) # txs) =
     (let (fClean, view) = remove_outputs view fClean (tx_GetHash tx) h (IsCoinBase tx) 0 (vout tx) in
      case txundo of
        None \<Rightarrow> disconnect_loop view fClean h txs
      | Some vprevout \<Rightarrow>
          if length vprevout \<noteq> length (vin tx) then Inr None
          else sum_bind (restore_inputs view fClean (rev (zip (vin tx) vprevout))) (\<lambda>r.
            case r of None \<Rightarrow> Inr None | Some (fClean, view) \<Rightarrow> disconnect_loop view fClean h txs))"

text \<open>After a failure the caller drops the view; the model returns the one it was given.\<close>

definition DisconnectBlock :: "chain_state \<Rightarrow> CBlock \<Rightarrow> bid \<Rightarrow> coins_cache \<Rightarrow> fault + DisconnectResult \<times> coins_cache" where
  "DisconnectBlock cs block pindex view =
     sum_bind (deref (cs_index cs) pindex) (\<lambda>b.
     case UndoReadFromDisk cs pindex of
       None \<Rightarrow> Inr (DISCONNECT_FAILED, view)
     | Some vtxundo \<Rightarrow>
         if length vtxundo + 1 \<noteq> length (vtx block) then Inr (DISCONNECT_FAILED, view)
         else sum_bind (disconnect_loop view True (nHeight b) (rev (zip (vtx block) (None # map Some vtxundo)))) (\<lambda>r.
           case r of None \<Rightarrow> Inr (DISCONNECT_FAILED, view)
           | Some (fClean, view) \<Rightarrow>
               (case pprev b of None \<Rightarrow> Inl BadPointer
                | Some prev \<Rightarrow>
                    sum_bind (deref (cs_index cs) prev) (\<lambda>p.
                    sum_bind (GetBlockHash p) (\<lambda>h.
                      Inr (if fClean then DISCONNECT_OK else DISCONNECT_UNCLEAN, SetBestBlock view h))))))"

section \<open>Definitions: connecting a block\<close>

definition script_checks_needed :: "chain_state \<Rightarrow> bid \<Rightarrow> CBlockIndex \<Rightarrow> fault + bool" where
  "script_checks_needed cs pindex b =
     (if hashAssumeValid cs = null_hash then Inr True
      else case m_block_index cs (hashAssumeValid cs) of None \<Rightarrow> Inr True
      | Some it \<Rightarrow>
          sum_bind (GetAncestor (cs_index cs) it (nHeight b)) (\<lambda>a.
          sum_bind (GetAncestor (cs_index cs) (m_best_header cs) (nHeight b)) (\<lambda>a'.
          sum_bind (deref (cs_index cs) (m_best_header cs)) (\<lambda>best.
            if a = Some pindex \<and> a' = Some pindex \<and> CompareTo (nChainWork best) (cs_nMinimumChainWork cs) \<ge> 0 then
              (case GetBlockProofEquivalentTime best b best (nPowTargetSpacing (cs_params cs)) of
                 Inl _ \<Rightarrow> Inl Uncaught
               | Inr t \<Rightarrow> Inr (t \<le> 60 * 60 * 24 * 7 * 2))
            else Inr True))))"

definition bip30_exception :: "int \<Rightarrow> uint256 \<Rightarrow> bool" where
  "bip30_exception h hash \<longleftrightarrow>
     h = 91842 \<and> hash = rev [0x00, 0x00, 0x00, 0x00, 0x00, 0x0a, 0x4d, 0x0a, 0x39, 0x81, 0x61, 0xff, 0xc1, 0x63, 0xc5, 0x03,
                              0x76, 0x3b, 0x1f, 0x43, 0x60, 0x63, 0x93, 0x93, 0xe0, 0xe4, 0xc8, 0xe3, 0x00, 0xe0, 0xca, 0xec] \<or>
     h = 91880 \<and> hash = rev [0x00, 0x00, 0x00, 0x00, 0x00, 0x07, 0x43, 0xf1, 0x90, 0xa1, 0x8c, 0x55, 0x77, 0xa3, 0xc2, 0xd2,
                              0xa1, 0xf6, 0x10, 0xae, 0x96, 0x01, 0xac, 0x04, 0x6a, 0x38, 0x08, 0x4c, 0xcb, 0x7c, 0xd7, 0x21]"

definition BIP34_IMPLIES_BIP30_LIMIT :: int where "BIP34_IMPLIES_BIP30_LIMIT = 1983702"

definition bip30_enforced :: "chain_state \<Rightarrow> CBlockIndex \<Rightarrow> fault + bool" where
  "bip30_enforced cs b =
     sum_bind (GetBlockHash b) (\<lambda>hash.
     case pprev b of None \<Rightarrow> Inl AssertFailed
     | Some prev \<Rightarrow>
         sum_bind (GetAncestor (cs_index cs) prev (BIP34Height (cs_params cs))) (\<lambda>a.
         sum_bind (case a of None \<Rightarrow> Inr True
                   | Some a \<Rightarrow> sum_bind (deref (cs_index cs) a) (\<lambda>c. sum_bind (GetBlockHash c) (\<lambda>h. Inr (h \<noteq> BIP34Hash (cs_params cs))))) (\<lambda>unknown.
           Inr (\<not> bip30_exception (nHeight b) hash \<and> unknown \<or> nHeight b \<ge> BIP34_IMPLIES_BIP30_LIMIT))))"

fun have_any :: "coins_cache \<Rightarrow> COutPoint list \<Rightarrow> bool \<times> coins_cache" where
  "have_any view [] = (False, view)"
| "have_any view (k # ks) = (let (h, view) = cache_HaveCoin view k in if h then (True, view) else have_any view ks)"

definition tx_outpoints :: "CTransaction \<Rightarrow> COutPoint list" where
  "tx_outpoints tx = map (\<lambda>i. \<lparr> op_hash = tx_GetHash tx, op_n = of_nat i \<rparr>) [0..<length (vout tx)]"

definition check_bip30 :: "bool \<Rightarrow> CBlock \<Rightarrow> coins_cache \<Rightarrow> block_stop + coins_cache" where
  "check_bip30 enforced block view =
     (if enforced then
        let (found, view) = have_any view (concat (map tx_outpoints (vtx block))) in
        if found then Inl (Invalid BLOCK_CONSENSUS ''bad-txns-BIP30'') else Inr view
      else Inr view)"

fun tx_verdict :: "tx_stop + 'a \<Rightarrow> block_stop + 'a" where
  "tx_verdict (Inr x) = Inr x"
| "tx_verdict (Inl (Invalid r reason)) = Inl (Invalid BLOCK_CONSENSUS reason)"
| "tx_verdict (Inl (NodeError s)) = Inl (NodeError s)"
| "tx_verdict (Inl (Halt f)) = Inl (Halt f)"

fun coin_heights :: "coins_cache \<Rightarrow> CTxIn list \<Rightarrow> int list \<times> coins_cache" where
  "coin_heights view [] = ([], view)"
| "coin_heights view (txin # ins) =
     (let (coin, view) = AccessCoin view (prevout txin); (hs, view) = coin_heights view ins
      in (uint (coin_nHeight coin) # hs, view))"

text \<open>What does not change through the loop over the transactions.\<close>

record connect_env =
  ce_cs :: chain_state
  ce_pindex :: bid
  ce_nHeight :: int
  ce_flags :: u32
  ce_nLockTimeFlags :: u32
  ce_fScriptChecks :: bool
  ce_fJustCheck :: bool

record connect_state =
  ct_view :: coins_cache
  ct_nFees :: int
  ct_nSigOpsCost :: int
  ct_vtxundo :: "Coin list list"
  ct_control :: "CScriptCheck list"
  ct_cache :: "uint256 list"

definition connect_amounts :: "connect_env \<Rightarrow> CTransaction \<Rightarrow> connect_state \<Rightarrow> block_stop + connect_state" where
  "connect_amounts ce tx ct =
     (if IsCoinBase tx then Inr ct
      else sum_bind (tx_verdict (CheckTxInputs tx (ct_view ct) (ce_nHeight ce))) (\<lambda>(txfee, view).
        let nFees = ct_nFees ct + txfee in
        if \<not> MoneyRange nFees then Inl (Invalid BLOCK_CONSENSUS ''bad-txns-accumulated-fee-outofrange'')
        else let (prevheights, view) = coin_heights view (vin tx) in
          sum_bind (or_halt (SequenceLocks (cs_index (ce_cs ce)) tx (ce_nLockTimeFlags ce) prevheights (ce_pindex ce))) (\<lambda>(ok, _).
            if \<not> ok then Inl (Invalid BLOCK_CONSENSUS ''bad-txns-nonfinal'')
            else Inr (ct\<lparr> ct_view := view, ct_nFees := nFees \<rparr>))))"

definition connect_sigops :: "connect_env \<Rightarrow> CTransaction \<Rightarrow> connect_state \<Rightarrow> block_stop + connect_state" where
  "connect_sigops ce tx ct =
     sum_bind (or_halt (GetTransactionSigOpCost tx (ct_view ct) (ce_flags ce))) (\<lambda>(cost, view).
       let nSigOpsCost = ct_nSigOpsCost ct + cost in
       if nSigOpsCost > MAX_BLOCK_SIGOPS_COST then Inl (Invalid BLOCK_CONSENSUS ''bad-blk-sigops'')
       else Inr (ct\<lparr> ct_view := view, ct_nSigOpsCost := nSigOpsCost \<rparr>))"

definition connect_scripts :: "connect_env \<Rightarrow> CTransaction \<Rightarrow> connect_state \<Rightarrow> block_stop + connect_state" where
  "connect_scripts ce tx ct =
     (if IsCoinBase tx \<or> \<not> ce_fScriptChecks ce then Inr ct
      else sum_bind (tx_verdict (CheckInputScripts (cs_curve (ce_cs ce)) (g_scriptExecutionCacheHasher (ce_cs ce)) tx (ct_view ct)
                       (ce_flags ce) (ce_fJustCheck ce) txdata_init (g_parallel_script_checks (ce_cs ce)) (ct_cache ct))) (\<lambda>(view, checks, cache).
        Inr (ct\<lparr> ct_view := view, ct_control := ct_control ct @ checks, ct_cache := cache \<rparr>)))"

definition connect_coins :: "connect_env \<Rightarrow> bool \<Rightarrow> CTransaction \<Rightarrow> connect_state \<Rightarrow> block_stop + connect_state" where
  "connect_coins ce first tx ct =
     sum_bind (or_halt (UpdateCoins tx (ct_view ct) (ce_nHeight ce))) (\<lambda>(txundo, view).
       Inr (ct\<lparr> ct_view := view, ct_vtxundo := (if first then ct_vtxundo ct else ct_vtxundo ct @ [txundo]) \<rparr>))"

definition connect_tx :: "connect_env \<Rightarrow> bool \<Rightarrow> CTransaction \<Rightarrow> connect_state \<Rightarrow> block_stop + connect_state" where
  "connect_tx ce first tx ct =
     sum_bind (connect_amounts ce tx ct) (\<lambda>ct. sum_bind (connect_sigops ce tx ct) (\<lambda>ct.
     sum_bind (connect_scripts ce tx ct) (\<lambda>ct. connect_coins ce first tx ct)))"

fun connect_loop :: "connect_env \<Rightarrow> bool \<Rightarrow> CTransaction list \<Rightarrow> connect_state \<Rightarrow> block_stop + connect_state" where
  "connect_loop ce first [] ct = Inr ct"
| "connect_loop ce first (tx # txs) ct = sum_bind (connect_tx ce first tx ct) (\<lambda>ct. connect_loop ce False txs ct)"

text \<open>The check queue ends with the conjunction of its checks.\<close>

fun control_Wait :: "curve_ops \<Rightarrow> CScriptCheck list \<Rightarrow> fault + bool" where
  "control_Wait ec [] = Inr True"
| "control_Wait ec (c # checks) = sum_bind (run_script_check ec c) (\<lambda>ok. if ok then control_Wait ec checks else Inr False)"

definition WriteUndoDataForBlock :: "chain_state \<Rightarrow> Coin list list \<Rightarrow> CBlockIndex \<Rightarrow> block_stop + CBlockIndex" where
  "WriteUndoDataForBlock cs vtxundo b =
     (if pos_nFile (GetUndoPos b) = - 1 then
        (case UndoWriteToDisk cs vtxundo of
           None \<Rightarrow> Inl (NodeError ''Failed to write undo data'')
         | Some p \<Rightarrow> Inr (b\<lparr> nUndoPos := p, nStatus := nStatus b OR BLOCK_HAVE_UNDO \<rparr>))
      else Inr b)"

definition connect_reward :: "chain_state \<Rightarrow> CBlock \<Rightarrow> int \<Rightarrow> int \<Rightarrow> block_stop + unit" where
  "connect_reward cs block h nFees =
     sum_bind (or_halt (GetBlockSubsidy h (cs_params cs))) (\<lambda>subsidy.
     let blockReward = nFees + subsidy in
     sum_bind (or_halt (GetValueOut (hd (vtx block)))) (\<lambda>out.
       if out > blockReward then Inl (Invalid BLOCK_CONSENSUS ''bad-cb-amount'') else Inr ()))"

text \<open>The end of the function: undo data, the validity of the index entry, the best block.\<close>

definition connect_finish :: "chain_state \<Rightarrow> bid \<Rightarrow> CBlockIndex \<Rightarrow> connect_state \<Rightarrow> block_stop + chain_state \<times> coins_cache" where
  "connect_finish cs pindex b ct =
     sum_bind (WriteUndoDataForBlock cs (ct_vtxundo ct) b) (\<lambda>b.
     sum_bind (or_halt (IsValid b BLOCK_VALID_SCRIPTS)) (\<lambda>valid.
     sum_bind (if valid then Inr b else sum_bind (or_halt (RaiseValidity b BLOCK_VALID_SCRIPTS)) (\<lambda>(b, _). Inr b)) (\<lambda>b.
     sum_bind (or_halt (GetBlockHash b)) (\<lambda>h.
       Inr (cs\<lparr> cs_index := (cs_index cs)(pindex \<mapsto> b), g_scriptExecutionCache := ct_cache ct \<rparr>, SetBestBlock (ct_view ct) h)))))"

definition check_before_connect :: "chain_state \<Rightarrow> CBlock \<Rightarrow> bool \<Rightarrow> bool \<Rightarrow> block_stop + unit" where
  "check_before_connect cs block fChecked fJustCheck =
     (case CheckBlock (cs_impl cs) (cs_curve cs) block fChecked (cs_params cs) (\<not> fJustCheck) (\<not> fJustCheck) of
        Inr _ \<Rightarrow> Inr ()
      | Inl (Invalid r reason) \<Rightarrow> if r = BLOCK_MUTATED
          then Inl (NodeError ''Corrupt block found indicating potential hardware failure; shutting down'')
          else Inl (Invalid r reason)
      | Inl e \<Rightarrow> Inl e)"

definition GetBestBlock :: "coins_cache \<Rightarrow> uint256 \<times> coins_cache" where
  "GetBestBlock v =
     (if hashBlock (snd v) = null_hash
      then case view_GetBestBlock (fst v) of (h, base) \<Rightarrow> (h, base, (snd v)\<lparr> hashBlock := h \<rparr>)
      else (hashBlock (snd v), v))"

definition previous_hash :: "block_store \<Rightarrow> CBlockIndex \<Rightarrow> fault + uint256" where
  "previous_hash st b = (case pprev b of None \<Rightarrow> Inr null_hash | Some p \<Rightarrow> sum_bind (deref st p) GetBlockHash)"

definition connect_env_of :: "chain_state \<Rightarrow> bid \<Rightarrow> CBlockIndex \<Rightarrow> bool \<Rightarrow> bool \<Rightarrow> u32 \<Rightarrow> connect_env" where
  "connect_env_of cs pindex b fScriptChecks fJustCheck flags =
     \<lparr> ce_cs = cs, ce_pindex = pindex, ce_nHeight = nHeight b, ce_flags = flags,
       ce_nLockTimeFlags = (if BuriedActiveAt b (cs_params cs) DEPLOYMENT_CSV then LOCKTIME_VERIFY_SEQUENCE else 0),
       ce_fScriptChecks = fScriptChecks, ce_fJustCheck = fJustCheck \<rparr>"

definition connect_start :: "chain_state \<Rightarrow> coins_cache \<Rightarrow> connect_state" where
  "connect_start cs view = \<lparr> ct_view = view, ct_nFees = 0, ct_nSigOpsCost = 0, ct_vtxundo = [], ct_control = [],
     ct_cache = g_scriptExecutionCache cs \<rparr>"

definition ConnectBlock :: "chain_state \<Rightarrow> CBlock \<Rightarrow> bool \<Rightarrow> bid \<Rightarrow> coins_cache \<Rightarrow> bool \<Rightarrow> block_stop + chain_state \<times> coins_cache" where
  "ConnectBlock cs block fChecked pindex view fJustCheck =
     sum_bind (or_halt (deref (cs_index cs) pindex)) (\<lambda>b.
     let block_hash = CBlockHeader_GetHash (block_header block) in
     if phashBlock b \<noteq> Some block_hash then Inl (Halt AssertFailed) else
     sum_bind (check_before_connect cs block fChecked fJustCheck) (\<lambda>_.
     sum_bind (or_halt (previous_hash (cs_index cs) b)) (\<lambda>hashPrevBlock.
     let (best, view) = GetBestBlock view in
     if hashPrevBlock \<noteq> best then Inl (Halt AssertFailed)
     else if block_hash = hashGenesisBlock (cs_params cs) then
       Inr (cs, if \<not> fJustCheck then SetBestBlock view block_hash else view)
     else
       sum_bind (or_halt (script_checks_needed cs pindex b)) (\<lambda>fScriptChecks.
       sum_bind (or_halt (bip30_enforced cs b)) (\<lambda>fEnforceBIP30.
       sum_bind (check_bip30 fEnforceBIP30 block view) (\<lambda>view.
       sum_bind (or_halt (GetBlockScriptFlags (cs_params cs) b)) (\<lambda>flags.
       sum_bind (connect_loop (connect_env_of cs pindex b fScriptChecks fJustCheck flags) True (vtx block) (connect_start cs view)) (\<lambda>ct.
       sum_bind (connect_reward cs block (nHeight b) (ct_nFees ct)) (\<lambda>_.
       sum_bind (or_halt (control_Wait (cs_curve cs) (ct_control ct))) (\<lambda>ok.
       if \<not> ok then Inl (Invalid BLOCK_CONSENSUS ''block-validation-failed'')
       else if fJustCheck then Inr (cs\<lparr> g_scriptExecutionCache := ct_cache ct \<rparr>, ct_view ct)
       else connect_finish cs pindex b ct))))))))))"

end
