(* ===== verification/Connect.thy ===== *)
theory Connect
  imports Validation
begin

text \<open>
  What connecting a block does to the set of coins: the checks only read it, and a transaction removes
  the coins it spends and adds its outputs. From this follow the conservation of value and the cap on
  the supply.
\<close>

section \<open>Reading through a cache\<close>

declare coins_of.simps [simp del] view_ok.simps [simp del]

text \<open>
  A key is known to a cache when the cache has an entry for it or the view below has no coin for it:
  then the cache alone tells whether there is a coin.
\<close>

definition known :: "coins_cache \<Rightarrow> COutPoint \<Rightarrow> bool" where
  "known v k \<longleftrightarrow> coins_of (fst v) k = None \<or> map_of (cacheCoins (snd v)) k \<noteq> None"

text \<open>Whether the view below is itself a cache, as it is when a block is connected on top of the coins of the tip.\<close>

fun layered :: "CCoinsView \<Rightarrow> bool" where
  "layered (ViewDB db) \<longleftrightarrow> False"
| "layered (ViewCache base c) \<longleftrightarrow> True"

definition reads :: "coins_cache \<Rightarrow> coins_cache \<Rightarrow> bool" where
  "reads v w \<longleftrightarrow> cache_ok w \<and> coins w = coins v \<and> (\<forall>k. known v k \<longrightarrow> known w k) \<and> layered (fst w) = layered (fst v)"

lemma GetCoin_layered: "GetCoin v k = (r, w) \<Longrightarrow> layered w = layered v"
  by (cases v) (auto split: prod.splits option.splits)

lemma FetchCoin_layered: "FetchCoin base c k = (it, b, d) \<Longrightarrow> layered b = layered base"
  using GetCoin_layered by (fastforce simp: FetchCoin.simps split: option.splits prod.splits)

lemma absent_known: "coins v k = None \<Longrightarrow> known v k"
  by (auto simp: known_def coins_of.simps over_def split: option.splits)

lemma known_entry: "known v k \<Longrightarrow> coins v k = Some c \<Longrightarrow> \<exists>e. map_of (cacheCoins (snd v)) k = Some e \<and> \<not> IsSpent (entry_coin e)"
  by (auto simp: known_def coins_of.simps over_def split: option.splits)

lemma reads_refl: "cache_ok v \<Longrightarrow> reads v v"
  by (simp add: reads_def)

lemma reads_trans: "reads u v \<Longrightarrow> reads v w \<Longrightarrow> reads u w"
  by (simp add: reads_def)

lemma fetch_reads:
  assumes ok: "cache_ok v" and f: "FetchCoin (fst v) (snd v) k = (it, b, c)"
  shows "reads v (b, c)"
proof -
  have "view_ok (fst v)" "map_ok (coins_of (fst v)) (cacheCoins (snd v))" using ok by (simp_all add: view_ok.simps)
  from reading(1) [OF this f] have "coins_of b = coins_of (fst v)" by blast
  moreover have "map_of (cacheCoins (snd v)) j \<noteq> None \<Longrightarrow> map_of (cacheCoins c) j \<noteq> None" for j
    using f by (auto simp: FetchCoin.simps split: option.splits prod.splits)
  ultimately show ?thesis using fetch(1,2) [OF ok f] FetchCoin_layered [OF f] by (auto simp: reads_def known_def)
qed

lemma AccessCoin_reads: "cache_ok v \<Longrightarrow> AccessCoin v k = (c, w) \<Longrightarrow> reads v w"
  using fetch_reads by (cases w) (auto simp: AccessCoin_def split: prod.splits)

lemma HaveCoin_reads: "cache_ok v \<Longrightarrow> cache_HaveCoin v k = (b, w) \<Longrightarrow> reads v w"
  using fetch_reads by (cases w) (auto simp: cache_HaveCoin_def split: prod.splits)

lemma reads_ok: "reads v w \<Longrightarrow> cache_ok w"
  by (simp add: reads_def)

lemma have_all_reads: "cache_ok v \<Longrightarrow> have_all v ins = (b, w) \<Longrightarrow> reads v w"
proof (induction v ins arbitrary: b w rule: have_all.induct)
  case (2 v i ins)
  obtain h u where h: "cache_HaveCoin v (prevout i) = (h, u)" by (metis surj_pair)
  have r: "reads v u" using HaveCoin_reads [OF "2.prems"(1) h] .
  show ?case
  proof (cases h)
    case True
    then show ?thesis using "2.IH" [OF h [symmetric] True reads_ok [OF r]] "2.prems"(2) h reads_trans [OF r] by simp
  next
    case False
    then show ?thesis using "2.prems"(2) h r by simp
  qed
qed (simp add: reads_refl)

lemma HaveInputs_reads: "cache_ok v \<Longrightarrow> HaveInputs v tx = (b, w) \<Longrightarrow> reads v w"
  using have_all_reads reads_refl by (auto simp: HaveInputs_def split: if_splits)

text \<open>The loops that read one coin per input share the shape of their induction step.\<close>

lemma read_step:
  assumes "cache_ok v" "AccessCoin v k = (c, u)" "cache_ok u \<Longrightarrow> reads u w"
  shows "reads v w"
  using AccessCoin_reads [OF assms(1,2)] assms(3) reads_ok reads_trans by blast

lemma input_values_reads: "cache_ok v \<Longrightarrow> input_values v h a ins = Inr (t, w) \<Longrightarrow> reads v w"
proof (induction v h a ins rule: input_values.induct)
  case (2 v h a i ins)
  obtain c u where f: "AccessCoin v (prevout i) = (c, u)" by (metis surj_pair)
  show ?case using "2.prems" "2.IH" [OF f [symmetric] refl] f
    by (auto intro!: read_step [OF "2.prems"(1) f] simp: Let_def split: if_splits)
qed (simp add: reads_refl)

lemma CheckTxInputs_reads:
  assumes "cache_ok v" "CheckTxInputs tx v h = Inr (fee, w)"
  shows "reads v w"
proof -
  obtain b u where f: "HaveInputs v tx = (b, u)" by (metis surj_pair)
  have r: "reads v u" using HaveInputs_reads [OF assms(1) f] .
  obtain t where "input_values u h 0 (vin tx) = Inr (t, w)"
    using assms(2) f by (auto simp: CheckTxInputs_def sum_bind_Inr_iff Let_def split: if_splits)
  then show ?thesis using input_values_reads [OF reads_ok [OF r]] reads_trans [OF r] by blast
qed

lemma coin_heights_reads: "cache_ok v \<Longrightarrow> coin_heights v ins = (hs, w) \<Longrightarrow> reads v w"
proof (induction v ins arbitrary: hs w rule: coin_heights.induct)
  case (2 v i ins)
  obtain c u where f: "AccessCoin v (prevout i) = (c, u)" by (metis surj_pair)
  obtain hs' w' where g: "coin_heights u ins = (hs', w')" by (metis surj_pair)
  show ?case using "2.IH" [OF f [symmetric] refl _ g] read_step [OF "2.prems"(1) f] "2.prems"(2) f g by auto
qed (simp add: reads_refl)

lemma p2sh_sigop_sum_reads: "cache_ok v \<Longrightarrow> p2sh_sigop_sum v n ins = Inr (k, w) \<Longrightarrow> reads v w"
proof (induction v n ins rule: p2sh_sigop_sum.induct)
  case (2 v n i ins)
  obtain c u where f: "AccessCoin v (prevout i) = (c, u)" by (metis surj_pair)
  show ?case using "2.prems" "2.IH" [OF f [symmetric] refl] f
    by (auto intro!: read_step [OF "2.prems"(1) f] simp: Let_def sum_bind_Inr_iff split: if_splits)
qed (simp add: reads_refl)

lemma witness_sigop_sum_reads: "cache_ok v \<Longrightarrow> witness_sigop_sum v fl n ins = Inr (k, w) \<Longrightarrow> reads v w"
proof (induction v fl n ins rule: witness_sigop_sum.induct)
  case (2 v fl n i ins)
  obtain c u where f: "AccessCoin v (prevout i) = (c, u)" by (metis surj_pair)
  show ?case using "2.prems" "2.IH" [OF f [symmetric] refl] f
    by (auto intro!: read_step [OF "2.prems"(1) f] simp: Let_def sum_bind_Inr_iff split: if_splits)
qed (simp add: reads_refl)

lemma collect_spent_reads: "cache_ok v \<Longrightarrow> collect_spent v ins = Inr (outs, w) \<Longrightarrow> reads v w"
proof (induction v ins arbitrary: outs w rule: collect_spent.induct)
  case (2 v i ins)
  obtain c u where f: "AccessCoin v (prevout i) = (c, u)" by (metis surj_pair)
  show ?case using "2.prems" "2.IH" [OF f [symmetric] refl] f
    by (auto intro!: read_step [OF "2.prems"(1) f] simp: Let_def sum_bind_Inr_iff split: if_splits)
qed (simp add: reads_refl)

lemma have_any_reads: "cache_ok v \<Longrightarrow> have_any v ks = (b, w) \<Longrightarrow> reads v w \<and> (b \<longleftrightarrow> (\<exists>k \<in> set ks. coins v k \<noteq> None))"
proof (induction v ks arbitrary: b w rule: have_any.induct)
  case (2 v k ks)
  obtain h u where f: "cache_HaveCoin v k = (h, u)" by (metis surj_pair)
  note r = HaveCoin_reads [OF "2.prems"(1) f] and l = HaveCoin_law [OF "2.prems"(1) f]
  show ?case
  proof (cases h)
    case True
    then show ?thesis using "2.prems"(2) f r l by auto
  next
    case False
    then show ?thesis using "2.IH" [OF f [symmetric] refl False reads_ok [OF r]] "2.prems"(2) f r l reads_trans [OF r]
      by (auto simp: reads_def)
  qed
qed (simp add: reads_refl)

lemma GetTransactionSigOpCost_reads:
  assumes "cache_ok v" "GetTransactionSigOpCost tx v fl = Inr (k, w)"
  shows "reads v w"
proof -
  have p: "GetP2SHSigOpCount tx v = Inr (n, u) \<Longrightarrow> reads v u" for n u
    using p2sh_sigop_sum_reads [OF assms(1)] reads_refl [OF assms(1)] by (auto simp: GetP2SHSigOpCount_def split: if_splits)
  have "witness_sigop_sum u fl n (vin tx) = Inr (k, w) \<Longrightarrow> reads v u \<Longrightarrow> reads v w" for u n
    using witness_sigop_sum_reads reads_ok reads_trans by blast
  then show ?thesis using assms p reads_refl [OF assms(1)]
    by (auto simp: GetTransactionSigOpCost_def sum_bind_Inr_iff Let_def split: if_splits)
qed

lemma or_halt_Inr [simp]: "or_halt m = Inr x \<longleftrightarrow> m = Inr x"
  by (cases m) auto

lemma tx_verdict_Inr [simp]: "tx_verdict m = Inr x \<longleftrightarrow> m = Inr x"
proof (cases m)
  case (Inl e)
  then show ?thesis by (cases e) auto
qed simp

lemma CheckInputScripts_reads:
  assumes "cache_ok v" "CheckInputScripts ec hasher tx v fl store d par cache = Inr (w, checks, cache')"
  shows "reads v w"
  using assms collect_spent_reads [OF assms(1)] reads_refl [OF assms(1)]
  by (auto simp: CheckInputScripts_def sum_bind_Inr_iff Let_def split: if_splits)

section \<open>Spending and adding\<close>

text \<open>The outputs a transaction puts into the set of coins.\<close>

fun put_outputs :: "uint256 \<Rightarrow> int \<Rightarrow> bool \<Rightarrow> nat \<Rightarrow> CTxOut list \<Rightarrow> (COutPoint \<Rightarrow> Coin option) \<Rightarrow> COutPoint \<Rightarrow> Coin option" where
  "put_outputs txid h cb k [] m = m"
| "put_outputs txid h cb k (out # outs) m =
     put_outputs txid h cb (k + 1) outs
       (if IsUnspendable (scriptPubKey out) then m else m(\<lparr> op_hash = txid, op_n = of_nat k \<rparr> \<mapsto> make_Coin out h cb))"

definition spent_by :: "CTransaction \<Rightarrow> COutPoint list" where
  "spent_by tx = (if IsCoinBase tx then [] else map prevout (vin tx))"

definition apply_tx :: "int \<Rightarrow> CTransaction \<Rightarrow> (COutPoint \<Rightarrow> Coin option) \<Rightarrow> COutPoint \<Rightarrow> Coin option" where
  "apply_tx h tx m = put_outputs (tx_GetHash tx) h (IsCoinBase tx) 0 (vout tx) (m |` (- set (spent_by tx)))"

lemma SpendCoin_known:
  assumes ok: "cache_ok v" and s: "SpendCoin v k = (r, w)" and n: "known v j"
  shows "known w j"
proof -
  obtain it b c where f: "FetchCoin (fst v) (snd v) k = (it, b, c)" by (metis prod_cases3)
  have r: "known (b, c) j" "cache_ok (b, c)" using fetch_reads [OF ok f] n by (auto simp: reads_def)
  show ?thesis
  proof (cases it)
    case None
    then show ?thesis using s f r by (auto simp: SpendCoin_def)
  next
    case (Some e)
    have m: "map_ok (coins_of b) (cacheCoins c)" "map_of (cacheCoins c) k = Some e"
      using r(2) fetch(3) [OF ok f] Some by (simp_all add: view_ok.simps)
    have "is_fresh e \<Longrightarrow> coins_of b k = None" using map_ok_lookup [OF m] by (simp add: entry_ok_def)
    then show ?thesis using s f Some r(1)
      by (auto simp: SpendCoin_def known_def is_fresh_def map_of_delete map_of_update split: if_splits)
  qed
qed

lemma AddCoin_success:
  assumes ok: "cache_ok v" and n: "known v k" and d: "\<not> IsSpent d" and a: "AddCoin v k d ow = Inr w"
  shows "cache_ok w" "coins w = (if IsUnspendable (scriptPubKey (coin_out d)) then coins v else (coins v)(k \<mapsto> d))"
    "known v j \<Longrightarrow> known w j" "\<not> IsUnspendable (scriptPubKey (coin_out d)) \<Longrightarrow> ow \<or> coins v k = None"
proof -
  have absent: "coins v k = None" if u: "\<not> IsUnspendable (scriptPubKey (coin_out d))" and "\<not> ow"
  proof (rule ccontr)
    assume "coins v k \<noteq> None"
    then obtain e where "map_of (cacheCoins (snd v)) k = Some e" "\<not> IsSpent (entry_coin e)" using known_entry [OF n] by auto
    then show False using a d u that(2) by (simp add: AddCoin_def)
  qed
  then show "ow \<or> coins v k = None" if "\<not> IsUnspendable (scriptPubKey (coin_out d))" using that by (cases ow) auto
  have "cache_ok w \<and> coins w = (if IsUnspendable (scriptPubKey (coin_out d)) then coins v else (coins v)(k \<mapsto> d))"
  proof (cases "IsUnspendable (scriptPubKey (coin_out d))")
    case True
    then show ?thesis using a d ok by (simp add: AddCoin_def)
  next
    case False
    then show ?thesis using AddCoin_law [OF ok d absent [OF False], of ow] a by auto
  qed
  then show "cache_ok w" "coins w = (if IsUnspendable (scriptPubKey (coin_out d)) then coins v else (coins v)(k \<mapsto> d))" by blast+
  show "known v j \<Longrightarrow> known w j"
    using a d by (auto simp: AddCoin_def known_def Let_def map_of_update split: if_splits)
qed

lemma make_Coin_simps [simp]: "coin_out (make_Coin out h cb) = out" "fCoinBase (make_Coin out h cb) = cb"
  "IsSpent (make_Coin out h cb) \<longleftrightarrow> nValue out = - 1"
  by (simp_all add: make_Coin_def IsSpent_def CTxOut_IsNull_def)

lemma add_outputs_success:
  assumes "cache_ok v" "\<forall>i < length outs. known v \<lparr> op_hash = txid, op_n = of_nat (k + i) \<rparr>"
    and "\<forall>out \<in> set outs. nValue out \<noteq> - 1" "add_outputs v txid h cb False k outs = Inr w"
  shows "cache_ok w \<and> coins w = put_outputs txid h cb k outs (coins v) \<and> (\<forall>j. known v j \<longrightarrow> known w j) \<and>
    (\<forall>i < length outs. \<not> IsUnspendable (scriptPubKey (outs ! i)) \<longrightarrow> cb \<or> coins v \<lparr> op_hash = txid, op_n = of_nat (k + i) \<rparr> = None)"
  using assms
proof (induction outs arbitrary: v k)
  case (Cons out outs)
  let ?p = "\<lambda>k. \<lparr> op_hash = txid, op_n = of_nat k \<rparr>"
  obtain u where u: "AddCoin v (?p k) (make_Coin out h cb) cb = Inr u" "add_outputs u txid h cb False (k + 1) outs = Inr w"
    using Cons.prems(4) by (auto simp: sum_bind_Inr_iff)
  have n: "known v (?p k)" using Cons.prems(2) by fastforce
  have "\<not> IsSpent (make_Coin out h cb)" using Cons.prems(3) by simp
  note a = AddCoin_success [OF Cons.prems(1) n this u(1)]
  have kn: "\<forall>i < length outs. known u (?p (k + 1 + i))"
  proof (intro allI impI)
    fix i assume "i < length outs"
    then have "known v (?p (k + Suc i))" using Cons.prems(2) by (metis length_Cons Suc_less_eq)
    then show "known u (?p (k + 1 + i))" using a(3) by simp
  qed
  have v: "\<forall>out \<in> set outs. nValue out \<noteq> - 1" using Cons.prems(3) by simp
  note ih = Cons.IH [OF a(1) kn v u(2)]
  have "cb \<or> coins v (?p (k + i)) = None" if i: "i < length (out # outs)" "\<not> IsUnspendable (scriptPubKey ((out # outs) ! i))" for i
  proof (cases i)
    case 0
    then show ?thesis using a(4) i(2) by simp
  next
    case (Suc j)
    then have "cb \<or> coins u (?p (k + i)) = None" using ih i by simp
    then show ?thesis using a(2) by (auto split: if_splits)
  qed
  then show ?case using ih a(2,3) by simp
qed simp

lemma restrict_upd_None: "(m(k := None)) |` (- A) = m |` (- insert k A)"
  by (auto simp: restrict_map_def fun_eq_iff)

lemma spend_inputs_success:
  assumes "cache_ok v" "distinct (map prevout ins)" "\<forall>i \<in> set ins. coins v (prevout i) \<noteq> None"
    and "spend_inputs v ins = Inr (undo, w)"
  shows "cache_ok w \<and> coins w = coins v |` (- set (map prevout ins)) \<and>
    map Some undo = map (\<lambda>i. coins v (prevout i)) ins \<and> (\<forall>j. known v j \<longrightarrow> known w j)"
  using assms
proof (induction v ins arbitrary: undo rule: spend_inputs.induct)
  case (2 v i ins)
  obtain b c u where s: "SpendCoin v (prevout i) = ((b, c), u)" by (metis surj_pair)
  obtain undo' where r: "undo = c # undo'" "spend_inputs u ins = Inr (undo', w)" b
    using "2.prems"(4) s by (auto simp: sum_bind_Inr_iff split: if_splits)
  note l = SpendCoin_law [OF "2.prems"(1) s]
  have c: "coins v (prevout i) = Some c" using l "2.prems"(3) by (metis list.set_intros(1) unspent_simps(6) option.exhaust)
  have ne: "\<forall>j \<in> set ins. prevout j \<noteq> prevout i" using "2.prems"(2) by (auto dest!: sym [of "prevout _" "prevout i"])
  have pre: "cache_ok u" "distinct (map prevout ins)" "\<forall>j \<in> set ins. coins u (prevout j) \<noteq> None"
    using l "2.prems"(2,3) ne by simp_all
  have "cache_ok w \<and> coins w = coins u |` (- set (map prevout ins)) \<and>
    map Some undo' = map (\<lambda>i. coins u (prevout i)) ins \<and> (\<forall>j. known u j \<longrightarrow> known w j)"
    by (rule "2.IH" [OF s [symmetric] refl refl _ pre r(2)]) (simp add: r(3))
  moreover have "map (\<lambda>i. coins u (prevout i)) ins = map (\<lambda>i. coins v (prevout i)) ins" using l ne by simp
  moreover have "coins u |` (- set (map prevout ins)) = coins v |` (- set (map prevout (i # ins)))"
    using restrict_upd_None [of "coins v" "prevout i" "set (map prevout ins)"] l by (simp del: restrict_fun_upd)
  ultimately show ?case using c r(1) SpendCoin_known [OF "2.prems"(1) s] by simp
qed (auto simp: restrict_map_def)

lemma UpdateCoins_success:
  assumes "cache_ok v" "\<forall>k \<in> set (tx_outpoints tx). known v k" "\<forall>out \<in> set (vout tx). nValue out \<noteq> - 1"
    and "distinct (spent_by tx)" "\<forall>k \<in> set (spent_by tx). coins v k \<noteq> None" "UpdateCoins tx v h = Inr (undo, w)"
  shows "cache_ok w" "coins w = apply_tx h tx (coins v)" "map Some undo = map (coins v) (spent_by tx)"
    "known v j \<Longrightarrow> known w j"
    "\<And>i. i < length (vout tx) \<Longrightarrow> \<not> IsUnspendable (scriptPubKey (vout tx ! i)) \<Longrightarrow>
       IsCoinBase tx \<or> tx_outpoints tx ! i \<in> set (spent_by tx) \<or> coins v (tx_outpoints tx ! i) = None"
proof -
  obtain u where u: "(if \<not> IsCoinBase tx then spend_inputs v (vin tx) else Inr ([], v)) = Inr (undo, u)"
    "add_outputs u (tx_GetHash tx) h (IsCoinBase tx) False 0 (vout tx) = Inr w"
    using assms(6) by (auto simp: UpdateCoins_def AddCoins_def sum_bind_Inr_iff)
  have su: "cache_ok u \<and> coins u = coins v |` (- set (spent_by tx)) \<and> map Some undo = map (coins v) (spent_by tx) \<and>
      (\<forall>j. known v j \<longrightarrow> known u j)"
  proof (cases "IsCoinBase tx")
    case True
    then show ?thesis using u(1) assms(1) by (auto simp: spent_by_def restrict_map_def)
  next
    case False
    then show ?thesis
      using spend_inputs_success [OF assms(1), of "vin tx" undo u] assms(4,5) u(1) by (simp add: spent_by_def)
  qed
  have "\<forall>i < length (vout tx). known u \<lparr> op_hash = tx_GetHash tx, op_n = of_nat (0 + i) \<rparr>"
    using assms(2) su by (auto simp: tx_outpoints_def)
  note a = add_outputs_success [OF _ this assms(3) u(2)]
  show "cache_ok w" "coins w = apply_tx h tx (coins v)" "map Some undo = map (coins v) (spent_by tx)"
    using a su by (simp_all add: apply_tx_def)
  show "known v j \<Longrightarrow> known w j" using a su by simp
  show "IsCoinBase tx \<or> tx_outpoints tx ! i \<in> set (spent_by tx) \<or> coins v (tx_outpoints tx ! i) = None"
    if i: "i < length (vout tx)" "\<not> IsUnspendable (scriptPubKey (vout tx ! i))" for i
    using a su i by (auto simp: tx_outpoints_def restrict_map_def split: if_splits)
qed

section \<open>The value of a set of coins\<close>

definition coin_value :: "(COutPoint \<Rightarrow> Coin option) \<Rightarrow> COutPoint \<Rightarrow> int" where
  "coin_value m k = (case m k of None \<Rightarrow> 0 | Some c \<Rightarrow> nValue (coin_out c))"

definition total_value :: "(COutPoint \<Rightarrow> Coin option) \<Rightarrow> int" where
  "total_value m = (\<Sum>k \<in> dom m. coin_value m k)"

text \<open>
  What validation keeps of every coin: an amount in range, a height other than 0 (the outputs of the
  first block are never added) and a script that can be spent.
\<close>

definition coin_sound :: "Coin \<Rightarrow> bool" where
  "coin_sound c \<longleftrightarrow> MoneyRange (nValue (coin_out c)) \<and> coin_nHeight c \<noteq> 0 \<and> \<not> IsUnspendable (scriptPubKey (coin_out c))"

definition sound :: "(COutPoint \<Rightarrow> Coin option) \<Rightarrow> bool" where
  "sound m \<longleftrightarrow> finite (dom m) \<and> (\<forall>k c. m k = Some c \<longrightarrow> coin_sound c)"

lemma input_value_coin_value: "input_value m i = coin_value m (prevout i)"
  by (simp add: input_value_def coin_value_def)

lemma coin_value_nonneg: "sound m \<Longrightarrow> 0 \<le> coin_value m k"
  by (auto simp: sound_def coin_value_def coin_sound_def MoneyRange_def split: option.split)

lemma total_over: "finite A \<Longrightarrow> dom m \<subseteq> A \<Longrightarrow> total_value m = (\<Sum>k \<in> A. coin_value m k)"
  unfolding total_value_def by (rule sum.mono_neutral_left) (auto simp: coin_value_def domIff split: option.split)

lemma total_upd:
  assumes "finite (dom m)"
  shows "total_value (m(k := x)) = total_value m - coin_value m k + (case x of None \<Rightarrow> 0 | Some c \<Rightarrow> nValue (coin_out c))"
proof -
  let ?A = "insert k (dom m)"
  have f: "finite ?A" "finite (?A - {k})" using assms by simp_all
  have "total_value (m(k := x)) = (\<Sum>j \<in> ?A. coin_value (m(k := x)) j)" by (rule total_over) (use f in auto)
  also have "\<dots> = coin_value (m(k := x)) k + (\<Sum>j \<in> ?A - {k}. coin_value (m(k := x)) j)" by (rule sum.remove [OF f(1)]) simp
  also have "(\<Sum>j \<in> ?A - {k}. coin_value (m(k := x)) j) = (\<Sum>j \<in> ?A - {k}. coin_value m j)"
    by (rule sum.cong) (auto simp: coin_value_def)
  also have "\<dots> = total_value m - coin_value m k"
    using total_over [OF f(1) subset_insertI] sum.remove [OF f(1), of k "coin_value m"] by simp
  finally show ?thesis by (simp add: coin_value_def fun_upd_def)
qed

lemma total_restrict:
  "finite (dom m) \<Longrightarrow> distinct ks \<Longrightarrow> total_value (m |` (- set ks)) = total_value m - sum_list (map (coin_value m) ks)"
proof (induction ks arbitrary: m)
  case (Cons k ks)
  have "total_value (m |` (- set (k # ks))) = total_value ((m(k := None)) |` (- set ks))" by (simp only: restrict_upd_None list.set)
  also have "\<dots> = total_value (m(k := None)) - sum_list (map (coin_value (m(k := None))) ks)"
    by (rule Cons.IH) (use Cons.prems in \<open>auto simp: dom_fun_upd simp del: fun_upd_apply\<close>)
  also have "map (coin_value (m(k := None))) ks = map (coin_value m) ks" using Cons.prems by (auto simp: coin_value_def)
  finally show ?case using Cons.prems total_upd [of m k None] by (simp add: fun_upd_def)
qed (auto simp: restrict_map_def)

lemma sound_restrict: "sound m \<Longrightarrow> sound (m |` A)"
  by (auto simp: sound_def restrict_map_def dom_def elim: finite_subset [rotated])

lemma make_Coin_height: "0 \<le> h \<Longrightarrow> h < 2 ^ 31 \<Longrightarrow> uint (coin_nHeight (make_Coin out h cb)) = h"
  by (simp add: make_Coin_def unsigned_take_bit_eq uint_word_of_int_eq take_bit_int_eq_self)

lemma make_Coin_sound:
  assumes "MoneyRange (nValue out)" "0 < h" "h < 2 ^ 31" "\<not> IsUnspendable (scriptPubKey out)"
  shows "coin_sound (make_Coin out h cb)"
  using assms make_Coin_height [of h out cb] by (auto simp: coin_sound_def)

lemma sound_upd: "sound m \<Longrightarrow> coin_sound c \<Longrightarrow> sound (m(k \<mapsto> c))"
  by (auto simp: sound_def)

lemma put_outputs_value:
  assumes "sound m" "list_all (\<lambda>x. MoneyRange (nValue x)) outs" "0 < h" "h < 2 ^ 31"
  shows "sound (put_outputs txid h cb k outs m) \<and>
    total_value (put_outputs txid h cb k outs m) \<le> total_value m + sum_list (map nValue outs)"
  using assms(1,2)
proof (induction outs arbitrary: k m)
  case (Cons out outs)
  let ?p = "\<lparr> op_hash = txid, op_n = of_nat k \<rparr>"
  let ?m = "if IsUnspendable (scriptPubKey out) then m else m(?p \<mapsto> make_Coin out h cb)"
  have out: "MoneyRange (nValue out)" using Cons.prems(2) by simp
  have "sound ?m" using make_Coin_sound [OF out assms(3,4)] sound_upd Cons.prems(1) by simp
  moreover have "total_value ?m \<le> total_value m + nValue out"
    using total_upd [of m ?p "Some (make_Coin out h cb)"] coin_value_nonneg [OF Cons.prems(1), of ?p] Cons.prems(1) out
    by (auto simp: sound_def MoneyRange_def)
  ultimately show ?case using Cons.IH [of ?m "k + 1"] Cons.prems(2) by fastforce
qed simp

lemma apply_tx_value:
  assumes "sound m" "list_all (\<lambda>x. MoneyRange (nValue x)) (vout tx)" "0 < h" "h < 2 ^ 31" "distinct (spent_by tx)"
  shows "sound (apply_tx h tx m)"
    "total_value (apply_tx h tx m) \<le> total_value m - sum_list (map (coin_value m) (spent_by tx)) + value_out tx"
proof -
  note p = put_outputs_value [OF sound_restrict [OF assms(1)] assms(2-4), of "tx_GetHash tx" "IsCoinBase tx" 0 "- set (spent_by tx)"]
  show "sound (apply_tx h tx m)" using p by (simp add: apply_tx_def)
  have "finite (dom m)" using assms(1) by (simp add: sound_def)
  then show "total_value (apply_tx h tx m) \<le> total_value m - sum_list (map (coin_value m) (spent_by tx)) + value_out tx"
    using p total_restrict [OF _ assms(5), of m] by (simp add: apply_tx_def)
qed

section \<open>One transaction of a block\<close>

lemma connect_amounts_coinbase: "IsCoinBase tx \<Longrightarrow> connect_amounts ce tx ct = Inr ct"
  by (simp add: connect_amounts_def)

lemma connect_amounts_success:
  assumes ok: "cache_ok (ct_view ct)" "CheckTransaction tx = Inr ()" "connect_amounts ce tx ct = Inr ct'"
  shows "reads (ct_view ct) (ct_view ct')" "ct_vtxundo ct' = ct_vtxundo ct"
    "\<not> IsCoinBase tx \<Longrightarrow> spends_ok (coins (ct_view ct)) (ce_nHeight ce) tx"
    "ct_nFees ct' = ct_nFees ct + (if IsCoinBase tx then 0 else value_in (coins (ct_view ct)) tx - value_out tx)"
proof -
  have "reads (ct_view ct) (ct_view ct') \<and> ct_vtxundo ct' = ct_vtxundo ct \<and>
      (\<not> IsCoinBase tx \<longrightarrow> spends_ok (coins (ct_view ct)) (ce_nHeight ce) tx) \<and>
      ct_nFees ct' = ct_nFees ct + (if IsCoinBase tx then 0 else value_in (coins (ct_view ct)) tx - value_out tx)"
  proof (cases "IsCoinBase tx")
    case True
    then show ?thesis using assms connect_amounts_coinbase reads_refl by simp
  next
    case False
    obtain fee u where u: "CheckTxInputs tx (ct_view ct) (ce_nHeight ce) = Inr (fee, u)"
      using assms(3) False by (auto simp: connect_amounts_def sum_bind_Inr_iff)
    obtain hs w where w: "coin_heights u (vin tx) = (hs, w)" by (metis surj_pair)
    have ct': "ct' = ct\<lparr> ct_view := w, ct_nFees := ct_nFees ct + fee \<rparr>"
      using assms(3) False u w by (auto simp: connect_amounts_def sum_bind_Inr_iff Let_def split: if_splits)
    have r: "reads (ct_view ct) u" using CheckTxInputs_reads [OF ok(1) u] .
    have "reads u w" using coin_heights_reads [OF reads_ok [OF r] w] .
    then show ?thesis using CheckTxInputs_law [OF ok(1,2) False, of "ce_nHeight ce"] u ct' reads_trans [OF r] False by simp
  qed
  then show "reads (ct_view ct) (ct_view ct')" "ct_vtxundo ct' = ct_vtxundo ct"
    "\<not> IsCoinBase tx \<Longrightarrow> spends_ok (coins (ct_view ct)) (ce_nHeight ce) tx"
    "ct_nFees ct' = ct_nFees ct + (if IsCoinBase tx then 0 else value_in (coins (ct_view ct)) tx - value_out tx)" by blast+
qed

lemma connect_sigops_success:
  assumes "cache_ok (ct_view ct)" "connect_sigops ce tx ct = Inr ct'"
  shows "reads (ct_view ct) (ct_view ct') \<and> ct_vtxundo ct' = ct_vtxundo ct \<and> ct_nFees ct' = ct_nFees ct"
  using assms GetTransactionSigOpCost_reads [OF assms(1)]
  by (auto simp: connect_sigops_def sum_bind_Inr_iff Let_def split: if_splits)

lemma connect_scripts_success:
  assumes "cache_ok (ct_view ct)" "connect_scripts ce tx ct = Inr ct'"
  shows "reads (ct_view ct) (ct_view ct') \<and> ct_vtxundo ct' = ct_vtxundo ct \<and> ct_nFees ct' = ct_nFees ct"
proof (cases "IsCoinBase tx \<or> \<not> ce_fScriptChecks ce")
  case True
  then show ?thesis using assms reads_refl by (auto simp: connect_scripts_def)
next
  case False
  then obtain w checks cache where "CheckInputScripts (cs_curve (ce_cs ce)) (g_scriptExecutionCacheHasher (ce_cs ce)) tx (ct_view ct)
      (ce_flags ce) (ce_fJustCheck ce) txdata_init (g_parallel_script_checks (ce_cs ce)) (ct_cache ct) = Inr (w, checks, cache)"
    "ct' = ct\<lparr> ct_view := w, ct_control := ct_control ct @ checks, ct_cache := cache \<rparr>"
    using assms(2) by (auto simp: connect_scripts_def sum_bind_Inr_iff)
  then show ?thesis using CheckInputScripts_reads [OF assms(1)] by simp
qed

text \<open>
  A transaction accepted by the loop at height \<open>h\<close> and what it does: \<open>m\<close> and \<open>m'\<close> are the sets of
  coins before and after, \<open>undo\<close> the coins it spent.
\<close>

definition tx_accepted :: "int \<Rightarrow> CTransaction \<Rightarrow> (COutPoint \<Rightarrow> Coin option) \<Rightarrow> Coin list \<Rightarrow> (COutPoint \<Rightarrow> Coin option) \<Rightarrow> bool" where
  "tx_accepted h tx m undo m' \<longleftrightarrow> m' = apply_tx h tx m \<and> distinct (spent_by tx) \<and> map Some undo = map m (spent_by tx) \<and>
     (\<forall>i < length (vout tx). \<not> IsUnspendable (scriptPubKey (vout tx ! i)) \<longrightarrow>
        IsCoinBase tx \<or> tx_outpoints tx ! i \<in> set (spent_by tx) \<or> m (tx_outpoints tx ! i) = None)"

definition fee_of :: "(COutPoint \<Rightarrow> Coin option) \<Rightarrow> CTransaction \<Rightarrow> int" where
  "fee_of m tx = (if IsCoinBase tx then 0 else value_in m tx - value_out tx)"

lemma connect_tx_success:
  assumes ok: "cache_ok (ct_view ct)" and tx: "CheckTransaction tx = Inr ()"
    and kn: "\<forall>k \<in> set (tx_outpoints tx). known (ct_view ct) k" and c: "connect_tx ce first tx ct = Inr ct'"
  shows "\<exists>undo. tx_accepted (ce_nHeight ce) tx (coins (ct_view ct)) undo (coins (ct_view ct')) \<and>
      ct_vtxundo ct' = (if first then ct_vtxundo ct else ct_vtxundo ct @ [undo])"
    "cache_ok (ct_view ct')" "ct_nFees ct' = ct_nFees ct + fee_of (coins (ct_view ct)) tx"
    "known (ct_view ct) j \<Longrightarrow> known (ct_view ct') j"
proof -
  obtain a b d where s: "connect_amounts ce tx ct = Inr a" "connect_sigops ce tx a = Inr b" "connect_scripts ce tx b = Inr d"
    "connect_coins ce first tx d = Inr ct'" using c by (auto simp: connect_tx_def sum_bind_Inr_iff)
  note A = connect_amounts_success [OF ok tx s(1)]
  note B = connect_sigops_success [OF reads_ok [OF A(1)] s(2)]
  note D = connect_scripts_success [OF reads_ok [OF B [THEN conjunct1]] s(3)]
  have r: "reads (ct_view ct) (ct_view d)" using A(1) B D reads_trans by blast
  obtain undo w where u: "UpdateCoins tx (ct_view d) (ce_nHeight ce) = Inr (undo, w)"
    "ct' = d\<lparr> ct_view := w, ct_vtxundo := (if first then ct_vtxundo d else ct_vtxundo d @ [undo]) \<rparr>"
    using s(4) by (auto simp: connect_coins_def sum_bind_Inr_iff)
  have vals: "\<forall>out \<in> set (vout tx). nValue out \<noteq> - 1" and dist: "distinct (spent_by tx)"
    using tx by (auto simp: CheckTransaction_iff spent_by_def list_all_iff MoneyRange_def)
  have pres: "\<forall>k \<in> set (spent_by tx). coins (ct_view d) k \<noteq> None"
    using A(3) r by (auto simp: spent_by_def spends_ok_def list_all_iff reads_def dest!: spendable_some)
  have "\<forall>k \<in> set (tx_outpoints tx). known (ct_view d) k" using kn r by (simp add: reads_def)
  note U = UpdateCoins_success [OF reads_ok [OF r] this vals dist pres u(1)]
  have "tx_accepted (ce_nHeight ce) tx (coins (ct_view ct)) undo (coins (ct_view ct'))"
    using U(2,3,5) dist r u(2) by (simp add: tx_accepted_def reads_def)
  then show "\<exists>undo. tx_accepted (ce_nHeight ce) tx (coins (ct_view ct)) undo (coins (ct_view ct')) \<and>
      ct_vtxundo ct' = (if first then ct_vtxundo ct else ct_vtxundo ct @ [undo])" using A(2) B D u(2) by auto
  show "cache_ok (ct_view ct')" "known (ct_view ct) j \<Longrightarrow> known (ct_view ct') j"
    using U(1,4) r u(2) by (simp_all add: reads_def)
  show "ct_nFees ct' = ct_nFees ct + fee_of (coins (ct_view ct)) tx" using A(4) B D u(2) by (simp add: fee_of_def)
qed

lemma tx_accepted_value:
  assumes "tx_accepted h tx m undo m'" "sound m" "CheckTransaction tx = Inr ()" "0 < h" "h < 2 ^ 31"
  shows "sound m'" "total_value m' \<le> total_value m + (if IsCoinBase tx then value_out tx else 0) - fee_of m tx"
proof -
  have l: "list_all (\<lambda>x. MoneyRange (nValue x)) (vout tx)" using assms(3) by (simp add: CheckTransaction_iff)
  have d: "distinct (spent_by tx)" and m': "m' = apply_tx h tx m" using assms(1) by (auto simp: tx_accepted_def)
  note v = apply_tx_value [OF assms(2) l assms(4,5) d]
  show "sound m'" using v(1) m' by simp
  have "map (coin_value m) (spent_by tx) = (if IsCoinBase tx then [] else map (input_value m) (vin tx))"
    by (simp add: spent_by_def input_value_coin_value)
  then show "total_value m' \<le> total_value m + (if IsCoinBase tx then value_out tx else 0) - fee_of m tx"
    using v(2) m' by (auto simp: fee_of_def split: if_splits)
qed

section \<open>The loop\<close>

lemma connect_loop_value:
  assumes "connect_loop ce first txs ct = Inr ct'" "cache_ok (ct_view ct)" "sound (coins (ct_view ct))"
    and "\<forall>tx \<in> set txs. CheckTransaction tx = Inr () \<and> (\<forall>k \<in> set (tx_outpoints tx). known (ct_view ct) k)"
    and "0 < ce_nHeight ce" "ce_nHeight ce < 2 ^ 31"
  shows "cache_ok (ct_view ct') \<and> sound (coins (ct_view ct')) \<and>
    total_value (coins (ct_view ct')) + ct_nFees ct' \<le>
      total_value (coins (ct_view ct)) + ct_nFees ct + sum_list (map value_out (filter IsCoinBase txs))"
  using assms(1-4)
proof (induction txs arbitrary: first ct)
  case (Cons tx txs)
  obtain d where d: "connect_tx ce first tx ct = Inr d" "connect_loop ce False txs d = Inr ct'"
    using Cons.prems(1) by (auto simp: sum_bind_Inr_iff)
  have tx: "CheckTransaction tx = Inr ()" "\<forall>k \<in> set (tx_outpoints tx). known (ct_view ct) k" using Cons.prems(4) by simp_all
  note s = connect_tx_success [OF Cons.prems(2) tx d(1)]
  obtain undo where "tx_accepted (ce_nHeight ce) tx (coins (ct_view ct)) undo (coins (ct_view d))" using s(1) by blast
  note v = tx_accepted_value [OF this Cons.prems(3) tx(1) assms(5,6)]
  have "\<forall>tx \<in> set txs. CheckTransaction tx = Inr () \<and> (\<forall>k \<in> set (tx_outpoints tx). known (ct_view d) k)"
    using Cons.prems(4) s(4) by auto
  from Cons.IH [OF d(2) s(2) v(1) this] show ?case using v(2) s(3) by auto
qed simp

section \<open>A block\<close>

lemma view_GetBestBlock_reads:
  "view_GetBestBlock v = (h, w) \<Longrightarrow> coins_of w = coins_of v \<and> (view_ok v \<longrightarrow> view_ok w) \<and> layered w = layered v"
  by (induction v arbitrary: h w) (auto simp: coins_of.simps view_ok.simps split: prod.splits if_splits)

lemma GetBestBlock_reads:
  assumes "cache_ok v" "GetBestBlock v = (h, w)"
  shows "reads v w"
proof (cases "hashBlock (snd v) = null_hash")
  case True
  obtain g b where g: "view_GetBestBlock (fst v) = (g, b)" by (metis surj_pair)
  then show ?thesis using assms True view_GetBestBlock_reads [OF g]
    by (auto simp: GetBestBlock_def reads_def known_def coins_of.simps view_ok.simps)
next
  case False
  then show ?thesis using assms reads_refl by (simp add: GetBestBlock_def)
qed

definition fresh_outputs :: "CBlock \<Rightarrow> (COutPoint \<Rightarrow> Coin option) \<Rightarrow> bool" where
  "fresh_outputs block m \<longleftrightarrow> (\<forall>tx \<in> set (vtx block). \<forall>k \<in> set (tx_outpoints tx). m k = None)"

text \<open>A block whose flag says so has passed the checks that do not depend on the header.\<close>

definition block_checked :: "chain_state \<Rightarrow> CBlock \<Rightarrow> bool" where
  "block_checked cs block \<longleftrightarrow> (\<exists>f. CheckBlock (cs_impl cs) (cs_curve cs) block False (cs_params cs) False False = Inr f)"

lemma check_transactions_iff: "check_transactions txs = Inr () \<longleftrightarrow> (\<forall>tx \<in> set txs. CheckTransaction tx = Inr ())"
  by (induction txs rule: check_transactions.induct) (auto split: sum.splits stop.splits)

lemma CheckBlock_facts:
  assumes "CheckBlock impl ec block False params pow merkle = Inr f"
  shows "vtx block \<noteq> []" "IsCoinBase (hd (vtx block))" "\<forall>tx \<in> set (tl (vtx block)). \<not> IsCoinBase tx"
    "\<forall>tx \<in> set (vtx block). CheckTransaction tx = Inr ()"
  using assms by (auto simp: CheckBlock_def sum_bind_Inr_iff check_transactions_iff split: if_splits)

definition block_hash :: "CBlock \<Rightarrow> uint256" where "block_hash block = CBlockHeader_GetHash (block_header block)"

lemma check_before_connect_facts:
  assumes "check_before_connect cs block fChecked fJustCheck = Inr ()" "fChecked \<Longrightarrow> block_checked cs block"
  shows "vtx block \<noteq> []" "IsCoinBase (hd (vtx block))" "\<forall>tx \<in> set (tl (vtx block)). \<not> IsCoinBase tx"
    "\<forall>tx \<in> set (vtx block). CheckTransaction tx = Inr ()"
proof -
  obtain pow merkle f where c: "CheckBlock (cs_impl cs) (cs_curve cs) block False (cs_params cs) pow merkle = Inr f"
    using assms by (cases fChecked) (auto simp: check_before_connect_def block_checked_def split: sum.splits stop.splits if_splits)
  show "vtx block \<noteq> []" "IsCoinBase (hd (vtx block))" "\<forall>tx \<in> set (tl (vtx block)). \<not> IsCoinBase tx"
    "\<forall>tx \<in> set (vtx block). CheckTransaction tx = Inr ()" by (fact CheckBlock_facts [OF c])+
qed

lemma check_bip30_reads: "cache_ok v \<Longrightarrow> check_bip30 e block v = Inr w \<Longrightarrow> reads v w"
  using have_any_reads [of v "concat (map tx_outpoints (vtx block))"] reads_refl
  by (auto simp: check_bip30_def split: if_splits prod.splits)

text \<open>What a successful connection went through.\<close>

lemma ConnectBlock_success:
  assumes ok: "cache_ok view" and b: "cs_index cs pindex = Some b" and ng: "block_hash block \<noteq> hashGenesisBlock (cs_params cs)"
    and c: "ConnectBlock cs block fChecked pindex view fJustCheck = Inr (cs', view')"
  obtains u ct fScriptChecks flags where "check_before_connect cs block fChecked fJustCheck = Inr ()" "reads view u"
    "connect_loop (connect_env_of cs pindex b fScriptChecks fJustCheck flags) True (vtx block) (connect_start cs u) = Inr ct"
    "connect_reward cs block (nHeight b) (ct_nFees ct) = Inr ()"
    "if fJustCheck then view' = ct_view ct else connect_finish cs pindex b ct = Inr (cs', view')"
proof -
  obtain h v where g: "GetBestBlock view = (h, v)" by (metis surj_pair)
  have r: "reads view v" using GetBestBlock_reads [OF ok g] .
  obtain fs e u flags ct where s: "check_before_connect cs block fChecked fJustCheck = Inr ()" "check_bip30 e block v = Inr u"
    "connect_loop (connect_env_of cs pindex b fs fJustCheck flags) True (vtx block) (connect_start cs u) = Inr ct"
    "connect_reward cs block (nHeight b) (ct_nFees ct) = Inr ()"
    "if fJustCheck then view' = ct_view ct else connect_finish cs pindex b ct = Inr (cs', view')"
    using c b g ng by (auto simp: ConnectBlock_def block_hash_def sum_bind_Inr_iff deref_def Let_def split: if_splits)
  show ?thesis by (rule that [OF s(1) _ s(3-5)]) (use r check_bip30_reads [OF reads_ok [OF r] s(2)] reads_trans in blast)
qed

lemma connect_finish_view: "connect_finish cs pindex b ct = Inr (cs', w) \<Longrightarrow> \<exists>h. w = SetBestBlock (ct_view ct) h"
  by (auto simp: connect_finish_def sum_bind_Inr_iff)

lemma ConnectBlock_genesis:
  assumes "cache_ok view" "block_hash block = hashGenesisBlock (cs_params cs)"
    "ConnectBlock cs block fChecked pindex view fJustCheck = Inr (cs', view')"
  shows "cache_ok view'" "coins view' = coins view"
proof -
  obtain h v where g: "GetBestBlock view = (h, v)" by (metis surj_pair)
  have r: "reads view v" using GetBestBlock_reads [OF assms(1) g] .
  have "view' = v \<or> view' = SetBestBlock v (block_hash block)"
    using assms(2,3) g by (auto simp: ConnectBlock_def block_hash_def sum_bind_Inr_iff Let_def split: if_splits)
  then show "cache_ok view'" "coins view' = coins view"
    using r SetBestBlock_law [OF reads_ok [OF r]] by (auto simp: reads_def)
qed

lemma GetBlockSubsidy_nonneg: "GetBlockSubsidy h params = Inr s \<Longrightarrow> 0 \<le> s"
  by (auto simp: GetBlockSubsidy_def sum_bind_Inr_iff Let_def COIN_def split: if_splits)

lemma ConnectBlock_value:
  assumes ok: "cache_ok view" "sound (coins view)" "fresh_outputs block (coins view)" "fChecked \<Longrightarrow> block_checked cs block"
    and b: "cs_index cs pindex = Some b" "0 < nHeight b" "nHeight b < 2 ^ 31"
    and sub: "GetBlockSubsidy (nHeight b) (cs_params cs) = Inr subsidy"
    and c: "ConnectBlock cs block fChecked pindex view fJustCheck = Inr (cs', view')"
  shows "cache_ok view' \<and> sound (coins view') \<and> total_value (coins view') \<le> total_value (coins view) + subsidy"
proof (cases "block_hash block = hashGenesisBlock (cs_params cs)")
  case True
  then show ?thesis using ConnectBlock_genesis [OF ok(1) True c] GetBlockSubsidy_nonneg [OF sub] ok(2) by simp
next
  case False
  from ConnectBlock_success [OF ok(1) b(1) False c] obtain u ct fs flags where
    s: "check_before_connect cs block fChecked fJustCheck = Inr ()" "reads view u"
    "connect_loop (connect_env_of cs pindex b fs fJustCheck flags) True (vtx block) (connect_start cs u) = Inr ct"
    "connect_reward cs block (nHeight b) (ct_nFees ct) = Inr ()"
    "if fJustCheck then view' = ct_view ct else connect_finish cs pindex b ct = Inr (cs', view')" .
  note f = check_before_connect_facts [OF s(1) ok(4)]
  have kn: "known u k" if "tx \<in> set (vtx block)" "k \<in> set (tx_outpoints tx)" for tx k
    using absent_known [of view k] ok(3) that s(2) by (auto simp: fresh_outputs_def reads_def)
  obtain cb txs where vtx: "vtx block = cb # txs" using f(1) by (cases "vtx block") auto
  have cbs: "filter IsCoinBase (vtx block) = [cb]" using f(2,3) vtx by (simp add: filter_empty_conv)
  have l: "cache_ok (ct_view ct) \<and> sound (coins (ct_view ct)) \<and>
      total_value (coins (ct_view ct)) + ct_nFees ct \<le> total_value (coins view) + value_out cb"
    using connect_loop_value [OF s(3)] f(4) kn s(2) ok(2) b(2,3) reads_ok [OF s(2)]
    by (simp add: connect_start_def connect_env_of_def cbs reads_def)
  have "value_out cb \<le> ct_nFees ct + subsidy"
    using s(4) sub f(4) vtx by (auto simp: connect_reward_def sum_bind_Inr_iff GetValueOut_exact CheckTransaction_iff Let_def split: if_splits)
  moreover have "cache_ok view' \<and> coins view' = coins (ct_view ct)"
    using s(5) l connect_finish_view [of cs pindex b ct cs' view'] SetBestBlock_law [of "ct_view ct"] by (auto split: if_splits)
  ultimately show ?thesis using l by auto
qed

section \<open>The supply\<close>

definition subsidy :: "Params \<Rightarrow> int \<Rightarrow> int" where
  "subsidy params h = (case GetBlockSubsidy h params of Inl _ \<Rightarrow> 0 | Inr s \<Rightarrow> s)"

lemma GetBlockSubsidy_value:
  assumes "0 < nSubsidyHalvingInterval params" "0 \<le> h"
  shows "GetBlockSubsidy h params = Inr (subsidy params h)"
    "subsidy params h = (if h div nSubsidyHalvingInterval params < 64
       then (if h = 1 then 1000000 * COIN else 50 * COIN) div 2 ^ nat (h div nSubsidyHalvingInterval params) else 0)"
proof -
  have "cdiv h (nSubsidyHalvingInterval params) = Inr (h div nSubsidyHalvingInterval params)"
    using assms by (simp add: cdiv_def signed_divide_int_def sgn_if)
  then show "GetBlockSubsidy h params = Inr (subsidy params h)"
    "subsidy params h = (if h div nSubsidyHalvingInterval params < 64
       then (if h = 1 then 1000000 * COIN else 50 * COIN) div 2 ^ nat (h div nSubsidyHalvingInterval params) else 0)"
    by (auto simp: GetBlockSubsidy_def subsidy_def Let_def drop_bit_eq_div)
qed

text \<open>The halvings of 50 coins, as integers, add up to less than 100 coins.\<close>

lemma halvings_sum: "(\<Sum>k < 64. 50 * COIN div 2 ^ k) < 100 * COIN"
  by (simp add: COIN_def lessThan_Suc numeral_eq_Suc)

definition halved :: "nat \<Rightarrow> nat \<Rightarrow> int" where
  "halved i h = (if h div i < 64 then 50 * COIN div 2 ^ (h div i) else 0)"

lemma halved_period: "0 < i \<Longrightarrow> sum (halved i) {k * i..<k * i + i} = int i * (if k < 64 then 50 * COIN div 2 ^ k else 0)"
proof -
  assume i: "0 < i"
  have "h div i = k" if "h \<in> {k * i..<k * i + i}" for h
    using that i by (metis atLeastLessThan_iff add.commute div_nat_eqI mult.commute mult_Suc)
  then have "sum (halved i) {k * i..<k * i + i} = (\<Sum>h \<in> {k * i..<k * i + i}. if k < 64 then 50 * COIN div 2 ^ k else 0)"
    by (intro sum.cong) (auto simp: halved_def)
  then show ?thesis by simp
qed

lemma halved_sum: "0 < i \<Longrightarrow> sum (halved i) {..<n} \<le> int i * (100 * COIN)"
proof -
  assume i: "0 < i"
  let ?N = "max 64 n"
  have nonneg: "0 \<le> halved i h" for h by (simp add: halved_def COIN_def pos_imp_zdiv_nonneg_iff)
  have "n \<le> ?N * i" using i by (metis max.coboundedI2 le_trans less_eq_Suc_le One_nat_def mult_le_mono2 mult.right_neutral order_refl)
  then have "sum (halved i) {..<n} \<le> sum (halved i) {..<?N * i}" by (intro sum_mono2) (auto simp: nonneg)
  also have "\<dots> = (\<Sum>k < ?N. int i * (if k < 64 then 50 * COIN div 2 ^ k else 0))"
    by (simp add: sum.nat_group [symmetric] halved_period [OF i])
  also have "\<dots> = (\<Sum>k < 64. int i * (if k < 64 then 50 * COIN div 2 ^ k else 0))"
    by (rule sum.mono_neutral_right) auto
  also have "\<dots> = int i * (\<Sum>k < 64. 50 * COIN div 2 ^ k)" by (simp add: sum_distrib_left)
  also have "\<dots> \<le> int i * (100 * COIN)" using halvings_sum by (intro mult_left_mono) simp_all
  finally show ?thesis .
qed

lemma subsidy_le_halved:
  assumes "1 < nSubsidyHalvingInterval params"
  shows "subsidy params (int h) \<le> halved (nat (nSubsidyHalvingInterval params)) h + (if h = 1 then 999950 * COIN else 0)"
proof -
  let ?i = "nat (nSubsidyHalvingInterval params)"
  have d: "int h div nSubsidyHalvingInterval params = int (h div ?i)" using assms by (simp add: zdiv_int)
  show ?thesis using GetBlockSubsidy_value(2) [of params "int h"] assms by (auto simp: d halved_def COIN_def)
qed

lemma subsidy_sum:
  assumes "1 < nSubsidyHalvingInterval params"
  shows "(\<Sum>h < n. subsidy params (int h)) \<le> nSubsidyHalvingInterval params * (100 * COIN) + 999950 * COIN"
proof -
  let ?i = "nat (nSubsidyHalvingInterval params)"
  have "(\<Sum>h < n. subsidy params (int h)) \<le> (\<Sum>h < n. halved ?i h + (if h = 1 then 999950 * COIN else 0))"
    by (intro sum_mono subsidy_le_halved assms)
  also have "\<dots> = sum (halved ?i) {..<n} + (\<Sum>h < n. if h = 1 then 999950 * COIN else 0)" by (rule sum.distrib)
  also have "\<dots> \<le> int ?i * (100 * COIN) + 999950 * COIN"
    using halved_sum [of ?i n] assms by (auto simp: COIN_def)
  finally show ?thesis using assms by simp
qed

text \<open>
  The sets of coins a chain of blocks can lead to: none after the first block, whose outputs are not
  added, and then one block after the other. Each block is connected through any cache that stands
  for the current set, with any chain state of the network.
\<close>

inductive reached :: "Params \<Rightarrow> nat \<Rightarrow> (COutPoint \<Rightarrow> Coin option) \<Rightarrow> bool" for params where
  genesis: "reached params 0 (\<lambda>_. None)"
| connect: "reached params (Suc n) (coins view')"
    if "reached params n (coins view)" "cache_ok view" "fresh_outputs block (coins view)" "fChecked \<longrightarrow> block_checked cs block"
      "cs_params cs = params" "cs_index cs pindex = Some b" "nHeight b = int (Suc n)" "Suc n < 2 ^ 31"
      "ConnectBlock cs block fChecked pindex view fJustCheck = Inr (cs', view')"

lemma reached_supply:
  assumes "reached params n m" "0 < nSubsidyHalvingInterval params"
  shows "sound m \<and> total_value m \<le> (\<Sum>h < Suc n. subsidy params (int h))"
  using assms
proof induction
  case genesis
  have "0 \<le> subsidy params 0" using GetBlockSubsidy_nonneg GetBlockSubsidy_value(1) [OF assms(2), of 0] by auto
  then show ?case by (simp add: sound_def total_value_def)
next
  case (connect n view block fChecked cs pindex b fJustCheck cs' view')
  have ih: "sound (coins view)" "total_value (coins view) \<le> (\<Sum>h < Suc n. subsidy params (int h))" using connect.IH connect.prems by blast+
  have "GetBlockSubsidy (nHeight b) (cs_params cs) = Inr (subsidy params (int (Suc n)))"
    using GetBlockSubsidy_value(1) [OF assms(2), of "int (Suc n)"] connect.hyps by simp
  note v = ConnectBlock_value [OF connect.hyps(2) ih(1) connect.hyps(3) _ connect.hyps(6) _ _ this connect.hyps(9)]
  have "0 < nHeight b" "nHeight b < 2 ^ 31" "fChecked \<Longrightarrow> block_checked cs block" using connect.hyps by auto
  then show ?case using v ih(2) by auto
qed

section \<open>A sample block\<close>

text \<open>A block with one coinbase of 50 coins at height 1, on a network whose first block has no outputs.\<close>

definition sample_coinbase :: CTransaction where
  "sample_coinbase = \<lparr> vin = [\<lparr> prevout = COutPoint_null, scriptSig = [0x51, 0x51], nSequence = 0, scriptWitness = [] \<rparr>],
     vout = [\<lparr> nValue = 50 * COIN, scriptPubKey = [0x51] \<rparr>], tx_nVersion = 2, nLockTime = 0 \<rparr>"

definition reward_block :: CBlock where
  "reward_block = \<lparr> block_header = \<lparr> hdr_nVersion = 4, hdr_hashPrevBlock = replicate 32 1, hdr_hashMerkleRoot = replicate 32 0,
       hdr_nTime = 1600, hdr_nBits = 0x1d00ffff, hdr_nNonce = 0 \<rparr>, vtx = [sample_coinbase] \<rparr>"

definition reward_params :: Params where
  "reward_params = (main_consensus 5)\<lparr> hashGenesisBlock := [], BIP34Height := 100 \<rparr>"

definition reward_index :: block_store where
  "reward_index = [0 \<mapsto> (sample_node None None 0 1000)\<lparr> phashBlock := Some (replicate 32 1) \<rparr>,
     2 \<mapsto> (sample_node (Some 0) None 1 1600)\<lparr> phashBlock := Some (block_hash reward_block) \<rparr>]"

definition reward_state :: chain_state where
  "reward_state = \<lparr> cs_params = reward_params, cs_index = reward_index, m_block_index = (\<lambda>_. None), m_best_header = 2,
     hashAssumeValid = null_hash, cs_nMinimumChainWork = bu_zero, g_parallel_script_checks = True,
     g_scriptExecutionCacheHasher = CSHA256, g_scriptExecutionCache = [], cs_impl = default_impl, cs_curve = sample_curve,
     UndoWriteToDisk = (\<lambda>_. Some 8), UndoReadFromDisk = (\<lambda>_. Some []) \<rparr>"

abbreviation empty_view :: coins_cache where
  "empty_view \<equiv> (ViewDB \<lparr> db_coins = (\<lambda>_. None), db_best = Some (replicate 32 1), db_heads = [] \<rparr>,
     \<lparr> hashBlock = replicate 32 1, cacheCoins = [] \<rparr>)"

lemma empty_view_ok: "cache_ok empty_view" "coins empty_view = (\<lambda>_. None)"
  by (simp_all add: view_ok.simps coins_of.simps map_ok_def over_def)

lemma sample_coinbase_checks: "CheckTransaction sample_coinbase = Inr ()" "IsCoinBase sample_coinbase"
  "GetLegacySigOpCount sample_coinbase = Inr 0" "length (ser_CBlock False reward_block) = 144"
proof -
  have len: "length (SerializeTransaction False sample_coinbase) = 63" by code_simp
  show cb: "IsCoinBase sample_coinbase" by code_simp
  show "CheckTransaction sample_coinbase = Inr ()" using len cb unfolding CheckTransaction_iff
    by (simp add: sample_coinbase_def WITNESS_SCALE_FACTOR_def MAX_BLOCK_WEIGHT_def MoneyRange_def MAX_MONEY_def COIN_def)
  show "GetLegacySigOpCount sample_coinbase = Inr 0" by code_simp
  show "length (ser_CBlock False reward_block) = 144" by code_simp
qed

lemma reward_block_simps [simp]: "vtx reward_block = [sample_coinbase]"
  "cs_params reward_state = reward_params" "cs_index reward_state = reward_index" "hashAssumeValid reward_state = null_hash"
  "BIP34Height reward_params = 100" "hashGenesisBlock reward_params = []" "signet_blocks reward_params = False"
  "script_flag_exceptions reward_params = []" "nSubsidyHalvingInterval reward_params = 210240"
  by (simp_all add: reward_block_def reward_state_def reward_params_def main_consensus_def)

lemma block_hash_length: "length (block_hash block) = 32"
  by (simp add: block_hash_def CBlockHeader_GetHash_def SerializeHash_value)

text \<open>The hash of the block, in its three compressions.\<close>

definition reward_words :: "u32 list" where
  "reward_words = [0x4000000, 0x1010101, 0x1010101, 0x1010101, 0x1010101, 0x1010101, 0x1010101, 0x1010101, 0x1010101, 0, 0, 0, 0, 0, 0, 0]"

definition reward_tail :: "u32 list" where
  "reward_tail = [0, 0x40060000, 0xffff001d, 0, 0x80000000, 0, 0, 0, 0, 0, 0, 0, 0, 0, 0, 0x280]"

lemma reward_hash_1: "sha256_compress sha256_Initialize reward_words = [0x8d7cb332, 0xad7fac30, 0x132f5a56, 0xde53ec76, 0x5a0e28b2, 0x670533ae, 0xd5056fec, 0x22703da6]"
  by code_simp

lemma reward_hash_2: "sha256_compress [0x8d7cb332, 0xad7fac30, 0x132f5a56, 0xde53ec76, 0x5a0e28b2, 0x670533ae, 0xd5056fec, 0x22703da6] reward_tail =
    [0x8a04f5a0, 0x18aadb2f, 0x4a407b7b, 0xfb273da3, 0x419713fd, 0x79ce42d7, 0x43dc6e4c, 0xf936f97a]"
  by code_simp

lemma reward_hash_3: "sha256_compress sha256_Initialize ([0x8a04f5a0, 0x18aadb2f, 0x4a407b7b, 0xfb273da3, 0x419713fd, 0x79ce42d7, 0x43dc6e4c, 0xf936f97a] @
    [0x80000000, 0, 0, 0, 0, 0, 0, 0x100]) = [0x2f31326b, 0x2e4d587c, 0x57f8861b, 0x580fe58b, 0xac83c6d4, 0xb2acff6d, 0x24fd5698, 0x7528f05f]"
  by code_simp

lemma reward_hash: "block_hash reward_block \<noteq> null_hash"
proof -
  have len: "length reward_words = 16" "length reward_tail = 16" by (simp_all add: reward_words_def reward_tail_def)
  have "md_padded WriteBE64 (ser_CBlockHeader (block_header reward_block)) = concat (map WriteBE32 reward_words) @ concat (map WriteBE32 reward_tail)"
    by code_simp
  then have "sha256 (ser_CBlockHeader (block_header reward_block)) =
      concat (map WriteBE32 (sha256_compress (sha256_compress sha256_Initialize (block_words (concat (map WriteBE32 reward_words)))) reward_tail))"
    by (rule sha256_two_blocks) (simp_all add: len length_concat_WriteBE32)
  then have "sha256 (ser_CBlockHeader (block_header reward_block)) =
      concat (map WriteBE32 (sha256_compress (sha256_compress sha256_Initialize reward_words) reward_tail))"
    by (simp only: block_words_concat [OF len(1)])
  then have "block_hash reward_block = concat (map WriteBE32 [0x2f31326b, 0x2e4d587c, 0x57f8861b, 0x580fe58b, 0xac83c6d4, 0xb2acff6d, 0x24fd5698, 0x7528f05f])"
    unfolding block_hash_def CBlockHeader_GetHash_def SerializeHash_value sha256d_def reward_hash_1 reward_hash_2
    using sha256_32 [of "[0x8a04f5a0, 0x18aadb2f, 0x4a407b7b, 0xfb273da3, 0x419713fd, 0x79ce42d7, 0x43dc6e4c, 0xf936f97a]"] reward_hash_3 by (simp del: list.map concat.simps)
  moreover have "concat (map WriteBE32 [0x2f31326b, 0x2e4d587c, 0x57f8861b, 0x580fe58b, 0xac83c6d4, 0xb2acff6d, 0x24fd5698, 0x7528f05f]) \<noteq> null_hash" by code_simp
  ultimately show ?thesis by simp
qed

lemma reward_CheckBlock: "CheckBlock impl ec reward_block False reward_params False False = Inr False"
  using sample_coinbase_checks
  by (simp add: CheckBlock_def CheckBlockHeader_def check_signet_def check_merkle_def MAX_BLOCK_WEIGHT_def WITNESS_SCALE_FACTOR_def
      MAX_BLOCK_SIGOPS_COST_def)

abbreviation reward_point :: COutPoint where "reward_point \<equiv> \<lparr> op_hash = tx_GetHash sample_coinbase, op_n = 0 \<rparr>"
abbreviation reward_coin :: Coin where "reward_coin \<equiv> make_Coin \<lparr> nValue = 50 * COIN, scriptPubKey = [0x51] \<rparr> 1 True"

lemma reward_update: "\<exists>w. UpdateCoins sample_coinbase empty_view 1 = Inr ([], w)"
proof -
  have "\<not> IsUnspendable [0x51]" by (simp add: IsUnspendable_def MAX_SCRIPT_SIZE_def)
  then show ?thesis using sample_coinbase_checks(2)
    by (simp add: UpdateCoins_def AddCoins_def sample_coinbase_def AddCoin_def COIN_def Let_def)
qed

lemma reward_loop:
  assumes "ce_nHeight ce = 1" "UpdateCoins sample_coinbase u 1 = Inr ([], w)"
  shows "connect_loop ce True [sample_coinbase] (connect_start reward_state u) = Inr ((connect_start reward_state u)\<lparr> ct_view := w \<rparr>)"
  using sample_coinbase_checks(2,3) assms
  by (auto simp: connect_tx_def connect_amounts_def connect_sigops_def GetTransactionSigOpCost_def connect_scripts_def connect_coins_def
      connect_start_def MAX_BLOCK_SIGOPS_COST_def Let_def)

lemma reward_fresh: "fresh_outputs reward_block (coins empty_view)"
  unfolding fresh_outputs_def empty_view_ok(2) by simp

abbreviation reward_node :: CBlockIndex where
  "reward_node \<equiv> (sample_node (Some 0) None 1 1600)\<lparr> phashBlock := Some (block_hash reward_block) \<rparr>"

lemma reward_index_2: "reward_index 2 = Some reward_node"
  and reward_index_0: "reward_index 0 = Some ((sample_node None None 0 1000)\<lparr> phashBlock := Some (replicate 32 1) \<rparr>)"
  by (simp_all add: reward_index_def)

lemma ConnectBlock_steps:
  assumes "cs_index cs pindex = Some b" "phashBlock b = Some (block_hash block)" "check_before_connect cs block fChecked fJustCheck = Inr ()"
    and "previous_hash (cs_index cs) b = Inr h" "GetBestBlock view = (h, v)" "block_hash block \<noteq> hashGenesisBlock (cs_params cs)"
    and "script_checks_needed cs pindex b = Inr fs" "bip30_enforced cs b = Inr e" "check_bip30 e block v = Inr u"
    and "GetBlockScriptFlags (cs_params cs) b = Inr flags"
    and "connect_loop (connect_env_of cs pindex b fs fJustCheck flags) True (vtx block) (connect_start cs u) = Inr ct"
    and "connect_reward cs block (nHeight b) (ct_nFees ct) = Inr ()" "control_Wait (cs_curve cs) (ct_control ct) = Inr True"
  shows "ConnectBlock cs block fChecked pindex view fJustCheck =
    (if fJustCheck then Inr (cs\<lparr> g_scriptExecutionCache := ct_cache ct \<rparr>, ct_view ct) else connect_finish cs pindex b ct)"
  using assms by (simp add: ConnectBlock_def deref_def block_hash_def Let_def)

lemma reward_connects_on:
  assumes "fChecked = (\<not> fJustCheck)" and g: "GetBestBlock view = (replicate 32 1, u)"
    and c30: "\<And>e. check_bip30 e reward_block u = Inr u" and w: "UpdateCoins sample_coinbase u 1 = Inr ([], w)"
  shows "ConnectBlock reward_state reward_block fChecked 2 view fJustCheck =
    (if fJustCheck then Inr (reward_state, w) else connect_finish reward_state 2 reward_node ((connect_start reward_state u)\<lparr> ct_view := w \<rparr>))"
proof -
  have "GetAncestor reward_index 0 100 = Inr None" by (simp add: GetAncestor_def deref_def reward_index_0)
  then obtain e where b30: "bip30_enforced reward_state reward_node = Inr e"
    by (simp add: bip30_enforced_def GetBlockHash_def)
  obtain f where fl: "GetBlockScriptFlags reward_params reward_node = Inr f" by (simp add: GetBlockScriptFlags_def Let_def)
  have ne: "block_hash reward_block \<noteq> []" using block_hash_length [of reward_block] by auto
  have ch: "check_before_connect reward_state reward_block fChecked fJustCheck = Inr ()"
    using assms(1) reward_CheckBlock by (cases fJustCheck) (simp_all add: check_before_connect_def CheckBlock_def)
  have rw: "connect_reward reward_state reward_block 1 0 = Inr ()"
    using sample_coinbase_checks(1) GetBlockSubsidy_value [of reward_params 1]
    by (simp add: connect_reward_def GetValueOut_exact CheckTransaction_iff) (simp add: sample_coinbase_def COIN_def)
  have pv: "previous_hash reward_index reward_node = Inr (replicate 32 1)"
    by (simp add: previous_hash_def deref_def reward_index_0 GetBlockHash_def)
  have sc: "script_checks_needed reward_state 2 reward_node = Inr True" by (simp add: script_checks_needed_def)
  have lp: "connect_loop (connect_env_of reward_state 2 reward_node True fJustCheck f) True [sample_coinbase] (connect_start reward_state u)
       = Inr ((connect_start reward_state u)\<lparr> ct_view := w \<rparr>)"
    using reward_loop [OF _ w] by (simp add: connect_env_of_def)
  have "ConnectBlock reward_state reward_block fChecked 2 view fJustCheck =
    (if fJustCheck then Inr (reward_state\<lparr> g_scriptExecutionCache := ct_cache ((connect_start reward_state u)\<lparr> ct_view := w \<rparr>) \<rparr>,
         ct_view ((connect_start reward_state u)\<lparr> ct_view := w \<rparr>))
     else connect_finish reward_state 2 reward_node ((connect_start reward_state u)\<lparr> ct_view := w \<rparr>))"
    by (rule ConnectBlock_steps [where h = "replicate 32 1" and v = u and u = u and fs = True and e = e and flags = f])
      (use g b30 c30 fl ne ch rw pv sc lp in \<open>simp_all add: reward_index_2 connect_start_def\<close>)
  then show ?thesis by (simp add: connect_start_def reward_state_def)
qed

lemma reward_connects:
  assumes "fChecked = (\<not> fJustCheck)"
  shows "\<exists>w. UpdateCoins sample_coinbase empty_view 1 = Inr ([], w) \<and> ConnectBlock reward_state reward_block fChecked 2 empty_view fJustCheck =
    (if fJustCheck then Inr (reward_state, w)
     else connect_finish reward_state 2 reward_node ((connect_start reward_state empty_view)\<lparr> ct_view := w \<rparr>))"
proof -
  have g: "GetBestBlock empty_view = (replicate 32 1, empty_view)" by (simp add: GetBestBlock_def null_hash_def)
  have c30: "check_bip30 e reward_block empty_view = Inr empty_view" for e
    by (simp add: check_bip30_def tx_outpoints_def sample_coinbase_def cache_HaveCoin_def FetchCoin.simps GetCoin.simps)
  obtain w where w: "UpdateCoins sample_coinbase empty_view 1 = Inr ([], w)" using reward_update by blast
  show ?thesis by (rule exI [of _ w], use w reward_connects_on [OF assms g c30 w] in simp)
qed

section \<open>Properties\<close>

text \<open>
  C6: connecting a block creates no more value than the subsidy. If a consistent cache stands for a set of
  sound coins, none of the block's outputs is already in it (the rule of BIP30) and
  \<open>ConnectBlock\<close> accepts the block, then the cache it leaves is consistent, its coins are sound, and their
  total value has grown by at most \<open>GetBlockSubsidy\<close> of the height, whatever the transactions spend,
  within the block or across it.
\<close>

theorem ConnectBlock_conserves:
  assumes "cache_ok view" "sound (coins view)" "fresh_outputs block (coins view)" "fChecked \<Longrightarrow> block_checked cs block"
    and "cs_index cs pindex = Some b" "0 < nHeight b" "nHeight b < 2 ^ 31"
    and "GetBlockSubsidy (nHeight b) (cs_params cs) = Inr s"
    and "ConnectBlock cs block fChecked pindex view fJustCheck = Inr (cs', view')"
  shows "cache_ok view' \<and> sound (coins view') \<and> total_value (coins view') \<le> total_value (coins view) + s"
  using assms by (rule ConnectBlock_value)

theorem ConnectBlock_conserves_witness:
  "\<exists>cs view. ConnectBlock reward_state reward_block False 2 empty_view True = Inr (cs, view) \<and>
     total_value (coins view) \<le> 1000000 * COIN"
proof -
  obtain w where w: "ConnectBlock reward_state reward_block False 2 empty_view True = Inr (reward_state, w)"
    using reward_connects [of False True] by auto
  have "sound (coins empty_view)" unfolding empty_view_ok(2) by (simp add: sound_def)
  moreover have "GetBlockSubsidy 1 reward_params = Inr (1000000 * COIN)" using GetBlockSubsidy_value [of reward_params 1] by simp
  moreover have "total_value (coins empty_view) = 0" unfolding empty_view_ok(2) by (simp add: total_value_def)
  ultimately show ?thesis
    using ConnectBlock_conserves [OF empty_view_ok(1) _ reward_fresh _ _ _ _ _ w, of reward_node "1000000 * COIN"] w
    by (auto simp: reward_index_2)
qed

text \<open>
  C5: the supply never exceeds \<open>MAX_MONEY\<close>. On a network that halves the subsidy every 210240 blocks, as
  the main and test networks do, every set of coins that a chain of connected blocks leads to is sound
  and its total value is at most \<open>MAX_MONEY\<close>, the large subsidy of the block at height 1 included. Each block
  of the chain is one that creates no outpoint that is still unspent.
\<close>

theorem supply_capped:
  assumes "reached params n m" "nSubsidyHalvingInterval params = 210240"
  shows "sound m \<and> total_value m \<le> MAX_MONEY"
proof -
  have "(\<Sum>h < Suc n. subsidy params (int h)) \<le> 210240 * (100 * COIN) + 999950 * COIN"
    using subsidy_sum [of params "Suc n"] assms(2) by simp
  also have "\<dots> \<le> MAX_MONEY" by (simp add: MAX_MONEY_def COIN_def)
  finally show ?thesis using reached_supply [OF assms(1)] assms(2) by simp
qed

theorem supply_capped_witness: "\<exists>m. reached reward_params 1 m \<and> total_value m \<le> MAX_MONEY"
proof -
  obtain w where w: "ConnectBlock reward_state reward_block False 2 empty_view True = Inr (reward_state, w)"
    using reward_connects [of False True] by auto
  have "reached reward_params 0 (coins empty_view)" unfolding empty_view_ok(2) by (rule reached.genesis)
  then have "reached reward_params (Suc 0) (coins w)"
    by (rule reached.connect [OF _ empty_view_ok(1) reward_fresh _ _ _ _ _ w, where b = reward_node])
      (simp_all add: reward_index_2)
  then show ?thesis using supply_capped [of reward_params 1 "coins w"] by auto
qed

end
