(* ===== verification/Disconnect.thy ===== *)
theory Disconnect
  imports Connect
begin

text \<open>
  Disconnecting a block with the undo data its connection made gives back the set of coins before it,
  and finds nothing amiss on the way.
\<close>

section \<open>Outputs\<close>

fun spendable_points :: "uint256 \<Rightarrow> nat \<Rightarrow> CTxOut list \<Rightarrow> COutPoint list" where
  "spendable_points txid k [] = []"
| "spendable_points txid k (out # outs) =
     (if IsUnspendable (scriptPubKey out) then [] else [\<lparr> op_hash = txid, op_n = of_nat k \<rparr>]) @ spendable_points txid (k + 1) outs"

lemma spendable_points_iff:
  "p \<in> set (spendable_points txid k outs) \<longleftrightarrow>
     (\<exists>i < length outs. \<not> IsUnspendable (scriptPubKey (outs ! i)) \<and> p = \<lparr> op_hash = txid, op_n = of_nat (k + i) \<rparr>)"
proof (induction txid k outs rule: spendable_points.induct)
  case (2 txid k out outs)
  show ?case by (cases "IsUnspendable (scriptPubKey out)") (simp_all add: 2 [simplified] Ex_less_Suc2 ac_simps)
qed simp

lemma point_eq: "k < 2 ^ 32 \<Longrightarrow> j < 2 ^ 32 \<Longrightarrow>
    \<lparr> op_hash = t, op_n = of_nat k \<rparr> = \<lparr> op_hash = t, op_n = of_nat j \<rparr> \<longleftrightarrow> k = j"
  by (auto simp: of_nat_eq_iff word_of_nat_eq_iff take_bit_nat_eq_self)

lemma put_outputs_outside: "p \<notin> set (spendable_points txid k outs) \<Longrightarrow> put_outputs txid h cb k outs m p = m p"
  by (induction txid k outs arbitrary: m rule: spendable_points.induct) (auto split: if_splits)

lemma put_outputs_at:
  assumes "k + length outs \<le> 2 ^ 32" "i < length outs" "\<not> IsUnspendable (scriptPubKey (outs ! i))"
  shows "put_outputs txid h cb k outs m \<lparr> op_hash = txid, op_n = of_nat (k + i) \<rparr> = Some (make_Coin (outs ! i) h cb)"
  using assms
proof (induction outs arbitrary: k i m)
  case (Cons out outs)
  show ?case
  proof (cases i)
    case 0
    have "\<lparr> op_hash = txid, op_n = of_nat k \<rparr> \<notin> set (spendable_points txid (k + 1) outs)"
      using Cons.prems(1) point_eq [of k "k + 1 + _" txid] by (auto simp: spendable_points_iff)
    then show ?thesis using 0 Cons.prems(3) by (simp add: put_outputs_outside)
  next
    case (Suc j)
    then show ?thesis using Cons.IH [of "k + 1" j] Cons.prems by simp
  qed
qed simp

lemma put_outputs_restrict: "put_outputs txid h cb k outs m |` (- set (spendable_points txid k outs)) = m |` (- set (spendable_points txid k outs))"
  by (auto simp: restrict_map_def fun_eq_iff put_outputs_outside)

lemma remove_outputs_law:
  assumes "cache_ok v" "k + length outs \<le> 2 ^ 32" "0 \<le> h" "h < 2 ^ 31"
    and "\<forall>i < length outs. \<not> IsUnspendable (scriptPubKey (outs ! i)) \<longrightarrow>
      coins v \<lparr> op_hash = txid, op_n = of_nat (k + i) \<rparr> = Some (make_Coin (outs ! i) h cb)"
  shows "\<exists>w. remove_outputs v True txid h cb k outs = (True, w) \<and> cache_ok w \<and>
    coins w = coins v |` (- set (spendable_points txid k outs))"
  using assms(1,2,5)
proof (induction outs arbitrary: v k)
  case Nil
  then show ?case by (auto simp: restrict_map_def)
next
  case (Cons out outs)
  let ?p = "\<lparr> op_hash = txid, op_n = of_nat k \<rparr>"
  have later: "\<forall>i < length outs. \<not> IsUnspendable (scriptPubKey (outs ! i)) \<longrightarrow>
      coins v \<lparr> op_hash = txid, op_n = of_nat (k + 1 + i) \<rparr> = Some (make_Coin (outs ! i) h cb)"
    using Cons.prems(3) by fastforce
  show ?case
  proof (cases "IsUnspendable (scriptPubKey out)")
    case True
    then show ?thesis using Cons.IH [OF Cons.prems(1) _ later] Cons.prems(2) by simp
  next
    case False
    have c: "coins v ?p = Some (make_Coin out h cb)" using Cons.prems(3) False by fastforce
    obtain s d u where sp: "SpendCoin v ?p = ((s, d), u)" by (metis surj_pair)
    note l = SpendCoin_law [OF Cons.prems(1) sp]
    have d: "d = make_Coin out h cb" s using l c by auto
    have ne: "\<forall>i < length outs. \<lparr> op_hash = txid, op_n = of_nat (k + 1 + i) \<rparr> \<noteq> ?p"
      using Cons.prems(2) point_eq [of "k + 1 + _" k txid] by auto
    have "\<forall>i < length outs. \<not> IsUnspendable (scriptPubKey (outs ! i)) \<longrightarrow>
        coins u \<lparr> op_hash = txid, op_n = of_nat (k + 1 + i) \<rparr> = Some (make_Coin (outs ! i) h cb)"
      using later ne l by simp
    moreover have "cache_ok u" "k + 1 + length outs \<le> 2 ^ 32" using l Cons.prems(2) by simp_all
    ultimately obtain w where w: "remove_outputs u True txid h cb (k + 1) outs = (True, w)" "cache_ok w"
      "coins w = coins u |` (- set (spendable_points txid (k + 1) outs))" using Cons.IH [of u "k + 1"] by blast
    have "remove_outputs v True txid h cb k (out # outs) = remove_outputs u True txid h cb (k + 1) outs"
      using False sp d make_Coin_height [OF assms(3,4), of out cb] by simp
    moreover have "coins u |` (- set (spendable_points txid (k + 1) outs)) = coins v |` (- set (spendable_points txid k (out # outs)))"
      using restrict_upd_None [of "coins v" ?p "set (spendable_points txid (k + 1) outs)"] l False by (simp del: restrict_fun_upd)
    ultimately show ?thesis using w by simp
  qed
qed

section \<open>Inputs\<close>

lemma ApplyTxInUndo_law:
  assumes "cache_ok v" "coins v k = None" "coin_sound c"
  shows "\<exists>w. ApplyTxInUndo c v k = Inr (DISCONNECT_OK, w) \<and> cache_ok w \<and> coins w = (coins v)(k \<mapsto> c)"
proof -
  obtain b u where h: "cache_HaveCoin v k = (b, u)" by (metis surj_pair)
  note l = HaveCoin_law [OF assms(1) h]
  have "\<not> IsSpent c" using assms(3) by (auto simp: coin_sound_def IsSpent_def CTxOut_IsNull_def MoneyRange_def)
  from AddCoin_law [OF _ this, of u False k] obtain w where "AddCoin u k c False = Inr w" "cache_ok w" "coins w = (coins u)(k \<mapsto> c)"
    using l assms(2,3) by (auto simp: coin_sound_def)
  then show ?thesis using h l assms(2,3) by (simp add: ApplyTxInUndo_def coin_sound_def)
qed

abbreviation undo_map :: "(CTxIn \<times> Coin) list \<Rightarrow> COutPoint \<Rightarrow> Coin option" where
  "undo_map xs \<equiv> map_of (map (\<lambda>(i, c). (prevout i, c)) xs)"

lemma restore_inputs_law:
  assumes "cache_ok v" "distinct (map (\<lambda>x. prevout (fst x)) xs)" "\<forall>(i, c) \<in> set xs. coins v (prevout i) = None \<and> coin_sound c"
  shows "\<exists>w. restore_inputs v True xs = Inr (Some (True, w)) \<and> cache_ok w \<and> coins w = coins v ++ undo_map xs"
  using assms
proof (induction xs arbitrary: v)
  case (Cons x xs)
  obtain i c where x: "x = (i, c)" by fastforce
  have i: "coins v (prevout i) = None" "coin_sound c" using Cons.prems(3) x by auto
  obtain u where u: "ApplyTxInUndo c v (prevout i) = Inr (DISCONNECT_OK, u)" "cache_ok u" "coins u = (coins v)(prevout i \<mapsto> c)"
    using ApplyTxInUndo_law [OF Cons.prems(1) i] by blast
  have "\<forall>(j, d) \<in> set xs. coins u (prevout j) = None \<and> coin_sound d" using Cons.prems(2,3) u(3) x by (fastforce simp: image_iff)
  moreover have "distinct (map (\<lambda>x. prevout (fst x)) xs)" using Cons.prems(2) by simp
  ultimately obtain w where w: "restore_inputs u True xs = Inr (Some (True, w))" "cache_ok w" "coins w = coins u ++ undo_map xs"
    using Cons.IH [OF u(2)] by blast
  have "undo_map xs (prevout i) = None" using Cons.prems(2) x by (force simp: map_of_eq_None_iff)
  then have "coins u ++ undo_map xs = coins v ++ undo_map (x # xs)" using u(3) x by (auto simp: map_add_def fun_eq_iff split: option.split)
  then have "coins w = coins v ++ undo_map (x # xs)" using w(3) by (rule trans [rotated])
  moreover have "restore_inputs v True (x # xs) = Inr (Some (True, w))" using u(1) w(1) x by simp
  ultimately show ?case using w(2) by blast
qed simp

section \<open>One transaction\<close>

lemma vout_length:
  assumes "CheckTransaction tx = Inr ()"
  shows "length (vout tx) < 2 ^ 32"
proof -
  have ge: "length xs \<le> length (concat (map ser_CTxOut xs))" for xs
    by (induction xs) (auto simp: ser_CTxOut_def ser_int64_def ser_writedata64_def)
  have "length (vout tx) \<le> length (SerializeTransaction False tx)"
    using ge [of "vout tx"] by (simp add: SerializeTransaction_def ser_vector_def)
  then show ?thesis using assms by (simp add: CheckTransaction_iff WITNESS_SCALE_FACTOR_def MAX_BLOCK_WEIGHT_def)
qed

lemma undo_map_zip: "undo_map (rev (zip ins undo)) = map_of (rev (zip (map prevout ins) undo))"
proof -
  have "map (\<lambda>(i, c). (prevout i, c)) (zip ins undo) = zip (map prevout ins) undo" by (simp add: zip_map1)
  then show ?thesis by (metis rev_map)
qed

lemma map_of_undo:
  "distinct ks \<Longrightarrow> map Some undo = map m ks \<Longrightarrow> map_of (rev (zip ks undo)) = m |` set ks"
proof (induction ks arbitrary: undo)
  case (Cons k ks)
  then obtain c u where u: "undo = c # u" "m k = Some c" "map Some u = map m ks" by (cases undo) auto
  have "map_of (rev (zip (k # ks) undo)) = [k \<mapsto> c] ++ (m |` set ks)" using Cons.IH [OF _ u(3)] Cons.prems(1) u(1) by simp
  then show ?case using u(2) Cons.prems(1) by (auto simp: map_add_def restrict_map_def fun_eq_iff split: option.split)
qed simp

lemma tx_outpoints_nth: "i < length (vout tx) \<Longrightarrow> tx_outpoints tx ! i = \<lparr> op_hash = tx_GetHash tx, op_n = of_nat i \<rparr>"
  by (simp add: tx_outpoints_def)

lemma spendable_points_tx:
  "p \<in> set (spendable_points (tx_GetHash tx) 0 (vout tx)) \<longleftrightarrow>
     (\<exists>i < length (vout tx). \<not> IsUnspendable (scriptPubKey (vout tx ! i)) \<and> p = tx_outpoints tx ! i)"
  by (auto simp: spendable_points_iff tx_outpoints_nth)

lemma disconnect_tx:
  assumes acc: "tx_accepted h tx m undo (coins v)" and ok: "cache_ok v" "sound m" "0 < h" "h < 2 ^ 31" "CheckTransaction tx = Inr ()"
    and fresh: "IsCoinBase tx \<Longrightarrow> \<forall>k \<in> set (tx_outpoints tx). m k = None"
  shows "\<exists>w. disconnect_loop v True h ((tx, if IsCoinBase tx then None else Some undo) # rest) = disconnect_loop w True h rest \<and>
    cache_ok w \<and> coins w = m"
proof -
  let ?pts = "set (spendable_points (tx_GetHash tx) 0 (vout tx))" and ?sp = "set (spent_by tx)"
  have len: "0 + length (vout tx) \<le> 2 ^ 32" using vout_length [OF ok(5)] by simp
  have v: "coins v = put_outputs (tx_GetHash tx) h (IsCoinBase tx) 0 (vout tx) (m |` (- ?sp))" and d: "distinct (spent_by tx)"
    and u: "map Some undo = map m (spent_by tx)" using acc by (auto simp: tx_accepted_def apply_tx_def)
  obtain w where w: "remove_outputs v True (tx_GetHash tx) h (IsCoinBase tx) 0 (vout tx) = (True, w)" "cache_ok w"
    "coins w = coins v |` (- ?pts)"
    using remove_outputs_law [OF ok(1) len, of h "tx_GetHash tx" "IsCoinBase tx"] ok(3,4) put_outputs_at [OF len] v by auto
  have cw: "coins w = m |` (- ?sp) |` (- ?pts)" unfolding w(3) v by (rule put_outputs_restrict)
  have gone: "m p = None" if "p \<in> ?pts" "p \<notin> ?sp" for p
    using that acc fresh by (auto simp: tx_accepted_def spendable_points_tx) (auto simp: tx_outpoints_def)
  show ?thesis
  proof (cases "IsCoinBase tx")
    case True
    then have "coins w = m" using gone cw by (auto simp: spent_by_def restrict_map_def fun_eq_iff)
    then show ?thesis using True w(1,2) by (intro exI [of _ w]) simp
  next
    case False
    then have sp: "spent_by tx = map prevout (vin tx)" by (simp add: spent_by_def)
    have lu: "length undo = length (vin tx)" using arg_cong [OF u, of length] sp by simp
    have "coin_sound c" if "(i, c) \<in> set (zip (vin tx) undo)" for i c
    proof -
      have "c \<in> set undo" using that by (rule set_zip_rightD)
      then obtain n where "n < length undo" "c = undo ! n" by (metis in_set_conv_nth)
      then have "m (spent_by tx ! n) = Some c" using arg_cong [OF u, of "\<lambda>l. l ! n"] lu sp by simp
      then show ?thesis using ok(2) by (simp add: sound_def)
    qed
    moreover have "coins w (prevout i) = None" if "(i, c) \<in> set (zip (vin tx) undo)" for i c
      using that cw sp by (auto simp: restrict_map_def dest: set_zip_leftD)
    moreover have "distinct (map (\<lambda>x. prevout (fst x)) (rev (zip (vin tx) undo)))"
      using d lu sp by (simp add: rev_map [symmetric] map_fst_zip [of "vin tx" undo] flip: map_map [unfolded o_def])
    moreover note restore_inputs_law [OF w(2), of "rev (zip (vin tx) undo)"]
    ultimately obtain x where x: "restore_inputs w True (rev (zip (vin tx) undo)) = Inr (Some (True, x))" "cache_ok x"
      "coins x = coins w ++ undo_map (rev (zip (vin tx) undo))" by fastforce
    have "undo_map (rev (zip (vin tx) undo)) = m |` ?sp" using map_of_undo [OF d u] sp by (simp add: undo_map_zip)
    then have "coins x = m" using x(3) cw gone by (auto simp: map_add_def restrict_map_def fun_eq_iff split: option.split)
    then show ?thesis using False w(1) x(1,2) lu by (intro exI [of _ x]) simp
  qed
qed

section \<open>A block\<close>

text \<open>After the first transaction of the block; the undo data of the loop is what it appends.\<close>

lemma disconnect_rest:
  assumes "connect_loop ce False txs ct = Inr ct'" "cache_ok (ct_view ct)" "sound (coins (ct_view ct))"
    and "\<forall>tx \<in> set txs. CheckTransaction tx = Inr () \<and> \<not> IsCoinBase tx \<and> (\<forall>k \<in> set (tx_outpoints tx). known (ct_view ct) k)"
    and "0 < ce_nHeight ce" "ce_nHeight ce < 2 ^ 31"
  shows "\<exists>us. ct_vtxundo ct' = ct_vtxundo ct @ us \<and> length us = length txs \<and> cache_ok (ct_view ct') \<and>
    (\<forall>v rest. cache_ok v \<and> coins v = coins (ct_view ct') \<longrightarrow>
      (\<exists>w. disconnect_loop v True (ce_nHeight ce) (rev (zip txs (map Some us)) @ rest) = disconnect_loop w True (ce_nHeight ce) rest \<and>
         cache_ok w \<and> coins w = coins (ct_view ct)))"
  using assms(1-4)
proof (induction txs arbitrary: ct)
  case Nil
  then show ?case by auto
next
  case (Cons tx txs)
  let ?h = "ce_nHeight ce"
  obtain d where d: "connect_tx ce False tx ct = Inr d" "connect_loop ce False txs d = Inr ct'"
    using Cons.prems(1) by (auto simp: sum_bind_Inr_iff)
  have tx: "CheckTransaction tx = Inr ()" "\<not> IsCoinBase tx" "\<forall>k \<in> set (tx_outpoints tx). known (ct_view ct) k" using Cons.prems(4) by simp_all
  note s = connect_tx_success [OF Cons.prems(2) tx(1,3) d(1)]
  obtain undo where u: "tx_accepted ?h tx (coins (ct_view ct)) undo (coins (ct_view d))" "ct_vtxundo d = ct_vtxundo ct @ [undo]" using s(1) by auto
  note v = tx_accepted_value [OF u(1) Cons.prems(3) tx(1) assms(5,6)]
  have "\<forall>tx \<in> set txs. CheckTransaction tx = Inr () \<and> \<not> IsCoinBase tx \<and> (\<forall>k \<in> set (tx_outpoints tx). known (ct_view d) k)"
    using Cons.prems(4) s(4) by auto
  from Cons.IH [OF d(2) s(2) v(1) this] obtain us where us: "ct_vtxundo ct' = ct_vtxundo d @ us" "length us = length txs" "cache_ok (ct_view ct')"
    and bk: "\<And>v rest. cache_ok v \<Longrightarrow> coins v = coins (ct_view ct') \<Longrightarrow>
      \<exists>w. disconnect_loop v True ?h (rev (zip txs (map Some us)) @ rest) = disconnect_loop w True ?h rest \<and> cache_ok w \<and> coins w = coins (ct_view d)"
    by blast
  have "\<exists>w. disconnect_loop v True ?h (rev (zip (tx # txs) (map Some (undo # us))) @ rest) = disconnect_loop w True ?h rest \<and>
      cache_ok w \<and> coins w = coins (ct_view ct)" if v: "cache_ok v" "coins v = coins (ct_view ct')" for v rest
  proof -
    obtain w where w: "disconnect_loop v True ?h (rev (zip txs (map Some us)) @ (tx, Some undo) # rest) = disconnect_loop w True ?h ((tx, Some undo) # rest)"
      "cache_ok w" "coins w = coins (ct_view d)" using bk [OF v] by blast
    have "tx_accepted ?h tx (coins (ct_view ct)) undo (coins w)" using u(1) w(3) by simp
    from disconnect_tx [OF this w(2) Cons.prems(3) assms(5,6) tx(1)] show ?thesis using w(1) tx(2) by simp
  qed
  then show ?case using us u(2) by (intro exI [of _ "undo # us"]) simp
qed

lemma disconnect_whole:
  assumes c: "connect_loop ce True (cb # txs) ct = Inr ct'" and ok: "cache_ok (ct_view ct)" "sound (coins (ct_view ct))"
    and cb: "IsCoinBase cb" "\<forall>tx \<in> set txs. \<not> IsCoinBase tx" "\<forall>k \<in> set (tx_outpoints cb). coins (ct_view ct) k = None"
    and txs: "\<forall>tx \<in> set (cb # txs). CheckTransaction tx = Inr () \<and> (\<forall>k \<in> set (tx_outpoints tx). known (ct_view ct) k)"
    and h: "0 < ce_nHeight ce" "ce_nHeight ce < 2 ^ 31"
  shows "\<exists>us. ct_vtxundo ct' = ct_vtxundo ct @ us \<and> length us = length txs \<and> cache_ok (ct_view ct') \<and>
    (\<forall>v. cache_ok v \<and> coins v = coins (ct_view ct') \<longrightarrow>
      (\<exists>w. disconnect_loop v True (ce_nHeight ce) (rev (zip (cb # txs) (None # map Some us))) = Inr (Some (True, w)) \<and>
         cache_ok w \<and> coins w = coins (ct_view ct)))"
proof -
  let ?h = "ce_nHeight ce"
  obtain d where d: "connect_tx ce True cb ct = Inr d" "connect_loop ce False txs d = Inr ct'" using c by (auto simp: sum_bind_Inr_iff)
  have t: "CheckTransaction cb = Inr ()" "\<forall>k \<in> set (tx_outpoints cb). known (ct_view ct) k" using txs by simp_all
  note s = connect_tx_success [OF ok(1) t d(1)]
  obtain undo where u: "tx_accepted ?h cb (coins (ct_view ct)) undo (coins (ct_view d))" "ct_vtxundo d = ct_vtxundo ct" using s(1) by auto
  note v = tx_accepted_value [OF u(1) ok(2) t(1) h]
  have "\<forall>tx \<in> set txs. CheckTransaction tx = Inr () \<and> \<not> IsCoinBase tx \<and> (\<forall>k \<in> set (tx_outpoints tx). known (ct_view d) k)"
    using txs cb(2) s(4) by auto
  from disconnect_rest [OF d(2) s(2) v(1) this h] obtain us where us: "ct_vtxundo ct' = ct_vtxundo d @ us" "length us = length txs"
    "cache_ok (ct_view ct')" and bk: "\<And>v rest. cache_ok v \<Longrightarrow> coins v = coins (ct_view ct') \<Longrightarrow>
      \<exists>w. disconnect_loop v True ?h (rev (zip txs (map Some us)) @ rest) = disconnect_loop w True ?h rest \<and> cache_ok w \<and> coins w = coins (ct_view d)"
    by blast
  have "\<exists>w. disconnect_loop v True ?h (rev (zip (cb # txs) (None # map Some us))) = Inr (Some (True, w)) \<and>
      cache_ok w \<and> coins w = coins (ct_view ct)" if v: "cache_ok v" "coins v = coins (ct_view ct')" for v
  proof -
    obtain w where w: "disconnect_loop v True ?h (rev (zip txs (map Some us)) @ [(cb, None)]) = disconnect_loop w True ?h [(cb, None)]"
      "cache_ok w" "coins w = coins (ct_view d)" using bk [OF v] by blast
    have "tx_accepted ?h cb (coins (ct_view ct)) undo (coins w)" using u(1) w(3) by simp
    from disconnect_tx [OF this w(2) ok(2) h t(1) cb(3), of "[]"] show ?thesis using w(1) cb(1) by simp
  qed
  then show ?thesis using us u(2) by (intro exI [of _ us]) simp
qed

lemma connect_finish_index:
  assumes "connect_finish cs pindex b ct = Inr (cs', w)"
  shows "\<exists>b' b1 h. cs_index cs' = (cs_index cs)(pindex \<mapsto> b') \<and> nHeight b' = nHeight b \<and> pprev b' = pprev b \<and> phashBlock b' = phashBlock b \<and>
    WriteUndoDataForBlock cs (ct_vtxundo ct) b = Inr b1 \<and> w = SetBestBlock (ct_view ct) h"
  using assms by (auto simp: connect_finish_def sum_bind_Inr_iff WriteUndoDataForBlock_def RaiseValidity_def Let_def split: if_splits option.splits)

lemma connect_disconnect:
  assumes ok: "cache_ok view" "sound (coins view)" "fresh_outputs block (coins view)" "fChecked \<Longrightarrow> block_checked cs block"
    and b: "cs_index cs pindex = Some b" "0 < nHeight b" "nHeight b < 2 ^ 31" "block_hash block \<noteq> hashGenesisBlock (cs_params cs)"
    and p: "pprev b = Some prev" "prev \<noteq> pindex" "cs_index cs prev = Some p" "phashBlock p = Some parent"
    and c: "ConnectBlock cs block fChecked pindex view False = Inr (cs', view')"
  shows "cache_ok view' \<and> (\<exists>undo b'. WriteUndoDataForBlock cs undo b = Inr b' \<and> length undo + 1 = length (vtx block) \<and>
    (\<forall>disk v. cs_index disk = cs_index cs' \<and> UndoReadFromDisk disk pindex = Some undo \<and> cache_ok v \<and> coins v = coins view' \<longrightarrow>
      (\<exists>view''. DisconnectBlock disk block pindex v = Inr (DISCONNECT_OK, view'') \<and>
         cache_ok view'' \<and> coins view'' = coins view \<and> hashBlock (snd view'') = parent)))"
proof -
  from ConnectBlock_success [OF ok(1) b(1) b(4) c] obtain u ct fs flags where
    s: "check_before_connect cs block fChecked False = Inr ()" "reads view u"
    "connect_loop (connect_env_of cs pindex b fs False flags) True (vtx block) (connect_start cs u) = Inr ct"
    "connect_reward cs block (nHeight b) (ct_nFees ct) = Inr ()"
    "if False then view' = ct_view ct else connect_finish cs pindex b ct = Inr (cs', view')" .
  note f = check_before_connect_facts [OF s(1) ok(4)]
  obtain cb txs where vtx: "vtx block = cb # txs" using f(1) by (cases "vtx block") auto
  have u: "cache_ok u" "coins u = coins view" using s(2) reads_ok by (auto simp: reads_def)
  have kn: "known u k" if "tx \<in> set (vtx block)" "k \<in> set (tx_outpoints tx)" for tx k
    using absent_known [of view k] ok(3) that s(2) by (auto simp: fresh_outputs_def reads_def)
  have "\<exists>us. ct_vtxundo ct = us \<and> length us = length txs \<and> cache_ok (ct_view ct) \<and> (\<forall>v. cache_ok v \<and> coins v = coins (ct_view ct) \<longrightarrow>
      (\<exists>w. disconnect_loop v True (nHeight b) (rev (zip (cb # txs) (None # map Some us))) = Inr (Some (True, w)) \<and> cache_ok w \<and> coins w = coins view))"
    using disconnect_whole [OF s(3) [unfolded vtx]] u ok(2,3) f vtx kn b(2,3)
    by (simp add: connect_start_def connect_env_of_def fresh_outputs_def)
  then obtain us where us: "ct_vtxundo ct = us" "length us = length txs" "cache_ok (ct_view ct)"
    and bk: "\<And>v. cache_ok v \<Longrightarrow> coins v = coins (ct_view ct) \<Longrightarrow>
      \<exists>w. disconnect_loop v True (nHeight b) (rev (zip (cb # txs) (None # map Some us))) = Inr (Some (True, w)) \<and> cache_ok w \<and> coins w = coins view" by blast
  obtain b' b1 h where e: "cs_index cs' = (cs_index cs)(pindex \<mapsto> b')" "nHeight b' = nHeight b" "pprev b' = pprev b"
    "WriteUndoDataForBlock cs us b = Inr b1" "view' = SetBestBlock (ct_view ct) h" using connect_finish_index [OF s(5) [unfolded if_False]] us(1) by blast
  have cv: "cache_ok view'" "coins view' = coins (ct_view ct)" using SetBestBlock_law [OF us(3)] e(5) by simp_all
  have "\<exists>view''. DisconnectBlock disk block pindex v = Inr (DISCONNECT_OK, view'') \<and> cache_ok view'' \<and> coins view'' = coins view \<and>
      hashBlock (snd view'') = parent"
    if d: "cs_index disk = cs_index cs' \<and> UndoReadFromDisk disk pindex = Some us \<and> cache_ok v \<and> coins v = coins view'" for disk v
  proof -
    obtain w where w: "disconnect_loop v True (nHeight b) (rev (zip (cb # txs) (None # map Some us))) = Inr (Some (True, w))"
      "cache_ok w" "coins w = coins view" using bk [of v] d cv(2) by auto
    have "DisconnectBlock disk block pindex v = Inr (DISCONNECT_OK, SetBestBlock w parent)"
      unfolding DisconnectBlock_def using d w(1) us(2) e(1-3) p vtx by (simp add: deref_def GetBlockHash_def)
    moreover have "hashBlock (snd (SetBestBlock w parent)) = parent" by (simp add: SetBestBlock_def)
    ultimately show ?thesis using SetBestBlock_law [OF w(2), of parent] w(3) by (intro exI [of _ "SetBestBlock w parent"]) simp
  qed
  moreover have "length us + 1 = length (vtx block)" using us(2) vtx by simp
  ultimately show ?thesis using cv(1) e(4) by (intro conjI exI [of _ us] exI [of _ b1]) simp_all
qed

section \<open>Properties\<close>

text \<open>
  C7: disconnecting a block undoes connecting it. When \<open>ConnectBlock\<close> has accepted a block on a
  consistent cache of sound coins that holds none of the block's outputs, it has handed the block's undo
  data to \<open>WriteUndoDataForBlock\<close>, one record for each transaction but the first. Wherever that data is
  what the disk gives back, \<open>DisconnectBlock\<close> returns \<open>DISCONNECT_OK\<close>, with exactly the coins of before
  the block and the parent as the best block.
\<close>

theorem DisconnectBlock_undoes:
  assumes ok: "cache_ok view" "sound (coins view)" "fresh_outputs block (coins view)" "fChecked \<Longrightarrow> block_checked cs block"
    and b: "cs_index cs pindex = Some b" "0 < nHeight b" "nHeight b < 2 ^ 31" "block_hash block \<noteq> hashGenesisBlock (cs_params cs)"
    and p: "pprev b = Some prev" "prev \<noteq> pindex" "cs_index cs prev = Some p" "phashBlock p = Some parent"
    and c: "ConnectBlock cs block fChecked pindex view False = Inr (cs', view')"
  shows "\<exists>undo b'. WriteUndoDataForBlock cs undo b = Inr b' \<and> length undo + 1 = length (vtx block) \<and>
    (\<forall>disk. cs_index disk = cs_index cs' \<and> UndoReadFromDisk disk pindex = Some undo \<longrightarrow>
      (\<exists>view''. DisconnectBlock disk block pindex view' = Inr (DISCONNECT_OK, view'') \<and>
         cache_ok view'' \<and> coins view'' = coins view \<and> hashBlock (snd view'') = parent))"
proof -
  from connect_disconnect [OF assms] obtain undo b' where v: "cache_ok view'" and u: "WriteUndoDataForBlock cs undo b = Inr b'"
    "length undo + 1 = length (vtx block)" and d: "\<And>disk v. cs_index disk = cs_index cs' \<and> UndoReadFromDisk disk pindex = Some undo \<and>
      cache_ok v \<and> coins v = coins view' \<Longrightarrow> \<exists>view''. DisconnectBlock disk block pindex v = Inr (DISCONNECT_OK, view'') \<and>
         cache_ok view'' \<and> coins view'' = coins view \<and> hashBlock (snd view'') = parent" by blast
  show ?thesis using d [of _ view'] v u by (intro exI [of _ undo] exI [of _ b']) simp
qed

lemma connect_finish_total:
  assumes "phashBlock b = Some h" "UndoWriteToDisk cs (ct_vtxundo ct) = Some p"
  shows "\<exists>cs' view'. connect_finish cs pindex b ct = Inr (cs', view')"
proof -
  have "BLOCK_VALID_SCRIPTS AND NOT BLOCK_VALID_MASK = 0" by code_simp
  then show ?thesis using assms
    by (simp add: connect_finish_def WriteUndoDataForBlock_def IsValid_def RaiseValidity_def GetBlockHash_def Let_def)
qed

lemma reward_connected: "\<exists>cs' view'. ConnectBlock reward_state reward_block True 2 empty_view False = Inr (cs', view')"
proof -
  obtain w where "ConnectBlock reward_state reward_block True 2 empty_view False =
      connect_finish reward_state 2 reward_node ((connect_start reward_state empty_view)\<lparr> ct_view := w \<rparr>)"
    using reward_connects [of True False] by fastforce
  then show ?thesis using connect_finish_total [of reward_node] by (simp add: reward_state_def)
qed

theorem DisconnectBlock_undoes_witness:
  "\<exists>cs' view' view''. ConnectBlock reward_state reward_block True 2 empty_view False = Inr (cs', view') \<and>
     DisconnectBlock (cs'\<lparr> UndoReadFromDisk := (\<lambda>_. Some []) \<rparr>) reward_block 2 view' = Inr (DISCONNECT_OK, view'') \<and>
     coins view'' = coins empty_view"
proof -
  obtain cs' view' where c: "ConnectBlock reward_state reward_block True 2 empty_view False = Inr (cs', view')" using reward_connected by blast
  have "sound (coins empty_view)" unfolding empty_view_ok(2) by (simp add: sound_def)
  moreover have "block_checked reward_state reward_block" using reward_CheckBlock [of default_impl sample_curve]
    unfolding block_checked_def by (auto simp: reward_state_def)
  moreover have "block_hash reward_block \<noteq> []" using block_hash_length [of reward_block] by auto
  ultimately have "\<exists>undo b'. WriteUndoDataForBlock reward_state undo reward_node = Inr b' \<and> length undo + 1 = length (vtx reward_block) \<and>
    (\<forall>disk. cs_index disk = cs_index cs' \<and> UndoReadFromDisk disk 2 = Some undo \<longrightarrow>
      (\<exists>view''. DisconnectBlock disk reward_block 2 view' = Inr (DISCONNECT_OK, view'') \<and>
         cache_ok view'' \<and> coins view'' = coins empty_view \<and> hashBlock (snd view'') = replicate 32 1))"
    by (intro DisconnectBlock_undoes [OF empty_view_ok(1) _ reward_fresh _ _ _ _ _ _ _ _ _ c, of reward_node 0])
      (auto simp: reward_index_2 reward_index_0)
  then obtain undo where "length undo + 1 = length (vtx reward_block)"
    and back_out: "\<And>disk. cs_index disk = cs_index cs' \<Longrightarrow> UndoReadFromDisk disk 2 = Some undo \<Longrightarrow>
      \<exists>view''. DisconnectBlock disk reward_block 2 view' = Inr (DISCONNECT_OK, view'') \<and> coins view'' = coins empty_view" by blast
  then have "undo = []" by simp
  then obtain view'' where "DisconnectBlock (cs'\<lparr> UndoReadFromDisk := (\<lambda>_. Some []) \<rparr>) reward_block 2 view' = Inr (DISCONNECT_OK, view'')"
    "coins view'' = coins empty_view" using back_out [of "cs'\<lparr> UndoReadFromDisk := (\<lambda>_. Some []) \<rparr>"] by auto
  then show ?thesis using c by blast
qed

end
