(* ===== verification/BlockIntake.thy ===== *)
theory BlockIntake
  imports Disconnect
begin

text \<open>
  How headers and blocks enter the block index: \<open>AddToBlockIndex\<close> of \<open>src/src/node/blockstorage.cpp\<close>
  and, of \<open>src/src/validation.cpp\<close>, \<open>AcceptBlockHeader\<close>, \<open>AcceptBlock\<close>, \<open>ReceivedBlockTransactions\<close> and
  their helpers. The objects of the block manager, the chain state manager and the chain state that
  they share are one record. A new entry is stored at an address \<open>p\<close> that the allocator gives.
\<close>

section \<open>Definitions: the manager\<close>

text \<open>
  The candidates are in the order of the comparator, the failed and dirty entries in that of the sets;
  the multimap of blocks that wait for their parent lists its pairs in the order of insertion.
\<close>

record block_manager =
  bm_index :: block_store
  bm_hashes :: "uint256 \<Rightarrow> bid option"
  bm_best_header :: "bid option"
  bm_best_invalid :: "bid option"
  bm_failed :: "bid list"
  bm_dirty :: "bid list"
  bm_unlinked :: "(bid \<times> bid) list"
  bm_candidates :: "bid list"
  bm_chain :: CChain
  bm_sequence :: int

definition put_entry :: "block_manager \<Rightarrow> bid \<Rightarrow> CBlockIndex \<Rightarrow> block_manager" where
  "put_entry m p b = m\<lparr> bm_index := (bm_index m)(p \<mapsto> b) \<rparr>"

definition put_dirty :: "block_manager \<Rightarrow> bid \<Rightarrow> CBlockIndex \<Rightarrow> block_manager" where
  "put_dirty m p b = (put_entry m p b)\<lparr> bm_dirty := List.insert p (bm_dirty m) \<rparr>"

definition CBlockIndexWorkComparator :: "block_store \<Rightarrow> bid \<Rightarrow> bid \<Rightarrow> fault + bool" where
  "CBlockIndexWorkComparator st pa pb =
     sum_bind (deref st pa) (\<lambda>a. sum_bind (deref st pb) (\<lambda>b.
       Inr (if CompareTo (nChainWork a) (nChainWork b) > 0 then False
            else if CompareTo (nChainWork a) (nChainWork b) < 0 then True
            else if nSequenceId a < nSequenceId b then False
            else if nSequenceId a > nSequenceId b then True
            else if pa < pb then False
            else if pa > pb then True
            else False)))"

fun candidates_insert :: "block_store \<Rightarrow> bid \<Rightarrow> bid list \<Rightarrow> fault + bid list" where
  "candidates_insert st p [] = Inr [p]"
| "candidates_insert st p (q # qs) =
     sum_bind (CBlockIndexWorkComparator st p q) (\<lambda>before.
       if before then Inr (p # q # qs)
       else sum_bind (CBlockIndexWorkComparator st q p) (\<lambda>after.
         if after then sum_bind (candidates_insert st p qs) (\<lambda>r. Inr (q # r)) else Inr (q # qs)))"

section \<open>Definitions: headers\<close>

definition CBlockIndex_of :: "CBlockHeader \<Rightarrow> CBlockIndex" where
  "CBlockIndex_of h = \<lparr> phashBlock = None, pprev = None, pskip = None, nHeight = 0, nFile = 0, nDataPos = 0, nUndoPos = 0,
     nChainWork = bu_zero, nTx = 0, nChainTx = 0, nStatus = 0, nVersion = hdr_nVersion h,
     hashMerkleRoot = hdr_hashMerkleRoot h, nTime = hdr_nTime h, nBits = hdr_nBits h, nNonce = hdr_nNonce h,
     nSequenceId = 0, nTimeMax = 0 \<rparr>"

text \<open>The link to the parent, found after the entry itself is in the map.\<close>

definition link_parent :: "block_manager \<Rightarrow> bid \<Rightarrow> CBlockIndex \<Rightarrow> uint256 \<Rightarrow> fault + block_store" where
  "link_parent m p b hashPrevBlock =
     (case bm_hashes m hashPrevBlock of
        None \<Rightarrow> Inr ((bm_index m)(p \<mapsto> b))
      | Some q \<Rightarrow> sum_bind (deref ((bm_index m)(p \<mapsto> b)) q) (\<lambda>c.
          BuildSkip ((bm_index m)(p \<mapsto> b\<lparr> pprev := Some q, nHeight := nHeight c + 1 \<rparr>)) p))"

definition chain_totals :: "block_store \<Rightarrow> CBlockIndex \<Rightarrow> fault + CBlockIndex" where
  "chain_totals st b =
     sum_bind (case pprev b of None \<Rightarrow> Inr None | Some q \<Rightarrow> sum_bind (deref st q) (\<lambda>c. Inr (Some c))) (\<lambda>prev.
       case GetBlockProof b of Inl _ \<Rightarrow> Inl Uncaught
       | Inr work \<Rightarrow> Inr (b\<lparr> nTimeMax := (case prev of None \<Rightarrow> nTime b | Some c \<Rightarrow> max (nTimeMax c) (nTime b)),
           nChainWork := bu_add (case prev of None \<Rightarrow> bu_of_u64 0 | Some c \<Rightarrow> nChainWork c) work \<rparr>))"

definition raise_best_header :: "block_manager \<Rightarrow> bid \<Rightarrow> CBlockIndex \<Rightarrow> fault + block_manager" where
  "raise_best_header m p b =
     (case bm_best_header m of
        None \<Rightarrow> Inr (m\<lparr> bm_best_header := Some p \<rparr>)
      | Some best \<Rightarrow> sum_bind (deref (bm_index m) best) (\<lambda>c.
          Inr (if CompareTo (nChainWork c) (nChainWork b) < 0 then m\<lparr> bm_best_header := Some p \<rparr> else m)))"

definition AddToBlockIndex :: "block_manager \<Rightarrow> bid \<Rightarrow> CBlockHeader \<Rightarrow> fault + block_manager \<times> bid" where
  "AddToBlockIndex m p header =
     (let hash = CBlockHeader_GetHash header in
      case bm_hashes m hash of
        Some q \<Rightarrow> Inr (m, q)
      | None \<Rightarrow>
          let m = m\<lparr> bm_hashes := (bm_hashes m)(hash := Some p) \<rparr>;
              b = (CBlockIndex_of header)\<lparr> nSequenceId := 0, phashBlock := Some hash \<rparr>
          in sum_bind (link_parent m p b (hdr_hashPrevBlock header)) (\<lambda>st.
             sum_bind (deref st p) (\<lambda>b.
             sum_bind (chain_totals st b) (\<lambda>b.
             sum_bind (RaiseValidity b BLOCK_VALID_TREE) (\<lambda>(b, _).
             sum_bind (raise_best_header (m\<lparr> bm_index := st(p \<mapsto> b) \<rparr>) p b) (\<lambda>m.
               Inr (put_dirty m p b, p)))))))"

record header_env =
  he_params :: Params
  he_checkpoints :: "(int \<times> uint256) list"
  he_fCheckpointsEnabled :: bool
  he_now :: int

text \<open>The first failed entry that is an ancestor of \<open>prev\<close>.\<close>

fun failed_ancestor :: "block_store \<Rightarrow> bid \<Rightarrow> bid list \<Rightarrow> fault + bid option" where
  "failed_ancestor st prev [] = Inr None"
| "failed_ancestor st prev (f # fs) =
     sum_bind (deref st f) (\<lambda>b.
     sum_bind (GetAncestor st prev (nHeight b)) (\<lambda>a.
       if a = Some f then (if nStatus b AND BLOCK_FAILED_VALID = 0 then Inl AssertFailed else Inr (Some f))
       else failed_ancestor st prev fs))"

fun invalid_walk :: "nat \<Rightarrow> bid \<Rightarrow> bid option \<Rightarrow> block_manager \<Rightarrow> fault + block_manager" where
  "invalid_walk 0 failedit p m = Inl OutOfFuel"
| "invalid_walk (Suc n) failedit p m =
     (if p = Some failedit then Inr m
      else case p of None \<Rightarrow> Inl BadPointer
      | Some q \<Rightarrow> sum_bind (deref (bm_index m) q) (\<lambda>b.
          invalid_walk n failedit (pprev b) (put_dirty m q (b\<lparr> nStatus := nStatus b OR BLOCK_FAILED_CHILD \<rparr>))))"

definition walk_length :: "block_store \<Rightarrow> bid \<Rightarrow> nat" where
  "walk_length st p = (case st p of None \<Rightarrow> 1 | Some b \<Rightarrow> nat (nHeight b) + 2)"

definition mark_invalid_chain :: "block_manager \<Rightarrow> bid \<Rightarrow> fault + block_manager option" where
  "mark_invalid_chain m prev =
     sum_bind (deref (bm_index m) prev) (\<lambda>b.
     sum_bind (IsValid b BLOCK_VALID_SCRIPTS) (\<lambda>valid.
       if valid then Inr None
       else sum_bind (failed_ancestor (bm_index m) prev (bm_failed m)) (\<lambda>r.
         case r of None \<Rightarrow> Inr None
         | Some f \<Rightarrow> sum_bind (invalid_walk (walk_length (bm_index m) prev) f (Some prev) m) (\<lambda>m. Inr (Some m)))))"

text \<open>The checks of a header that is not known yet; its parent.\<close>

definition check_new_header :: "header_env \<Rightarrow> block_manager \<Rightarrow> CBlockHeader \<Rightarrow> block_stop + bid" where
  "check_new_header env m header =
     sum_bind (CheckBlockHeader header (he_params env) True) (\<lambda>_.
     case bm_hashes m (hdr_hashPrevBlock header) of
       None \<Rightarrow> Inl (Invalid BLOCK_MISSING_PREV ''prev-blk-not-found'')
     | Some prev \<Rightarrow>
         sum_bind (or_halt (deref (bm_index m) prev)) (\<lambda>c.
         if nStatus c AND BLOCK_FAILED_MASK \<noteq> 0 then Inl (Invalid BLOCK_INVALID_PREV ''bad-prevblk'')
         else sum_bind (ContextualCheckBlockHeader (bm_index m) (he_params env) (he_fCheckpointsEnabled env)
             (GetLastCheckpoint (bm_hashes m) (he_checkpoints env)) header prev (he_now env)) (\<lambda>_. Inr prev)))"

definition add_header :: "block_manager \<Rightarrow> bid \<Rightarrow> CBlockHeader \<Rightarrow> bool \<Rightarrow> block_manager \<times> (block_stop + bid)" where
  "add_header m p header min_pow_checked =
     (if \<not> min_pow_checked then (m, Inl (Invalid BLOCK_HEADER_LOW_WORK ''too-little-chainwork''))
      else case AddToBlockIndex m p header of
        Inl f \<Rightarrow> (m, Inl (Halt f))
      | Inr (m, q) \<Rightarrow> (m, Inr q))"

definition AcceptBlockHeader ::
    "header_env \<Rightarrow> block_manager \<Rightarrow> bid \<Rightarrow> CBlockHeader \<Rightarrow> bool \<Rightarrow> block_manager \<times> (block_stop + bid)" where
  "AcceptBlockHeader env m p header min_pow_checked =
     (let hash = CBlockHeader_GetHash header in
      if hash = hashGenesisBlock (he_params env) then add_header m p header min_pow_checked
      else case bm_hashes m hash of
        Some q \<Rightarrow> (m, sum_bind (or_halt (deref (bm_index m) q)) (\<lambda>b.
          if nStatus b AND BLOCK_FAILED_MASK \<noteq> 0 then Inl (Invalid BLOCK_CACHED_INVALID ''duplicate'') else Inr q))
      | None \<Rightarrow>
          (case check_new_header env m header of
             Inl e \<Rightarrow> (m, Inl e)
           | Inr prev \<Rightarrow>
               (case mark_invalid_chain m prev of
                  Inl f \<Rightarrow> (m, Inl (Halt f))
                | Inr (Some m) \<Rightarrow> (m, Inl (Invalid BLOCK_INVALID_PREV ''bad-prevblk''))
                | Inr None \<Rightarrow> add_header m p header min_pow_checked)))"

fun ProcessNewBlockHeaders ::
    "header_env \<Rightarrow> block_manager \<Rightarrow> (CBlockHeader \<times> bid) list \<Rightarrow> bool \<Rightarrow> bid option \<Rightarrow> block_manager \<times> (block_stop + bid option)" where
  "ProcessNewBlockHeaders env m [] min_pow_checked pindex = (m, Inr pindex)"
| "ProcessNewBlockHeaders env m ((header, p) # headers) min_pow_checked pindex =
     (case AcceptBlockHeader env m p header min_pow_checked of
        (m, Inl e) \<Rightarrow> (m, Inl e)
      | (m, Inr q) \<Rightarrow> ProcessNewBlockHeaders env m headers min_pow_checked (Some q))"

section \<open>Definitions: blocks\<close>

definition BLOCK_OPT_WITNESS :: u32 where "BLOCK_OPT_WITNESS = 128"

definition MIN_BLOCKS_TO_KEEP :: int where "MIN_BLOCKS_TO_KEEP = 288"

definition received_entry :: "Params \<Rightarrow> CBlock \<Rightarrow> CBlockIndex \<Rightarrow> FlatFilePos \<Rightarrow> fault + CBlockIndex" where
  "received_entry params block b pos =
     (let b = b\<lparr> nTx := of_nat (length (vtx block)), nChainTx := 0, nFile := pos_nFile pos, nDataPos := nPos pos, nUndoPos := 0,
                nStatus := nStatus b OR BLOCK_HAVE_DATA \<rparr>;
          b = (if BuriedActiveAt b params DEPLOYMENT_SEGWIT then b\<lparr> nStatus := nStatus b OR BLOCK_OPT_WITNESS \<rparr> else b)
      in sum_bind (RaiseValidity b BLOCK_VALID_TRANSACTIONS) (\<lambda>(b, _). Inr b))"

text \<open>One turn of the queue: the block becomes a candidate unless the tip is better.\<close>

definition parent_downloaded :: "block_store \<Rightarrow> CBlockIndex \<Rightarrow> fault + bool" where
  "parent_downloaded st b =
     (case pprev b of None \<Rightarrow> Inr True | Some q \<Rightarrow> sum_bind (deref st q) (\<lambda>c. Inr (HaveTxsDownloaded c)))"

definition candidate_if_better :: "block_manager \<Rightarrow> bid \<Rightarrow> fault + block_manager" where
  "candidate_if_better m p =
     sum_bind (case Tip (bm_chain m) of None \<Rightarrow> Inr False
               | Some tip \<Rightarrow> CBlockIndexWorkComparator (bm_index m) p tip) (\<lambda>worse.
       if worse then Inr m
       else sum_bind (candidates_insert (bm_index m) p (bm_candidates m)) (\<lambda>cs. Inr (m\<lparr> bm_candidates := cs \<rparr>)))"

definition link_block :: "block_manager \<Rightarrow> bid \<Rightarrow> fault + block_manager" where
  "link_block m p =
     sum_bind (deref (bm_index m) p) (\<lambda>b.
     sum_bind (case pprev b of None \<Rightarrow> Inr 0 | Some q \<Rightarrow> sum_bind (deref (bm_index m) q) (\<lambda>c. Inr (nChainTx c))) (\<lambda>before.
       candidate_if_better
         ((put_entry m p (b\<lparr> nChainTx := before + nTx b, nSequenceId := bm_sequence m \<rparr>))\<lparr> bm_sequence := bm_sequence m + 1 \<rparr>) p))"

fun link_loop :: "nat \<Rightarrow> block_manager \<Rightarrow> bid list \<Rightarrow> fault + block_manager" where
  "link_loop n m [] = Inr m"
| "link_loop 0 m (p # queue) = Inl OutOfFuel"
| "link_loop (Suc n) m (p # queue) =
     sum_bind (link_block m p) (\<lambda>m.
       link_loop n (m\<lparr> bm_unlinked := filter (\<lambda>x. fst x \<noteq> p) (bm_unlinked m) \<rparr>)
         (queue @ map snd (filter (\<lambda>x. fst x = p) (bm_unlinked m))))"

definition wait_for_parent :: "block_manager \<Rightarrow> bid \<Rightarrow> CBlockIndex \<Rightarrow> fault + block_manager" where
  "wait_for_parent m p b =
     (case pprev b of None \<Rightarrow> Inr m
      | Some q \<Rightarrow> sum_bind (deref (bm_index m) q) (\<lambda>c. sum_bind (IsValid c BLOCK_VALID_TREE) (\<lambda>valid.
          Inr (if valid then m\<lparr> bm_unlinked := bm_unlinked m @ [(q, p)] \<rparr> else m))))"

definition ReceivedBlockTransactions :: "Params \<Rightarrow> block_manager \<Rightarrow> CBlock \<Rightarrow> bid \<Rightarrow> FlatFilePos \<Rightarrow> fault + block_manager" where
  "ReceivedBlockTransactions params m block p pos =
     sum_bind (deref (bm_index m) p) (\<lambda>b.
     sum_bind (received_entry params block b pos) (\<lambda>b.
     let m = put_dirty m p b in
     sum_bind (parent_downloaded (bm_index m) b) (\<lambda>linked.
       if linked then link_loop (length (bm_unlinked m) + 1) m [p] else wait_for_parent m p b)))"

record block_env = header_env +
  be_impl :: d64_impl
  be_curve :: curve_ops
  be_nMinimumChainWork :: base_uint
  SaveBlockToDisk :: "CBlock \<Rightarrow> int \<Rightarrow> FlatFilePos option"

text \<open>Whether a block that was not asked for is left aside.\<close>

definition not_wanted :: "block_env \<Rightarrow> block_manager \<Rightarrow> CBlockIndex \<Rightarrow> fault + bool" where
  "not_wanted env m b =
     sum_bind (case Tip (bm_chain m) of None \<Rightarrow> Inr True
               | Some tip \<Rightarrow> sum_bind (deref (bm_index m) tip) (\<lambda>t. Inr (CompareTo (nChainWork b) (nChainWork t) \<ge> 0))) (\<lambda>fHasMoreOrSameWork.
       Inr (nTx b \<noteq> 0 \<or> \<not> fHasMoreOrSameWork \<or> nHeight b > Height (bm_chain m) + MIN_BLOCKS_TO_KEEP \<or>
            CompareTo (nChainWork b) (be_nMinimumChainWork env) < 0))"

definition check_received :: "block_env \<Rightarrow> block_manager \<Rightarrow> CBlock \<Rightarrow> bool \<Rightarrow> CBlockIndex \<Rightarrow> block_stop + unit" where
  "check_received env m block fChecked b =
     sum_bind (CheckBlock (be_impl env) (be_curve env) block fChecked (he_params env) True True) (\<lambda>_.
       ContextualCheckBlock (be_impl env) (bm_index m) (he_params env) block (pprev b))"

definition store_block :: "block_env \<Rightarrow> block_manager \<Rightarrow> CBlock \<Rightarrow> bid \<Rightarrow> CBlockIndex \<Rightarrow> block_manager \<times> (block_stop + bid \<times> bool)" where
  "store_block env m block q b =
     (case SaveBlockToDisk env block (nHeight b) of
        None \<Rightarrow> (m, Inl (NodeError ''System error''))
      | Some pos \<Rightarrow>
          if pos_nFile pos = - 1 then (m, Inl (NodeError ''Failed to find position to write new block to disk''))
          else case ReceivedBlockTransactions (he_params env) m block q pos of
            Inl f \<Rightarrow> (m, Inl (Halt f))
          | Inr m \<Rightarrow> (m, Inr (q, True)))"

text \<open>The result is the entry of the block and whether it is new.\<close>

definition AcceptBlock :: "block_env \<Rightarrow> block_manager \<Rightarrow> bid \<Rightarrow> CBlock \<Rightarrow> bool \<Rightarrow> bool \<Rightarrow> bool \<Rightarrow>
    block_manager \<times> (block_stop + bid \<times> bool)" where
  "AcceptBlock env m p block fChecked fRequested min_pow_checked =
     (case AcceptBlockHeader (header_env.truncate env) m p (block_header block) min_pow_checked of
        (m, Inl e) \<Rightarrow> (m, Inl e)
      | (m, Inr q) \<Rightarrow>
          (case sum_bind (deref (bm_index m) q) (\<lambda>b. sum_bind (not_wanted env m b) (\<lambda>skip. Inr (b, skip))) of
             Inl f \<Rightarrow> (m, Inl (Halt f))
           | Inr (b, skip) \<Rightarrow>
               if nStatus b AND BLOCK_HAVE_DATA \<noteq> 0 then (m, Inr (q, False))
               else if \<not> fRequested \<and> skip then (m, Inr (q, False))
               else (case check_received env m block fChecked b of
                  Inl (Invalid r reason) \<Rightarrow>
                    (if r \<noteq> BLOCK_MUTATED then put_dirty m q (b\<lparr> nStatus := nStatus b OR BLOCK_FAILED_VALID \<rparr>) else m,
                     Inl (Invalid r reason))
                | Inl e \<Rightarrow> (m, Inl e)
                | Inr _ \<Rightarrow> store_block env m block q b)))"

section \<open>Changes that keep the tree\<close>

definition tree_part :: "CBlockIndex \<Rightarrow> uint256 option \<times> bid option \<times> bid option \<times> int \<times> base_uint \<times> u32 \<times> u32 \<times> u32" where
  "tree_part b = (phashBlock b, pprev b, pskip b, nHeight b, nChainWork b, nTime b, nBits b, nTimeMax b)"

definition same_tree :: "block_store \<Rightarrow> block_store \<Rightarrow> bool" where
  "same_tree st st' \<longleftrightarrow> (\<forall>p. map_option tree_part (st' p) = map_option tree_part (st p))"

lemma same_tree_refl [simp]: "same_tree st st"
  by (simp add: same_tree_def)

lemma same_tree_trans: "same_tree s t \<Longrightarrow> same_tree t u \<Longrightarrow> same_tree s u"
  by (simp add: same_tree_def)

lemma same_tree_sym: "same_tree s t \<Longrightarrow> same_tree t s"
  by (simp add: same_tree_def)

lemma same_tree_upd: "st p = Some b \<Longrightarrow> tree_part b' = tree_part b \<Longrightarrow> same_tree st (st(p \<mapsto> b'))"
  by (simp add: same_tree_def)

lemma same_tree_Some:
  assumes "same_tree st st'" "st p = Some b"
  shows "\<exists>b'. st' p = Some b' \<and> phashBlock b' = phashBlock b \<and> pprev b' = pprev b \<and> pskip b' = pskip b \<and> nHeight b' = nHeight b \<and>
    nChainWork b' = nChainWork b \<and> nTime b' = nTime b \<and> nBits b' = nBits b \<and> nTimeMax b' = nTimeMax b"
proof -
  have "map_option tree_part (st' p) = Some (tree_part b)" using assms by (simp add: same_tree_def)
  then show ?thesis by (auto simp: tree_part_def)
qed

lemma same_tree_None: "same_tree st st' \<Longrightarrow> st' p = None \<longleftrightarrow> st p = None"
  using same_tree_Some same_tree_sym by (metis option.distinct(1) not_None_eq)

lemma same_tree_nth_prev: "same_tree st st' \<Longrightarrow> nth_prev st' n p = nth_prev st n p"
proof (induction n arbitrary: p)
  case (Suc n)
  show ?case
  proof (cases "st p")
    case None
    then show ?thesis using same_tree_None [OF Suc.prems, of p] by simp
  next
    case (Some b)
    then show ?thesis using same_tree_Some [OF Suc.prems Some] Suc by (auto split: option.splits)
  qed
qed simp

lemma same_tree_prev_at: "same_tree st st' \<Longrightarrow> prev_at st' p h = prev_at st p h"
  using same_tree_Some [of st st' p] same_tree_None [of st st' p] same_tree_nth_prev [of st st']
  by (cases "st p") (fastforce simp: prev_at_def)+

lemma same_tree_index_wf:
  assumes "same_tree st st'" "index_wf st"
  shows "index_wf st'"
  unfolding index_wf_def
proof (intro allI impI)
  fix p b' assume "st' p = Some b'"
  then obtain b where b: "st p = Some b" "pprev b = pprev b'" "pskip b = pskip b'" "nHeight b = nHeight b'"
    using same_tree_Some [OF same_tree_sym [OF assms(1)]] by blast
  then have "node_wf st p b" using assms(2) by (simp add: index_wf_def)
  then show "node_wf st' p b'" using b same_tree_Some [OF assms(1)]
    by (fastforce simp: node_wf_def same_tree_prev_at [OF assms(1)] split: option.splits)
qed

lemma same_tree_chain_closed: "same_tree st st' \<Longrightarrow> chain_closed st vc \<Longrightarrow> chain_closed st' vc"
proof -
  assume s: "same_tree st st'"
  have "block_height st' r = block_height st r" for r
    using same_tree_Some [OF s, of r] same_tree_None [OF s, of r] by (cases "st r") (auto simp: block_height_def)
  then show "chain_closed st vc \<Longrightarrow> chain_closed st' vc" by (simp add: chain_closed_def same_tree_prev_at [OF s])
qed

lemma same_tree_median_times: "same_tree st st' \<Longrightarrow> median_times st' n p = median_times st n p"
proof (induction st n p rule: median_times.induct)
  case (3 st n p)
  then show ?case using same_tree_Some [of st st' p] same_tree_None [of st st' p]
    by (cases "st p") (auto simp: deref_def GetBlockTime_def)
qed simp_all

lemma same_tree_median: "same_tree st st' \<Longrightarrow> GetMedianTimePast st' p = GetMedianTimePast st p"
  by (simp add: GetMedianTimePast_def same_tree_median_times)

lemma tree_part_updates [simp]: "tree_part (b\<lparr> nStatus := x \<rparr>) = tree_part b" "tree_part (b\<lparr> nChainTx := y \<rparr>) = tree_part b"
  "tree_part (b\<lparr> nSequenceId := z \<rparr>) = tree_part b" "tree_part (b\<lparr> nTx := w \<rparr>) = tree_part b"
  "tree_part (b\<lparr> nFile := f \<rparr>) = tree_part b" "tree_part (b\<lparr> nDataPos := d \<rparr>) = tree_part b" "tree_part (b\<lparr> nUndoPos := u \<rparr>) = tree_part b"
  by (simp_all add: tree_part_def)

text \<open>The ancestors of a block are the block and those of its parent.\<close>

lemma prev_at_step:
  assumes "index_wf st" "st p = Some b"
  shows "prev_at st p h = Some a \<longleftrightarrow> h = nHeight b \<and> a = p \<or> (\<exists>q. pprev b = Some q \<and> prev_at st q h = Some a)"
proof (cases "pprev b")
  case None
  then have "nHeight b = 0" using index_wfD(2) [OF assms] by blast
  then show ?thesis using None assms(2) by (auto simp: prev_at_def)
next
  case (Some q)
  obtain c where c: "st q = Some c" "nHeight b = nHeight c + 1" using index_wfD(3) [OF assms Some] by blast
  have self: "prev_at st p (nHeight b) = Some p" using assms index_wfD(1) [OF assms] by simp
  have "prev_at st p h = prev_at st q h" if "h \<le> nHeight c" using prev_at_parent [OF assms(2) Some c that] .
  moreover have "prev_at st p h = None" if "h > nHeight b" using that assms(2) by (simp add: prev_at_def)
  moreover have "prev_at st q h = None" if "h > nHeight c" using that c(1) by (simp add: prev_at_def)
  moreover have "h \<le> nHeight c \<or> h = nHeight b \<or> h > nHeight b" using c(2) by linarith
  ultimately show ?thesis using self Some c(2) by auto
qed

section \<open>What every entry of the index has been through\<close>

text \<open>
  The checks of a header in its place do not look at its target: a header may claim any target up to
  the limit, whatever the retargeting of \<open>pow.cpp\<close> asks for.
\<close>

lemma nBits_unchecked:
  "ContextualCheckBlockHeader st params e cp (h\<lparr> hdr_nBits := x \<rparr>) prev now = ContextualCheckBlockHeader st params e cp h prev now"
  by (cases h) (simp only: ContextualCheckBlockHeader_def CBlockHeader.simps)

definition linked_ok :: "Params \<Rightarrow> block_store \<Rightarrow> CBlockIndex \<Rightarrow> bool" where
  "linked_ok params st b \<longleftrightarrow> (\<forall>r. pprev b = Some r \<longrightarrow> (\<exists>h c m w. phashBlock b = Some h \<and> st r = Some c \<and>
     CheckProofOfWork h (nBits b) params \<and> GetMedianTimePast st r = Inr m \<and> m < uint (nTime b) \<and>
     GetBlockProof b = Inr w \<and> nChainWork b = bu_add (nChainWork c) w \<and> nTimeMax b = max (nTimeMax c) (nTime b)))"

definition failed_ok :: "block_store \<Rightarrow> bid \<Rightarrow> bool" where
  "failed_ok st f \<longleftrightarrow> (\<exists>b. st f = Some b \<and> nStatus b AND BLOCK_FAILED_VALID \<noteq> 0)"

definition manager_ok :: "Params \<Rightarrow> block_manager \<Rightarrow> bool" where
  "manager_ok params m \<longleftrightarrow> index_wf (bm_index m) \<and> (\<forall>q b. bm_index m q = Some b \<longrightarrow> linked_ok params (bm_index m) b) \<and>
     (\<forall>h q. bm_hashes m h = Some q \<longleftrightarrow> (\<exists>b. bm_index m q = Some b \<and> phashBlock b = Some h)) \<and>
     (\<forall>q. bm_best_header m = Some q \<longrightarrow> bm_index m q \<noteq> None) \<and> (\<forall>f \<in> set (bm_failed m). failed_ok (bm_index m) f)"

lemma GetBlockProof_bits: "nBits b' = nBits b \<Longrightarrow> GetBlockProof b' = GetBlockProof b"
  by (simp add: GetBlockProof_def)

lemma linked_ok_same:
  assumes "same_tree st st'" "tree_part b' = tree_part b" "linked_ok params st b"
  shows "linked_ok params st' b'"
  unfolding linked_ok_def
proof (intro allI impI)
  fix r assume r: "pprev b' = Some r"
  have b: "phashBlock b' = phashBlock b" "pprev b' = pprev b" "nBits b' = nBits b" "nTime b' = nTime b" "nChainWork b' = nChainWork b"
    "nTimeMax b' = nTimeMax b" using assms(2) by (simp_all add: tree_part_def)
  obtain h c m w where *: "phashBlock b = Some h" "st r = Some c" "CheckProofOfWork h (nBits b) params" "GetMedianTimePast st r = Inr m"
    "m < uint (nTime b)" "GetBlockProof b = Inr w" "nChainWork b = bu_add (nChainWork c) w" "nTimeMax b = max (nTimeMax c) (nTime b)"
    using assms(3) r b(2) unfolding linked_ok_def by metis
  obtain c' where c': "st' r = Some c'" "nChainWork c' = nChainWork c" "nTimeMax c' = nTimeMax c" using same_tree_Some [OF assms(1) *(2)] by blast
  have "GetBlockProof b' = Inr w" using *(6) GetBlockProof_bits [OF b(3)] by simp
  then show "\<exists>h c m w. phashBlock b' = Some h \<and> st' r = Some c \<and> CheckProofOfWork h (nBits b') params \<and> GetMedianTimePast st' r = Inr m \<and>
      m < uint (nTime b') \<and> GetBlockProof b' = Inr w \<and> nChainWork b' = bu_add (nChainWork c) w \<and> nTimeMax b' = max (nTimeMax c) (nTime b')"
    using * b c' same_tree_median [OF assms(1)] by auto
qed

text \<open>Steps that change no link and forget no failure.\<close>

definition keeps :: "block_manager \<Rightarrow> block_manager \<Rightarrow> bool" where
  "keeps m m' \<longleftrightarrow> same_tree (bm_index m) (bm_index m') \<and> bm_hashes m' = bm_hashes m \<and> bm_best_header m' = bm_best_header m \<and>
     bm_failed m' = bm_failed m \<and> (\<forall>f. failed_ok (bm_index m) f \<longrightarrow> failed_ok (bm_index m') f)"

lemma keeps_refl [simp]: "keeps m m"
  by (simp add: keeps_def)

lemma keeps_trans: "keeps m m' \<Longrightarrow> keeps m' m'' \<Longrightarrow> keeps m m''"
  using same_tree_trans by (auto simp: keeps_def)

lemma keeps_manager_ok:
  assumes "keeps m m'" "manager_ok params m"
  shows "manager_ok params m'"
proof -
  have s: "same_tree (bm_index m) (bm_index m')" using assms(1) by (simp add: keeps_def)
  have "linked_ok params (bm_index m') b'" if "bm_index m' q = Some b'" for q b'
  proof -
    have "map_option tree_part (bm_index m q) = Some (tree_part b')" using s that by (metis option.simps(9) same_tree_def)
    then obtain b where "bm_index m q = Some b" "tree_part b' = tree_part b" by auto
    then show ?thesis using linked_ok_same [OF s] assms(2) by (auto simp: manager_ok_def)
  qed
  moreover have "(\<exists>b. bm_index m' q = Some b \<and> phashBlock b = Some h) \<longleftrightarrow> (\<exists>b. bm_index m q = Some b \<and> phashBlock b = Some h)" for q h
    using same_tree_Some [OF s] same_tree_Some [OF same_tree_sym [OF s]] by metis
  moreover have "index_wf (bm_index m')" using same_tree_index_wf [OF s] assms(2) by (simp add: manager_ok_def)
  moreover have "bm_index m' q \<noteq> None \<longleftrightarrow> bm_index m q \<noteq> None" for q using same_tree_None [OF s] by simp
  ultimately show ?thesis using assms unfolding manager_ok_def keeps_def by auto
qed

lemma keeps_entry:
  assumes "bm_index m p = Some b" "tree_part b' = tree_part b"
    and "nStatus b AND BLOCK_FAILED_VALID \<noteq> 0 \<Longrightarrow> nStatus b' AND BLOCK_FAILED_VALID \<noteq> 0"
  shows "keeps m (put_entry m p b')" "keeps m (put_dirty m p b')"
  using assms same_tree_upd [of "bm_index m" p b b'] by (auto simp: keeps_def put_entry_def put_dirty_def failed_ok_def)

lemma failed_or: "x AND BLOCK_FAILED_VALID \<noteq> 0 \<Longrightarrow> (x OR y) AND BLOCK_FAILED_VALID \<noteq> 0"
  by (simp add: bit.conj_disj_distrib2 or_eq_0_iff)

lemma keeps_or:
  assumes "bm_index m p = Some b"
  shows "keeps m (put_dirty m p (b\<lparr> nStatus := nStatus b OR y \<rparr>))"
  using keeps_entry(2) [OF assms, of "b\<lparr> nStatus := nStatus b OR y \<rparr>"] failed_or [of "nStatus b" y] by simp

lemma failed_valid_mask: "x AND BLOCK_FAILED_VALID \<noteq> 0 \<Longrightarrow> x AND BLOCK_FAILED_MASK \<noteq> 0"
  by (simp add: BLOCK_FAILED_MASK_def bit.conj_disj_distrib or_eq_0_iff)

lemma RaiseValidity_total:
  assumes "n AND NOT BLOCK_VALID_MASK = 0"
  shows "\<exists>b' c. RaiseValidity b n = Inr (b', c) \<and> tree_part b' = tree_part b \<and>
    (nStatus b AND BLOCK_FAILED_VALID \<noteq> 0 \<longrightarrow> nStatus b' = nStatus b)"
  using assms failed_valid_mask [of "nStatus b"] by (auto simp: RaiseValidity_def Let_def)

lemma IsValid_total: "n AND NOT BLOCK_VALID_MASK = 0 \<Longrightarrow> \<exists>v. IsValid b n = Inr v"
  by (auto simp: IsValid_def)

lemma valid_levels: "BLOCK_VALID_TREE AND NOT BLOCK_VALID_MASK = 0" "BLOCK_VALID_TRANSACTIONS AND NOT BLOCK_VALID_MASK = 0"
  "BLOCK_VALID_SCRIPTS AND NOT BLOCK_VALID_MASK = 0"
  by code_simp+

lemma median_fresh:
  assumes "index_wf st" "st p = None"
  shows "\<forall>r. q = Some r \<longrightarrow> st r \<noteq> None \<Longrightarrow> median_times (st(p \<mapsto> b)) n q = median_times st n q"
proof (induction n arbitrary: q)
  case (Suc n)
  show ?case
  proof (cases q)
    case (Some r)
    then obtain d where d: "st r = Some d" using Suc.prems by blast
    then have "\<forall>s. pprev d = Some s \<longrightarrow> st s \<noteq> None" using index_wfD(3) [OF assms(1) d] by fastforce
    then show ?thesis using Suc.IH [of "pprev d"] Some d assms(2) by (auto simp: deref_def)
  qed simp
qed simp

lemma GetMedianTimePast_fresh:
  assumes "index_wf st" "st p = None" "st r \<noteq> None"
  shows "GetMedianTimePast (st(p \<mapsto> b)) r = GetMedianTimePast st r"
  using median_fresh [OF assms(1,2), of "Some r" b nMedianTimeSpan] assms(3) by (simp add: GetMedianTimePast_def)

lemma linked_ok_fresh:
  assumes "index_wf st" "st p = None" "st q = Some b" "linked_ok params st b"
  shows "linked_ok params (st(p \<mapsto> x)) b"
  unfolding linked_ok_def
proof (intro allI impI)
  fix r assume r: "pprev b = Some r"
  then obtain c where c: "st r = Some c" using index_wfD(3) [OF assms(1,3)] by blast
  then have "(st(p \<mapsto> x)) r = Some c" "GetMedianTimePast (st(p \<mapsto> x)) r = GetMedianTimePast st r"
    using assms(2) GetMedianTimePast_fresh [OF assms(1,2)] by auto
  then show "\<exists>h c m w. phashBlock b = Some h \<and> (st(p \<mapsto> x)) r = Some c \<and> CheckProofOfWork h (nBits b) params \<and>
      GetMedianTimePast (st(p \<mapsto> x)) r = Inr m \<and> m < uint (nTime b) \<and> GetBlockProof b = Inr w \<and>
      nChainWork b = bu_add (nChainWork c) w \<and> nTimeMax b = max (nTimeMax c) (nTime b)"
    using assms(4) r c unfolding linked_ok_def by auto
qed

lemma GetBlockProof_total: "\<exists>w. GetBlockProof b = Inr w"
  using GetBlockProof_correct [of b] by (auto simp: Let_def)

text \<open>A new entry below a known parent.\<close>

lemma manager_add:
  assumes ok: "manager_ok params m" "bm_index m p = None" and h: "bm_hashes m h = None" "phashBlock b = Some h"
    and q: "pprev b = Some q" "bm_index m q = Some c" "nHeight b = nHeight c + 1" "pskip b = prev_at (bm_index m) q (GetSkipHeight (nHeight b))"
    and l: "CheckProofOfWork h (nBits b) params" "GetMedianTimePast (bm_index m) q = Inr mt" "mt < uint (nTime b)"
    "GetBlockProof b = Inr w" "nChainWork b = bu_add (nChainWork c) w" "nTimeMax b = max (nTimeMax c) (nTime b)"
    and m': "bm_index m' = (bm_index m)(p \<mapsto> b)" "bm_hashes m' = (bm_hashes m)(h := Some p)" "bm_failed m' = bm_failed m"
    "bm_best_header m' = bm_best_header m \<or> bm_best_header m' = Some p"
  shows "manager_ok params m'"
proof -
  have wf: "index_wf (bm_index m)" and old: "\<And>q b. bm_index m q = Some b \<Longrightarrow> linked_ok params (bm_index m) b"
    and map: "\<And>h q. bm_hashes m h = Some q \<longleftrightarrow> (\<exists>b. bm_index m q = Some b \<and> phashBlock b = Some h)"
    and rest: "\<And>q. bm_best_header m = Some q \<Longrightarrow> bm_index m q \<noteq> None" "\<And>f. f \<in> set (bm_failed m) \<Longrightarrow> failed_ok (bm_index m) f"
    using ok(1) by (auto simp: manager_ok_def)
  have "q \<noteq> p" using q(2) ok(2) by auto
  have "index_wf ((bm_index m)(p \<mapsto> b))" using q by (intro index_wf_add [OF wf ok(2) q(1-3)]) simp
  moreover have "linked_ok params ((bm_index m)(p \<mapsto> b)) b"
    using l h(2) q(1,2) \<open>q \<noteq> p\<close> GetMedianTimePast_fresh [OF wf ok(2), of q b] by (auto simp: linked_ok_def)
  moreover have "linked_ok params ((bm_index m)(p \<mapsto> b)) d" if "bm_index m r = Some d" for r d
    using linked_ok_fresh [OF wf ok(2) that old [OF that]] .
  moreover have "((bm_hashes m)(h := Some p)) k = Some r \<longleftrightarrow> (\<exists>d. ((bm_index m)(p \<mapsto> b)) r = Some d \<and> phashBlock d = Some k)" for k r
    using map [of k r] map [of h r] h ok(2) by auto
  moreover have "failed_ok ((bm_index m)(p \<mapsto> b)) f" if "f \<in> set (bm_failed m)" for f
    using rest(2) [OF that] ok(2) by (auto simp: failed_ok_def)
  ultimately show ?thesis using m' rest(1) unfolding manager_ok_def by (auto split: if_splits)
qed

lemma link_parent_value:
  assumes wf: "index_wf (bm_index m)" "bm_index m p = None" and q: "bm_hashes m hp = Some q" "bm_index m q = Some c" "pskip b = None"
  shows "link_parent m p b hp = Inr ((bm_index m)(p \<mapsto> b\<lparr> pprev := Some q, nHeight := nHeight c + 1,
    pskip := prev_at (bm_index m) q (GetSkipHeight (nHeight c + 1)) \<rparr>))"
proof -
  have "q \<noteq> p" using q(2) wf(2) by auto
  then have "link_parent m p b hp = BuildSkip ((bm_index m)(p \<mapsto> b\<lparr> pprev := Some q, nHeight := nHeight c + 1 \<rparr>)) p"
    using q by (simp add: link_parent_def deref_def)
  also have "\<dots> = Inr ((bm_index m)(p \<mapsto> b\<lparr> pprev := Some q, nHeight := nHeight c + 1, pskip := prev_at (bm_index m) q (GetSkipHeight (nHeight c + 1)) \<rparr>))"
    using BuildSkip_value [OF wf, of "b\<lparr> pprev := Some q, nHeight := nHeight c + 1 \<rparr>" q c] q(2,3) by simp
  finally show ?thesis .
qed

lemma tree_part_eqs:
  assumes "tree_part b' = tree_part b"
  shows "phashBlock b' = phashBlock b" "pprev b' = pprev b" "pskip b' = pskip b" "nHeight b' = nHeight b" "nChainWork b' = nChainWork b"
    "nTime b' = nTime b" "nBits b' = nBits b" "nTimeMax b' = nTimeMax b"
  using assms by (simp_all add: tree_part_def)

lemma raise_best_header_spec:
  assumes "\<And>q. bm_best_header m = Some q \<Longrightarrow> bm_index m q \<noteq> None"
  shows "\<exists>m'. raise_best_header m p b = Inr m' \<and> bm_index m' = bm_index m \<and> bm_hashes m' = bm_hashes m \<and> bm_failed m' = bm_failed m \<and>
    (bm_best_header m' = bm_best_header m \<or> bm_best_header m' = Some p)"
  using assms by (cases "bm_best_header m") (auto simp: raise_best_header_def deref_def split: option.split)

lemma AddToBlockIndex_new:
  assumes ok: "manager_ok params m" "bm_index m p = None" and h: "bm_hashes m (CBlockHeader_GetHash header) = None"
    and q: "bm_hashes m (hdr_hashPrevBlock header) = Some q"
    and l: "CheckProofOfWork (CBlockHeader_GetHash header) (hdr_nBits header) params" "GetMedianTimePast (bm_index m) q = Inr mt"
    "mt < uint (hdr_nTime header)"
  shows "\<exists>m'. AddToBlockIndex m p header = Inr (m', p) \<and> manager_ok params m' \<and> bm_hashes m' (CBlockHeader_GetHash header) = Some p"
proof -
  let ?h = "CBlockHeader_GetHash header"
  let ?m = "m\<lparr> bm_hashes := (bm_hashes m)(?h := Some p) \<rparr>" and ?b = "(CBlockIndex_of header)\<lparr> nSequenceId := 0, phashBlock := Some ?h \<rparr>"
  have wf: "index_wf (bm_index m)" using ok(1) by (simp add: manager_ok_def)
  obtain c where c: "bm_index m q = Some c" using ok(1) q by (auto simp: manager_ok_def)
  define b1 where "b1 = ?b\<lparr> pprev := Some q, nHeight := nHeight c + 1, pskip := prev_at (bm_index m) q (GetSkipHeight (nHeight c + 1)) \<rparr>"
  have "hdr_hashPrevBlock header \<noteq> ?h" using q h by auto
  then have link: "link_parent ?m p ?b (hdr_hashPrevBlock header) = Inr ((bm_index m)(p \<mapsto> b1))"
    using link_parent_value [of ?m p "hdr_hashPrevBlock header" q c ?b] wf ok(2) q c by (simp add: b1_def CBlockIndex_of_def)
  obtain w where w: "GetBlockProof b1 = Inr w" using GetBlockProof_total by blast
  define b2 where "b2 = b1\<lparr> nTimeMax := max (nTimeMax c) (nTime b1), nChainWork := bu_add (nChainWork c) w \<rparr>"
  have "q \<noteq> p" using c ok(2) by auto
  moreover have "pprev b1 = Some q" by (simp add: b1_def)
  ultimately have tot: "chain_totals ((bm_index m)(p \<mapsto> b1)) b1 = Inr b2" using c w by (simp add: chain_totals_def deref_def b2_def)
  obtain b3 f where b3: "RaiseValidity b2 BLOCK_VALID_TREE = Inr (b3, f)" "tree_part b3 = tree_part b2"
    using RaiseValidity_total [OF valid_levels(1)] by blast
  let ?m3 = "?m\<lparr> bm_index := (bm_index m)(p \<mapsto> b1, p \<mapsto> b3) \<rparr>"
  have "bm_index ?m3 r \<noteq> None" if "bm_best_header ?m3 = Some r" for r using that ok(1) by (auto simp: manager_ok_def)
  note best = raise_best_header_spec [of ?m3 p b3, OF this]
  obtain m4 where m4: "raise_best_header ?m3 p b3 = Inr m4" "bm_index m4 = (bm_index m)(p \<mapsto> b3)" "bm_hashes m4 = bm_hashes ?m"
    "bm_failed m4 = bm_failed m" "bm_best_header m4 = bm_best_header m \<or> bm_best_header m4 = Some p"
    using best by auto
  have add: "AddToBlockIndex m p header = Inr (put_dirty m4 p b3, p)"
    unfolding AddToBlockIndex_def Let_def using h link tot b3(1) m4(1) by (simp add: deref_def)
  note e = tree_part_eqs [OF b3(2)]
  have "manager_ok params (put_dirty m4 p b3)"
  proof (rule manager_add [OF ok h _ _ c _ _ _ l(2)])
    show "phashBlock b3 = Some ?h" "pprev b3 = Some q" "nHeight b3 = nHeight c + 1" "CheckProofOfWork ?h (nBits b3) params"
      "pskip b3 = prev_at (bm_index m) q (GetSkipHeight (nHeight b3))" "mt < uint (nTime b3)"
      using e l by (simp_all add: b2_def b1_def CBlockIndex_of_def)
    show "GetBlockProof b3 = Inr w" using w GetBlockProof_bits [of b3 b1] e by (simp add: b2_def)
    show "nChainWork b3 = bu_add (nChainWork c) w" "nTimeMax b3 = max (nTimeMax c) (nTime b3)" using e by (simp_all add: b2_def)
  qed (use m4 in \<open>simp_all add: put_dirty_def put_entry_def\<close>)
  then show ?thesis using add m4(3) by (simp add: put_dirty_def put_entry_def)
qed

lemma invalid_walk_spec:
  assumes "index_wf (bm_index m)" "bm_index m p = Some b" "prev_at (bm_index m) p h = Some f" "nat (nHeight b - h) < n"
  shows "\<exists>m'. invalid_walk n f (Some p) m = Inr m' \<and> keeps m m'"
  using assms
proof (induction n arbitrary: m p b)
  case (Suc n)
  show ?case
  proof (cases "p = f")
    case False
    obtain q where q: "pprev b = Some q" "prev_at (bm_index m) q h = Some f"
      using prev_at_step [OF Suc.prems(1,2)] Suc.prems(3) False by auto
    obtain d where d: "bm_index m q = Some d" "nHeight b = nHeight d + 1" using index_wfD(3) [OF Suc.prems(1,2) q(1)] by blast
    let ?m = "put_dirty m p (b\<lparr> nStatus := nStatus b OR BLOCK_FAILED_CHILD \<rparr>)"
    have k: "keeps m ?m" using keeps_or [OF Suc.prems(2)] .
    then have s: "same_tree (bm_index m) (bm_index ?m)" by (simp add: keeps_def)
    obtain d' where d': "bm_index ?m q = Some d'" "nHeight d' = nHeight d" using same_tree_Some [OF s d(1)] by blast
    have "h \<le> nHeight d" using d(1) prev_at_range [OF q(2)] by auto
    then have "nat (nHeight d' - h) < n" using Suc.prems(4) d(2) d'(2) by linarith
    then obtain m' where "invalid_walk n f (Some q) ?m = Inr m'" "keeps ?m m'"
      using Suc.IH [OF same_tree_index_wf [OF s Suc.prems(1)] d'(1)] same_tree_prev_at [OF s] q(2) by auto
    then show ?thesis using False Suc.prems(2) q(1) keeps_trans [OF k] by (auto simp: deref_def)
  qed simp
qed simp

lemma failed_ancestor_spec:
  assumes "index_wf st" "st p = Some b" "\<forall>f \<in> set fs. failed_ok st f"
  shows "\<exists>r. failed_ancestor st p fs = Inr r \<and> (\<forall>f. r = Some f \<longrightarrow> (\<exists>h. prev_at st p h = Some f))"
  using assms(3) by (induction fs) (auto simp: failed_ok_def deref_def GetAncestor_prev_at [OF assms(1,2)])

lemma mark_invalid_chain_spec:
  assumes "manager_ok params m" "bm_index m p = Some b"
  shows "\<exists>r. mark_invalid_chain m p = Inr r \<and> (\<forall>m'. r = Some m' \<longrightarrow> keeps m m')"
proof -
  have wf: "index_wf (bm_index m)" "\<forall>f \<in> set (bm_failed m). failed_ok (bm_index m) f" using assms(1) by (simp_all add: manager_ok_def)
  obtain v where v: "IsValid b BLOCK_VALID_SCRIPTS = Inr v" using IsValid_total [OF valid_levels(3)] by blast
  obtain r where r: "failed_ancestor (bm_index m) p (bm_failed m) = Inr r" "\<forall>f. r = Some f \<longrightarrow> (\<exists>h. prev_at (bm_index m) p h = Some f)"
    using failed_ancestor_spec [OF wf(1) assms(2) wf(2)] by blast
  show ?thesis
  proof (cases r)
    case (Some f)
    then obtain h where h: "prev_at (bm_index m) p h = Some f" using r(2) by blast
    have "nat (nHeight b - h) < walk_length (bm_index m) p" using assms(2) prev_at_range [OF h] by (simp add: walk_length_def) linarith
    then show ?thesis using invalid_walk_spec [OF wf(1) assms(2) h] r(1) v Some assms(2) by (fastforce simp: mark_invalid_chain_def deref_def)
  qed (use r v assms(2) in \<open>auto simp: mark_invalid_chain_def deref_def\<close>)
qed

text \<open>What the checks of a new header establish; they never fault.\<close>

lemma check_new_header_facts:
  assumes ok: "manager_ok params m" and c: "check_new_header env m header = Inr prev" "he_params env = params"
  shows "bm_hashes m (hdr_hashPrevBlock header) = Some prev \<and> CheckProofOfWork (CBlockHeader_GetHash header) (hdr_nBits header) params \<and>
    (\<exists>mt. GetMedianTimePast (bm_index m) prev = Inr mt \<and> mt < uint (hdr_nTime header)) \<and> bm_index m prev \<noteq> None"
  using c by (auto simp: check_new_header_def CheckBlockHeader_def ContextualCheckBlockHeader_def sum_bind_Inr_iff deref_def
      not_le split: if_splits option.splits)

lemma GetLastCheckpoint_known:
  assumes "GetLastCheckpoint index cps = Some q"
  shows "\<exists>h. index h = Some q"
proof -
  have "fold (\<lambda>(_, h) r. case index h of None \<Rightarrow> r | Some p \<Rightarrow> Some p) cps r0 = Some q \<Longrightarrow> r0 = Some q \<or> (\<exists>h. index h = Some q)" for r0
    by (induction cps arbitrary: r0) (fastforce split: option.splits)+
  from this [of None] show ?thesis using assms by (simp add: GetLastCheckpoint_def)
qed

lemma check_new_header_no_fault:
  assumes ok: "manager_ok params m"
  shows "check_new_header env m header \<noteq> Inl (Halt f)"
proof
  assume fault: "check_new_header env m header = Inl (Halt f)"
  have wf: "index_wf (bm_index m)" and map: "\<And>h q. bm_hashes m h = Some q \<Longrightarrow> bm_index m q \<noteq> None"
    using ok by (auto simp: manager_ok_def)
  obtain prev where prev: "bm_hashes m (hdr_hashPrevBlock header) = Some prev"
    using fault by (cases "bm_hashes m (hdr_hashPrevBlock header)") (auto simp: check_new_header_def CheckBlockHeader_def split: if_splits)
  obtain c where c: "bm_index m prev = Some c" using map [OF prev] by blast
  have cp: "\<exists>x. below_checkpoint (bm_index m) e (GetLastCheckpoint (bm_hashes m) cps) h = Inr x" for e cps h
    using GetLastCheckpoint_known [of "bm_hashes m" cps] map by (cases "GetLastCheckpoint (bm_hashes m) cps") (fastforce simp: below_checkpoint_def deref_def)+
  obtain mt where "GetMedianTimePast (bm_index m) prev = Inr mt" using GetMedianTimePast_total [OF wf c] .
  then show False using fault prev c cp [of "he_fCheckpointsEnabled env" "he_checkpoints env" "nHeight c + 1"]
    by (auto simp: check_new_header_def CheckBlockHeader_def ContextualCheckBlockHeader_def BuriedActiveAfter_def deref_def Let_def split: if_splits)
qed

text \<open>The entries that the other structures point to are stored.\<close>

definition stored :: "block_manager \<Rightarrow> bool" where
  "stored m \<longleftrightarrow> (\<forall>x \<in> set (bm_unlinked m). bm_index m (fst x) \<noteq> None \<and> bm_index m (snd x) \<noteq> None) \<and>
     (\<forall>c \<in> set (bm_candidates m). bm_index m c \<noteq> None) \<and> (\<forall>t. Tip (bm_chain m) = Some t \<longrightarrow> bm_index m t \<noteq> None)"

definition extends :: "block_manager \<Rightarrow> block_manager \<Rightarrow> bool" where
  "extends m m' \<longleftrightarrow> (\<forall>q. bm_index m q \<noteq> None \<longrightarrow> bm_index m' q \<noteq> None) \<and> bm_unlinked m' = bm_unlinked m \<and>
     bm_candidates m' = bm_candidates m \<and> bm_chain m' = bm_chain m"

lemma extends_refl [simp]: "extends m m"
  by (simp add: extends_def)

lemma extends_trans: "extends m m' \<Longrightarrow> extends m' m'' \<Longrightarrow> extends m m''"
  by (simp add: extends_def)

lemma extends_stored: "extends m m' \<Longrightarrow> stored m \<Longrightarrow> stored m'"
  by (simp add: extends_def stored_def)

lemma extends_put: "extends m (put_dirty m p b)" "extends m (put_entry m p b)"
  by (simp_all add: extends_def put_dirty_def put_entry_def)

lemma invalid_walk_extends: "invalid_walk n f p m = Inr m' \<Longrightarrow> extends m m'"
proof (induction n arbitrary: p m)
  case (Suc n)
  then show ?case by (auto simp: sum_bind_Inr_iff split: if_splits option.splits intro: extends_trans [OF extends_put(1)])
qed simp

lemma AddToBlockIndex_extends:
  assumes "AddToBlockIndex m p header = Inr (m', q)"
  shows "extends m m'"
proof (cases "bm_hashes m (CBlockHeader_GetHash header)")
  case None
  let ?m = "m\<lparr> bm_hashes := (bm_hashes m)(CBlockHeader_GetHash header := Some p) \<rparr>"
  obtain st b b' m4 where s: "link_parent ?m p ((CBlockIndex_of header)\<lparr> nSequenceId := 0, phashBlock := Some (CBlockHeader_GetHash header) \<rparr>)
      (hdr_hashPrevBlock header) = Inr st" "raise_best_header (?m\<lparr> bm_index := st(p \<mapsto> b) \<rparr>) p b = Inr m4" "m' = put_dirty m4 p b'"
    using assms None unfolding AddToBlockIndex_def Let_def by (auto simp: sum_bind_Inr_iff)
  have "extends m (?m\<lparr> bm_index := st(p \<mapsto> b) \<rparr>)"
    using s(1) by (auto simp: extends_def link_parent_def BuildSkip_def sum_bind_Inr_iff split: option.splits)
  moreover have "extends (?m\<lparr> bm_index := st(p \<mapsto> b) \<rparr>) m4"
    using s(2) by (auto simp: extends_def raise_best_header_def sum_bind_Inr_iff split: option.splits if_splits)
  ultimately show ?thesis using s(3) extends_put(1) extends_trans by blast
qed (use assms in \<open>simp add: AddToBlockIndex_def Let_def\<close>)

lemma add_header_spec:
  assumes "manager_ok params m" "bm_hashes m (CBlockHeader_GetHash header) = Some q \<or>
      (\<exists>m1. AddToBlockIndex m p header = Inr (m1, p) \<and> manager_ok params m1 \<and> bm_hashes m1 (CBlockHeader_GetHash header) = Some p)"
    and "add_header m p header pow = (m', r)"
  shows "manager_ok params m' \<and> extends m m' \<and> (\<forall>f. r \<noteq> Inl (Halt f)) \<and> (\<forall>q. r = Inr q \<longrightarrow> bm_hashes m' (CBlockHeader_GetHash header) = Some q)"
  using assms AddToBlockIndex_extends [of m p header] by (auto simp: add_header_def AddToBlockIndex_def Let_def split: if_splits)

lemma mark_invalid_chain_extends: "mark_invalid_chain m p = Inr (Some m') \<Longrightarrow> extends m m'"
  using invalid_walk_extends by (auto simp: mark_invalid_chain_def sum_bind_Inr_iff split: if_splits option.splits)

lemma AcceptBlockHeader_spec:
  assumes ok: "manager_ok params m" "he_params env = params" "bm_index m p = None" "bm_hashes m (hashGenesisBlock params) \<noteq> None"
    and a: "AcceptBlockHeader env m p header pow = (m', r)"
  shows "manager_ok params m' \<and> extends m m' \<and> (\<forall>f. r \<noteq> Inl (Halt f)) \<and> (\<forall>q. r = Inr q \<longrightarrow> bm_hashes m' (CBlockHeader_GetHash header) = Some q)"
proof (cases "bm_hashes m (CBlockHeader_GetHash header)")
  case (Some q)
  have "bm_index m q \<noteq> None" using ok(1) Some by (auto simp: manager_ok_def)
  then show ?thesis using Some a ok(1) add_header_spec [OF ok(1), of header q p pow m' r]
    by (auto simp: AcceptBlockHeader_def Let_def deref_def split: if_splits)
next
  case None
  then have ng: "CBlockHeader_GetHash header \<noteq> hashGenesisBlock params" using ok(4) by auto
  show ?thesis
  proof (cases "check_new_header env m header")
    case (Inl e)
    then show ?thesis using a None ng ok(1,2) check_new_header_no_fault [OF ok(1)] by (auto simp: AcceptBlockHeader_def Let_def)
  next
    case (Inr prev)
    obtain mt where f: "bm_hashes m (hdr_hashPrevBlock header) = Some prev" "CheckProofOfWork (CBlockHeader_GetHash header) (hdr_nBits header) params"
      "GetMedianTimePast (bm_index m) prev = Inr mt" "mt < uint (hdr_nTime header)" "bm_index m prev \<noteq> None"
      using check_new_header_facts [OF ok(1) Inr ok(2)] by blast
    obtain b where "bm_index m prev = Some b" using f(5) by blast
    from mark_invalid_chain_spec [OF ok(1) this] obtain x where x: "mark_invalid_chain m prev = Inr x" "\<forall>m'. x = Some m' \<longrightarrow> keeps m m'" by blast
    show ?thesis
    proof (cases x)
      case None': None
      then have "add_header m p header pow = (m', r)" using a x Inr None ng ok(2) by (simp add: AcceptBlockHeader_def Let_def)
      from add_header_spec [OF ok(1) disjI2 [OF AddToBlockIndex_new [OF ok(1,3) None f(1-4)]] this] show ?thesis .
    next
      case (Some m1)
      then show ?thesis using a x Inr None ng ok(1,2) keeps_manager_ok mark_invalid_chain_extends by (auto simp: AcceptBlockHeader_def Let_def)
    qed
  qed
qed

section \<open>Received blocks\<close>

lemma comparator_total: "st p \<noteq> None \<Longrightarrow> st q \<noteq> None \<Longrightarrow> \<exists>x. CBlockIndexWorkComparator st p q = Inr x"
  by (auto simp: CBlockIndexWorkComparator_def deref_def)

lemma candidates_insert_total:
  assumes "st p \<noteq> None" "\<forall>c \<in> set cs. st c \<noteq> None"
  shows "\<exists>r. candidates_insert st p cs = Inr r \<and> set r \<subseteq> insert p (set cs)"
  using assms(2)
proof (induction cs)
  case (Cons c cs)
  obtain x y where xy: "CBlockIndexWorkComparator st p c = Inr x" "CBlockIndexWorkComparator st c p = Inr y"
    using comparator_total [of st] assms(1) Cons.prems by (metis list.set_intros(1))
  obtain r where "candidates_insert st p cs = Inr r" "set r \<subseteq> insert p (set cs)" using Cons by auto
  then show ?case using xy by auto
qed simp

lemma stored_candidates:
  "stored m \<Longrightarrow> bm_index m p \<noteq> None \<Longrightarrow> set cs \<subseteq> insert p (set (bm_candidates m)) \<Longrightarrow> stored (m\<lparr> bm_candidates := cs \<rparr>)"
  by (auto simp: stored_def)

lemma candidate_if_better_spec:
  assumes "stored m" "bm_index m p \<noteq> None"
  shows "\<exists>cs. candidate_if_better m p = Inr (m\<lparr> bm_candidates := cs \<rparr>) \<and> set cs \<subseteq> insert p (set (bm_candidates m))"
proof -
  obtain cs where cs: "candidates_insert (bm_index m) p (bm_candidates m) = Inr cs" "set cs \<subseteq> insert p (set (bm_candidates m))"
    using candidates_insert_total [of "bm_index m" p "bm_candidates m"] assms by (auto simp: stored_def)
  obtain x where "(case Tip (bm_chain m) of None \<Rightarrow> Inr False | Some tip \<Rightarrow> CBlockIndexWorkComparator (bm_index m) p tip) = Inr x"
  proof (cases "Tip (bm_chain m)")
    case (Some t)
    then have "bm_index m t \<noteq> None" using assms(1) by (simp add: stored_def)
    then show ?thesis using comparator_total [of "bm_index m" p t] assms(2) that Some by fastforce
  qed (use that [of False] in simp)
  then have "candidate_if_better m p = Inr (if x then m else m\<lparr> bm_candidates := cs \<rparr>)" using cs(1) by (simp add: candidate_if_better_def)
  then show ?thesis using cs(2) by (intro exI [of _ "if x then bm_candidates m else cs"]) auto
qed

lemma link_block_spec:
  assumes "stored m" "index_wf (bm_index m)" "bm_index m p = Some b"
  shows "\<exists>m'. link_block m p = Inr m' \<and> keeps m m' \<and> stored m' \<and> bm_unlinked m' = bm_unlinked m"
proof -
  obtain before where before: "(case pprev b of None \<Rightarrow> Inr 0 | Some q \<Rightarrow> sum_bind (deref (bm_index m) q) (\<lambda>c. Inr (nChainTx c))) = Inr before"
    using index_wfD(3) [OF assms(2,3)] by (cases "pprev b") (auto simp: deref_def)
  let ?m = "(put_entry m p (b\<lparr> nChainTx := before + nTx b, nSequenceId := bm_sequence m \<rparr>))\<lparr> bm_sequence := bm_sequence m + 1 \<rparr>"
  have "stored (put_entry m p (b\<lparr> nChainTx := before + nTx b, nSequenceId := bm_sequence m \<rparr>))" using extends_stored [OF extends_put(2) assms(1)] .
  then have st: "stored ?m" by (simp add: stored_def)
  moreover have known: "bm_index ?m p \<noteq> None" by (simp add: put_entry_def)
  ultimately obtain cs where cs: "candidate_if_better ?m p = Inr (?m\<lparr> bm_candidates := cs \<rparr>)" "set cs \<subseteq> insert p (set (bm_candidates ?m))"
    using candidate_if_better_spec by blast
  have "keeps m (put_entry m p (b\<lparr> nChainTx := before + nTx b, nSequenceId := bm_sequence m \<rparr>))" using assms(3) by (intro keeps_entry) simp_all
  then have "keeps m (?m\<lparr> bm_candidates := cs \<rparr>)" by (simp add: keeps_def)
  moreover have "stored (?m\<lparr> bm_candidates := cs \<rparr>)" using stored_candidates [OF st known cs(2)] .
  ultimately show ?thesis using cs(1) before assms(3) by (simp add: link_block_def deref_def put_entry_def)
qed

lemma keeps_index_wf: "keeps m m' \<Longrightarrow> index_wf (bm_index m) \<Longrightarrow> index_wf (bm_index m')"
  using same_tree_index_wf by (auto simp: keeps_def)

lemma keeps_known: "keeps m m' \<Longrightarrow> bm_index m' q = None \<longleftrightarrow> bm_index m q = None"
  using same_tree_None by (auto simp: keeps_def)

lemma link_loop_spec:
  assumes "stored m" "index_wf (bm_index m)" "\<forall>q \<in> set queue. bm_index m q \<noteq> None" "length queue + length (bm_unlinked m) \<le> n"
  shows "\<exists>m'. link_loop n m queue = Inr m' \<and> keeps m m' \<and> stored m'"
  using assms
proof (induction n m queue rule: link_loop.induct)
  case (3 n m p queue)
  obtain b where "bm_index m p = Some b" using 3(4) by auto
  from link_block_spec [OF 3(2,3) this] obtain m1 where m1: "link_block m p = Inr m1" "keeps m m1" "stored m1" "bm_unlinked m1 = bm_unlinked m" by blast
  let ?m = "m1\<lparr> bm_unlinked := filter (\<lambda>x. fst x \<noteq> p) (bm_unlinked m1) \<rparr>"
  let ?q = "queue @ map snd (filter (\<lambda>x. fst x = p) (bm_unlinked m1))"
  have k: "keeps m ?m" "stored ?m" using m1(2,3) by (simp_all add: keeps_def stored_def)
  have "\<forall>q \<in> set ?q. bm_index ?m q \<noteq> None" using 3(4) keeps_known [OF m1(2)] m1(3) by (auto simp: stored_def)
  moreover have "length (filter (\<lambda>x. fst x = p) (bm_unlinked m)) + length (filter (\<lambda>x. fst x \<noteq> p) (bm_unlinked m)) = length (bm_unlinked m)"
    by (rule sum_length_filter_compl)
  then have "length ?q + length (bm_unlinked ?m) \<le> n" using 3(5) m1(4) by simp
  ultimately obtain m' where "link_loop n ?m ?q = Inr m'" "keeps ?m m'" "stored m'"
    using 3(1) [of m1] k(2) keeps_index_wf [OF k(1) 3(3)] by auto
  then show ?case using m1(1) keeps_trans [OF k(1)] by auto
qed auto

lemma received_entry_spec:
  "\<exists>b'. received_entry params block b pos = Inr b' \<and> tree_part b' = tree_part b \<and>
     (nStatus b AND BLOCK_FAILED_VALID \<noteq> 0 \<longrightarrow> nStatus b' AND BLOCK_FAILED_VALID \<noteq> 0)"
proof -
  let ?b = "b\<lparr> nTx := of_nat (length (vtx block)), nChainTx := 0, nFile := pos_nFile pos, nDataPos := nPos pos, nUndoPos := 0,
    nStatus := nStatus b OR BLOCK_HAVE_DATA \<rparr>"
  let ?c = "if BuriedActiveAt ?b params DEPLOYMENT_SEGWIT then ?b\<lparr> nStatus := nStatus ?b OR BLOCK_OPT_WITNESS \<rparr> else ?b"
  obtain b' f where r: "RaiseValidity ?c BLOCK_VALID_TRANSACTIONS = Inr (b', f)" "tree_part b' = tree_part ?c"
    "nStatus ?c AND BLOCK_FAILED_VALID \<noteq> 0 \<longrightarrow> nStatus b' = nStatus ?c" using RaiseValidity_total [OF valid_levels(2)] by blast
  have "nStatus b AND BLOCK_FAILED_VALID \<noteq> 0 \<Longrightarrow> nStatus ?c AND BLOCK_FAILED_VALID \<noteq> 0" using failed_or by simp
  moreover have "received_entry params block b pos = Inr b'" unfolding received_entry_def Let_def using r(1) by simp
  moreover have "tree_part b' = tree_part b" using r(2) by simp
  ultimately show ?thesis using r(3) by auto
qed

lemma wait_for_parent_spec:
  assumes "stored m" "\<And>q. pprev b = Some q \<Longrightarrow> \<exists>c. bm_index m q = Some c" "bm_index m p = Some b"
  shows "\<exists>m'. wait_for_parent m p b = Inr m' \<and> keeps m m' \<and> stored m'"
proof (cases "pprev b")
  case (Some q)
  then obtain c where c: "bm_index m q = Some c" using assms(2) by blast
  obtain v where v: "IsValid c BLOCK_VALID_TREE = Inr v" using IsValid_total [OF valid_levels(1)] by blast
  have "stored (m\<lparr> bm_unlinked := bm_unlinked m @ [(q, p)] \<rparr>)" using assms(1,3) c by (auto simp: stored_def)
  moreover have "keeps m (m\<lparr> bm_unlinked := bm_unlinked m @ [(q, p)] \<rparr>)" by (simp add: keeps_def)
  ultimately show ?thesis using Some c v assms(1) by (simp add: wait_for_parent_def deref_def)
qed (use assms(1) in \<open>simp add: wait_for_parent_def\<close>)

lemma ReceivedBlockTransactions_spec:
  assumes "stored m" "index_wf (bm_index m)" "bm_index m p = Some b"
  shows "\<exists>m'. ReceivedBlockTransactions params m block p pos = Inr m' \<and> keeps m m' \<and> stored m'"
proof -
  obtain b' where b': "received_entry params block b pos = Inr b'" "tree_part b' = tree_part b"
    "nStatus b AND BLOCK_FAILED_VALID \<noteq> 0 \<longrightarrow> nStatus b' AND BLOCK_FAILED_VALID \<noteq> 0" using received_entry_spec by blast
  let ?m = "put_dirty m p b'"
  have k: "keeps m ?m" using keeps_entry(2) [OF assms(3) b'(2)] b'(3) by blast
  have st: "stored ?m" using extends_stored [OF extends_put(1) assms(1)] .
  have p': "bm_index ?m p = Some b'" by (simp add: put_dirty_def put_entry_def)
  have wf: "index_wf (bm_index ?m)" using keeps_index_wf [OF k assms(2)] .
  have prev: "\<And>q. pprev b' = Some q \<Longrightarrow> \<exists>c. bm_index ?m q = Some c" using index_wfD(3) [OF wf p'] by blast
  obtain l where l: "parent_downloaded (bm_index ?m) b' = Inr l"
    using prev by (cases "pprev b'") (fastforce simp: parent_downloaded_def deref_def)+
  obtain m1 where m1: "link_loop (length (bm_unlinked ?m) + 1) ?m [p] = Inr m1" "keeps ?m m1" "stored m1"
    using link_loop_spec [OF st wf, of "[p]" "length (bm_unlinked ?m) + 1"] p' by (auto simp del: link_loop.simps)
  obtain m2 where m2: "wait_for_parent ?m p b' = Inr m2" "keeps ?m m2" "stored m2"
    using wait_for_parent_spec [OF st prev] p' by blast
  show ?thesis using assms(3) b'(1) l m1 m2 keeps_trans [OF k] by (cases l) (auto simp: ReceivedBlockTransactions_def deref_def Let_def)
qed

lemma store_block_spec:
  assumes ok: "manager_ok params m" "stored m" "bm_index m q = Some b" "he_params env = params"
    and a: "store_block env m block q b = (m', r)"
  shows "manager_ok params m' \<and> stored m' \<and> keeps m m' \<and> (\<forall>x new. r = Inr (x, new) \<longrightarrow> x = q)"
proof -
  have wf: "index_wf (bm_index m)" using ok(1) by (simp add: manager_ok_def)
  show ?thesis
  proof (cases "\<exists>pos. SaveBlockToDisk env block (nHeight b) = Some pos \<and> pos_nFile pos \<noteq> - 1")
    case True
    then obtain pos where pos: "SaveBlockToDisk env block (nHeight b) = Some pos" "pos_nFile pos \<noteq> - 1" by blast
    obtain m1 where m1: "ReceivedBlockTransactions params m block q pos = Inr m1" "keeps m m1" "stored m1"
      using ReceivedBlockTransactions_spec [OF ok(2) wf ok(3)] by blast
    then show ?thesis using a pos ok(4) keeps_manager_ok [OF m1(2) ok(1)] by (auto simp: store_block_def)
  qed (use a ok in \<open>auto simp: store_block_def split: option.splits if_splits\<close>)
qed

section \<open>Properties\<close>

text \<open>
  C4: accepting headers and blocks keeps the block index sound, on every outcome. Let every entry with
  a parent have a hash that meets its target, a time after the median time past of its parent, the
  parent's work plus its own proof as its work and the running maximum of the times; let the map of
  hashes be exactly the hashes of the entries, and the failed entries be marked. Whatever
  \<open>AcceptBlock\<close> is given and whatever it returns, all this holds of the index it leaves, no entry
  is lost, and an accepted block is found under its hash.
\<close>

theorem AcceptBlock_keeps_index:
  assumes ok: "manager_ok params m" "stored m" "he_params env = params" "bm_index m p = None" "bm_hashes m (hashGenesisBlock params) \<noteq> None"
    and a: "AcceptBlock env m p block fChecked fRequested pow = (m', r)"
  shows "manager_ok params m' \<and> stored m' \<and> (\<forall>q. bm_index m q \<noteq> None \<longrightarrow> bm_index m' q \<noteq> None) \<and>
    (\<forall>q new. r = Inr (q, new) \<longrightarrow> bm_hashes m' (block_hash block) = Some q)"
proof -
  obtain m1 r1 where h: "AcceptBlockHeader (header_env.truncate env) m p (block_header block) pow = (m1, r1)" by (metis surj_pair)
  have "he_params (header_env.truncate env) = params" using ok(3) by (simp add: header_env.truncate_def)
  from AcceptBlockHeader_spec [OF ok(1) this ok(4,5) h] have m1: "manager_ok params m1" "extends m m1"
    "\<And>q. r1 = Inr q \<Longrightarrow> bm_hashes m1 (block_hash block) = Some q" by (auto simp: block_hash_def)
  have st: "stored m1" using extends_stored [OF m1(2) ok(2)] .
  have ext: "\<And>q. bm_index m q \<noteq> None \<Longrightarrow> bm_index m1 q \<noteq> None" using m1(2) by (simp add: extends_def)
  show ?thesis
  proof (cases r1)
    case (Inl e)
    then show ?thesis using a h m1(1) st ext by (auto simp: AcceptBlock_def)
  next
    case (Inr q)
    obtain b where b: "bm_index m1 q = Some b" using m1(1) m1(3) [OF Inr] by (auto simp: manager_ok_def)
    have fin: "?thesis" if "keeps m1 m'" "stored m'" "\<And>x new. r = Inr (x, new) \<Longrightarrow> x = q"
      using that keeps_manager_ok [OF that(1) m1(1)] keeps_known [OF that(1)] ext m1(3) [OF Inr] by (auto simp: keeps_def)
    have mark: "keeps m1 (put_dirty m1 q (b\<lparr> nStatus := nStatus b OR BLOCK_FAILED_VALID \<rparr>))"  using keeps_or [OF b] .
    have mark': "stored (put_dirty m1 q (b\<lparr> nStatus := nStatus b OR BLOCK_FAILED_VALID \<rparr>))" using extends_stored [OF extends_put(1) st] .
    have "(m', r) = store_block env m1 block q b \<or> m' = m1 \<and> (\<forall>x new. r = Inr (x, new) \<longrightarrow> x = q) \<or>
        m' = put_dirty m1 q (b\<lparr> nStatus := nStatus b OR BLOCK_FAILED_VALID \<rparr>) \<and> (\<forall>x new. r \<noteq> Inr (x, new))"
      using a h Inr b by (auto simp: AcceptBlock_def deref_def sum_bind_def split: sum.splits stop.splits if_splits)
    then show ?thesis using fin mark mark' st store_block_spec [OF m1(1) st b ok(3)] by (metis keeps_refl)
  qed
qed

text \<open>A node that knows the header of its first block and receives the block.\<close>

definition first_params :: Params where
  "first_params = reward_params\<lparr> hashGenesisBlock := block_hash reward_block \<rparr>"

definition first_manager :: block_manager where
  "first_manager = \<lparr> bm_index = [0 \<mapsto> (sample_node None None 0 1600)\<lparr> phashBlock := Some (block_hash reward_block) \<rparr>],
     bm_hashes = (\<lambda>h. if h = block_hash reward_block then Some 0 else None), bm_best_header = Some 0, bm_best_invalid = None,
     bm_failed = [], bm_dirty = [], bm_unlinked = [], bm_candidates = [], bm_chain = [], bm_sequence = 1 \<rparr>"

definition first_env :: block_env where
  "first_env = \<lparr> he_params = first_params, he_checkpoints = [], he_fCheckpointsEnabled = True, he_now = 0, be_impl = default_impl,
     be_curve = sample_curve, be_nMinimumChainWork = bu_zero, SaveBlockToDisk = (\<lambda>_ _. Some \<lparr> pos_nFile = 0, nPos = 8 \<rparr>) \<rparr>"

lemma first_manager_ok: "manager_ok first_params first_manager" "stored first_manager"
  by (auto simp: manager_ok_def stored_def first_manager_def index_wf_def node_wf_def linked_ok_def sample_node_def Tip_def split: if_splits)

lemma first_block_accepted: "\<exists>m'. AcceptBlock first_env first_manager 5 reward_block True True True = (m', Inr (0, True))"
proof -
  let ?b = "(sample_node None None 0 1600)\<lparr> phashBlock := Some (block_hash reward_block) \<rparr>"
  have m: "bm_index first_manager 0 = Some ?b" "bm_hashes first_manager (block_hash reward_block) = Some 0" "bm_chain first_manager = []"
    by (simp_all add: first_manager_def)
  have "index_wf (bm_index first_manager)" using first_manager_ok(1) by (simp add: manager_ok_def)
  from ReceivedBlockTransactions_spec [OF first_manager_ok(2) this m(1), of first_params reward_block "\<lparr> pos_nFile = 0, nPos = 8 \<rparr>"]
  obtain m' where m': "ReceivedBlockTransactions first_params first_manager reward_block 0 \<lparr> pos_nFile = 0, nPos = 8 \<rparr> = Inr m'" by blast
  have h: "AcceptBlockHeader (header_env.truncate first_env) first_manager 5 (block_header reward_block) True = (first_manager, Inr 0)"
    using m(2) by (simp add: AcceptBlockHeader_def add_header_def AddToBlockIndex_def first_env_def first_params_def header_env.truncate_def
        block_hash_def [symmetric] Let_def)
  have "not_wanted first_env first_manager ?b = Inr (nTx ?b \<noteq> 0 \<or> nHeight ?b > Height [] + MIN_BLOCKS_TO_KEEP \<or>
      CompareTo (nChainWork ?b) (be_nMinimumChainWork first_env) < 0)" using m(3) by (simp add: not_wanted_def Tip_def)
  moreover have "check_received first_env first_manager reward_block True ?b = Inr ()"
    by (simp add: check_received_def CheckBlock_def ContextualCheckBlock_def sample_node_def)
  moreover have "store_block first_env first_manager reward_block 0 ?b = (m', Inr (0, True))"
    using m' by (simp add: store_block_def first_env_def)
  moreover have "nStatus ?b AND BLOCK_HAVE_DATA = 0" by (simp add: sample_node_def)
  ultimately show ?thesis using h m(1) by (simp add: AcceptBlock_def deref_def)
qed

theorem AcceptBlock_keeps_index_witness:
  "\<exists>m'. AcceptBlock first_env first_manager 5 reward_block True True True = (m', Inr (0, True)) \<and> manager_ok first_params m' \<and>
     bm_hashes m' (block_hash reward_block) = Some 0"
proof -
  obtain m' where m': "AcceptBlock first_env first_manager 5 reward_block True True True = (m', Inr (0, True))" using first_block_accepted by blast
  have "he_params first_env = first_params" "bm_index first_manager 5 = None" "bm_hashes first_manager (hashGenesisBlock first_params) \<noteq> None"
    by (simp_all add: first_env_def first_manager_def first_params_def)
  from AcceptBlock_keeps_index [OF first_manager_ok this m'] show ?thesis using m' by blast
qed

end
