(* ===== verification/ChainSelection.thy ===== *)
theory ChainSelection
  imports BlockIntake
begin

text \<open>
  The choice of the best chain, \<open>FindMostWorkChain\<close>, \<open>PruneBlockIndexCandidates\<close> and what happens to
  blocks found invalid, of \<open>src/src/validation.cpp\<close>.
\<close>

section \<open>Definitions: the best chain\<close>

definition raise_best_invalid :: "block_manager \<Rightarrow> bid \<Rightarrow> fault + block_manager" where
  "raise_best_invalid m p =
     sum_bind (deref (bm_index m) p) (\<lambda>b.
     case bm_best_invalid m of
       None \<Rightarrow> Inr (m\<lparr> bm_best_invalid := Some p \<rparr>)
     | Some i \<Rightarrow> sum_bind (deref (bm_index m) i) (\<lambda>c.
         Inr (if CompareTo (nChainWork b) (nChainWork c) > 0 then m\<lparr> bm_best_invalid := Some p \<rparr> else m)))"

text \<open>
  \<open>InvalidChainFound\<close> and \<open>InvalidBlockFound\<close>; their log messages and the warning about long invalid chains
  are left out.
\<close>

definition InvalidChainFound :: "block_manager \<Rightarrow> bid \<Rightarrow> fault + block_manager" where
  "InvalidChainFound m p =
     sum_bind (raise_best_invalid m p) (\<lambda>m.
     sum_bind (deref (bm_index m) p) (\<lambda>b.
     sum_bind (case bm_best_header m of None \<Rightarrow> Inr False
               | Some h \<Rightarrow> sum_bind (GetAncestor (bm_index m) h (nHeight b)) (\<lambda>a. Inr (a = Some p))) (\<lambda>on_best.
     if Tip (bm_chain m) = None then Inl AssertFailed
     else Inr (if on_best then m\<lparr> bm_best_header := Tip (bm_chain m) \<rparr> else m))))"

definition InvalidBlockFound :: "block_manager \<Rightarrow> bid \<Rightarrow> BlockValidationResult \<Rightarrow> fault + block_manager" where
  "InvalidBlockFound m p r =
     (if r = BLOCK_MUTATED then Inr m
      else sum_bind (deref (bm_index m) p) (\<lambda>b.
        let m = put_dirty m p (b\<lparr> nStatus := nStatus b OR BLOCK_FAILED_VALID \<rparr>) in
        InvalidChainFound (m\<lparr> bm_failed := List.insert p (bm_failed m), bm_candidates := removeAll p (bm_candidates m) \<rparr>) p))"

text \<open>
  The first block on the way from a candidate to the active chain that failed or has no data, with
  whether it failed.
\<close>

fun untested_walk :: "nat \<Rightarrow> block_store \<Rightarrow> CChain \<Rightarrow> bid option \<Rightarrow> fault + (bid \<times> bool) option" where
  "untested_walk 0 st vChain p = Inl OutOfFuel"
| "untested_walk (Suc n) st vChain p =
     (case p of None \<Rightarrow> Inr None
      | Some pindexTest \<Rightarrow>
          sum_bind (Contains st vChain pindexTest) (\<lambda>c.
          if c then Inr None
          else sum_bind (deref st pindexTest) (\<lambda>b.
            if \<not> (HaveTxsDownloaded b \<or> nHeight b = 0) then Inl AssertFailed
            else let fFailedChain = (nStatus b AND BLOCK_FAILED_MASK \<noteq> 0); fMissingData = (nStatus b AND BLOCK_HAVE_DATA = 0) in
              if fFailedChain \<or> fMissingData then Inr (Some (pindexTest, fFailedChain))
              else untested_walk n st vChain (pprev b))))"

fun drop_walk :: "nat \<Rightarrow> bool \<Rightarrow> bid \<Rightarrow> bid option \<Rightarrow> block_manager \<Rightarrow> fault + block_manager" where
  "drop_walk 0 fFailedChain pindexTest p m = Inl OutOfFuel"
| "drop_walk (Suc n) fFailedChain pindexTest p m =
     (if p = Some pindexTest then Inr m
      else case p of None \<Rightarrow> Inl BadPointer
      | Some pindexFailed \<Rightarrow>
          sum_bind (deref (bm_index m) pindexFailed) (\<lambda>b.
          sum_bind (if fFailedChain then Inr (put_entry m pindexFailed (b\<lparr> nStatus := nStatus b OR BLOCK_FAILED_CHILD \<rparr>))
                    else case pprev b of None \<Rightarrow> Inl BadPointer
                    | Some q \<Rightarrow> Inr (m\<lparr> bm_unlinked := bm_unlinked m @ [(q, pindexFailed)] \<rparr>)) (\<lambda>m.
            drop_walk n fFailedChain pindexTest (pprev b) (m\<lparr> bm_candidates := removeAll pindexFailed (bm_candidates m) \<rparr>))))"

definition drop_candidate :: "block_manager \<Rightarrow> bid \<Rightarrow> bid \<Rightarrow> bool \<Rightarrow> fault + block_manager" where
  "drop_candidate m pindexNew pindexTest fFailedChain =
     sum_bind (if fFailedChain then raise_best_invalid m pindexNew else Inr m) (\<lambda>m.
     sum_bind (drop_walk (walk_length (bm_index m) pindexNew) fFailedChain pindexTest (Some pindexNew) m) (\<lambda>m.
       Inr (m\<lparr> bm_candidates := removeAll pindexTest (bm_candidates m) \<rparr>)))"

fun most_work_loop :: "nat \<Rightarrow> block_manager \<Rightarrow> fault + bid option \<times> block_manager" where
  "most_work_loop 0 m = Inl OutOfFuel"
| "most_work_loop (Suc n) m =
     (if bm_candidates m = [] then Inr (None, m)
      else let pindexNew = last (bm_candidates m) in
        sum_bind (untested_walk (walk_length (bm_index m) pindexNew) (bm_index m) (bm_chain m) (Some pindexNew)) (\<lambda>r.
          case r of None \<Rightarrow> Inr (Some pindexNew, m)
          | Some (pindexTest, fFailedChain) \<Rightarrow>
              sum_bind (drop_candidate m pindexNew pindexTest fFailedChain) (\<lambda>m. most_work_loop n m)))"

definition FindMostWorkChain :: "block_manager \<Rightarrow> fault + bid option \<times> block_manager" where
  "FindMostWorkChain m = most_work_loop (length (bm_candidates m) + 1) m"

fun prune_loop :: "block_store \<Rightarrow> bid \<Rightarrow> bid list \<Rightarrow> fault + bid list" where
  "prune_loop st tip [] = Inr []"
| "prune_loop st tip (p # ps) =
     sum_bind (CBlockIndexWorkComparator st p tip) (\<lambda>worse. if worse then prune_loop st tip ps else Inr (p # ps))"

definition PruneBlockIndexCandidates :: "block_manager \<Rightarrow> fault + block_manager" where
  "PruneBlockIndexCandidates m =
     sum_bind (case bm_candidates m of [] \<Rightarrow> Inr []
               | cs \<Rightarrow> (case Tip (bm_chain m) of None \<Rightarrow> Inl BadPointer | Some tip \<Rightarrow> prune_loop (bm_index m) tip cs)) (\<lambda>cs.
       if cs = [] then Inl AssertFailed else Inr (m\<lparr> bm_candidates := cs \<rparr>))"

section \<open>The best chain\<close>

definition status_only :: "block_store \<Rightarrow> block_store \<Rightarrow> bool" where
  "status_only st st' \<longleftrightarrow> (\<forall>p. map_option (\<lambda>b. b\<lparr> nStatus := 0 \<rparr>) (st' p) = map_option (\<lambda>b. b\<lparr> nStatus := 0 \<rparr>) (st p))"

lemma status_only_refl [simp]: "status_only st st"
  by (simp add: status_only_def)

lemma status_only_trans: "status_only s t \<Longrightarrow> status_only t u \<Longrightarrow> status_only s u"
  by (simp add: status_only_def)

lemma status_only_upd: "st p = Some b \<Longrightarrow> status_only st (st(p \<mapsto> b\<lparr> nStatus := x \<rparr>))"
  by (simp add: status_only_def)

lemma status_only_same_tree:
  assumes "status_only st st'"
  shows "same_tree st st'"
  unfolding same_tree_def
proof
  fix p
  have "map_option (\<lambda>b. b\<lparr> nStatus := 0 \<rparr>) (st' p) = map_option (\<lambda>b. b\<lparr> nStatus := 0 \<rparr>) (st p)" using assms by (simp add: status_only_def)
  from arg_cong [OF this, of "map_option tree_part"] show "map_option tree_part (st' p) = map_option tree_part (st p)"
    by (simp add: option.map_comp o_def)
qed

lemma status_only_Some:
  assumes "status_only st st'" "st p = Some b"
  shows "\<exists>x. st' p = Some (b\<lparr> nStatus := x \<rparr>)"
proof -
  obtain b' where b': "st' p = Some b'" "b'\<lparr> nStatus := 0 \<rparr> = b\<lparr> nStatus := 0 \<rparr>"
    using assms by (fastforce simp: status_only_def dest: spec [of _ p])
  then have "b' = b\<lparr> nStatus := nStatus b' \<rparr>" by (cases b; cases b') simp
  then show ?thesis using b'(1) by auto
qed

text \<open>A block that failed or has no data, and a block with such a block on its way to the active chain.\<close>

definition broken :: "CBlockIndex \<Rightarrow> bool" where
  "broken b \<longleftrightarrow> nStatus b AND BLOCK_FAILED_MASK \<noteq> 0 \<or> nStatus b AND BLOCK_HAVE_DATA = 0"

definition blocked :: "block_store \<Rightarrow> CChain \<Rightarrow> bid \<Rightarrow> bool" where
  "blocked st vc c \<longleftrightarrow> (\<exists>h a b. prev_at st c h = Some a \<and> st a = Some b \<and> chain_at vc h \<noteq> Some a \<and> broken b)"

definition downloaded :: "block_store \<Rightarrow> CChain \<Rightarrow> bid \<Rightarrow> bool" where
  "downloaded st vc c \<longleftrightarrow> (\<forall>h a b. prev_at st c h = Some a \<and> st a = Some b \<and> chain_at vc h \<noteq> Some a \<longrightarrow>
     HaveTxsDownloaded b \<or> nHeight b = 0)"

lemma blocked_step:
  assumes "index_wf st" "st p = Some b"
  shows "blocked st vc p \<longleftrightarrow> chain_at vc (nHeight b) \<noteq> Some p \<and> broken b \<or> (\<exists>q. pprev b = Some q \<and> blocked st vc q)"
  unfolding blocked_def prev_at_step [OF assms] using assms(2) by auto

lemma downloaded_step:
  assumes "index_wf st" "st p = Some b" "downloaded st vc p"
  shows "chain_at vc (nHeight b) \<noteq> Some p \<Longrightarrow> HaveTxsDownloaded b \<or> nHeight b = 0" "pprev b = Some q \<Longrightarrow> downloaded st vc q"
  using assms(2,3) unfolding downloaded_def prev_at_step [OF assms(1,2)] by auto

lemma untested_walk_spec:
  assumes wf: "index_wf st" "chain_wf st vc"
    and "st p = Some b" "downloaded st vc p" "nat (nHeight b) + 1 < n"
  shows "\<exists>r. untested_walk n st vc (Some p) = Inr r \<and> (case r of None \<Rightarrow> \<not> blocked st vc p
    | Some (t, f) \<Rightarrow> \<exists>h c. prev_at st p h = Some t \<and> st t = Some c \<and> chain_at vc h \<noteq> Some t \<and> broken c \<and> f = (nStatus c AND BLOCK_FAILED_MASK \<noteq> 0))"
  using assms(3-5)
proof (induction n arbitrary: p b)
  case (Suc n)
  have b0: "0 \<le> nHeight b" by (rule index_wfD(1) [OF wf(1) Suc.prems(1)])
  have self: "prev_at st p (nHeight b) = Some p" using Suc.prems(1) b0 by simp
  show ?case
  proof (cases "chain_at vc (nHeight b) = Some p")
    case True
    have "\<not> blocked st vc p"
    proof
      assume "blocked st vc p"
      then obtain h a where a: "prev_at st p h = Some a" "chain_at vc h \<noteq> Some a" by (auto simp: blocked_def)
      from this(1) have "0 \<le> h \<and> h \<le> nHeight b" using prev_at_range Suc.prems(1) by fastforce
      then show False using chain_at_closed(2) [OF wf(2) True] a by auto
    qed
    then show ?thesis using True Suc.prems(1) by (simp add: Contains_def deref_def)
  next
    case False
    note dl = downloaded_step [OF wf(1) Suc.prems(1,2)]
    show ?thesis
    proof (cases "broken b")
      case True
      then show ?thesis using False Suc.prems(1) dl(1) self by (auto simp: Contains_def deref_def broken_def intro!: exI [of _ "nHeight b"])
    next
      case nb: False
      then have walk: "untested_walk (Suc n) st vc (Some p) = untested_walk n st vc (pprev b)"
        using False Suc.prems(1) dl(1) by (auto simp: Contains_def deref_def broken_def)
      show ?thesis
      proof (cases "pprev b")
        case None
        then show ?thesis using walk Suc.prems(3) blocked_step [OF wf(1) Suc.prems(1)] nb by (cases n) auto
      next
        case (Some q)
        obtain c where c: "st q = Some c" "nHeight b = nHeight c + 1" using index_wfD(3) [OF wf(1) Suc.prems(1) Some] by blast
        have "nat (nHeight c) + 1 < n" using Suc.prems(3) c(2) index_wfD(1) [OF wf(1) c(1)] by linarith
        from Suc.IH [OF c(1) dl(2) [OF Some] this] show ?thesis
          using walk Some nb blocked_step [OF wf(1) Suc.prems(1)] prev_at_step [OF wf(1) Suc.prems(1)]
          by (fastforce split: option.splits prod.splits)
      qed
    qed
  qed
qed simp

text \<open>
  What giving up candidates leaves: the entries change in their status only, no block becomes blocked
  or unblocked, and every candidate that goes was blocked.
\<close>

definition drops :: "block_manager \<Rightarrow> block_manager \<Rightarrow> bool" where
  "drops m m' \<longleftrightarrow> status_only (bm_index m) (bm_index m') \<and> bm_chain m' = bm_chain m \<and>
     blocked (bm_index m') (bm_chain m) = blocked (bm_index m) (bm_chain m) \<and>
     (\<exists>Q. bm_candidates m' = filter Q (bm_candidates m) \<and> (\<forall>q \<in> set (bm_candidates m). \<not> Q q \<longrightarrow> blocked (bm_index m) (bm_chain m) q))"

lemma drops_refl: "drops m m"
  by (auto simp: drops_def intro!: exI [of _ "\<lambda>_. True"])

lemma drops_trans:
  assumes "drops m m'" "drops m' m''"
  shows "drops m m''"
proof -
  obtain P Q where P: "bm_candidates m' = filter P (bm_candidates m)" "\<forall>q \<in> set (bm_candidates m). \<not> P q \<longrightarrow> blocked (bm_index m) (bm_chain m) q"
    and Q: "bm_candidates m'' = filter Q (bm_candidates m')" "\<forall>q \<in> set (bm_candidates m'). \<not> Q q \<longrightarrow> blocked (bm_index m') (bm_chain m') q"
    using assms unfolding drops_def by blast
  have "bm_candidates m'' = filter (\<lambda>q. P q \<and> Q q) (bm_candidates m)" using P(1) Q(1) by simp
  moreover have "\<forall>q \<in> set (bm_candidates m). \<not> (P q \<and> Q q) \<longrightarrow> blocked (bm_index m) (bm_chain m) q"
    using P Q assms(1) by (auto simp: drops_def)
  moreover have "status_only (bm_index m) (bm_index m'')" using assms status_only_trans unfolding drops_def by blast
  moreover have "blocked (bm_index m'') (bm_chain m) = blocked (bm_index m) (bm_chain m)" "bm_chain m'' = bm_chain m"
    using assms by (simp_all add: drops_def)
  ultimately show ?thesis unfolding drops_def by blast
qed

lemma drops_candidate:
  assumes "blocked (bm_index m) (bm_chain m) p"
  shows "drops m (m\<lparr> bm_candidates := removeAll p (bm_candidates m) \<rparr>)"
  using assms by (auto simp: drops_def removeAll_filter_not_eq intro!: exI [of _ "\<lambda>x. p \<noteq> x"])

lemma failed_child_bit: "(x OR BLOCK_FAILED_CHILD) AND BLOCK_FAILED_MASK \<noteq> 0"
proof -
  have "bit BLOCK_FAILED_CHILD 6" "bit BLOCK_FAILED_MASK 6" by code_simp+
  then have "bit ((x OR BLOCK_FAILED_CHILD) AND BLOCK_FAILED_MASK) 6" by (simp add: bit_or_iff bit_and_iff)
  then show ?thesis by auto
qed

lemma drops_status:
  assumes wf: "index_wf (bm_index m)" and p: "bm_index m p = Some b" "blocked (bm_index m) (bm_chain m) p"
  shows "drops m (put_entry m p (b\<lparr> nStatus := nStatus b OR BLOCK_FAILED_CHILD \<rparr>))"
proof -
  let ?b = "b\<lparr> nStatus := nStatus b OR BLOCK_FAILED_CHILD \<rparr>" and ?vc = "bm_chain m"
  let ?st = "bm_index m" and ?st' = "(bm_index m)(p \<mapsto> ?b)"
  have so: "status_only ?st ?st'" using p(1) by (rule status_only_upd)
  note at = same_tree_prev_at [OF status_only_same_tree [OF so]]
  have br: "broken ?b" using failed_child_bit by (simp add: broken_def)
  have "blocked ?st' ?vc c" if bl: "blocked ?st ?vc c" for c
  proof -
    obtain h a d where a: "prev_at ?st c h = Some a" "?st a = Some d" "chain_at ?vc h \<noteq> Some a" "broken d" using bl unfolding blocked_def by blast
    have "\<exists>d'. ?st' a = Some d' \<and> broken d'" using a(2,4) p(1) br by (cases "a = p") auto
    then show ?thesis unfolding blocked_def at using a by blast
  qed
  moreover have "blocked ?st ?vc c" if bl: "blocked ?st' ?vc c" for c
  proof -
    obtain h a d where a: "prev_at ?st c h = Some a" "?st' a = Some d" "chain_at ?vc h \<noteq> Some a" "broken d" using bl unfolding blocked_def at by blast
    show ?thesis
    proof (cases "a = p")
      case True
      obtain e where e: "?st c = Some e" using prev_at_range [OF a(1)] by blast
      obtain k r x where r: "prev_at ?st p k = Some r" "?st r = Some x" "chain_at ?vc k \<noteq> Some r" "broken x" using p(2) unfolding blocked_def by blast
      have "0 \<le> h" "h \<le> nHeight e" using prev_at_range [OF a(1)] e by auto
      then have "nHeight b = h" using prev_at_Some [OF wf e, of h] a(1) True p(1) by auto
      moreover have "0 \<le> k" "k \<le> nHeight b" using prev_at_range [OF r(1)] p(1) by auto
      ultimately have "prev_at ?st c k = Some r" using prev_at_trans [OF wf e, of k h p] a(1) True r(1) by simp
      then show ?thesis using r unfolding blocked_def by blast
    next
      case False
      then have "?st a = Some d" using a(2) by simp
      then show ?thesis using a unfolding blocked_def by blast
    qed
  qed
  ultimately have "blocked ?st' ?vc = blocked ?st ?vc" by blast
  then show ?thesis using so by (auto simp: drops_def put_entry_def intro!: exI [of _ "\<lambda>_. True"])
qed

lemma drops_same:
  assumes "bm_index m' = bm_index m" "bm_chain m' = bm_chain m" "bm_candidates m' = bm_candidates m"
  shows "drops m m'"
  using assms by (auto simp: drops_def intro!: exI [of _ "\<lambda>_. True"])

lemma drops_index_wf: "drops m m' \<Longrightarrow> index_wf (bm_index m) \<Longrightarrow> index_wf (bm_index m')"
  using same_tree_index_wf status_only_same_tree by (auto simp: drops_def)

lemma blocked_below:
  assumes "index_wf st" "st p = Some b" "prev_at st p h = Some t" "st t = Some c" "chain_at vc h \<noteq> Some t" "broken c"
  shows "blocked st vc p"
  using assms unfolding blocked_def by blast

lemma drop_walk_spec:
  assumes "index_wf (bm_index m)" "bm_index m p = Some b" "prev_at (bm_index m) p h = Some t" "bm_index m t = Some c"
    and "chain_at (bm_chain m) h \<noteq> Some t" "broken c" "nat (nHeight b - h) < n"
  shows "\<exists>m'. drop_walk n f t (Some p) m = Inr m' \<and> drops m m' \<and> (p \<noteq> t \<longrightarrow> p \<notin> set (bm_candidates m'))"
  using assms
proof (induction n arbitrary: m p b c)
  case (Suc n)
  show ?case
  proof (cases "p = t")
    case True
    then show ?thesis by (simp add: drops_refl)
  next
    case False
    have bl: "blocked (bm_index m) (bm_chain m) p" using Suc.prems unfolding blocked_def by blast
    obtain q where q: "pprev b = Some q" "prev_at (bm_index m) q h = Some t"
      using prev_at_step [OF Suc.prems(1,2)] Suc.prems(3) False by auto
    obtain d where d: "bm_index m q = Some d" "nHeight b = nHeight d + 1" using index_wfD(3) [OF Suc.prems(1,2) q(1)] by blast
    define m1 where "m1 = (if f then put_entry m p (b\<lparr> nStatus := nStatus b OR BLOCK_FAILED_CHILD \<rparr>)
      else m\<lparr> bm_unlinked := bm_unlinked m @ [(q, p)] \<rparr>)"
    define m2 where "m2 = m1\<lparr> bm_candidates := removeAll p (bm_candidates m1) \<rparr>"
    have "drops m m1" using drops_status [OF Suc.prems(1,2) bl] by (auto simp: m1_def intro: drops_same)
    moreover from this have "blocked (bm_index m1) (bm_chain m1) p" using bl by (simp add: drops_def)
    ultimately have dr: "drops m m2" using drops_candidate drops_trans unfolding m2_def by blast
    have eq: "drop_walk (Suc n) f t (Some p) m = drop_walk n f t (Some q) m2"
      using False Suc.prems(2) q(1) by (simp add: deref_def m1_def m2_def put_entry_def)
    have so: "status_only (bm_index m) (bm_index m2)" "bm_chain m2 = bm_chain m" using dr by (simp_all add: drops_def)
    obtain x where x: "bm_index m2 q = Some (d\<lparr> nStatus := x \<rparr>)" using status_only_Some [OF so(1) d(1)] by blast
    have t: "bm_index m2 t = Some c" using False Suc.prems(4) by (simp add: m2_def m1_def put_entry_def)
    have "prev_at (bm_index m2) q h = Some t" using q(2) same_tree_prev_at [OF status_only_same_tree [OF so(1)]] by simp
    moreover have "h \<le> nHeight d" using d(1) prev_at_range [OF q(2)] by auto
    then have "nat (nHeight d - h) < n" using Suc.prems(7) d(2) by linarith
    then have "nat (nHeight (d\<lparr> nStatus := x \<rparr>) - h) < n" by simp
    ultimately obtain m' where m': "drop_walk n f t (Some q) m2 = Inr m'" "drops m2 m'"
      using Suc.IH [OF drops_index_wf [OF dr Suc.prems(1)] x _ t _ Suc.prems(6)] Suc.prems(5) so(2) by auto
    have "p \<notin> set (bm_candidates m')" using m'(2) by (auto simp: drops_def m2_def)
    then show ?thesis using eq m' drops_trans [OF dr] by auto
  qed
qed simp

lemma raise_best_invalid_spec:
  assumes "bm_index m p \<noteq> None" "\<And>i. bm_best_invalid m = Some i \<Longrightarrow> bm_index m i \<noteq> None"
  shows "\<exists>m'. raise_best_invalid m p = Inr m' \<and> bm_index m' = bm_index m \<and> bm_chain m' = bm_chain m \<and>
    bm_candidates m' = bm_candidates m \<and> (\<forall>i. bm_best_invalid m' = Some i \<longrightarrow> bm_index m i \<noteq> None)"
  using assms by (auto simp: raise_best_invalid_def deref_def split: option.splits)

lemma drop_walk_best_invalid: "drop_walk n f t p m = Inr m' \<Longrightarrow> bm_best_invalid m' = bm_best_invalid m"
  by (induction n arbitrary: p m) (fastforce simp: sum_bind_Inr_iff put_entry_def split: if_splits option.splits)+

definition invalid_known :: "block_manager \<Rightarrow> bool" where
  "invalid_known m \<longleftrightarrow> (\<forall>i. bm_best_invalid m = Some i \<longrightarrow> bm_index m i \<noteq> None)"

lemma drop_candidate_spec:
  assumes wf: "index_wf (bm_index m)" "invalid_known m" and p: "bm_index m p = Some b" "prev_at (bm_index m) p h = Some t" "bm_index m t = Some c"
    and br: "chain_at (bm_chain m) h \<noteq> Some t" "broken c"
  shows "\<exists>m'. drop_candidate m p t f = Inr m' \<and> drops m m' \<and> invalid_known m' \<and> p \<notin> set (bm_candidates m')"
proof -
  obtain m1 where m1: "(if f then raise_best_invalid m p else Inr m) = Inr m1" "bm_index m1 = bm_index m" "bm_chain m1 = bm_chain m"
    "bm_candidates m1 = bm_candidates m" "invalid_known m1"
    using raise_best_invalid_spec [of m p] wf(2) p(1) by (cases f) (auto simp: invalid_known_def)
  have d1: "drops m m1" using m1 by (intro drops_same) auto
  have "nat (nHeight b - h) < walk_length (bm_index m1) p" using p(1) prev_at_range [OF p(2)] m1(2) by (simp add: walk_length_def) linarith
  then obtain m2 where m2: "drop_walk (walk_length (bm_index m1) p) f t (Some p) m1 = Inr m2" "drops m1 m2"
    "p \<noteq> t \<longrightarrow> p \<notin> set (bm_candidates m2)"
    using drop_walk_spec [of m1 p b h t c "walk_length (bm_index m1) p" f] wf(1) p br m1(2,3) by auto
  have d2: "drops m m2" using drops_trans [OF d1 m2(2)] .
  have "blocked (bm_index m) (bm_chain m) t"
    using br p(3) index_wfD(1) [OF wf(1) p(3)] prev_at_Some [OF wf(1) p(1), of h] prev_at_range [OF p(2)] p(1,2) unfolding blocked_step [OF wf(1) p(3)] by auto
  then have "blocked (bm_index m2) (bm_chain m2) t" using d2 by (simp add: drops_def)
  then have "drops m (m2\<lparr> bm_candidates := removeAll t (bm_candidates m2) \<rparr>)" using drops_trans [OF d2 drops_candidate] by blast
  moreover have "invalid_known (m2\<lparr> bm_candidates := removeAll t (bm_candidates m2) \<rparr>)"
  proof -
    have "same_tree (bm_index m1) (bm_index m2)" using m2(2) status_only_same_tree by (simp add: drops_def)
    then show ?thesis using drop_walk_best_invalid [OF m2(1)] m1(5) same_tree_None by (simp add: invalid_known_def)
  qed
  ultimately show ?thesis using m1(1) m2(1,3) by (cases "p = t") (auto simp: drop_candidate_def)
qed

lemma downloaded_drops:
  assumes "drops m m'" "downloaded (bm_index m) (bm_chain m) c"
  shows "downloaded (bm_index m') (bm_chain m') c"
proof -
  have so: "status_only (bm_index m) (bm_index m')" "bm_chain m' = bm_chain m" using assms(1) by (simp_all add: drops_def)
  have "\<exists>b0. bm_index m a = Some b0 \<and> HaveTxsDownloaded b = HaveTxsDownloaded b0 \<and> nHeight b = nHeight b0" if "bm_index m' a = Some b" for a b
    using status_only_Some [OF so(1)] that same_tree_None [OF status_only_same_tree [OF so(1)], of a]
    by (cases "bm_index m a") (fastforce simp: HaveTxsDownloaded_def)+
  then show ?thesis using assms(2) so(2) unfolding downloaded_def same_tree_prev_at [OF status_only_same_tree [OF so(1)]] by metis
qed

text \<open>The candidates are stored blocks, in the order of the comparator, with downloaded ancestors.\<close>

definition candidates_ok :: "block_manager \<Rightarrow> bool" where
  "candidates_ok m \<longleftrightarrow> index_wf (bm_index m) \<and> chain_wf (bm_index m) (bm_chain m) \<and> invalid_known m \<and>
     (\<forall>c \<in> set (bm_candidates m). bm_index m c \<noteq> None \<and> downloaded (bm_index m) (bm_chain m) c)"

lemma drops_candidates_ok:
  assumes "drops m m'" "candidates_ok m" "invalid_known m'"
  shows "candidates_ok m'"
proof -
  have so: "same_tree (bm_index m) (bm_index m')" "bm_chain m' = bm_chain m" using assms(1) status_only_same_tree by (auto simp: drops_def)
  have "chain_wf (bm_index m') (bm_chain m')" using assms(2) so same_tree_chain_closed by (simp add: candidates_ok_def chain_wf_def)
  moreover have "set (bm_candidates m') \<subseteq> set (bm_candidates m)" using assms(1) by (auto simp: drops_def)
  ultimately show ?thesis using assms drops_index_wf [OF assms(1)] downloaded_drops [OF assms(1)] same_tree_None [OF so(1)]
    by (auto simp: candidates_ok_def)
qed

lemma most_work_loop_spec:
  assumes "candidates_ok m" "length (bm_candidates m) < n"
  shows "\<exists>r m'. most_work_loop n m = Inr (r, m') \<and> drops m m' \<and> candidates_ok m' \<and>
    (case r of None \<Rightarrow> bm_candidates m' = []
     | Some p \<Rightarrow> bm_candidates m' \<noteq> [] \<and> p = last (bm_candidates m') \<and> \<not> blocked (bm_index m) (bm_chain m) p)"
  using assms
proof (induction n arbitrary: m)
  case (Suc n)
  show ?case
  proof (cases "bm_candidates m = []")
    case True
    then show ?thesis using Suc.prems(1) by (auto simp: drops_refl)
  next
    case False
    let ?p = "last (bm_candidates m)"
    have wf: "index_wf (bm_index m)" "chain_wf (bm_index m) (bm_chain m)" "invalid_known m" using Suc.prems(1) by (simp_all add: candidates_ok_def)
    obtain b where b: "bm_index m ?p = Some b" "downloaded (bm_index m) (bm_chain m) ?p"
      using Suc.prems(1) last_in_set [OF False] by (auto simp: candidates_ok_def)
    obtain r where r: "untested_walk (walk_length (bm_index m) ?p) (bm_index m) (bm_chain m) (Some ?p) = Inr r"
      "case r of None \<Rightarrow> \<not> blocked (bm_index m) (bm_chain m) ?p
       | Some (t, f) \<Rightarrow> \<exists>h c. prev_at (bm_index m) ?p h = Some t \<and> bm_index m t = Some c \<and> chain_at (bm_chain m) h \<noteq> Some t \<and> broken c \<and>
           f = (nStatus c AND BLOCK_FAILED_MASK \<noteq> 0)"
      using untested_walk_spec [OF wf(1,2) b, of "walk_length (bm_index m) ?p"] b(1) by (auto simp: walk_length_def)
    show ?thesis
    proof (cases r)
      case None
      then show ?thesis using r False Suc.prems(1) by (auto simp: drops_refl Let_def)
    next
      case (Some tf)
      then obtain t f h c where t: "r = Some (t, f)" "prev_at (bm_index m) ?p h = Some t" "bm_index m t = Some c"
        "chain_at (bm_chain m) h \<noteq> Some t" "broken c" using r(2) by (cases tf) auto
      obtain m1 where m1: "drop_candidate m ?p t f = Inr m1" "drops m m1" "invalid_known m1" "?p \<notin> set (bm_candidates m1)"
        using drop_candidate_spec [OF wf(1,3) b(1) t(2-5)] by blast
      obtain Q where Q: "bm_candidates m1 = filter Q (bm_candidates m)" using m1(2) by (auto simp: drops_def)
      have "length (bm_candidates m1) < length (bm_candidates m)"
        unfolding Q using last_in_set [OF False] m1(4) Q by (intro length_filter_less [of ?p]) auto
      then have "length (bm_candidates m1) < n" using Suc.prems(2) by simp
      from Suc.IH [OF drops_candidates_ok [OF m1(2) Suc.prems(1) m1(3)] this] obtain r' m' where
        m': "most_work_loop n m1 = Inr (r', m')" "drops m1 m'" "candidates_ok m'" "case r' of None \<Rightarrow> bm_candidates m' = []
          | Some p \<Rightarrow> bm_candidates m' \<noteq> [] \<and> p = last (bm_candidates m') \<and> \<not> blocked (bm_index m1) (bm_chain m1) p" by blast
      have "blocked (bm_index m1) (bm_chain m1) = blocked (bm_index m) (bm_chain m)" using m1(2) by (simp add: drops_def)
      then show ?thesis using m' m1 r(1) t(1) False drops_trans [OF m1(2) m'(2)] by (cases r') (auto simp: Let_def)
    qed
  qed
qed simp

lemma sorted_wrt_last:
  assumes "sorted_wrt R xs" "x \<in> set xs" "x \<noteq> last xs"
  shows "R x (last xs)"
proof -
  have ne: "xs \<noteq> []" using assms(2) by auto
  have "sorted_wrt R (butlast xs @ [last xs])" using assms(1) ne by simp
  moreover have "x \<in> set (butlast xs @ [last xs])" using assms(2) ne by simp
  ultimately show ?thesis using assms(3) by (auto simp: sorted_wrt_append)
qed

section \<open>Properties\<close>

text \<open>
  C1: \<open>FindMostWorkChain\<close> chooses the best chain. On a well-formed index whose candidates are in the
  order of \<open>CBlockIndexWorkComparator\<close>, it always returns. Either every candidate has a failed block or
  a block without data on its way to the active chain, and the result is null; or the result is a
  candidate with no such block, and every other candidate with none comes before it in the order (less
  work, or the same work received later). No usable candidate is dropped, and what remains is again
  well formed.
\<close>

theorem FindMostWorkChain_best:
  assumes "candidates_ok m" "sorted_wrt (\<lambda>a b. CBlockIndexWorkComparator (bm_index m) a b = Inr True) (bm_candidates m)"
  shows "\<exists>r m'. FindMostWorkChain m = Inr (r, m') \<and> candidates_ok m' \<and>
    (\<forall>c \<in> set (bm_candidates m). \<not> blocked (bm_index m) (bm_chain m) c \<longrightarrow> c \<in> set (bm_candidates m')) \<and>
    (case r of None \<Rightarrow> \<forall>c \<in> set (bm_candidates m). blocked (bm_index m) (bm_chain m) c
     | Some p \<Rightarrow> p \<in> set (bm_candidates m) \<and> \<not> blocked (bm_index m) (bm_chain m) p \<and>
         (\<forall>c \<in> set (bm_candidates m). c \<noteq> p \<and> \<not> blocked (bm_index m) (bm_chain m) c \<longrightarrow>
            CBlockIndexWorkComparator (bm_index m) c p = Inr True))"
proof -
  obtain r m' where m': "FindMostWorkChain m = Inr (r, m')" "drops m m'" "candidates_ok m'" "case r of None \<Rightarrow> bm_candidates m' = []
     | Some p \<Rightarrow> bm_candidates m' \<noteq> [] \<and> p = last (bm_candidates m') \<and> \<not> blocked (bm_index m) (bm_chain m) p"
    using most_work_loop_spec [OF assms(1), of "length (bm_candidates m) + 1"] by (auto simp: FindMostWorkChain_def)
  obtain Q where Q: "bm_candidates m' = filter Q (bm_candidates m)"
    "\<forall>q \<in> set (bm_candidates m). \<not> Q q \<longrightarrow> blocked (bm_index m) (bm_chain m) q" using m'(2) by (auto simp: drops_def)
  have sorted: "sorted_wrt (\<lambda>a b. CBlockIndexWorkComparator (bm_index m) a b = Inr True) (bm_candidates m')"
    unfolding Q(1) using assms(2) by (rule sorted_wrt_filter)
  have stay: "c \<in> set (bm_candidates m')" if "c \<in> set (bm_candidates m)" "\<not> blocked (bm_index m) (bm_chain m) c" for c
    using Q that by auto
  show ?thesis
  proof (cases r)
    case None
    then show ?thesis using m' stay by auto
  next
    case (Some p)
    then have "p \<in> set (bm_candidates m')" using m'(4) by auto
    then have "p \<in> set (bm_candidates m)" using Q(1) by simp
    then show ?thesis using m' stay Some sorted_wrt_last [OF sorted] by auto
  qed
qed

text \<open>Two blocks on top of block 1, the better of which has failed.\<close>

definition fork_index :: block_store where
  "fork_index p = map_option (\<lambda>b. b\<lparr> nStatus := (if p = 2 then BLOCK_HAVE_DATA OR BLOCK_FAILED_VALID else BLOCK_HAVE_DATA), nChainTx := 1 \<rparr>) (sample_index p)"

definition fork_manager :: block_manager where
  "fork_manager = \<lparr> bm_index = fork_index, bm_hashes = (\<lambda>_. None), bm_best_header = None, bm_best_invalid = None, bm_failed = [2],
     bm_dirty = [], bm_unlinked = [], bm_candidates = [3, 2], bm_chain = [Some 0, Some 1], bm_sequence = 1 \<rparr>"

lemma fork_index_wf: "index_wf fork_index"
proof -
  have "same_tree sample_index fork_index"
    by (simp add: same_tree_def fork_index_def option.map_comp o_def)
  then show ?thesis using same_tree_index_wf sample_index_wf by blast
qed

lemma fork_candidates: "candidates_ok fork_manager"
proof -
  have dl: "HaveTxsDownloaded b" if "fork_index a = Some b" for a b using that by (auto simp: fork_index_def HaveTxsDownloaded_def)
  have n: "fork_index 1 = Some ((sample_node (Some 0) (Some 0) 1 1600)\<lparr> nStatus := BLOCK_HAVE_DATA, nChainTx := 1 \<rparr>)"
    by (simp add: fork_index_def sample_index_def sample_trunk_def)
  have "ancestors_of fork_index 1 1 = [Some 0, Some 1]" by code_simp
  then have "chain_wf fork_index [Some 0, Some 1]" using chain_wf_ancestors [OF fork_index_wf n] by (simp add: sample_node_def)
  moreover have "downloaded fork_index [Some 0, Some 1] c" for c using dl unfolding downloaded_def by blast
  moreover have "fork_index 2 \<noteq> None" "fork_index 3 \<noteq> None" by (simp_all add: fork_index_def sample_index_def)
  ultimately show ?thesis using fork_index_wf by (simp add: candidates_ok_def fork_manager_def invalid_known_def)
qed

theorem FindMostWorkChain_best_witness:
  "\<exists>m'. FindMostWorkChain fork_manager = Inr (Some 3, m') \<and> \<not> blocked (bm_index fork_manager) (bm_chain fork_manager) 3"
proof -
  have "map_sum id fst (FindMostWorkChain fork_manager) = Inr (Some 3)" by code_simp
  then obtain m' where m': "FindMostWorkChain fork_manager = Inr (Some 3, m')" by (cases "FindMostWorkChain fork_manager") auto
  have "CBlockIndexWorkComparator (bm_index fork_manager) 3 2 = Inr True" by code_simp
  then have "sorted_wrt (\<lambda>a b. CBlockIndexWorkComparator (bm_index fork_manager) a b = Inr True) (bm_candidates fork_manager)"
    by (simp add: fork_manager_def)
  from FindMostWorkChain_best [OF fork_candidates this] show ?thesis using m' by auto
qed

end
