(* ===== verification/Activation.thy ===== *)
theory Activation
  imports ChainSelection
begin

text \<open>
  Moving the tip of the active chain, \<open>ConnectTip\<close>, \<open>DisconnectTip\<close> and \<open>ActivateBestChainStep\<close> of
  \<open>src/src/validation.cpp\<close>: a block is connected or disconnected on a cache over the coins of the tip,
  which is flushed into them. Writing to disk when the caches grow, the locks of pruning, the memory pool,
  warnings and the signals to other parts of the node are left out; so are the coins that a failed attempt loads
  into the cache of the tip, which change nothing of what it answers.
\<close>

section \<open>Definitions: the tip\<close>

record node =
  nd_manager :: block_manager
  nd_validation :: chain_state
  nd_coins :: coins_cache
  ReadBlockFromDisk :: "bid \<Rightarrow> CBlock option"

text \<open>What block validation sees of the node.\<close>

definition validation_of :: "node \<Rightarrow> chain_state" where
  "validation_of nd =
     (let m = nd_manager nd; cs = (nd_validation nd)\<lparr> cs_index := bm_index m, m_block_index := bm_hashes m \<rparr>
      in case bm_best_header m of None \<Rightarrow> cs | Some h \<Rightarrow> cs\<lparr> m_best_header := h \<rparr>)"

definition child_view :: "coins_cache \<Rightarrow> coins_cache" where
  "child_view v = (ViewCache (fst v) (snd v), \<lparr> hashBlock = null_hash, cacheCoins = [] \<rparr>)"

definition commit_view :: "coins_cache \<Rightarrow> fault + coins_cache" where
  "commit_view v = sum_bind (Flush v) (\<lambda>(base, _). case base of ViewCache b c \<Rightarrow> Inr (b, c) | ViewDB db \<Rightarrow> Inl BadPointer)"

text \<open>The block to connect, from memory with its flag or from disk.\<close>

definition block_to_connect :: "node \<Rightarrow> bid \<Rightarrow> (CBlock \<times> bool) option \<Rightarrow> (CBlock \<times> bool) option" where
  "block_to_connect nd p pblock =
     (case pblock of Some x \<Rightarrow> Some x | None \<Rightarrow> map_option (\<lambda>block. (block, False)) (ReadBlockFromDisk nd p))"

definition move_tip :: "node \<Rightarrow> block_store \<Rightarrow> bid \<Rightarrow> coins_cache \<Rightarrow> fault + node" where
  "move_tip nd st p view =
     sum_bind (commit_view view) (\<lambda>tip.
     sum_bind (SetTip st (bm_chain (nd_manager nd)) p) (\<lambda>vChain.
       Inr (nd\<lparr> nd_manager := (nd_manager nd)\<lparr> bm_index := st, bm_chain := vChain \<rparr>, nd_coins := tip \<rparr>)))"

definition connected_tip :: "node \<Rightarrow> bid \<Rightarrow> chain_state \<Rightarrow> coins_cache \<Rightarrow> fault + node" where
  "connected_tip nd p cs view =
     sum_bind (move_tip nd (cs_index cs) p view) (\<lambda>nd.
       Inr (nd\<lparr> nd_manager := (nd_manager nd)\<lparr> bm_dirty := List.insert p (bm_dirty (nd_manager nd)) \<rparr>, nd_validation := cs \<rparr>))"

definition ConnectTip :: "node \<Rightarrow> bid \<Rightarrow> (CBlock \<times> bool) option \<Rightarrow> node \<times> (block_stop + unit)" where
  "ConnectTip nd p pblock =
     (case deref (bm_index (nd_manager nd)) p of
        Inl f \<Rightarrow> (nd, Inl (Halt f))
      | Inr b \<Rightarrow>
          if pprev b \<noteq> Tip (bm_chain (nd_manager nd)) then (nd, Inl (Halt AssertFailed))
          else case block_to_connect nd p pblock of
            None \<Rightarrow> (nd, Inl (NodeError ''Failed to read block''))
          | Some (block, fChecked) \<Rightarrow>
              (case ConnectBlock (validation_of nd) block fChecked p (child_view (nd_coins nd)) False of
                 Inl (Invalid r reason) \<Rightarrow>
                   (case InvalidBlockFound (nd_manager nd) p r of
                      Inl f \<Rightarrow> (nd, Inl (Halt f))
                    | Inr m \<Rightarrow> (nd\<lparr> nd_manager := m \<rparr>, Inl (Invalid r reason)))
               | Inl e \<Rightarrow> (nd, Inl e)
               | Inr (cs, view) \<Rightarrow>
                   (case connected_tip nd p cs view of Inl f \<Rightarrow> (nd, Inl (Halt f)) | Inr nd \<Rightarrow> (nd, Inr ()))))"

definition DisconnectTip :: "node \<Rightarrow> block_stop + node" where
  "DisconnectTip nd =
     (case Tip (bm_chain (nd_manager nd)) of
        None \<Rightarrow> Inl (Halt AssertFailed)
      | Some pindexDelete \<Rightarrow>
          sum_bind (or_halt (deref (bm_index (nd_manager nd)) pindexDelete)) (\<lambda>b.
          case pprev b of
            None \<Rightarrow> Inl (Halt AssertFailed)
          | Some q \<Rightarrow>
              (case ReadBlockFromDisk nd pindexDelete of
                 None \<Rightarrow> Inl (NodeError ''DisconnectTip(): Failed to read block'')
               | Some block \<Rightarrow>
                   let (best, view) = GetBestBlock (child_view (nd_coins nd)) in
                   sum_bind (or_halt (GetBlockHash b)) (\<lambda>h.
                   if best \<noteq> h then Inl (Halt AssertFailed)
                   else sum_bind (or_halt (DisconnectBlock (validation_of nd) block pindexDelete view)) (\<lambda>(res, view).
                     if res \<noteq> DISCONNECT_OK then Inl (NodeError ''DisconnectTip(): DisconnectBlock failed'')
                     else or_halt (move_tip nd (bm_index (nd_manager nd)) q view))))))"

section \<open>Definitions: towards the best chain\<close>

text \<open>
  The loops have fuel; the value \<open>None\<close> says that it ran out, so that a theorem that they return is one that it
  is enough.
\<close>

fun disconnect_to :: "nat \<Rightarrow> bid option \<Rightarrow> node \<Rightarrow> (node \<times> (block_stop + unit)) option" where
  "disconnect_to 0 pindexFork nd = None"
| "disconnect_to (Suc n) pindexFork nd =
     (if Tip (bm_chain (nd_manager nd)) = None \<or> Tip (bm_chain (nd_manager nd)) = pindexFork then Some (nd, Inr ())
      else case DisconnectTip nd of
        Inl (Halt f) \<Rightarrow> Some (nd, Inl (Halt f))
      | Inl _ \<Rightarrow> Some (nd, Inl (NodeError ''Failed to disconnect block; see debug.log for details''))
      | Inr nd \<Rightarrow> disconnect_to n pindexFork nd)"

text \<open>The blocks from \<open>p\<close> down to the one above height \<open>h\<close>.\<close>

fun blocks_above :: "nat \<Rightarrow> block_store \<Rightarrow> bid option \<Rightarrow> int \<Rightarrow> (fault + bid list) option" where
  "blocks_above 0 st p h = None"
| "blocks_above (Suc n) st p h =
     (case p of None \<Rightarrow> Some (Inr [])
      | Some pindexIter \<Rightarrow>
          (case deref st pindexIter of
             Inl f \<Rightarrow> Some (Inl f)
           | Inr b \<Rightarrow> if nHeight b = h then Some (Inr [])
               else map_option (\<lambda>r. sum_bind r (\<lambda>ps. Inr (pindexIter # ps))) (blocks_above n st (pprev b) h)))"

datatype chunk_result = KeepGoing | BetterTip | FoundInvalid

definition better_tip :: "base_uint option \<Rightarrow> block_manager \<Rightarrow> fault + bool" where
  "better_tip oldWork m =
     (case oldWork of None \<Rightarrow> Inr True
      | Some w \<Rightarrow> (case Tip (bm_chain m) of None \<Rightarrow> Inl BadPointer
          | Some t \<Rightarrow> sum_bind (deref (bm_index m) t) (\<lambda>b. Inr (CompareTo (nChainWork b) w > 0))))"

fun connect_chunk :: "base_uint option \<Rightarrow> bid \<Rightarrow> (CBlock \<times> bool) option \<Rightarrow> bid \<Rightarrow> bid list \<Rightarrow> node \<Rightarrow> node \<times> (block_stop + chunk_result)" where
  "connect_chunk oldWork pindexMostWork pblock front [] nd = (nd, Inr KeepGoing)"
| "connect_chunk oldWork pindexMostWork pblock front (p # ps) nd =
     (case ConnectTip nd p (if p = pindexMostWork then pblock else None) of
        (nd, Inl (Invalid r reason)) \<Rightarrow>
          (case if r \<noteq> BLOCK_MUTATED then InvalidChainFound (nd_manager nd) front else Inr (nd_manager nd) of
             Inl f \<Rightarrow> (nd, Inl (Halt f))
           | Inr m \<Rightarrow> (nd\<lparr> nd_manager := m \<rparr>, Inr FoundInvalid))
      | (nd, Inl e) \<Rightarrow> (nd, Inl e)
      | (nd, Inr _) \<Rightarrow>
          (case sum_bind (PruneBlockIndexCandidates (nd_manager nd)) (\<lambda>m. sum_bind (better_tip oldWork m) (\<lambda>better. Inr (m, better))) of
             Inl f \<Rightarrow> (nd, Inl (Halt f))
           | Inr (m, better) \<Rightarrow>
               if better then (nd\<lparr> nd_manager := m \<rparr>, Inr BetterTip)
               else connect_chunk oldWork pindexMostWork pblock front ps (nd\<lparr> nd_manager := m \<rparr>)))"

definition next_chunk :: "block_store \<Rightarrow> bid \<Rightarrow> int \<Rightarrow> int \<Rightarrow> (fault + bid list) option" where
  "next_chunk st pindexMostWork h nTargetHeight =
     (case GetAncestor st pindexMostWork nTargetHeight of
        Inl f \<Rightarrow> Some (Inl f)
      | Inr p \<Rightarrow> blocks_above (nat (nTargetHeight - h) + 1) st p h)"

text \<open>At most 32 blocks at a time; the result is \<open>fInvalidFound\<close>.\<close>

fun connect_up ::
    "nat \<Rightarrow> base_uint option \<Rightarrow> bid \<Rightarrow> (CBlock \<times> bool) option \<Rightarrow> int \<Rightarrow> int \<Rightarrow> node \<Rightarrow> (node \<times> (block_stop + bool)) option" where
  "connect_up 0 oldWork pindexMostWork pblock goal h nd = None"
| "connect_up (Suc n) oldWork pindexMostWork pblock goal h nd =
     (if h = goal then Some (nd, Inr False)
      else let nTargetHeight = min (h + 32) goal in
        case next_chunk (bm_index (nd_manager nd)) pindexMostWork h nTargetHeight of
          None \<Rightarrow> None
        | Some (Inl f) \<Rightarrow> Some (nd, Inl (Halt f))
        | Some (Inr vpindexToConnect) \<Rightarrow>
            (case connect_chunk oldWork pindexMostWork pblock (hd vpindexToConnect) (rev vpindexToConnect) nd of
               (nd, Inl e) \<Rightarrow> Some (nd, Inl e)
             | (nd, Inr KeepGoing) \<Rightarrow> connect_up n oldWork pindexMostWork pblock goal nTargetHeight nd
             | (nd, Inr BetterTip) \<Rightarrow> Some (nd, Inr False)
             | (nd, Inr FoundInvalid) \<Rightarrow> Some (nd, Inr True)))"

text \<open>The work of the old tip, the fork and its height, and the height of the goal.\<close>

definition step_plan :: "block_manager \<Rightarrow> bid \<Rightarrow> fault + base_uint option \<times> bid option \<times> int \<times> int" where
  "step_plan m pindexMostWork =
     sum_bind (case Tip (bm_chain m) of None \<Rightarrow> Inr None
               | Some t \<Rightarrow> sum_bind (deref (bm_index m) t) (\<lambda>b. Inr (Some (nChainWork b)))) (\<lambda>oldWork.
     sum_bind (FindFork (bm_index m) (bm_chain m) (Some pindexMostWork)) (\<lambda>pindexFork.
     sum_bind (case pindexFork of None \<Rightarrow> Inr (- 1) | Some f \<Rightarrow> sum_bind (deref (bm_index m) f) (\<lambda>b. Inr (nHeight b))) (\<lambda>h.
     sum_bind (deref (bm_index m) pindexMostWork) (\<lambda>b. Inr (oldWork, pindexFork, h, nHeight b)))))"

definition ActivateBestChainStep :: "node \<Rightarrow> bid \<Rightarrow> (CBlock \<times> bool) option \<Rightarrow> (node \<times> (block_stop + bool)) option" where
  "ActivateBestChainStep nd pindexMostWork pblock =
     (case step_plan (nd_manager nd) pindexMostWork of
        Inl f \<Rightarrow> Some (nd, Inl (Halt f))
      | Inr (oldWork, pindexFork, h, goal) \<Rightarrow>
          (case disconnect_to (length (bm_chain (nd_manager nd)) + 1) pindexFork nd of
             None \<Rightarrow> None
           | Some (nd, Inl e) \<Rightarrow> Some (nd, Inl e)
           | Some (nd, Inr _) \<Rightarrow> connect_up (nat (goal - h) + 1) oldWork pindexMostWork pblock goal h nd))"

section \<open>The view below stays a cache\<close>

lemma reads_layered: "reads v w \<Longrightarrow> layered (fst w) = layered (fst v)"
  by (simp add: reads_def)

lemma FetchCoin_below: "FetchCoin base c k = (it, w) \<Longrightarrow> layered (fst w) = layered base"
  using FetchCoin_layered by (cases w) auto

lemma cache_ops_layered:
  "AccessCoin v k = (c, w) \<Longrightarrow> layered (fst w) = layered (fst v)" "cache_HaveCoin v k = (b, w) \<Longrightarrow> layered (fst w) = layered (fst v)"
  "SpendCoin v k = (d, w) \<Longrightarrow> layered (fst w) = layered (fst v)" "AddCoin v k new ow = Inr w \<Longrightarrow> layered (fst w) = layered (fst v)"
proof -
  obtain it u where f: "FetchCoin (fst v) (snd v) k = (it, u)" by (metis surj_pair)
  note l = FetchCoin_below [OF f]
  show "AccessCoin v k = (c, w) \<Longrightarrow> layered (fst w) = layered (fst v)" "cache_HaveCoin v k = (b, w) \<Longrightarrow> layered (fst w) = layered (fst v)"
    "SpendCoin v k = (d, w) \<Longrightarrow> layered (fst w) = layered (fst v)"
    using f l by (cases u; cases it; auto simp: AccessCoin_def cache_HaveCoin_def SpendCoin_def)+
  show "AddCoin v k new ow = Inr w \<Longrightarrow> layered (fst w) = layered (fst v)" by (auto simp: AddCoin_def Let_def split: if_splits)
qed

lemma spend_inputs_layered: "spend_inputs v ins = Inr (undo, w) \<Longrightarrow> layered (fst w) = layered (fst v)"
proof (induction ins arbitrary: v undo)
  case (Cons i ins)
  obtain b c u where s: "SpendCoin v (prevout i) = ((b, c), u)" by (metis surj_pair)
  obtain undo' where "spend_inputs u ins = Inr (undo', w)" using Cons.prems s by (auto simp: sum_bind_Inr_iff split: if_splits)
  then show ?case using Cons.IH [of u undo'] cache_ops_layered(3) [OF s] by simp
qed simp

lemma add_outputs_layered: "add_outputs v txid h cb False k outs = Inr w \<Longrightarrow> layered (fst w) = layered (fst v)"
proof (induction outs arbitrary: v k)
  case (Cons out outs)
  obtain u where u: "AddCoin v \<lparr> op_hash = txid, op_n = of_nat k \<rparr> (make_Coin out h cb) cb = Inr u" "add_outputs u txid h cb False (k + 1) outs = Inr w"
    using Cons.prems by (auto simp: sum_bind_Inr_iff)
  then show ?case using Cons.IH [OF u(2)] cache_ops_layered(4) [OF u(1)] by simp
qed simp

lemma UpdateCoins_layered:
  assumes "UpdateCoins tx v h = Inr (undo, w)"
  shows "layered (fst w) = layered (fst v)"
proof -
  obtain u where u: "(if \<not> IsCoinBase tx then spend_inputs v (vin tx) else Inr ([], v)) = Inr (undo, u)"
    "add_outputs u (tx_GetHash tx) h (IsCoinBase tx) False 0 (vout tx) = Inr w"
    using assms by (auto simp: UpdateCoins_def AddCoins_def sum_bind_Inr_iff)
  then show ?thesis using add_outputs_layered [OF u(2)] spend_inputs_layered [of v "vin tx" undo u] by (auto split: if_splits)
qed

lemma connect_tx_layered:
  assumes ok: "cache_ok (ct_view ct)" "CheckTransaction tx = Inr ()" and c: "connect_tx ce first tx ct = Inr ct'"
  shows "layered (fst (ct_view ct')) = layered (fst (ct_view ct))"
proof -
  obtain a b d where s: "connect_amounts ce tx ct = Inr a" "connect_sigops ce tx a = Inr b" "connect_scripts ce tx b = Inr d"
    "connect_coins ce first tx d = Inr ct'" using c by (auto simp: connect_tx_def sum_bind_Inr_iff)
  note A = connect_amounts_success(1) [OF ok s(1)]
  note B = connect_sigops_success [OF reads_ok [OF A] s(2), THEN conjunct1]
  note D = connect_scripts_success [OF reads_ok [OF B] s(3), THEN conjunct1]
  obtain undo w where w: "UpdateCoins tx (ct_view d) (ce_nHeight ce) = Inr (undo, w)" "ct_view ct' = w"
    using s(4) by (auto simp: connect_coins_def sum_bind_Inr_iff)
  have "layered (fst (ct_view ct')) = layered (fst (ct_view d))" using UpdateCoins_layered [OF w(1)] w(2) by simp
  then show ?thesis using A B D by (simp add: reads_layered)
qed

lemma connect_loop_layered:
  assumes "connect_loop ce first txs ct = Inr ct'" "cache_ok (ct_view ct)"
    and "\<forall>tx \<in> set txs. CheckTransaction tx = Inr () \<and> (\<forall>k \<in> set (tx_outpoints tx). known (ct_view ct) k)"
  shows "layered (fst (ct_view ct')) = layered (fst (ct_view ct))"
  using assms
proof (induction txs arbitrary: first ct)
  case (Cons tx txs)
  obtain d where d: "connect_tx ce first tx ct = Inr d" "connect_loop ce False txs d = Inr ct'"
    using Cons.prems(1) by (auto simp: sum_bind_Inr_iff)
  have tx: "CheckTransaction tx = Inr ()" "\<forall>k \<in> set (tx_outpoints tx). known (ct_view ct) k" using Cons.prems(3) by simp_all
  note s = connect_tx_success [OF Cons.prems(2) tx d(1)]
  have "\<forall>tx \<in> set txs. CheckTransaction tx = Inr () \<and> (\<forall>k \<in> set (tx_outpoints tx). known (ct_view d) k)"
    using Cons.prems(3) s(4) by auto
  from Cons.IH [OF d(2) s(2) this] show ?case using connect_tx_layered [OF Cons.prems(2) tx(1) d(1)] by simp
qed simp

lemma by_txid_loop_layered: "by_txid_loop n v txid k = (c, w) \<Longrightarrow> layered (fst w) = layered (fst v)"
proof (induction n arbitrary: v k)
  case (Suc n)
  obtain a u where a: "AccessCoin v \<lparr> op_hash = txid, op_n = of_nat k \<rparr> = (a, u)" by (metis surj_pair)
  then show ?case using Suc.prems Suc.IH [of u "k + 1"] cache_ops_layered(1) [OF a] by (auto split: if_splits)
qed simp

lemma ApplyTxInUndo_layered:
  assumes "ApplyTxInUndo undo v k = Inr (r, w)"
  shows "layered (fst w) = layered (fst v)"
proof -
  obtain b u where u: "cache_HaveCoin v k = (b, u)" by (metis surj_pair)
  obtain a x where x: "AccessByTxid u (op_hash k) = (a, x)" by (metis surj_pair)
  have l: "layered (fst u) = layered (fst v)" "layered (fst x) = layered (fst u)"
    using cache_ops_layered(2) [OF u] by_txid_loop_layered x by (auto simp: AccessByTxid_def)
  have add: "AddCoin y k d ow = Inr w \<Longrightarrow> layered (fst w) = layered (fst y)" for y d ow by (rule cache_ops_layered(4))
  show ?thesis using assms u x l add [of u] add [of x]
    by (auto simp: ApplyTxInUndo_def Let_def sum_bind_Inr_iff split: if_splits)
qed

lemma remove_outputs_layered: "remove_outputs v cl txid h cb k outs = (cl', w) \<Longrightarrow> layered (fst w) = layered (fst v)"
proof (induction outs arbitrary: v cl k)
  case (Cons out outs)
  obtain s c u where u: "SpendCoin v \<lparr> op_hash = txid, op_n = of_nat k \<rparr> = ((s, c), u)" by (metis surj_pair)
  show ?case
  proof (cases "IsUnspendable (scriptPubKey out)")
    case True
    then show ?thesis using Cons.prems Cons.IH [of v cl "k + 1"] by simp
  next
    case False
    then obtain cl1 where "remove_outputs u cl1 txid h cb (k + 1) outs = (cl', w)" using Cons.prems u by (auto simp: Let_def)
    then show ?thesis using Cons.IH [of u cl1 "k + 1"] cache_ops_layered(3) [OF u] by simp
  qed
qed simp

lemma restore_inputs_layered: "restore_inputs v cl ins = Inr (Some (cl', w)) \<Longrightarrow> layered (fst w) = layered (fst v)"
proof (induction ins arbitrary: v cl)
  case (Cons x ins)
  obtain i c where x: "x = (i, c)" by (cases x)
  obtain r u cl1 where u: "ApplyTxInUndo c v (prevout i) = Inr (r, u)" "restore_inputs u cl1 ins = Inr (Some (cl', w))"
    using Cons.prems x by (auto simp: sum_bind_Inr_iff split: if_splits)
  then show ?case using Cons.IH [OF u(2)] ApplyTxInUndo_layered [OF u(1)] by simp
qed simp

lemma disconnect_loop_layered: "disconnect_loop v cl h txs = Inr (Some (cl', w)) \<Longrightarrow> layered (fst w) = layered (fst v)"
proof (induction txs arbitrary: v cl)
  case (Cons x txs)
  obtain tx undo where x: "x = (tx, undo)" by (cases x)
  obtain cl1 u where u: "remove_outputs v cl (tx_GetHash tx) h (IsCoinBase tx) 0 (vout tx) = (cl1, u)" by (metis surj_pair)
  obtain cl2 y where y: "layered (fst y) = layered (fst u)" "disconnect_loop y cl2 h txs = Inr (Some (cl', w))"
  proof (cases undo)
    case None
    then show ?thesis using that [of u cl1] Cons.prems x u by simp
  next
    case (Some ps)
    then obtain cl2 y where "restore_inputs u cl1 (rev (zip (vin tx) ps)) = Inr (Some (cl2, y))" "disconnect_loop y cl2 h txs = Inr (Some (cl', w))"
      using Cons.prems x u by (auto simp: sum_bind_Inr_iff split: option.splits if_splits)
    then show ?thesis using that [of y cl2] restore_inputs_layered by blast
  qed
  show ?case using Cons.IH [OF y(2)] y(1) remove_outputs_layered [OF u] by simp
qed simp

lemma DisconnectBlock_layered:
  assumes "DisconnectBlock cs block p v = Inr (r, w)" "r = DISCONNECT_OK"
  shows "layered (fst w) = layered (fst v)"
proof -
  obtain h undo cl x y where "disconnect_loop v True h undo = Inr (Some (cl, x))" "w = SetBestBlock x y"
    using assms unfolding DisconnectBlock_def sum_bind_def
    by (auto split: sum.split_asm option.split_asm if_split_asm prod.split_asm)
  then show ?thesis using disconnect_loop_layered by (simp add: SetBestBlock_def)
qed

section \<open>Views over the coins of the tip\<close>

lemma child_view_law:
  assumes "cache_ok v"
  shows "cache_ok (child_view v)" "coins (child_view v) = coins v" "layered (fst (child_view v))"
  using empty_cache [OF assms, of "\<lparr> hashBlock = null_hash, cacheCoins = [] \<rparr>"] by (simp_all add: child_view_def)

lemma commit_view_law:
  assumes "cache_ok v" "layered (fst v)"
  shows "\<exists>tip. commit_view v = Inr tip \<and> cache_ok tip \<and> coins tip = coins v \<and> hashBlock (snd tip) = hashBlock (snd v)"
proof -
  obtain b c where v: "fst v = ViewCache b c" using assms(2) by (cases "fst v") auto
  obtain base where f: "Flush v = Inr (base, (snd v)\<lparr> cacheCoins := [] \<rparr>)" "view_ok base" "coins_of base = coins v"
    using Flush_law [OF assms(1)] v by auto
  then obtain ours where "base = ViewCache b (c\<lparr> cacheCoins := ours, hashBlock := hashBlock (snd v) \<rparr>)"
    using v by (auto simp: Flush_def sum_bind_Inr_iff)
  then show ?thesis using f by (simp add: commit_view_def)
qed

lemma child_best:
  assumes "cache_ok v" "hashBlock (snd v) \<noteq> null_hash"
  shows "\<exists>w. GetBestBlock (child_view v) = (hashBlock (snd v), w) \<and> cache_ok w \<and> coins w = coins v \<and> layered (fst w)"
proof -
  obtain h w where w: "GetBestBlock (child_view v) = (h, w)" by (metis surj_pair)
  have "h = hashBlock (snd v)" using w assms(2) by (auto simp: GetBestBlock_def child_view_def)
  then show ?thesis using w GetBestBlock_reads [OF child_view_law(1) [OF assms(1)] w] child_view_law [OF assms(1)] by (simp add: reads_def)
qed

lemma chain_of_tip:
  assumes "chain_wf st vc" "Tip vc = Some q" "st q = Some c"
  shows "vc = ancestors_of st q (nHeight c)"
proof -
  let ?i = "length vc - 1"
  have ne: "vc \<noteq> []" "vc ! ?i = Some q" using assms(2) by (auto simp: Tip_def split: if_splits)
  have i: "?i < length vc" "chain_closed st vc" using ne assms(1) by (simp_all add: chain_wf_def)
  have "block_height st q = Some (int ?i)" using chain_closedD(1) [OF i(2,1) ne(2)] .
  moreover have "nat (int ?i + 1) = length vc" using ne(1) by (cases vc) simp_all
  ultimately have "nat (nHeight c + 1) = length vc" using assms(3) by (simp add: block_height_def)
  then show ?thesis using chain_closedD(2) [OF i(2,1) ne(2)] by (intro nth_equalityI) (auto simp: ancestors_of_def)
qed

lemma validation_of_simps [simp]: "cs_index (validation_of nd) = bm_index (nd_manager nd)" "cs_params (validation_of nd) = cs_params (nd_validation nd)"
  "UndoReadFromDisk (validation_of nd) = UndoReadFromDisk (nd_validation nd)"
  by (simp_all add: validation_of_def Let_def split: option.split)

lemma move_tip_law:
  assumes "index_wf st" "chain_closed st (bm_chain (nd_manager nd))" "st p = Some b" "cache_ok view" "layered (fst view)"
  shows "\<exists>tip. move_tip nd st p view =
      Inr (nd\<lparr> nd_manager := (nd_manager nd)\<lparr> bm_index := st, bm_chain := ancestors_of st p (nHeight b) \<rparr>, nd_coins := tip \<rparr>) \<and>
    cache_ok tip \<and> coins tip = coins view \<and> hashBlock (snd tip) = hashBlock (snd view)"
proof -
  obtain tip where t: "commit_view view = Inr tip" "cache_ok tip" "coins tip = coins view" "hashBlock (snd tip) = hashBlock (snd view)"
    using commit_view_law [OF assms(4,5)] by blast
  show ?thesis by (rule exI [of _ tip], use t SetTip_value [OF assms(1-3)] in \<open>simp add: move_tip_def\<close>)
qed

lemma same_tree_ancestors: "same_tree st st' \<Longrightarrow> ancestors_of st' p h = ancestors_of st p h"
  by (simp add: ancestors_of_def same_tree_prev_at)

text \<open>What connecting a block does to the index and to the view, besides the coins.\<close>

lemma connect_finish_entry:
  assumes "connect_finish cs p b ct = Inr (cs', w)"
  shows "\<exists>b' h. cs_index cs' = (cs_index cs)(p \<mapsto> b') \<and> tree_part b' = tree_part b \<and> phashBlock b = Some h \<and> w = SetBestBlock (ct_view ct) h"
  using assms by (auto simp: connect_finish_def sum_bind_Inr_iff WriteUndoDataForBlock_def RaiseValidity_def GetBlockHash_def Let_def tree_part_def
      split: if_splits option.splits)

lemma ConnectBlock_view:
  assumes ok: "cache_ok view" "sound (coins view)" "fresh_outputs block (coins view)" "fChecked \<Longrightarrow> block_checked cs block"
    and b: "cs_index cs p = Some b" "block_hash block \<noteq> hashGenesisBlock (cs_params cs)"
    and c: "ConnectBlock cs block fChecked p view False = Inr (cs', view')"
  shows "same_tree (cs_index cs) (cs_index cs') \<and> phashBlock b = Some (hashBlock (snd view')) \<and> layered (fst view') = layered (fst view)"
proof -
  from ConnectBlock_success [OF ok(1) b(1) b(2) c] obtain u ct fs flags where
    s: "check_before_connect cs block fChecked False = Inr ()" "reads view u"
    "connect_loop (connect_env_of cs p b fs False flags) True (vtx block) (connect_start cs u) = Inr ct"
    "connect_reward cs block (nHeight b) (ct_nFees ct) = Inr ()"
    "if False then view' = ct_view ct else connect_finish cs p b ct = Inr (cs', view')" .
  note f = check_before_connect_facts [OF s(1) ok(4)]
  have kn: "known u k" if "tx \<in> set (vtx block)" "k \<in> set (tx_outpoints tx)" for tx k
    using absent_known [of view k] ok(3) that s(2) by (auto simp: fresh_outputs_def reads_def)
  have "layered (fst (ct_view ct)) = layered (fst view)"
    using connect_loop_layered [OF s(3)] f(4) kn reads_ok [OF s(2)] reads_layered [OF s(2)] by (simp add: connect_start_def)
  moreover obtain b' h where "cs_index cs' = (cs_index cs)(p \<mapsto> b')" "tree_part b' = tree_part b" "phashBlock b = Some h" "view' = SetBestBlock (ct_view ct) h"
    using connect_finish_entry [OF s(5) [unfolded if_False]] by blast
  ultimately show ?thesis using same_tree_upd [of "cs_index cs" p b] b(1) by (simp add: SetBestBlock_def)
qed

section \<open>The tip and its coins\<close>

text \<open>The coins belong to the tip: its hash is the best block of the coins.\<close>

definition tip_ok :: "node \<Rightarrow> bool" where
  "tip_ok nd \<longleftrightarrow> index_wf (bm_index (nd_manager nd)) \<and> chain_wf (bm_index (nd_manager nd)) (bm_chain (nd_manager nd)) \<and>
     cache_ok (nd_coins nd) \<and> (\<exists>t c. Tip (bm_chain (nd_manager nd)) = Some t \<and> bm_index (nd_manager nd) t = Some c \<and>
       phashBlock c = Some (hashBlock (snd (nd_coins nd))))"

lemma ConnectTip_steps:
  assumes "ConnectTip nd p pblock = (nd', Inr ())" "block_to_connect nd p pblock = Some (block, fChecked)"
  obtains b cs view where "bm_index (nd_manager nd) p = Some b" "pprev b = Tip (bm_chain (nd_manager nd))"
    "ConnectBlock (validation_of nd) block fChecked p (child_view (nd_coins nd)) False = Inr (cs, view)" "connected_tip nd p cs view = Inr nd'"
  using assms by (auto simp: ConnectTip_def deref_def split: option.splits if_splits sum.splits stop.splits prod.splits)

lemma Tip_ancestors: "st p = Some b \<Longrightarrow> 0 \<le> nHeight b \<Longrightarrow> Tip (ancestors_of st p (nHeight b)) = Some p"
  by (simp add: Tip_def ancestors_of_def)

lemma connected_tip_law:
  assumes "index_wf (cs_index cs)" "chain_closed (cs_index cs) (bm_chain (nd_manager nd))" "cs_index cs p = Some b" "cache_ok view" "layered (fst view)"
    and c: "connected_tip nd p cs view = Inr nd'"
  shows "bm_index (nd_manager nd') = cs_index cs \<and> bm_chain (nd_manager nd') = ancestors_of (cs_index cs) p (nHeight b) \<and>
    cache_ok (nd_coins nd') \<and> coins (nd_coins nd') = coins view \<and> hashBlock (snd (nd_coins nd')) = hashBlock (snd view)"
proof -
  obtain tip where "move_tip nd (cs_index cs) p view =
      Inr (nd\<lparr> nd_manager := (nd_manager nd)\<lparr> bm_index := cs_index cs, bm_chain := ancestors_of (cs_index cs) p (nHeight b) \<rparr>, nd_coins := tip \<rparr>)"
    "cache_ok tip" "coins tip = coins view" "hashBlock (snd tip) = hashBlock (snd view)"
    using move_tip_law [OF assms(1-5)] by blast
  then show ?thesis using c by (auto simp: connected_tip_def)
qed

lemma DisconnectTip_step:
  assumes "tip_ok nd" and t: "Tip (bm_chain (nd_manager nd)) = Some p" "bm_index (nd_manager nd) p = Some b"
    and q: "pprev b = Some q" "bm_index (nd_manager nd) q = Some c" "hashBlock (snd (nd_coins nd)) \<noteq> null_hash"
    and r: "ReadBlockFromDisk nd p = Some block"
    and d: "\<And>v. cache_ok v \<Longrightarrow> coins v = coins (nd_coins nd) \<Longrightarrow>
      \<exists>w. DisconnectBlock (validation_of nd) block p v = Inr (DISCONNECT_OK, w) \<and> cache_ok w \<and> coins w = C \<and> hashBlock (snd w) = h"
  shows "\<exists>nd'. DisconnectTip nd = Inr nd' \<and> bm_index (nd_manager nd') = bm_index (nd_manager nd) \<and>
    bm_chain (nd_manager nd') = ancestors_of (bm_index (nd_manager nd)) q (nHeight c) \<and> cache_ok (nd_coins nd') \<and> coins (nd_coins nd') = C \<and>
    hashBlock (snd (nd_coins nd')) = h"
proof -
  let ?st = "bm_index (nd_manager nd)"
  have ok: "index_wf ?st" "chain_closed ?st (bm_chain (nd_manager nd))" "cache_ok (nd_coins nd)" "phashBlock b = Some (hashBlock (snd (nd_coins nd)))"
    using assms(1) t by (auto simp: tip_ok_def chain_wf_def)
  obtain u where u: "GetBestBlock (child_view (nd_coins nd)) = (hashBlock (snd (nd_coins nd)), u)" "cache_ok u" "coins u = coins (nd_coins nd)" "layered (fst u)"
    using child_best [OF ok(3) q(3)] by blast
  obtain w where w: "DisconnectBlock (validation_of nd) block p u = Inr (DISCONNECT_OK, w)" "cache_ok w" "coins w = C" "hashBlock (snd w) = h"
    using d [OF u(2,3)] by blast
  have "layered (fst w)" using DisconnectBlock_layered [OF w(1)] u(4) by simp
  then obtain tip where "move_tip nd ?st q w =
      Inr (nd\<lparr> nd_manager := (nd_manager nd)\<lparr> bm_index := ?st, bm_chain := ancestors_of ?st q (nHeight c) \<rparr>, nd_coins := tip \<rparr>)"
    "cache_ok tip" "coins tip = coins w" "hashBlock (snd tip) = hashBlock (snd w)"
    using move_tip_law [OF ok(1,2) q(2) w(2)] by blast
  then show ?thesis using t q r ok(4) u(1) w by (simp add: DisconnectTip_def deref_def GetBlockHash_def)
qed

lemma ancestors_step:
  assumes "index_wf st" "st p = Some b" "pprev b = Some q" "st q = Some c"
  shows "ancestors_of st p (nHeight b) = ancestors_of st q (nHeight c) @ [Some p]"
proof -
  have h: "nHeight b = nHeight c + 1" "0 \<le> nHeight c" using index_wfD(3) [OF assms(1-3)] index_wfD(1) [OF assms(1,4)] assms(4) by auto
  then have "nat (nHeight b + 1) = Suc (nat (nHeight c + 1))" "int (nat (nHeight c + 1)) = nHeight b" by simp_all
  moreover have "prev_at st p (int i) = prev_at st q (int i)" if "i < nat (nHeight c + 1)" for i
    using prev_at_parent [OF assms(2-4) h(1)] that by simp
  moreover have "prev_at st p (nHeight b) = Some p" using assms(2) h by (intro prev_at_self) simp_all
  ultimately show ?thesis by (simp add: ancestors_of_def)
qed

lemma tip_connection:
  assumes ok: "tip_ok nd" "sound (coins (nd_coins nd))" "fresh_outputs block (coins (nd_coins nd))"
    and blk: "fChecked \<Longrightarrow> block_checked (validation_of nd) block" "block_hash block \<noteq> hashGenesisBlock (cs_params (nd_validation nd))"
    and b: "bm_index (nd_manager nd) p = Some b" "nHeight b < 2 ^ 31" "pprev b = Tip (bm_chain (nd_manager nd))"
    and c: "ConnectBlock (validation_of nd) block fChecked p (child_view (nd_coins nd)) False = Inr (cs, view)"
  shows "cache_ok view" "layered (fst view)" "phashBlock b = Some (hashBlock (snd view))" "same_tree (bm_index (nd_manager nd)) (cs_index cs)"
    "chain_closed (cs_index cs) (bm_chain (nd_manager nd))" "ancestors_of (cs_index cs) p (nHeight b) = bm_chain (nd_manager nd) @ [Some p]"
    "\<exists>undo b'. WriteUndoDataForBlock (validation_of nd) undo b = Inr b' \<and> length undo + 1 = length (vtx block) \<and>
      (\<forall>disk v. cs_index disk = cs_index cs \<and> UndoReadFromDisk disk p = Some undo \<and> cache_ok v \<and> coins v = coins view \<longrightarrow>
        (\<exists>w. DisconnectBlock disk block p v = Inr (DISCONNECT_OK, w) \<and> cache_ok w \<and> coins w = coins (nd_coins nd) \<and>
           hashBlock (snd w) = hashBlock (snd (nd_coins nd))))"
proof -
  let ?st = "bm_index (nd_manager nd)" and ?v = "child_view (nd_coins nd)"
  obtain t d where t: "Tip (bm_chain (nd_manager nd)) = Some t" "?st t = Some d" "phashBlock d = Some (hashBlock (snd (nd_coins nd)))"
    and wf: "index_wf ?st" "chain_wf ?st (bm_chain (nd_manager nd))" "cache_ok (nd_coins nd)" using ok(1) by (auto simp: tip_ok_def)
  have hb: "nHeight b = nHeight d + 1" "0 \<le> nHeight d" using index_wfD(3) [OF wf(1) b(1)] b(3) t index_wfD(1) [OF wf(1) t(2)] by auto
  then have tp: "t \<noteq> p" using t(2) b(1) by auto
  note v = child_view_law [OF wf(3)]
  have A: "sound (coins ?v)" "fresh_outputs block (coins ?v)" using ok(2,3) v(2) by simp_all
  have B: "cs_index (validation_of nd) p = Some b" "block_hash block \<noteq> hashGenesisBlock (cs_params (validation_of nd))" "0 < nHeight b"
    "cs_index (validation_of nd) t = Some d" "pprev b = Some t" using b blk hb t by simp_all
  note cd = connect_disconnect [OF v(1) A blk(1) B(1,3) b(2) B(2,5) tp B(4) t(3) c]
  show s: "same_tree ?st (cs_index cs)" and "phashBlock b = Some (hashBlock (snd view))" "layered (fst view)"
    using ConnectBlock_view [OF v(1) A blk(1) B(1,2) c] v(3) by simp_all
  show "chain_closed (cs_index cs) (bm_chain (nd_manager nd))" using same_tree_chain_closed [OF s] wf(2) by (simp add: chain_wf_def)
  show "ancestors_of (cs_index cs) p (nHeight b) = bm_chain (nd_manager nd) @ [Some p]"
    using same_tree_ancestors [OF s, of p "nHeight b"] ancestors_step [OF wf(1) b(1) B(5) t(2)] chain_of_tip [OF wf(2) t(1,2)] by simp
  show "cache_ok view" using cd by (rule conjunct1)
  show "\<exists>undo b'. WriteUndoDataForBlock (validation_of nd) undo b = Inr b' \<and> length undo + 1 = length (vtx block) \<and>
      (\<forall>disk v. cs_index disk = cs_index cs \<and> UndoReadFromDisk disk p = Some undo \<and> cache_ok v \<and> coins v = coins view \<longrightarrow>
        (\<exists>w. DisconnectBlock disk block p v = Inr (DISCONNECT_OK, w) \<and> cache_ok w \<and> coins w = coins (nd_coins nd) \<and>
           hashBlock (snd w) = hashBlock (snd (nd_coins nd))))" using conjunct2 [OF cd] unfolding v(2) .
qed

lemma ConnectTip_law:
  assumes ok: "tip_ok nd" "sound (coins (nd_coins nd))" "fresh_outputs block (coins (nd_coins nd))"
    and blk: "block_to_connect nd p pblock = Some (block, fChecked)" "fChecked \<Longrightarrow> block_checked (validation_of nd) block"
      "block_hash block \<noteq> hashGenesisBlock (cs_params (nd_validation nd))"
    and b: "bm_index (nd_manager nd) p = Some b" "nHeight b < 2 ^ 31" and c: "ConnectTip nd p pblock = (nd', Inr ())"
  shows "tip_ok nd' \<and> bm_chain (nd_manager nd') = bm_chain (nd_manager nd) @ [Some p] \<and>
    same_tree (bm_index (nd_manager nd)) (bm_index (nd_manager nd')) \<and> Some (hashBlock (snd (nd_coins nd'))) = phashBlock b \<and>
    (\<exists>undo b'. WriteUndoDataForBlock (validation_of nd) undo b = Inr b' \<and> length undo + 1 = length (vtx block) \<and>
      (\<forall>disk v. cs_index disk = bm_index (nd_manager nd') \<and> UndoReadFromDisk disk p = Some undo \<and> cache_ok v \<and> coins v = coins (nd_coins nd') \<longrightarrow>
        (\<exists>w. DisconnectBlock disk block p v = Inr (DISCONNECT_OK, w) \<and> cache_ok w \<and> coins w = coins (nd_coins nd) \<and>
           hashBlock (snd w) = hashBlock (snd (nd_coins nd)))))"
proof -
  obtain cs view where s: "pprev b = Tip (bm_chain (nd_manager nd))"
    "ConnectBlock (validation_of nd) block fChecked p (child_view (nd_coins nd)) False = Inr (cs, view)" "connected_tip nd p cs view = Inr nd'"
    using ConnectTip_steps [OF c blk(1)] b(1) by (metis option.inject)
  note t = tip_connection [OF ok blk(2,3) b s(1,2)]
  obtain b' where b': "cs_index cs p = Some b'" "nHeight b' = nHeight b" "phashBlock b' = phashBlock b" using same_tree_Some [OF t(4) b(1)] by metis
  have wf: "index_wf (cs_index cs)" using same_tree_index_wf [OF t(4)] ok(1) by (simp add: tip_ok_def)
  note m = connected_tip_law [OF wf t(5) b'(1) t(1,2) s(3)]
  have ch: "bm_chain (nd_manager nd') = bm_chain (nd_manager nd) @ [Some p]" using m b'(2) t(6) by simp
  then have "Tip (bm_chain (nd_manager nd')) = Some p" by (simp add: Tip_def)
  then have "tip_ok nd'" unfolding tip_ok_def using m b' t(3) chain_wf_ancestors [OF wf b'(1)] wf by simp
  then show ?thesis using m ch t(3,4,7) by simp
qed

lemma ConnectTip_total:
  assumes ok: "tip_ok nd" "sound (coins (nd_coins nd))" "fresh_outputs block (coins (nd_coins nd))"
    and blk: "block_to_connect nd p pblock = Some (block, fChecked)" "fChecked \<Longrightarrow> block_checked (validation_of nd) block"
      "block_hash block \<noteq> hashGenesisBlock (cs_params (nd_validation nd))"
    and b: "bm_index (nd_manager nd) p = Some b" "nHeight b < 2 ^ 31" "pprev b = Tip (bm_chain (nd_manager nd))"
    and c: "ConnectBlock (validation_of nd) block fChecked p (child_view (nd_coins nd)) False = Inr (cs, view)"
  shows "\<exists>nd'. ConnectTip nd p pblock = (nd', Inr ())"
proof -
  note t = tip_connection [OF ok blk(2,3) b c]
  obtain b' where b': "cs_index cs p = Some b'" using same_tree_Some [OF t(4) b(1)] by blast
  have "index_wf (cs_index cs)" using same_tree_index_wf [OF t(4)] ok(1) by (simp add: tip_ok_def)
  then obtain nd1 where "move_tip nd (cs_index cs) p view = Inr nd1" using move_tip_law [OF _ t(5) b' t(1,2)] by blast
  then show ?thesis using b(1,3) blk(1) c by (simp add: ConnectTip_def deref_def connected_tip_def)
qed

section \<open>The index and the chain while the tip moves\<close>

text \<open>These facts are about the block index and the active chain alone and need nothing of the coins.\<close>

definition chain_ok :: "node \<Rightarrow> bool" where
  "chain_ok nd \<longleftrightarrow> index_wf (bm_index (nd_manager nd)) \<and> chain_wf (bm_index (nd_manager nd)) (bm_chain (nd_manager nd))"

definition same_blocks :: "node \<Rightarrow> node \<Rightarrow> bool" where
  "same_blocks nd nd' \<longleftrightarrow> same_tree (bm_index (nd_manager nd)) (bm_index (nd_manager nd'))"

abbreviation node_tip :: "node \<Rightarrow> bid option" where
  "node_tip nd \<equiv> Tip (bm_chain (nd_manager nd))"

lemma same_blocks_trans: "same_blocks nd nd1 \<Longrightarrow> same_blocks nd1 nd2 \<Longrightarrow> same_blocks nd nd2"
  using same_tree_trans by (auto simp: same_blocks_def)

lemma ConnectBlock_same_tree:
  assumes "ConnectBlock cs block fChecked p view False = Inr (cs', view')"
  shows "same_tree (cs_index cs) (cs_index cs')"
proof -
  obtain b where b: "cs_index cs p = Some b" using assms by (cases "cs_index cs p") (simp_all add: ConnectBlock_def deref_def)
  obtain h v where "GetBestBlock view = (h, v)" by (metis surj_pair)
  then have "cs' = cs \<or> (\<exists>ct. connect_finish cs p b ct = Inr (cs', view'))"
    using assms b by (auto simp: ConnectBlock_def sum_bind_Inr_iff deref_def Let_def split: if_splits prod.splits)
  then show ?thesis using connect_finish_entry same_tree_upd [of "cs_index cs" p b] b by fastforce
qed

lemma move_tip_chain:
  assumes "index_wf st" "chain_closed st (bm_chain (nd_manager nd))" "st p = Some b" "move_tip nd st p view = Inr nd'"
  shows "chain_ok nd' \<and> bm_index (nd_manager nd') = st \<and> node_tip nd' = Some p"
  using assms(4) SetTip_value [OF assms(1-3)] chain_wf_ancestors [OF assms(1,3)] Tip_ancestors [of st p b] index_wfD(1) [OF assms(1,3)] assms(1,3)
  by (auto simp: move_tip_def sum_bind_Inr_iff chain_ok_def)

lemma ConnectTip_chain:
  assumes "chain_ok nd" "ConnectTip nd p pblock = (nd', Inr ())"
  shows "chain_ok nd' \<and> same_blocks nd nd' \<and> node_tip nd' = Some p"
proof -
  obtain block fChecked where blk: "block_to_connect nd p pblock = Some (block, fChecked)"
    using assms(2) by (auto simp: ConnectTip_def split: option.splits if_splits sum.splits)
  obtain b cs view where s: "bm_index (nd_manager nd) p = Some b"
    "ConnectBlock (validation_of nd) block fChecked p (child_view (nd_coins nd)) False = Inr (cs, view)" "connected_tip nd p cs view = Inr nd'"
    using ConnectTip_steps [OF assms(2) blk] by metis
  have t: "same_tree (bm_index (nd_manager nd)) (cs_index cs)" using ConnectBlock_same_tree [OF s(2)] by simp
  obtain b' where b': "cs_index cs p = Some b'" using same_tree_Some [OF t s(1)] by blast
  obtain nd1 where m: "move_tip nd (cs_index cs) p view = Inr nd1" "bm_index (nd_manager nd') = bm_index (nd_manager nd1)"
    "bm_chain (nd_manager nd') = bm_chain (nd_manager nd1)" using s(3) by (auto simp: connected_tip_def sum_bind_Inr_iff)
  have "index_wf (cs_index cs)" "chain_closed (cs_index cs) (bm_chain (nd_manager nd))"
    using same_tree_index_wf [OF t] same_tree_chain_closed [OF t] assms(1) by (simp_all add: chain_ok_def chain_wf_def)
  from move_tip_chain [OF this b' m(1)] show ?thesis using t m(2,3) by (auto simp: chain_ok_def same_blocks_def)
qed

lemma chain_length:
  assumes "chain_ok nd" "node_tip nd = Some p" "bm_index (nd_manager nd) p = Some b"
  shows "length (bm_chain (nd_manager nd)) = nat (nHeight b + 1)"
  using chain_of_tip [of "bm_index (nd_manager nd)" "bm_chain (nd_manager nd)" p b] assms by (simp add: chain_ok_def ancestors_of_def)

text \<open>Disconnecting shortens the chain by one block.\<close>

lemma DisconnectTip_chain:
  assumes "chain_ok nd" "DisconnectTip nd = Inr nd'"
  shows "chain_ok nd' \<and> bm_index (nd_manager nd') = bm_index (nd_manager nd) \<and> node_tip nd' \<noteq> None \<and>
    length (bm_chain (nd_manager nd)) = Suc (length (bm_chain (nd_manager nd')))"
proof -
  obtain p b q view where s: "bm_index (nd_manager nd) p = Some b" "pprev b = Some q" "move_tip nd (bm_index (nd_manager nd)) q view = Inr nd'"
    and p: "node_tip nd = Some p"
    using assms(2) by (auto simp: DisconnectTip_def sum_bind_Inr_iff deref_def Let_def split: option.splits prod.splits if_splits)
  have wf: "index_wf (bm_index (nd_manager nd))" "chain_closed (bm_index (nd_manager nd)) (bm_chain (nd_manager nd))"
    using assms(1) by (simp_all add: chain_ok_def chain_wf_def)
  obtain c where c: "bm_index (nd_manager nd) q = Some c" "nHeight b = nHeight c + 1" using index_wfD(3) [OF wf(1) s(1,2)] by blast
  note m = move_tip_chain [OF wf c(1) s(3)]
  have "length (bm_chain (nd_manager nd')) = nat (nHeight c + 1)" using m c(1) by (intro chain_length [of nd' q]) simp_all
  then show ?thesis using m chain_length [OF assms(1) p s(1)] c(2) index_wfD(1) [OF wf(1) c(1)] by simp
qed

lemma disconnect_to_chain:
  assumes "chain_ok nd" "length (bm_chain (nd_manager nd)) < n"
  shows "\<exists>nd' r. disconnect_to n pindexFork nd = Some (nd', r) \<and> (r = Inr () \<longrightarrow> chain_ok nd' \<and>
    bm_index (nd_manager nd') = bm_index (nd_manager nd) \<and> (node_tip nd \<noteq> None \<longrightarrow> node_tip nd' = pindexFork))"
  using assms
proof (induction n arbitrary: nd)
  case (Suc n)
  show ?case
  proof (cases "node_tip nd = None \<or> node_tip nd = pindexFork")
    case stop: False
    show ?thesis
    proof (cases "DisconnectTip nd")
      case (Inl e)
      then show ?thesis using stop by (cases e) auto
    next
      case (Inr nd1)
      note d = DisconnectTip_chain [OF Suc.prems(1) Inr]
      obtain nd' r where "disconnect_to n pindexFork nd1 = Some (nd', r)" "r = Inr () \<longrightarrow> chain_ok nd' \<and>
          bm_index (nd_manager nd') = bm_index (nd_manager nd1) \<and> (node_tip nd1 \<noteq> None \<longrightarrow> node_tip nd' = pindexFork)"
        using Suc.IH [of nd1] d Suc.prems(2) by auto
      then show ?thesis using stop Inr d by (intro exI [of _ nd'] exI [of _ r]) auto
    qed
  qed (use Suc.prems in auto)
qed simp

text \<open>The walk down returns ancestors only, the first of them \<open>a\<close>, and one unit of fuel for each and one more are enough.\<close>

lemma blocks_above_ancestors:
  assumes "index_wf st" "st a = Some b" "- 1 \<le> h" "h \<le> nHeight b" "nat (nHeight b - h) < n"
  shows "\<exists>ps. blocks_above n st (Some a) h = Some (Inr ps) \<and> (nHeight b \<noteq> h \<longrightarrow> ps \<noteq> [] \<and> hd ps = a) \<and>
    (\<forall>p \<in> set ps. \<exists>k. prev_at st a k = Some p)"
  using assms(2,4,5)
proof (induction n arbitrary: a b)
  case (Suc n)
  have self: "prev_at st a (nHeight b) = Some a" using Suc.prems(1) index_wfD(1) [OF assms(1) Suc.prems(1)] by simp
  show ?case
  proof (cases "nHeight b = h")
    case True
    then show ?thesis using Suc.prems by (simp add: deref_def)
  next
    case above: False
    show ?thesis
    proof (cases "pprev b")
      case None
      then obtain k where "n = Suc k" using Suc.prems(2,3) above by (cases n) auto
      then show ?thesis using None above Suc.prems self by (auto simp: deref_def)
    next
      case (Some q)
      then obtain c where c: "st q = Some c" "nHeight b = nHeight c + 1" using index_wfD(3) [OF assms(1) Suc.prems(1)] by blast
      obtain qs where qs: "blocks_above n st (Some q) h = Some (Inr qs)" "\<forall>p \<in> set qs. \<exists>k. prev_at st q k = Some p"
      proof -
        have "h \<le> nHeight c" "nat (nHeight c - h) < n" using c(2) Suc.prems(2,3) above by linarith+
        then show thesis using that Suc.IH [OF c(1)] by blast
      qed
      have "\<exists>k. prev_at st a k = Some p" if m: "p \<in> set qs" for p
      proof -
        obtain k where k: "prev_at st q k = Some p" using qs(2) m by blast
        then have "prev_at st a k = Some p" using prev_at_parent [OF Suc.prems(1) Some c, of k] prev_at_range [OF k] c(1) by simp
        then show ?thesis ..
      qed
      then show ?thesis using qs(1) Some above Suc.prems(1) self by (auto simp: deref_def)
    qed
  qed
qed simp

lemma next_chunk_ancestors:
  assumes "index_wf st" "st q = Some b" "0 \<le> t" "t \<le> nHeight b" "- 1 \<le> h" "h < t"
  shows "\<exists>ps. next_chunk st q h t = Some (Inr ps) \<and> ps \<noteq> [] \<and> prev_at st q t = Some (hd ps) \<and> (\<forall>p \<in> set ps. \<exists>k. prev_at st q k = Some p)"
proof -
  obtain a c where a: "prev_at st q t = Some a" "st a = Some c" "nHeight c = t" using prev_at_Some [OF assms(1-4)] by blast
  obtain ps where l: "blocks_above (nat (t - h) + 1) st (Some a) h = Some (Inr ps)" "ps \<noteq> []" "hd ps = a" "\<forall>p \<in> set ps. \<exists>k. prev_at st a k = Some p"
    using blocks_above_ancestors [OF assms(1) a(2) assms(5), of "nat (t - h) + 1"] a(3) assms(6) by auto
  have "\<exists>k. prev_at st q k = Some p" if m: "p \<in> set ps" for p
  proof -
    obtain k where k: "prev_at st a k = Some p" using l(4) m by blast
    then have "0 \<le> k \<and> k \<le> t" using a prev_at_range [OF k] by auto
    then show ?thesis using prev_at_trans [OF assms(1,2) _ _ a(1), of k] k by auto
  qed
  then show ?thesis using l(1-3) a(1) GetAncestor_prev_at [OF assms(1,2)] by (simp add: next_chunk_def)
qed

text \<open>More work than the old tip, if there was one.\<close>

definition outweighs :: "node \<Rightarrow> base_uint option \<Rightarrow> bid \<Rightarrow> bool" where
  "outweighs nd oldWork t \<longleftrightarrow>
     (case oldWork of None \<Rightarrow> True | Some w \<Rightarrow> \<exists>c. bm_index (nd_manager nd) t = Some c \<and> CompareTo (nChainWork c) w > 0)"

lemma Prune_keeps: "PruneBlockIndexCandidates m = Inr m' \<Longrightarrow> bm_index m' = bm_index m \<and> bm_chain m' = bm_chain m"
  by (auto simp: PruneBlockIndexCandidates_def sum_bind_Inr_iff split: if_splits)

lemma connect_chunk_step:
  assumes "connect_chunk oldWork q pblock front (p # ps) nd = (nd', Inr r)" "r \<noteq> FoundInvalid"
  obtains nd1 m better where "ConnectTip nd p (if p = q then pblock else None) = (nd1, Inr ())" "PruneBlockIndexCandidates (nd_manager nd1) = Inr m"
    "better_tip oldWork m = Inr better"
    "if better then nd' = nd1\<lparr> nd_manager := m \<rparr> \<and> r = BetterTip else connect_chunk oldWork q pblock front ps (nd1\<lparr> nd_manager := m \<rparr>) = (nd', Inr r)"
proof -
  obtain nd1 res where c: "ConnectTip nd p (if p = q then pblock else None) = (nd1, res)" by (metis surj_pair)
  with assms have "res = Inr ()" by (cases res) (auto split: stop.splits sum.splits)
  then show ?thesis using assms c that by (auto simp: sum_bind_Inr_iff split: sum.splits if_splits)
qed

lemma connect_chunk_chain:
  assumes "chain_ok nd" "connect_chunk oldWork q pblock front ps nd = (nd', Inr r)" "r \<noteq> FoundInvalid"
  shows "chain_ok nd' \<and> same_blocks nd nd' \<and>
    (if r = KeepGoing then ps \<noteq> [] \<longrightarrow> node_tip nd' = Some (last ps) else \<exists>t \<in> set ps. node_tip nd' = Some t \<and> outweighs nd' oldWork t)"
  using assms(1,2)
proof (induction ps arbitrary: nd)
  case (Cons p ps)
  obtain nd1 m better where s: "ConnectTip nd p (if p = q then pblock else None) = (nd1, Inr ())" "PruneBlockIndexCandidates (nd_manager nd1) = Inr m"
    "better_tip oldWork m = Inr better"
    "if better then nd' = nd1\<lparr> nd_manager := m \<rparr> \<and> r = BetterTip else connect_chunk oldWork q pblock front ps (nd1\<lparr> nd_manager := m \<rparr>) = (nd', Inr r)"
    using connect_chunk_step [OF Cons.prems(2) assms(3)] .
  let ?nd1 = "nd1\<lparr> nd_manager := m \<rparr>"
  have c: "chain_ok ?nd1" "same_blocks nd ?nd1" "node_tip ?nd1 = Some p"
    using ConnectTip_chain [OF Cons.prems(1) s(1)] Prune_keeps [OF s(2)] by (simp_all add: chain_ok_def same_blocks_def)
  show ?case
  proof (cases better)
    case True
    have "outweighs ?nd1 oldWork p" using s(3) True c(3) by (auto simp: better_tip_def outweighs_def deref_def split: option.splits)
    then show ?thesis using c s(4) True by simp
  next
    case False
    have "connect_chunk oldWork q pblock front ps ?nd1 = (nd', Inr r)" using s(4) False by simp
    from Cons.IH [OF c(1) this] show ?thesis using same_blocks_trans [OF c(2)] c(3) s(4) False by (cases ps) auto
  qed
qed (simp add: same_blocks_def)

text \<open>The tip has reached \<open>q\<close>, or is on the way to it with more work than the old tip.\<close>

definition advanced :: "base_uint option \<Rightarrow> bid \<Rightarrow> node \<Rightarrow> bool" where
  "advanced oldWork q nd \<longleftrightarrow> node_tip nd = Some q \<or>
     (\<exists>t k. node_tip nd = Some t \<and> prev_at (bm_index (nd_manager nd)) q k = Some t \<and> outweighs nd oldWork t)"

lemma connect_up_chain:
  assumes "chain_ok nd" "bm_index (nd_manager nd) q = Some b" "- 1 \<le> h" "h \<le> nHeight b" "h = nHeight b \<Longrightarrow> node_tip nd = Some q"
    and "nat (nHeight b - h) < n"
  shows "\<exists>nd' r. connect_up n oldWork q pblock (nHeight b) h nd = Some (nd', r) \<and>
    (r = Inr False \<longrightarrow> chain_ok nd' \<and> same_blocks nd nd' \<and> advanced oldWork q nd')"
  using assms
proof (induction n arbitrary: nd b h)
  case (Suc n)
  show ?case
  proof (cases "h = nHeight b")
    case False
    let ?st = "bm_index (nd_manager nd)" and ?t = "min (h + 32) (nHeight b)"
    have wf: "index_wf ?st" using Suc.prems(1) by (simp add: chain_ok_def)
    have t: "0 \<le> ?t" "?t \<le> nHeight b" "h < ?t" using Suc.prems(3,4) False by auto
    obtain ps where a: "next_chunk ?st q h ?t = Some (Inr ps)" "ps \<noteq> []" "prev_at ?st q ?t = Some (hd ps)" "\<forall>p \<in> set ps. \<exists>k. prev_at ?st q k = Some p"
      using next_chunk_ancestors [OF wf Suc.prems(2) t(1,2) Suc.prems(3) t(3)] by blast
    obtain nd1 x where x: "connect_chunk oldWork q pblock (hd ps) (rev ps) nd = (nd1, x)" by (metis surj_pair)
    show ?thesis
    proof (cases x)
      case (Inl e)
      then show ?thesis using False a(1) x by (simp add: Let_def)
    next
      case (Inr r)
      note c = connect_chunk_chain [OF Suc.prems(1) x [unfolded Inr]]
      have st: "same_tree ?st (bm_index (nd_manager nd1))" if "r \<noteq> FoundInvalid" using c [OF that] by (simp add: same_blocks_def)
      show ?thesis
      proof (cases r)
        case KeepGoing
        obtain b1 where b1: "bm_index (nd_manager nd1) q = Some b1" "nHeight b1 = nHeight b"
          using same_tree_Some [OF st Suc.prems(2)] KeepGoing by blast
        have "node_tip nd1 = Some q" if "?t = nHeight b1"
          using c KeepGoing a that b1(2) prev_at_self [of ?st q b] Suc.prems(2) index_wfD(1) [OF wf Suc.prems(2)] by (simp add: last_rev)
        then have "\<exists>nd' r. connect_up n oldWork q pblock (nHeight b1) ?t nd1 = Some (nd', r) \<and>
            (r = Inr False \<longrightarrow> chain_ok nd' \<and> same_blocks nd1 nd' \<and> advanced oldWork q nd')"
          by (intro Suc.IH) (use c KeepGoing b1 t Suc.prems(6) in auto)
        then obtain nd' r' where "connect_up n oldWork q pblock (nHeight b) ?t nd1 = Some (nd', r')"
          "r' = Inr False \<longrightarrow> chain_ok nd' \<and> same_blocks nd1 nd' \<and> advanced oldWork q nd'" unfolding b1(2) by blast
        then show ?thesis using False a(1) x Inr KeepGoing same_blocks_trans [of nd nd1 nd'] c
          by (intro exI [of _ nd'] exI [of _ r']) (simp add: Let_def)
      next
        case BetterTip
        then obtain t' k where "node_tip nd1 = Some t'" "outweighs nd1 oldWork t'" "prev_at (bm_index (nd_manager nd1)) q k = Some t'"
          using c a(4) same_tree_prev_at [OF st] by auto
        then show ?thesis using False a(1) x Inr BetterTip c by (auto simp: advanced_def Let_def)
      next
        case FoundInvalid
        then show ?thesis using False a(1) x Inr by (simp add: Let_def)
      qed
    qed
  qed (use Suc.prems in \<open>simp add: advanced_def same_blocks_def\<close>)
qed simp

lemma step_plan_total:
  assumes "chain_ok nd" "bm_index (nd_manager nd) q = Some b"
  shows "\<exists>plan. step_plan (nd_manager nd) q = Inr plan"
proof -
  let ?st = "bm_index (nd_manager nd)" and ?vc = "bm_chain (nd_manager nd)"
  have wf: "index_wf ?st" "chain_wf ?st ?vc" using assms(1) by (simp_all add: chain_ok_def)
  obtain f where f: "FindFork ?st ?vc (Some q) = Inr f" "is_fork (prev_at ?st q) (chain_at ?vc) f" using FindFork_spec [OF wf assms(2)] by blast
  have "\<exists>c. ?st t = Some c" if t: "f = Some t" for t
  proof -
    obtain k where k: "prev_at ?st q k = Some t" using f(2) t by (auto simp: is_fork_def agree_at_def)
    have "0 \<le> k" "k \<le> nHeight b" using prev_at_range [OF k] assms(2) by auto
    from prev_at_Some [OF wf(1) assms(2) this] show ?thesis using k by auto
  qed
  moreover have "\<exists>c. ?st t = Some c" if "Tip ?vc = Some t" for t
  proof -
    have "?vc \<noteq> []" "?vc ! (length ?vc - 1) = Some t" using that by (auto simp: Tip_def split: if_splits)
    then have "block_height ?st t \<noteq> None" using chain_closedD(1) [of ?st ?vc "length ?vc - 1" t] wf(2) by (simp add: chain_wf_def)
    then show ?thesis by (auto simp: block_height_def split: option.splits)
  qed
  ultimately show ?thesis using f(1) assms(2)
    by (auto simp: step_plan_def deref_def sum_bind_def split: option.splits)
qed

lemma step_plan_spec:
  assumes "chain_ok nd" "bm_index (nd_manager nd) q = Some b" "step_plan (nd_manager nd) q = Inr (oldWork, pindexFork, h, goal)"
  shows "goal = nHeight b" "- 1 \<le> h" "h \<le> nHeight b" "h = nHeight b \<Longrightarrow> node_tip nd \<noteq> None \<and> pindexFork = Some q"
    "case node_tip nd of None \<Rightarrow> oldWork = None | Some t \<Rightarrow> \<exists>d. bm_index (nd_manager nd) t = Some d \<and> oldWork = Some (nChainWork d)"
proof -
  let ?st = "bm_index (nd_manager nd)" and ?vc = "bm_chain (nd_manager nd)"
  have wf: "index_wf ?st" "chain_wf ?st ?vc" using assms(1) by (simp_all add: chain_ok_def)
  have s: "FindFork ?st ?vc (Some q) = Inr pindexFork" "case pindexFork of None \<Rightarrow> h = - 1 | Some f \<Rightarrow> \<exists>d. ?st f = Some d \<and> h = nHeight d"
    using assms(3) by (auto simp: step_plan_def sum_bind_Inr_iff deref_def split: option.splits)
  show "goal = nHeight b" using assms(2,3) by (auto simp: step_plan_def sum_bind_Inr_iff deref_def)
  show "case node_tip nd of None \<Rightarrow> oldWork = None | Some t \<Rightarrow> \<exists>d. ?st t = Some d \<and> oldWork = Some (nChainWork d)"
    using assms(3) by (auto simp: step_plan_def sum_bind_Inr_iff deref_def split: option.splits)
  have b0: "0 \<le> nHeight b" by (rule index_wfD(1) [OF wf(1) assms(2)])
  have fork: "0 \<le> h \<and> h \<le> nHeight b \<and> prev_at ?st q h = Some f \<and> ?vc \<noteq> []" if f: "pindexFork = Some f" for f
  proof -
    obtain k where k: "prev_at ?st q k = Some f" "chain_at ?vc k = Some f"
      using FindFork_spec [OF wf assms(2)] s(1) f by (auto simp: is_fork_def agree_at_def)
    then have kb: "0 \<le> k" "k \<le> nHeight b" using assms(2) by (auto simp: prev_at_def split: if_splits)
    then have "h = k" using prev_at_Some [OF wf(1) assms(2) kb] k(1) s(2) f by auto
    then show ?thesis using k kb by (auto simp: chain_at_def split: if_splits)
  qed
  show "- 1 \<le> h" "h \<le> nHeight b" using fork s(2) b0 by (cases pindexFork; simp)+
  show "node_tip nd \<noteq> None \<and> pindexFork = Some q" if "h = nHeight b"
  proof (cases pindexFork)
    case (Some f)
    then have "f = q" using fork [OF Some] that prev_at_self [of ?st q b] assms(2) b0 by simp
    moreover have "node_tip nd \<noteq> None" using fork [OF Some] wf(2) by (auto simp: Tip_def chain_wf_def)
    ultimately show ?thesis using Some by simp
  qed (use s(2) that b0 in simp)
qed

section \<open>Properties\<close>

text \<open>
  C2: moving the tip back undoes moving it forward. Let the coins of a node belong to its tip and be sound, with no
  unspent coin at an outpoint the block creates, let the block be another one than the genesis block, at a height
  below 2^31 and with a hash other than null, and let its flag, if it says that the block was checked, be true.
  If \<open>ConnectTip\<close> succeeds, it appends the block to the chain, and there is undo data that it wrote such that
  any node that holds the resulting index, chain and coins and that reads the block and this undo data from disk
  succeeds in \<open>DisconnectTip\<close>, and then has the chain, the coins and the best block from before.
\<close>

theorem DisconnectTip_undoes_ConnectTip:
  assumes ok: "tip_ok nd" "sound (coins (nd_coins nd))" "fresh_outputs block (coins (nd_coins nd))"
    and blk: "block_to_connect nd p pblock = Some (block, fChecked)" "fChecked \<Longrightarrow> block_checked (validation_of nd) block"
      "block_hash block \<noteq> hashGenesisBlock (cs_params (nd_validation nd))"
    and b: "bm_index (nd_manager nd) p = Some b" "nHeight b < 2 ^ 31" "phashBlock b \<noteq> Some null_hash"
    and c: "ConnectTip nd p pblock = (nd', Inr ())"
  shows "tip_ok nd' \<and> bm_chain (nd_manager nd') = bm_chain (nd_manager nd) @ [Some p] \<and>
    (\<exists>undo b'. WriteUndoDataForBlock (validation_of nd) undo b = Inr b' \<and> length undo + 1 = length (vtx block) \<and>
      (\<forall>nd1. nd_manager nd1 = nd_manager nd' \<and> nd_coins nd1 = nd_coins nd' \<and> ReadBlockFromDisk nd1 p = Some block \<and>
          UndoReadFromDisk (nd_validation nd1) p = Some undo \<longrightarrow>
        (\<exists>nd2. DisconnectTip nd1 = Inr nd2 \<and> bm_chain (nd_manager nd2) = bm_chain (nd_manager nd) \<and> cache_ok (nd_coins nd2) \<and>
           coins (nd_coins nd2) = coins (nd_coins nd) \<and> hashBlock (snd (nd_coins nd2)) = hashBlock (snd (nd_coins nd)))))"
proof -
  let ?st = "bm_index (nd_manager nd)" and ?st' = "bm_index (nd_manager nd')"
  note l = ConnectTip_law [OF ok blk b(1,2) c]
  obtain undo b0 where u: "WriteUndoDataForBlock (validation_of nd) undo b = Inr b0" "length undo + 1 = length (vtx block)"
    and d: "\<And>disk v. cs_index disk = ?st' \<Longrightarrow> UndoReadFromDisk disk p = Some undo \<Longrightarrow> cache_ok v \<Longrightarrow> coins v = coins (nd_coins nd') \<Longrightarrow>
      \<exists>w. DisconnectBlock disk block p v = Inr (DISCONNECT_OK, w) \<and> cache_ok w \<and> coins w = coins (nd_coins nd) \<and>
         hashBlock (snd w) = hashBlock (snd (nd_coins nd))" using l by blast
  have l': "same_tree ?st ?st'" "Tip (bm_chain (nd_manager nd')) = Some p" "hashBlock (snd (nd_coins nd')) \<noteq> null_hash" "tip_ok nd'"
    "bm_chain (nd_manager nd') = bm_chain (nd_manager nd) @ [Some p]" using l b(3) by (auto simp: Tip_def)
  obtain q e where q: "pprev b = Some q" "?st q = Some e" "bm_chain (nd_manager nd) = ancestors_of ?st q (nHeight e)"
    using ConnectTip_steps [OF c blk(1)] b(1) ok(1) chain_of_tip unfolding tip_ok_def by (metis option.inject)
  obtain b' e' where s: "?st' p = Some b'" "pprev b' = Some q" "?st' q = Some e'" "nHeight e' = nHeight e"
    using same_tree_Some [OF l'(1) b(1)] same_tree_Some [OF l'(1) q(2)] q(1) by metis
  have step: "\<exists>nd2. DisconnectTip nd1 = Inr nd2 \<and> bm_chain (nd_manager nd2) = bm_chain (nd_manager nd) \<and> cache_ok (nd_coins nd2) \<and>
      coins (nd_coins nd2) = coins (nd_coins nd) \<and> hashBlock (snd (nd_coins nd2)) = hashBlock (snd (nd_coins nd))"
    if n: "nd_manager nd1 = nd_manager nd'" "nd_coins nd1 = nd_coins nd'" "ReadBlockFromDisk nd1 p = Some block"
      "UndoReadFromDisk (nd_validation nd1) p = Some undo" for nd1
  proof -
    have ok1: "tip_ok nd1" using l'(4) n by (simp add: tip_ok_def)
    have back_out: "\<exists>w. DisconnectBlock (validation_of nd1) block p v = Inr (DISCONNECT_OK, w) \<and> cache_ok w \<and> coins w = coins (nd_coins nd) \<and>
        hashBlock (snd w) = hashBlock (snd (nd_coins nd))" if "cache_ok v" "coins v = coins (nd_coins nd1)" for v
      by (rule d) (use n that in simp_all)
    have "\<exists>nd2. DisconnectTip nd1 = Inr nd2 \<and> bm_index (nd_manager nd2) = bm_index (nd_manager nd1) \<and>
      bm_chain (nd_manager nd2) = ancestors_of (bm_index (nd_manager nd1)) q (nHeight e') \<and> cache_ok (nd_coins nd2) \<and>
      coins (nd_coins nd2) = coins (nd_coins nd) \<and> hashBlock (snd (nd_coins nd2)) = hashBlock (snd (nd_coins nd))"
      by (rule DisconnectTip_step [OF ok1 _ _ _ _ _ _ back_out]) (use n l'(2,3) s in simp_all)
    then show ?thesis using n(1) s(4) q(3) same_tree_ancestors [OF l'(1)] by auto
  qed
  show ?thesis using l'(4,5) u step by (intro conjI exI [of _ undo] exI [of _ b0]) simp_all
qed

text \<open>
  C3: a step towards the best chain never leaves the node behind. On a well-formed index and chain and for a known
  \<open>pindexMostWork\<close>, the fork is found and the loops of \<open>ActivateBestChainStep\<close> that disconnect, collect and connect
  blocks end within their fuel. If the step then reports neither an error nor an invalid block, the block tree is
  unchanged, the active chain is again an unbroken chain of known blocks, and its tip is \<open>pindexMostWork\<close> itself,
  or one of its ancestors with strictly more work than the old tip had.
\<close>

theorem ActivateBestChainStep_advances:
  assumes "chain_ok nd" "bm_index (nd_manager nd) pindexMostWork = Some b"
  shows "(\<exists>plan. step_plan (nd_manager nd) pindexMostWork = Inr plan) \<and>
    (\<exists>nd' r. ActivateBestChainStep nd pindexMostWork pblock = Some (nd', r) \<and>
      (r = Inr False \<longrightarrow> chain_ok nd' \<and> same_blocks nd nd' \<and> (\<exists>t. Tip (bm_chain (nd_manager nd')) = Some t \<and>
        (t = pindexMostWork \<or> (\<exists>k. prev_at (bm_index (nd_manager nd')) pindexMostWork k = Some t) \<and>
           (case Tip (bm_chain (nd_manager nd)) of None \<Rightarrow> True
            | Some old \<Rightarrow> \<exists>c d. bm_index (nd_manager nd) old = Some d \<and> bm_index (nd_manager nd') t = Some c \<and>
                CompareTo (nChainWork c) (nChainWork d) > 0)))))"
proof -
  obtain oldWork pindexFork h goal where s: "step_plan (nd_manager nd) pindexMostWork = Inr (oldWork, pindexFork, h, goal)"
    using step_plan_total [OF assms] by (metis surj_pair)
  note p = step_plan_spec [OF assms s]
  obtain nd1 r1 where d: "disconnect_to (length (bm_chain (nd_manager nd)) + 1) pindexFork nd = Some (nd1, r1)"
    "r1 = Inr () \<longrightarrow> chain_ok nd1 \<and> bm_index (nd_manager nd1) = bm_index (nd_manager nd) \<and> (node_tip nd \<noteq> None \<longrightarrow> node_tip nd1 = pindexFork)"
    using disconnect_to_chain [OF assms(1)] by (metis less_add_one)
  show ?thesis
  proof (cases r1)
    case (Inl e)
    then show ?thesis using s d(1) by (simp add: ActivateBestChainStep_def del: disconnect_to.simps)
  next
    case (Inr u)
    have n: "chain_ok nd1" "bm_index (nd_manager nd1) = bm_index (nd_manager nd)" "node_tip nd \<noteq> None \<longrightarrow> node_tip nd1 = pindexFork"
      using d(2) Inr by simp_all
    obtain nd' r where u: "connect_up (nat (goal - h) + 1) oldWork pindexMostWork pblock goal h nd1 = Some (nd', r)"
      "r = Inr False \<longrightarrow> chain_ok nd' \<and> same_blocks nd1 nd' \<and> advanced oldWork pindexMostWork nd'"
      using connect_up_chain [OF n(1), of pindexMostWork b h "nat (goal - h) + 1" oldWork pblock] n(2,3) p(1-4) assms(2) by auto
    have "ActivateBestChainStep nd pindexMostWork pblock = Some (nd', r)"
      using s d(1) Inr u(1) by (simp add: ActivateBestChainStep_def del: disconnect_to.simps connect_up.simps)
    moreover have "same_blocks nd nd1" using n(2) by (simp add: same_blocks_def)
    ultimately show ?thesis using s u(2) same_blocks_trans [of nd nd1 nd'] p(5)
      by (intro conjI exI [of _ nd'] exI [of _ r]) (auto simp: advanced_def outweighs_def split: option.splits)
  qed
qed

definition reward_manager :: block_manager where
  "reward_manager = \<lparr> bm_index = reward_index, bm_hashes = (\<lambda>_. None), bm_best_header = Some 2, bm_best_invalid = None, bm_failed = [],
     bm_dirty = [], bm_unlinked = [], bm_candidates = [2], bm_chain = [Some 0], bm_sequence = 1 \<rparr>"

definition sample_disk :: node where
  "sample_disk = \<lparr> nd_manager = reward_manager, nd_validation = reward_state, nd_coins = empty_view, ReadBlockFromDisk = (\<lambda>_. Some reward_block) \<rparr>"

lemma sample_disk_simps: "nd_manager sample_disk = reward_manager" "nd_validation sample_disk = reward_state" "nd_coins sample_disk = empty_view"
  "ReadBlockFromDisk sample_disk 2 = Some reward_block" "bm_index reward_manager = reward_index" "bm_chain reward_manager = [Some 0]"
  "validation_of sample_disk = reward_state"
  by (simp_all add: sample_disk_def reward_manager_def validation_of_def reward_state_def Let_def)

lemma reward_index_wf: "index_wf reward_index" "chain_wf reward_index [Some 0]"
proof -
  show wf: "index_wf reward_index" by (auto simp: index_wf_def node_wf_def reward_index_def sample_node_def split: if_splits)
  have "ancestors_of reward_index 0 0 = [Some 0]" by (simp add: ancestors_of_def prev_at_def reward_index_0 sample_node_def)
  then show "chain_wf reward_index [Some 0]" using chain_wf_ancestors [OF wf reward_index_0] by (simp add: sample_node_def)
qed

lemma sample_disk_ok: "tip_ok sample_disk"
  using reward_index_wf empty_view_ok(1) by (auto simp: tip_ok_def sample_disk_simps Tip_def reward_index_0)

abbreviation reward_child :: coins_cache where
  "reward_child \<equiv> (ViewCache (fst empty_view) (snd empty_view), \<lparr> hashBlock = replicate 32 1, cacheCoins = [] \<rparr>)"

lemma reward_child_connects:
  "\<exists>cs view. ConnectBlock reward_state reward_block True 2 (child_view empty_view) False = Inr (cs, view)"
proof -
  have g: "GetBestBlock (child_view empty_view) = (replicate 32 1, reward_child)"
    by (simp add: GetBestBlock_def null_hash_def child_view_def)
  have c30: "check_bip30 e reward_block reward_child = Inr reward_child" for e
    by (simp add: check_bip30_def tx_outpoints_def sample_coinbase_def cache_HaveCoin_def FetchCoin.simps GetCoin.simps)
  have "\<not> IsUnspendable [0x51]" by (simp add: IsUnspendable_def MAX_SCRIPT_SIZE_def)
  then obtain w where w: "UpdateCoins sample_coinbase reward_child 1 = Inr ([], w)" using sample_coinbase_checks(2)
    by (simp add: UpdateCoins_def AddCoins_def sample_coinbase_def AddCoin_def COIN_def Let_def)
  show ?thesis unfolding reward_connects_on [OF _ g c30 w, of True False, simplified]
    by (rule connect_finish_total) (simp_all add: reward_state_def)
qed

lemma sample_disk_facts: "sound (coins (nd_coins sample_disk))" "fresh_outputs reward_block (coins (nd_coins sample_disk))"
  "block_to_connect sample_disk 2 (Some (reward_block, True)) = Some (reward_block, True)" "block_checked (validation_of sample_disk) reward_block"
  "block_hash reward_block \<noteq> hashGenesisBlock (cs_params (nd_validation sample_disk))" "bm_index (nd_manager sample_disk) 2 = Some reward_node"
  "nHeight reward_node < 2 ^ 31" "phashBlock reward_node \<noteq> Some null_hash"
proof -
  show "sound (coins (nd_coins sample_disk))" unfolding sample_disk_simps empty_view_ok(2) by (simp add: sound_def)
  show "fresh_outputs reward_block (coins (nd_coins sample_disk))" unfolding sample_disk_simps by (rule reward_fresh)
  show "block_checked (validation_of sample_disk) reward_block" using reward_CheckBlock [of default_impl sample_curve]
    unfolding block_checked_def sample_disk_simps by (auto simp: reward_state_def)
  show "block_hash reward_block \<noteq> hashGenesisBlock (cs_params (nd_validation sample_disk))" using block_hash_length [of reward_block]
    by (auto simp: sample_disk_simps)
qed (simp_all add: block_to_connect_def sample_disk_simps reward_index_2 reward_hash)

lemma sample_disk_connects: "\<exists>nd'. ConnectTip sample_disk 2 (Some (reward_block, True)) = (nd', Inr ())"
proof -
  obtain cs view where c: "ConnectBlock (validation_of sample_disk) reward_block True 2 (child_view (nd_coins sample_disk)) False = Inr (cs, view)"
    using reward_child_connects unfolding sample_disk_simps by blast
  have "pprev reward_node = Tip (bm_chain (nd_manager sample_disk))" by (simp add: sample_disk_simps Tip_def)
  from ConnectTip_total [OF sample_disk_ok sample_disk_facts(1-7) this c] show ?thesis .
qed

theorem DisconnectTip_undoes_ConnectTip_witness:
  "\<exists>nd' nd2. ConnectTip sample_disk 2 (Some (reward_block, True)) = (nd', Inr ()) \<and> bm_chain (nd_manager nd') = [Some 0, Some 2] \<and>
     DisconnectTip (nd'\<lparr> ReadBlockFromDisk := (\<lambda>_. Some reward_block), nd_validation := reward_state \<rparr>) = Inr nd2 \<and>
     bm_chain (nd_manager nd2) = [Some 0] \<and> coins (nd_coins nd2) = coins (nd_coins sample_disk)"
proof -
  obtain nd' where c: "ConnectTip sample_disk 2 (Some (reward_block, True)) = (nd', Inr ())" using sample_disk_connects by blast
  let ?nd1 = "nd'\<lparr> ReadBlockFromDisk := (\<lambda>_. Some reward_block), nd_validation := reward_state \<rparr>"
  note t = DisconnectTip_undoes_ConnectTip [OF sample_disk_ok sample_disk_facts c]
  obtain undo where u: "length undo + 1 = length (vtx reward_block)"
    and d: "\<And>nd1. nd_manager nd1 = nd_manager nd' \<Longrightarrow> nd_coins nd1 = nd_coins nd' \<Longrightarrow> ReadBlockFromDisk nd1 2 = Some reward_block \<Longrightarrow>
        UndoReadFromDisk (nd_validation nd1) 2 = Some undo \<Longrightarrow>
      \<exists>nd2. DisconnectTip nd1 = Inr nd2 \<and> bm_chain (nd_manager nd2) = bm_chain (nd_manager sample_disk) \<and>
         coins (nd_coins nd2) = coins (nd_coins sample_disk)" using t by blast
  have "UndoReadFromDisk (nd_validation ?nd1) 2 = Some undo" using u by (simp add: reward_state_def)
  then obtain nd2 where "DisconnectTip ?nd1 = Inr nd2" "bm_chain (nd_manager nd2) = bm_chain (nd_manager sample_disk)"
    "coins (nd_coins nd2) = coins (nd_coins sample_disk)" using d [of ?nd1] by auto
  moreover have "bm_chain (nd_manager sample_disk) = [Some 0]" by (simp add: sample_disk_simps)
  ultimately show ?thesis using c t by simp
qed

lemma sample_disk_step: "\<exists>nd'. ActivateBestChainStep sample_disk 2 (Some (reward_block, True)) = Some (nd', Inr False)"
proof -
  obtain nd1 where c: "ConnectTip sample_disk 2 (Some (reward_block, True)) = (nd1, Inr ())" using sample_disk_connects by blast
  obtain cs view where s: "connected_tip sample_disk 2 cs view = Inr nd1" using ConnectTip_steps [OF c sample_disk_facts(3)] by metis
  have cand: "bm_candidates (nd_manager nd1) = [2]" using s
    by (auto simp: connected_tip_def move_tip_def sum_bind_Inr_iff sample_disk_simps reward_manager_def)
  note l = ConnectTip_law [OF sample_disk_ok sample_disk_facts(1-7) c]
  have tip: "Tip (bm_chain (nd_manager nd1)) = Some 2" using l by (simp add: Tip_def)
  obtain b' where b': "bm_index (nd_manager nd1) 2 = Some b'" "nChainWork b' = bu_zero"
    using same_tree_Some [of "bm_index (nd_manager sample_disk)" "bm_index (nd_manager nd1)" 2 reward_node] sample_disk_facts(6) l
    by (auto simp: sample_node_def)
  have z: "CompareTo bu_zero bu_zero = 0" by code_simp
  have plan: "step_plan reward_manager 2 = Inr (Some bu_zero, Some 0, 0, 1)"
    by (simp add: step_plan_def reward_manager_def Tip_def deref_def reward_index_0 reward_index_2 FindFork_def Height_def GetAncestor_def
        GetAncestor_loop.simps Contains_def chain_at_def sample_node_def take_skip_def Let_def)
  have chunk: "next_chunk reward_index 2 0 1 = Some (Inr [2])"
  proof -
    have n: "nat (1 - 0) + 1 = Suc (Suc 0)" by simp
    show ?thesis unfolding next_chunk_def n
      by (simp add: GetAncestor_def deref_def reward_index_2 reward_index_0 GetAncestor_loop.simps sample_node_def)
  qed
  have prune: "PruneBlockIndexCandidates (nd_manager nd1) = Inr (nd_manager nd1)"
    using cand tip b' z by (simp add: PruneBlockIndexCandidates_def CBlockIndexWorkComparator_def deref_def)
  have "better_tip (Some bu_zero) (nd_manager nd1) = Inr False" using tip b' z by (simp add: better_tip_def deref_def)
  then have "connect_chunk (Some bu_zero) 2 (Some (reward_block, True)) 2 [2] sample_disk = (nd1, Inr KeepGoing)" using c prune by simp
  moreover have "disconnect_to 2 (Some 0) sample_disk = Some (sample_disk, Inr ())" by (simp add: numeral_2_eq_2 sample_disk_simps Tip_def)
  ultimately show ?thesis using plan chunk by (simp add: ActivateBestChainStep_def sample_disk_simps numeral_2_eq_2 del: connect_chunk.simps)
qed

theorem ActivateBestChainStep_advances_witness:
  "\<exists>nd'. ActivateBestChainStep sample_disk 2 (Some (reward_block, True)) = Some (nd', Inr False) \<and> chain_ok nd' \<and> same_blocks sample_disk nd' \<and>
     (\<exists>t. Tip (bm_chain (nd_manager nd')) = Some t)"
proof -
  obtain nd' where "ActivateBestChainStep sample_disk 2 (Some (reward_block, True)) = Some (nd', Inr False)" using sample_disk_step by blast
  moreover have "chain_ok sample_disk" using sample_disk_ok by (simp add: chain_ok_def tip_ok_def)
  moreover from calculation obtain nd1 r where "ActivateBestChainStep sample_disk 2 (Some (reward_block, True)) = Some (nd1, r)"
    "r = Inr False \<longrightarrow> chain_ok nd1 \<and> same_blocks sample_disk nd1 \<and> (\<exists>t. Tip (bm_chain (nd_manager nd1)) = Some t)"
    using ActivateBestChainStep_advances [OF _ sample_disk_facts(6), of "Some (reward_block, True)"] by blast
  ultimately show ?thesis by simp
qed

end
