(* ===== verification/Spec2Isabelle.thy ===== *)
theory Spec2Isabelle
  imports PartialMerkle Activation
begin

text \<open>
  The consensus core of lcryp, a node derived from Bitcoin Core, in \<open>src/src\<close>.

  \<^bold>\<open>The program and its model.\<close> A node keeps a tree of block headers, the block index, an active chain
  through it, and a set of unspent coins that belongs to the tip of the chain. A block is checked by
  itself (\<open>CheckBlock\<close>), in its place (\<open>ContextualCheckBlockHeader\<close>, \<open>ContextualCheckBlock\<close>) and
  against the coins (\<open>ConnectBlock\<close>), which runs the script of every input it spends. The development
  follows these layers, one theory per component, in the order of their imports.

  \<^item> \<open>Prelude\<close>: machine integers, faults, sequencing of computations that may fail (\<open>sum_bind\<close>), little-endian
    sequences and their values. \<open>Refinement\<close>: the locale of a data structure that refines a specification.
  \<^item> \<open>Endian\<close> (\<open>crypto/common.h\<close>), \<open>ArithUint256\<close> (\<open>arith_uint256.h\<close>, \<open>arith_uint256.cpp\<close>): 256-bit integers
    as eight 32-bit limbs, every loop of the code on them. They compute modulo \<open>2^256\<close>, divide exactly,
    and the compact encoding of targets decodes and rounds as it should.
  \<^item> \<open>HashStream\<close>, \<open>Sha256\<close>, \<open>Sha1\<close>, \<open>Ripemd160\<close>, \<open>Hash\<close> (\<open>crypto/sha256.cpp\<close>, \<open>sha1.cpp\<close>, \<open>ripemd160.cpp\<close>,
    \<open>hash.cpp\<close>): the compression functions and the buffered streaming objects. However a message is split
    over calls, the digest is that of the whole; the unrolled double hash of 64-byte blocks, with any
    vector routines that meet their contract, is the double hash.
  \<^item> \<open>Merkle\<close>, \<open>PartialMerkle\<close> (\<open>consensus/merkle.cpp\<close>, \<open>merkleblock.cpp\<close>): the root binds the list of leaves
    unless it reports a mutation or two of the strings it hashed clash; a partial tree gives back the
    root and the matched leaves, and an accepted one proves them.
  \<^item> \<open>Serialize\<close>, \<open>Transaction\<close> (\<open>serialize.h\<close>, \<open>primitives\<close>): readers and writers as interpretations of one
    locale of codecs, up to the wire format of blocks; transaction and block identifiers commit to what
    they name.
  \<^item> \<open>Script\<close>, \<open>Interpreter\<close>, \<open>InterpreterSafety\<close>, \<open>Multisig\<close>, \<open>Sighash\<close>, \<open>VerifyScript\<close> (\<open>script/script.cpp\<close>,
    \<open>script/interpreter.cpp\<close>): script numbers, parsing, each opcode, the condition stack, the three
    signature hashes, witness programs and taproot. Evaluation keeps the limits and never fails an
    assertion, the multisignature loop decides the matching it should, precomputed hashes change
    nothing, and verification always ends with a verdict.
  \<^item> \<open>ConsensusParams\<close> (\<open>consensus/params.h\<close>, \<open>chainparams.cpp\<close>), \<open>BlockChain\<close> (\<open>chain.h\<close>, \<open>chain.cpp\<close>): the block
    index is a map from addresses to records whose \<open>pprev\<close> and \<open>pskip\<close> are addresses, so that aliasing is
    that of the code. Skip pointers find the ancestor that single steps find; the active chain, forks
    and locators follow.
  \<^item> \<open>Pow\<close> (\<open>pow.cpp\<close>): retargeting at every block, its division by zero and its wrapping product included.
  \<^item> \<open>VersionBits\<close> (\<open>versionbits.cpp\<close>, \<open>deploymentstatus.h\<close>): the cached computation follows the BIP9 state
    machine; no deployment activates without signals, and one that has them does.
  \<^item> \<open>Coins\<close> (\<open>coins.h\<close>, \<open>coins.cpp\<close>, \<open>txdb.cpp\<close>): towers of caches over a database. Every operation, flushes
    included, refines the plain map from outpoints to coins.
  \<^item> \<open>TxVerify\<close>, \<open>Signet\<close> (\<open>consensus/tx_check.cpp\<close>, \<open>consensus/tx_verify.cpp\<close>, \<open>signet.cpp\<close>): the checks of one
    transaction, relative lock times, signature operations, and signed blocks.
  \<^item> \<open>Validation\<close>, \<open>Connect\<close>, \<open>Disconnect\<close> (\<open>validation.cpp\<close>): the subsidy, the checks of headers and blocks,
    \<open>ConnectBlock\<close> and \<open>DisconnectBlock\<close> with script checks run in order or collected. Connecting creates no
    more than the subsidy, the supply stays below \<open>MAX_MONEY\<close>, and disconnecting restores the coins.
  \<^item> \<open>BlockIntake\<close>, \<open>ChainSelection\<close> (\<open>validation.cpp\<close>, \<open>node/blockstorage.cpp\<close>): how headers and blocks enter the
    index and how the best chain is found among the candidates. Every outcome of accepting a block
    leaves a sound index, and the chain chosen is the one with most work that has no failed or
    missing block.
  \<^item> \<open>Activation\<close> (\<open>validation.cpp\<close>): \<open>ConnectTip\<close>, \<open>DisconnectTip\<close> and \<open>ActivateBestChainStep\<close>, on a \<open>node\<close> that has
    the index, the coins of the tip and what it reads from disk. Moving the tip back undoes moving it
    forward, and a step towards the best chain ends there or on the way to it with more work than before.

  \<^bold>\<open>Conventions.\<close> A C++ structure is a record, an enumeration a datatype, a fixed-width integer a word or,
  where the code computes with signed 64-bit amounts and heights whose range is checked, an \<open>int\<close> with
  the range as a condition. A call that may fail an assertion, divide by zero, throw, read out of range or follow a
  bad pointer returns \<open>fault + 'a\<close>; the interpreter returns \<open>eval_stop + 'a\<close> and validation
  \<open>'r stop + 'a\<close>, with the reject reason of the code. Objects that the code mutates are passed and
  returned.

  \<^bold>\<open>Loops.\<close> A loop over a list or a counter is structural recursion. A walk along \<open>pprev\<close> or \<open>pskip\<close> has
  fuel: one more than the height of the block it starts from, which the lemmas on \<open>index_wf\<close> show to be
  enough, since each step lowers the height; running out is a fault, and the theorems state that the
  walk returns. The loops of \<open>ActivateBestChainStep\<close> have one unit more than the blocks they can
  disconnect, collect or connect, and running out is \<open>None\<close>, which its theorem excludes. Parsing loops carry the remaining bytes as their measure.

  \<^bold>\<open>Code outside the sources.\<close> The elliptic curve library is \<open>curve_ops\<close>, a record of functions that the
  checkers take; the vector implementations of SHA-256 are the fields of \<open>d64_impl\<close>; the block files
  are \<open>UndoWriteToDisk\<close> and \<open>UndoReadFromDisk\<close> of \<open>chain_state\<close> and \<open>ReadBlockFromDisk\<close> of \<open>node\<close>; the clock is an argument.

  \<^bold>\<open>Findings.\<close> Retargeting can divide by zero and can wrap (\<open>Pow\<close>); the transition check that headers
  synchronisation uses refuses targets the retargeting demands; a threshold is computed from a window
  that is set a line later (\<open>ConsensusParams\<close> keeps it as an argument); and no check of a header compares
  its target with the retargeting, which only the creation of blocks calls.

  \<^bold>\<open>Not modelled.\<close> The peer-to-peer protocol, the memory pool and its policy, the wallet, the graphical
  and remote interfaces, indexes, logging, threads and locks, because they decide no consensus rule
  that the layers above do not; LevelDB, libsecp256k1, minisketch and univalue, which are vendored
  libraries that the core only calls; the block files, pruning, snapshots and start-up, which are input
  and output; hexadecimal and human-readable printing. The memory accounting of the caches has no
  influence on what they answer.
\<close>

end
